(* ===== verification/Prelude.thy ===== *)
theory Prelude
  imports Main "HOL-Library.Word"
begin

text \<open>
  What every component shares: the C integer types, the collections of simplification
  rules the component proofs are driven by, generic facts about masks and bit-fields of
  words, and loops over an index range as folds.
\<close>

unbundle bit_operations_syntax

section \<open>C integer types\<close>

type_synonym u32 = "32 word"
type_synonym u8 = "8 word"

text \<open>
  \<open>word_bits\<close> collects the rules that turn a statement on masked or shifted words into a
  statement on single bits; \<open>layout\<close> the field accessors of descriptors; \<open>frame\<close> what
  an operation leaves unchanged; \<open>step_defs\<close> the definitions of one component's steps.
\<close>

named_theorems word_bits
named_theorems layout
named_theorems frame
named_theorems step_defs

declare bit_simps [word_bits]

section \<open>Masks and bit-fields\<close>

text \<open>
  A C bit-field of \<open>width\<close> bits starting at bit \<open>pos\<close>, read as a \<open>uint32_t\<close>
  (the ARM ABI allocates fields from the least significant bit).
\<close>

definition bitfield :: "nat \<Rightarrow> nat \<Rightarrow> u32 \<Rightarrow> u32" where
  "bitfield pos width w = take_bit width (drop_bit pos w)"

lemma bit_bitfield_iff [word_bits]:
  "bit (bitfield pos width w) n \<longleftrightarrow> n < width \<and> bit w (pos + n)"
  by (auto simp: bitfield_def bit_simps ac_simps dest: bit_imp_le_length)

lemma bitfield_less: "width < 32 \<Longrightarrow> bitfield pos width w < 2 ^ width"
  by (simp add: bitfield_def take_bit_eq_mask and_mask_less')

lemma bit_mask_word_iff:
  "bit (mask n :: 'a::len word) i \<longleftrightarrow> i < n \<and> i < LENGTH('a)"
  by (simp add: bit_simps ac_simps)

lemma and_mask_low: "(w :: u32) AND mask n = take_bit n w"
  by (simp add: take_bit_eq_mask)

text \<open>Masks the C code writes in hexadecimal, as shifts.\<close>

lemma low_masks:
  "(0x3 :: u32) = mask 2" "(0x7 :: u32) = mask 3" "(0xFFF :: u32) = mask 12"
  "(0x3FF :: u32) = mask 10" "(0xFFFFF :: u32) = mask 20"
  by (simp_all add: mask_eq_exp_minus_1)

lemma high_masks:
  "(0xFFFFF000 :: u32) = NOT (mask 12)" "(0xFFFFC000 :: u32) = NOT (mask 14)"
  "(0xFFFFFC00 :: u32) = NOT (mask 10)" "(0xFFF00000 :: u32) = NOT (mask 20)"
  "(0xFFFFFFFC :: u32) = NOT (mask 2)" "(0xFFFFFFF0 :: u32) = NOT (mask 4)"
  by (simp_all add: mask_eq_exp_minus_1)

lemma shl_drop_eq_and_not_mask: "push_bit n (drop_bit n (w :: u32)) = w AND NOT (mask n)"
  by (rule bit_word_eqI) (auto simp: word_bits)

lemma word_or_disjoint_iff:
  assumes "(a :: u32) AND b = 0" "c AND b = 0" "a AND d = 0" "c AND d = 0"
  shows "a OR b = c OR d \<longleftrightarrow> a = c \<and> b = d"
proof
  assume eq: "a OR b = c OR d"
  have "bit a n = bit c n \<and> bit b n = bit d n" if "n < 32" for n
  proof -
    have ab: "\<not> (bit a n \<and> bit b n)" "\<not> (bit c n \<and> bit b n)"
      "\<not> (bit a n \<and> bit d n)" "\<not> (bit c n \<and> bit d n)"
      using assms by (metis bit_and_iff bit_0_eq bot_apply bot_bool_def)+
    have "bit (a OR b) n = bit (c OR d) n" using eq by simp
    with ab show ?thesis by (auto simp: bit_or_iff)
  qed
  then show "a = c \<and> b = d" by (auto intro!: bit_word_eqI)
qed simp

section \<open>Bounded loops\<close>

text \<open>
  \<open>for(i = 0; i < n; i++) s = body(i, s);\<close> is a fold over the indices, in order.
\<close>

definition for_loop :: "nat \<Rightarrow> (nat \<Rightarrow> 's \<Rightarrow> 's) \<Rightarrow> 's \<Rightarrow> 's" where
  "for_loop n body s = fold body [0..<n] s"

lemma for_loop_0 [simp]: "for_loop 0 body s = s"
  by (simp add: for_loop_def)

lemma for_loop_Suc [simp]: "for_loop (Suc n) body s = body n (for_loop n body s)"
  by (simp add: for_loop_def)

lemma for_loop_invariant:
  assumes "P s" and "\<And>i s. i < n \<Longrightarrow> P s \<Longrightarrow> P (body i s)"
  shows "P (for_loop n body s)"
  using assms by (induction n) auto

lemma for_loop_indexed:
  assumes "P 0 s" and "\<And>i t. i < n \<Longrightarrow> P i t \<Longrightarrow> P (Suc i) (body i t)"
  shows "P n (for_loop n body s)"
  using assms by (induction n) auto

lemma for_loop_id:
  assumes "\<And>i. i < n \<Longrightarrow> body i s = s"
  shows "for_loop n body s = s"
  using assms by (induction n) auto

text \<open>
  The C idiom "keep the first error": the accumulator holds \<open>0\<close> until a check fails,
  and later checks do not overwrite it.
\<close>

definition first_error :: "nat \<Rightarrow> (nat \<Rightarrow> u32) \<Rightarrow> u32" where
  "first_error n chk = for_loop n (\<lambda>i acc. if chk i \<noteq> 0 then (if acc = 0 then chk i else acc) else acc) 0"

lemma first_error_0_iff: "first_error n chk = 0 \<longleftrightarrow> (\<forall>i<n. chk i = 0)"
  by (induction n) (auto simp: first_error_def less_Suc_eq)

lemma first_error_cong: "(\<And>i. i < n \<Longrightarrow> f i = g i) \<Longrightarrow> first_error n f = first_error n g"
  by (induction n) (simp_all add: first_error_def)

text \<open>An error the loop reports is one a check reported.\<close>

lemma first_error_from: "first_error n chk \<noteq> 0 \<Longrightarrow> \<exists>i<n. first_error n chk = chk i"
proof (induction n)
  case 0
  then show ?case by (simp add: first_error_def)
next
  case (Suc n)
  then show ?case by (auto simp: first_error_def less_Suc_eq split: if_splits)
qed

end
