(* ===== verification/Descriptors.thy ===== *)
theory Descriptors
  imports Prelude
begin

text \<open>
  The page-table descriptors of \<^verbatim>\<open>core/hypervisor/dmmu.h\<close>: the packed bit-field structs laid
  over a 32-bit descriptor, the address macros, and the descriptor constructors; the MMU
  constants of \<^verbatim>\<open>core/hw/cpu/arm/arm_common/mmu.h\<close>.
\<close>

section \<open>Error codes (dmmu.h)\<close>

abbreviation (input) SUCCESS_MMU :: u32 where "SUCCESS_MMU \<equiv> 0"
abbreviation (input) ERR_MMU_RESERVED_VA :: u32 where "ERR_MMU_RESERVED_VA \<equiv> 1"
abbreviation (input) ERR_MMU_ENTRY_UNMAPPED :: u32 where "ERR_MMU_ENTRY_UNMAPPED \<equiv> 2"
abbreviation (input) ERR_MMU_OUT_OF_RANGE_PA :: u32 where "ERR_MMU_OUT_OF_RANGE_PA \<equiv> 3"
abbreviation (input) ERR_MMU_SECTION_NOT_UNMAPPED :: u32 where "ERR_MMU_SECTION_NOT_UNMAPPED \<equiv> 4"
abbreviation (input) ERR_MMU_PH_BLOCK_NOT_WRITABLE :: u32 where "ERR_MMU_PH_BLOCK_NOT_WRITABLE \<equiv> 5"
abbreviation (input) ERR_MMU_AP_UNSUPPORTED :: u32 where "ERR_MMU_AP_UNSUPPORTED \<equiv> 6"
abbreviation (input) ERR_MMU_BASE_ADDRESS_IS_NOT_ALIGNED :: u32 where "ERR_MMU_BASE_ADDRESS_IS_NOT_ALIGNED \<equiv> 7"
abbreviation (input) ERR_MMU_ALREADY_L1_PT :: u32 where "ERR_MMU_ALREADY_L1_PT \<equiv> 8"
abbreviation (input) ERR_MMU_ALREADY_L2_PT :: u32 where "ERR_MMU_ALREADY_L2_PT \<equiv> 8"
abbreviation (input) ERR_MMU_PT_REGION :: u32 where "ERR_MMU_PT_REGION \<equiv> 10"
abbreviation (input) ERR_MMU_IS_NOT_L2_PT :: u32 where "ERR_MMU_IS_NOT_L2_PT \<equiv> 12"
abbreviation (input) ERR_MMU_XN_BIT_IS_ON :: u32 where "ERR_MMU_XN_BIT_IS_ON \<equiv> 13"
abbreviation (input) ERR_MMU_PT_NOT_UNMAPPED :: u32 where "ERR_MMU_PT_NOT_UNMAPPED \<equiv> 14"
abbreviation (input) ERR_MMU_REF_OVERFLOW :: u32 where "ERR_MMU_REF_OVERFLOW \<equiv> 15"
abbreviation (input) ERR_MMU_L2_UNSUPPORTED_DESC_TYPE :: u32 where "ERR_MMU_L2_UNSUPPORTED_DESC_TYPE \<equiv> 17"
abbreviation (input) ERR_MMU_REFERENCE_L2 :: u32 where "ERR_MMU_REFERENCE_L2 \<equiv> 18"
abbreviation (input) ERR_MMU_L1_BASE_IS_NOT_16KB_ALIGNED :: u32 where "ERR_MMU_L1_BASE_IS_NOT_16KB_ALIGNED \<equiv> 19"
abbreviation (input) ERR_MMU_IS_NOT_L1_PT :: u32 where "ERR_MMU_IS_NOT_L1_PT \<equiv> 20"
abbreviation (input) ERR_MMU_REFERENCED :: u32 where "ERR_MMU_REFERENCED \<equiv> 21"
abbreviation (input) ERR_MMU_FREE_ACTIVE_L1 :: u32 where "ERR_MMU_FREE_ACTIVE_L1 \<equiv> 22"
abbreviation (input) ERR_MMU_SUPERSECTION :: u32 where "ERR_MMU_SUPERSECTION \<equiv> 23"
abbreviation (input) ERR_MMU_NEW_L1_NOW_WRITABLE :: u32 where "ERR_MMU_NEW_L1_NOW_WRITABLE \<equiv> 24"
abbreviation (input) ERR_MMU_L2_BASE_OUT_OF_RANGE :: u32 where "ERR_MMU_L2_BASE_OUT_OF_RANGE \<equiv> 25"
abbreviation (input) ERR_MMU_NOT_CACHEABLE :: u32 where "ERR_MMU_NOT_CACHEABLE \<equiv> 26"
abbreviation (input) ERR_MMU_OUT_OF_CACHEABLE_RANGE :: u32 where "ERR_MMU_OUT_OF_CACHEABLE_RANGE \<equiv> 27"
abbreviation (input) ERR_MMU_NEW_L2_NOW_WRITABLE :: u32 where "ERR_MMU_NEW_L2_NOW_WRITABLE \<equiv> 28"
abbreviation (input) ERR_MMU_UNIMPLEMENTED :: u32 where "ERR_MMU_UNIMPLEMENTED \<equiv> -1"

section \<open>MMU constants (mmu.h, dmmu.h)\<close>

abbreviation (input) MMU_AP_SUP_RW :: u32 where "MMU_AP_SUP_RW \<equiv> 1"
abbreviation (input) MMU_AP_USER_RO :: u32 where "MMU_AP_USER_RO \<equiv> 2"
abbreviation (input) MMU_AP_USER_RW :: u32 where "MMU_AP_USER_RW \<equiv> 3"
abbreviation (input) MMU_FLAG_B :: u32 where "MMU_FLAG_B \<equiv> 0x4"
abbreviation (input) MMU_FLAG_C :: u32 where "MMU_FLAG_C \<equiv> 0x8"
abbreviation (input) MMU_L1_TYPE_FAULT :: u32 where "MMU_L1_TYPE_FAULT \<equiv> 0"
abbreviation (input) MMU_L1_TYPE_COARSE :: u32 where "MMU_L1_TYPE_COARSE \<equiv> 1"
abbreviation (input) MMU_L1_TYPE_PT :: u32 where "MMU_L1_TYPE_PT \<equiv> 1"
abbreviation (input) MMU_L1_TYPE_SECTION :: u32 where "MMU_L1_TYPE_SECTION \<equiv> 2"
abbreviation (input) MMU_L2_TYPE_SMALL :: u32 where "MMU_L2_TYPE_SMALL \<equiv> 2"
abbreviation (input) MMU_COARSE_TYPE_SMALL :: u32 where "MMU_COARSE_TYPE_SMALL \<equiv> 2"
abbreviation (input) MMU_L1_DOMAIN_SHIFT :: nat where "MMU_L1_DOMAIN_SHIFT \<equiv> 5"
abbreviation (input) MMU_SECTION_AP_SHIFT :: nat where "MMU_SECTION_AP_SHIFT \<equiv> 10"
abbreviation (input) MMU_L1_SECTION_SHIFT :: nat where "MMU_L1_SECTION_SHIFT \<equiv> 20"
abbreviation (input) MMU_L1_PT_SHIFT :: nat where "MMU_L1_PT_SHIFT \<equiv> 10"
abbreviation (input) MMU_L2_SMALL_AP_SHIFT :: nat where "MMU_L2_SMALL_AP_SHIFT \<equiv> 4"
abbreviation (input) MMU_L2_SMALL_AP_MASK :: u32 where "MMU_L2_SMALL_AP_MASK \<equiv> 3"
abbreviation (input) SECTION_SIZE :: u32 where "SECTION_SIZE \<equiv> 0x00100000"
abbreviation (input) PAGE_SIZE :: u32 where "PAGE_SIZE \<equiv> 0x00001000"
abbreviation (input) MAX_30BIT :: nat where "MAX_30BIT \<equiv> 0x3fffffff"
abbreviation (input) UNMAPPED_ENTRY :: u32 where "UNMAPPED_ENTRY \<equiv> 0"
abbreviation (input) DESC_TYPE_MASK :: u32 where "DESC_TYPE_MASK \<equiv> 3"
abbreviation (input) L1_SEC_DESC_MASK :: u32 where "L1_SEC_DESC_MASK \<equiv> 0xFFF00000"
abbreviation (input) L1_SEC_DESC_ATTR_MASK :: u32 where "L1_SEC_DESC_ATTR_MASK \<equiv> 0x000BFFFC"
abbreviation (input) L1_BASE_MASK :: u32 where "L1_BASE_MASK \<equiv> 0xFFFFC000"
abbreviation (input) L2_BASE_MASK :: u32 where "L2_BASE_MASK \<equiv> 0xFFFFF000"
abbreviation (input) L1_PT_DESC_MASK :: u32 where "L1_PT_DESC_MASK \<equiv> 0xFFFFFC00"
abbreviation (input) L1_PT_DESC_ATTR_MASK :: u32 where "L1_PT_DESC_ATTR_MASK \<equiv> 0x000003FC"
abbreviation (input) L2_DESC_ATTR_MASK :: u32 where "L2_DESC_ATTR_MASK \<equiv> 0x00000FFD"

definition MMU_L1_TYPE :: "u32 \<Rightarrow> u32" where
  "MMU_L1_TYPE val = val AND 3"

definition MMU_L1_INDEX :: "u32 \<Rightarrow> u32" where
  "MMU_L1_INDEX adr = drop_bit 20 adr"

definition MMU_L1_SECTION_ADDR :: "u32 \<Rightarrow> u32" where
  "MMU_L1_SECTION_ADDR addr = addr AND NOT (push_bit 20 1 - 1)"

definition MMU_L1_PT_ADDR :: "u32 \<Rightarrow> u32" where
  "MMU_L1_PT_ADDR addr = addr AND NOT (push_bit 10 1 - 1)"

definition MMU_L2_SMALL_ADDR :: "u32 \<Rightarrow> u32" where
  "MMU_L2_SMALL_ADDR addr = addr AND NOT (push_bit 12 1 - 1)"

section \<open>Descriptor structs (dmmu.h)\<close>

record l1_pt =
  pt_typ :: u32
  pt_pxn :: u32
  pt_ns :: u32
  pt_sbz :: u32
  pt_dom :: u32
  pt_dummy :: u32
  pt_addr :: u32

record l1_sec =
  sec_pxn :: u32
  sec_typ :: u32
  sec_b :: u32
  sec_c :: u32
  sec_xn :: u32
  sec_dom :: u32
  sec_dummy :: u32
  sec_ap_0_1bs :: u32
  sec_tex :: u32
  sec_ap_3b :: u32
  sec_s :: u32
  sec_ng :: u32
  sec_secIndic :: u32
  sec_ns :: u32
  sec_addr :: u32

record l2_small =
  pg_xn :: u32
  pg_cnst :: u32
  pg_b :: u32
  pg_c :: u32
  pg_ap_0_1bs :: u32
  pg_tex :: u32
  pg_ap_3b :: u32
  pg_s :: u32
  pg_ng :: u32
  pg_addr :: u32

text \<open>\<open>(l1_pt_t *) (&l1_desc)\<close> and its kin: the struct read off a descriptor.\<close>

definition l1_pt_of :: "u32 \<Rightarrow> l1_pt" where
  "l1_pt_of d = \<lparr>pt_typ = bitfield 0 2 d, pt_pxn = bitfield 2 1 d, pt_ns = bitfield 3 1 d,
     pt_sbz = bitfield 4 1 d, pt_dom = bitfield 5 4 d, pt_dummy = bitfield 9 1 d,
     pt_addr = bitfield 10 22 d\<rparr>"

definition l1_sec_of :: "u32 \<Rightarrow> l1_sec" where
  "l1_sec_of d = \<lparr>sec_pxn = bitfield 0 1 d, sec_typ = bitfield 1 1 d, sec_b = bitfield 2 1 d,
     sec_c = bitfield 3 1 d, sec_xn = bitfield 4 1 d, sec_dom = bitfield 5 4 d,
     sec_dummy = bitfield 9 1 d, sec_ap_0_1bs = bitfield 10 2 d, sec_tex = bitfield 12 3 d,
     sec_ap_3b = bitfield 15 1 d, sec_s = bitfield 16 1 d, sec_ng = bitfield 17 1 d,
     sec_secIndic = bitfield 18 1 d, sec_ns = bitfield 19 1 d, sec_addr = bitfield 20 12 d\<rparr>"

definition l2_small_of :: "u32 \<Rightarrow> l2_small" where
  "l2_small_of d = \<lparr>pg_xn = bitfield 0 1 d, pg_cnst = bitfield 1 1 d, pg_b = bitfield 2 1 d,
     pg_c = bitfield 3 1 d, pg_ap_0_1bs = bitfield 4 2 d, pg_tex = bitfield 6 3 d,
     pg_ap_3b = bitfield 9 1 d, pg_s = bitfield 10 1 d, pg_ng = bitfield 11 1 d,
     pg_addr = bitfield 12 20 d\<rparr>"

section \<open>Address and descriptor macros (dmmu.h)\<close>

definition VA_TO_L1_IDX :: "u32 \<Rightarrow> u32" where
  "VA_TO_L1_IDX va = drop_bit 20 va"

definition L1_IDX_TO_PA :: "u32 \<Rightarrow> u32 \<Rightarrow> u32" where
  "L1_IDX_TO_PA l1_base idx = (l1_base AND 0xFFFFC000) OR push_bit 2 idx"

definition L2_IDX_TO_PA :: "u32 \<Rightarrow> u32 \<Rightarrow> u32" where
  "L2_IDX_TO_PA l2_base idx = (l2_base AND 0xFFFFF000) OR push_bit 2 idx"

definition L2_DESC_PA :: "u32 \<Rightarrow> u32 \<Rightarrow> u32" where
  "L2_DESC_PA l2_base_add l2_idx = l2_base_add OR push_bit 2 l2_idx OR 0"

definition L1_TYPE :: "u32 \<Rightarrow> u32" where
  "L1_TYPE l1_desc = l1_desc AND DESC_TYPE_MASK"

definition UNMAP_L1_ENTRY :: "u32 \<Rightarrow> u32" where
  "UNMAP_L1_ENTRY l1_desc = l1_desc AND 0xfffffffc"

definition UNMAP_L2_ENTRY :: "u32 \<Rightarrow> u32" where
  "UNMAP_L2_ENTRY l2_desc = l2_desc AND 0xfffffffc"

definition CREATE_L1_SEC_DESC :: "u32 \<Rightarrow> u32 \<Rightarrow> u32" where
  "CREATE_L1_SEC_DESC x y = (L1_SEC_DESC_MASK AND x) OR (L1_SEC_DESC_ATTR_MASK AND y) OR 2"

definition CREATE_L1_PT_DESC :: "u32 \<Rightarrow> u32 \<Rightarrow> u32" where
  "CREATE_L1_PT_DESC x y = (L1_PT_DESC_MASK AND x) OR (L1_PT_DESC_ATTR_MASK AND y) OR 1"

definition CREATE_L2_DESC :: "u32 \<Rightarrow> u32 \<Rightarrow> u32" where
  "CREATE_L2_DESC x y = (L2_BASE_MASK AND x) OR (L2_DESC_ATTR_MASK AND y) OR 2"

definition GET_L1_AP :: "l1_sec \<Rightarrow> u32" where
  "GET_L1_AP sec = push_bit 2 (sec_ap_3b sec) OR sec_ap_0_1bs sec"

definition GET_L2_AP :: "l2_small \<Rightarrow> u32" where
  "GET_L2_AP pg_desc = push_bit 2 (pg_ap_3b pg_desc) OR pg_ap_0_1bs pg_desc"

definition L1_DESC_PXN :: "u32 \<Rightarrow> u32" where
  "L1_DESC_PXN x = drop_bit 2 (x AND 0x4)"

definition START_PA_OF_SECTION :: "l1_sec \<Rightarrow> u32" where
  "START_PA_OF_SECTION sec = push_bit 20 (sec_addr sec)"

definition START_PA_OF_SPT :: "l2_small \<Rightarrow> u32" where
  "START_PA_OF_SPT pt = push_bit 12 (pg_addr pt)"

definition PA_OF_POINTED_PT :: "l1_pt \<Rightarrow> u32" where
  "PA_OF_POINTED_PT pt = push_bit 10 (pt_addr pt)"

definition PA_TO_PH_BLOCK :: "u32 \<Rightarrow> u32" where
  "PA_TO_PH_BLOCK pa = drop_bit 12 pa"

definition PT_PA_TO_PH_BLOCK :: "u32 \<Rightarrow> u32" where
  "PT_PA_TO_PH_BLOCK pa = drop_bit 2 pa"

lemmas desc_macros = VA_TO_L1_IDX_def L1_IDX_TO_PA_def L2_IDX_TO_PA_def L2_DESC_PA_def L1_TYPE_def
  UNMAP_L1_ENTRY_def UNMAP_L2_ENTRY_def CREATE_L1_SEC_DESC_def CREATE_L1_PT_DESC_def
  CREATE_L2_DESC_def GET_L1_AP_def GET_L2_AP_def L1_DESC_PXN_def START_PA_OF_SECTION_def
  START_PA_OF_SPT_def PA_OF_POINTED_PT_def PA_TO_PH_BLOCK_def PT_PA_TO_PH_BLOCK_def

lemma l1_pt_of_fields [layout]:
  "pt_typ (l1_pt_of d) = bitfield 0 2 d" "pt_pxn (l1_pt_of d) = bitfield 2 1 d"
  "pt_dom (l1_pt_of d) = bitfield 5 4 d" "pt_addr (l1_pt_of d) = bitfield 10 22 d"
  by (simp_all add: l1_pt_of_def)

lemma l1_sec_of_fields [layout]:
  "sec_c (l1_sec_of d) = bitfield 3 1 d" "sec_dom (l1_sec_of d) = bitfield 5 4 d"
  "sec_ap_0_1bs (l1_sec_of d) = bitfield 10 2 d" "sec_ap_3b (l1_sec_of d) = bitfield 15 1 d"
  "sec_secIndic (l1_sec_of d) = bitfield 18 1 d" "sec_addr (l1_sec_of d) = bitfield 20 12 d"
  by (simp_all add: l1_sec_of_def)

lemma l2_small_of_fields [layout]:
  "pg_c (l2_small_of d) = bitfield 3 1 d" "pg_ap_0_1bs (l2_small_of d) = bitfield 4 2 d"
  "pg_ap_3b (l2_small_of d) = bitfield 9 1 d" "pg_addr (l2_small_of d) = bitfield 12 20 d"
  by (simp_all add: l2_small_of_def)

end
