(* ===== verification/Config.thy ===== *)
theory Config
  imports Descriptors
begin

text \<open>
  The static configuration of a guest (\<^verbatim>\<open>hyper_config_base.h\<close>, \<^verbatim>\<open>hyper_config.h\<close>,
  \<^verbatim>\<open>guest_blob.h\<close>), the two configurations the repository ships
  (\<^verbatim>\<open>guest_config/linux_config.c\<close>, \<^verbatim>\<open>guest_config/minimal_config.c\<close>), and the
  hypervisor's view of the guest memory (\<^verbatim>\<open>translate.c\<close>).
\<close>

section \<open>Guest modes and domains (hyper_config.h)\<close>

abbreviation (input) HC_NGUESTMODES :: u32 where "HC_NGUESTMODES \<equiv> 4"
abbreviation (input) HC_GM_TRUSTED :: u32 where "HC_GM_TRUSTED \<equiv> 0"
abbreviation (input) HC_GM_KERNEL :: u32 where "HC_GM_KERNEL \<equiv> 1"
abbreviation (input) HC_GM_TASK :: u32 where "HC_GM_TASK \<equiv> 2"
abbreviation (input) HC_GM_INTERRUPT :: u32 where "HC_GM_INTERRUPT \<equiv> 3"
abbreviation (input) HC_DOM_DEFAULT :: nat where "HC_DOM_DEFAULT \<equiv> 0"
abbreviation (input) HC_DOM_KERNEL :: nat where "HC_DOM_KERNEL \<equiv> 1"
abbreviation (input) HC_DOM_TASK :: nat where "HC_DOM_TASK \<equiv> 2"
abbreviation (input) HC_DOM_TRUSTED :: nat where "HC_DOM_TRUSTED \<equiv> 3"
abbreviation (input) MODE_NONE :: u32 where "MODE_NONE \<equiv> -1"
abbreviation (input) HAL_VIRT_START :: u32 where "HAL_VIRT_START \<equiv> 0xF0000000"

section \<open>Configuration structs (hyper_config_base.h, guest_blob.h)\<close>

record guest_binary =
  pstart :: u32
  vstart :: u32
  psize :: u32
  fwsize :: u32
  offset :: u32

record hc_guest_mode =
  gm_name :: string
  domain_ac :: u32

record hc_rpc_handler =
  rpc_name :: string
  rpc_mode :: u32
  entry_point :: u32
  rpc_sp :: u32

record hc_config =
  firmware :: guest_binary
  guest_entry_offset :: u32
  guest_modes :: "u32 \<Rightarrow> hc_guest_mode"
  rpc_handlers :: "hc_rpc_handler option"
  reserved_va_for_pt_access_start :: u32
  pa_initial_l1_offset :: u32
  pa_initial_l2_offset :: u32
  always_cached_offset :: u32
  always_cached_size :: u32

section \<open>Domain access masks (linux_config.c)\<close>

definition HC_DOMAC_KERNEL :: u32 where
  "HC_DOMAC_KERNEL = push_bit (2 * HC_DOM_DEFAULT) 1 OR push_bit (2 * HC_DOM_KERNEL) 1
     OR push_bit (2 * HC_DOM_TASK) 1"

definition HC_DOMAC_TRUSTED :: u32 where
  "HC_DOMAC_TRUSTED = push_bit (2 * HC_DOM_DEFAULT) 1 OR push_bit (2 * HC_DOM_TRUSTED) 1"

definition HC_DOMAC_INTERRUPT :: u32 where
  "HC_DOMAC_INTERRUPT = push_bit (2 * HC_DOM_DEFAULT) 1 OR push_bit (2 * HC_DOM_KERNEL) 1
     OR push_bit (2 * HC_DOM_TASK) 1"

definition HC_DOMAC_TASK :: u32 where
  "HC_DOMAC_TASK = push_bit (2 * HC_DOM_DEFAULT) 1 OR push_bit (2 * HC_DOM_TASK) 1"

definition linux_guest_modes :: "u32 \<Rightarrow> hc_guest_mode" where
  "linux_guest_modes m =
     (if m = HC_GM_TRUSTED then \<lparr>gm_name = ''trusted'', domain_ac = HC_DOMAC_TRUSTED\<rparr>
      else if m = HC_GM_KERNEL then \<lparr>gm_name = ''kernel'', domain_ac = HC_DOMAC_KERNEL\<rparr>
      else if m = HC_GM_TASK then \<lparr>gm_name = ''application'', domain_ac = HC_DOMAC_TASK\<rparr>
      else \<lparr>gm_name = ''interrupt'', domain_ac = HC_DOMAC_INTERRUPT\<rparr>)"

text \<open>TRUSTED_LOCATION is \<open>0xF0500000\<close>; fields the initialiser omits are zero in C.\<close>

definition rpc_handler_trusted :: hc_rpc_handler where
  "rpc_handler_trusted = \<lparr>rpc_name = ''trusted_rpc_handler'', rpc_mode = HC_GM_TRUSTED,
     entry_point = 0xF0500000 + 4, rpc_sp = 0xF0500000 + 0x00100000 - 4\<rparr>"

definition linux_config :: "guest_binary \<Rightarrow> hc_config" where
  "linux_config fw = \<lparr>firmware = fw, guest_entry_offset = 0x10000, guest_modes = linux_guest_modes,
     rpc_handlers = Some rpc_handler_trusted, reserved_va_for_pt_access_start = 0xE8000000,
     pa_initial_l1_offset = 0x00004000, pa_initial_l2_offset = 0,
     always_cached_offset = 0, always_cached_size = 0\<rparr>"

section \<open>Domain access masks and configuration (minimal_config.c)\<close>

definition minimal_HC_DOMAC_ALL :: u32 where
  "minimal_HC_DOMAC_ALL = push_bit (2 * HC_DOM_DEFAULT) 1 OR push_bit (2 * HC_DOM_TASK) 1
     OR push_bit (2 * HC_DOM_KERNEL) 1 OR push_bit (2 * HC_DOM_TRUSTED) 1"

definition minimal_HC_DOMAC_KERNEL :: u32 where
  "minimal_HC_DOMAC_KERNEL = push_bit (2 * HC_DOM_DEFAULT) 1 OR push_bit (2 * HC_DOM_KERNEL) 1"

definition minimal_HC_DOMAC_TRUSTED :: u32 where
  "minimal_HC_DOMAC_TRUSTED = push_bit (2 * HC_DOM_DEFAULT) 1 OR push_bit (2 * HC_DOM_TRUSTED) 1"

definition minimal_HC_DOMAC_TASK :: u32 where
  "minimal_HC_DOMAC_TASK = push_bit (2 * HC_DOM_DEFAULT) 1 OR push_bit (2 * HC_DOM_TASK) 1"

definition minimal_guest_modes :: "u32 \<Rightarrow> hc_guest_mode" where
  "minimal_guest_modes m =
     (if m = HC_GM_TRUSTED then \<lparr>gm_name = ''trusted'', domain_ac = minimal_HC_DOMAC_TRUSTED\<rparr>
      else if m = HC_GM_KERNEL then \<lparr>gm_name = ''kernel'', domain_ac = minimal_HC_DOMAC_KERNEL\<rparr>
      else if m = HC_GM_TASK then \<lparr>gm_name = ''application'', domain_ac = minimal_HC_DOMAC_TASK\<rparr>
      else \<lparr>gm_name = ''interrupt'', domain_ac = minimal_HC_DOMAC_ALL\<rparr>)"

definition minimal_config :: "guest_binary \<Rightarrow> hc_config" where
  "minimal_config fw = \<lparr>firmware = fw, guest_entry_offset = 0, guest_modes = minimal_guest_modes,
     rpc_handlers = None, reserved_va_for_pt_access_start = 0,
     pa_initial_l1_offset = 0x00200000, pa_initial_l2_offset = 0,
     always_cached_offset = 0x00200000, always_cached_size = 0x00200000\<rparr>"

section \<open>Address translation (translate.c)\<close>

definition mmu_guest_pa_to_va :: "u32 \<Rightarrow> hc_config \<Rightarrow> u32" where
  "mmu_guest_pa_to_va padr config =
     padr - pstart (firmware config) + reserved_va_for_pt_access_start config"

text \<open>
  The window is the inverse of that map: \<^verbatim>\<open>guests_init\<close> maps the virtual section at
  \<open>reserved_va_for_pt_access_start + off\<close> to the physical section at \<open>pstart + off\<close>.
\<close>

definition win_pa :: "hc_config \<Rightarrow> u32 \<Rightarrow> u32" where
  "win_pa config va = va - reserved_va_for_pt_access_start config + pstart (firmware config)"

lemma win_pa_to_va [simp]: "win_pa c (mmu_guest_pa_to_va pa c) = pa"
  by (simp add: win_pa_def mmu_guest_pa_to_va_def)

lemma mmu_guest_pa_to_va_win [simp]: "mmu_guest_pa_to_va (win_pa c va) c = va"
  by (simp add: win_pa_def mmu_guest_pa_to_va_def)

lemma mmu_guest_pa_to_va_inj: "mmu_guest_pa_to_va p c = mmu_guest_pa_to_va q c \<longleftrightarrow> p = q"
  by (metis win_pa_to_va)

text \<open>
  \<^verbatim>\<open>mmu_lookup_guest\<close> and \<^verbatim>\<open>mmu_lookup_hv\<close> write the virtual address to one of four CP15 registers, by the
  operand \<open>opc2\<close> of \<open>c7, c8\<close>, and read PAR; \<open>par\<close> is what the processor leaves there.
\<close>

datatype translation = ATS1CPR | ATS1CPW | ATS1CUR | ATS1CUW

definition mmu_lookup_guest :: "(translation \<Rightarrow> u32 \<Rightarrow> u32) \<Rightarrow> u32 \<Rightarrow> bool \<Rightarrow> u32 \<times> u32" where
  "mmu_lookup_guest par vadr user_write =
     (let ret = (if user_write then par ATS1CUW vadr else par ATS1CUR vadr)
      in ((vadr AND 4095) OR (ret AND NOT 4095), (ret XOR 1) AND 1))"

definition mmu_lookup_hv :: "(translation \<Rightarrow> u32 \<Rightarrow> u32) \<Rightarrow> u32 \<Rightarrow> bool \<Rightarrow> u32 \<times> u32" where
  "mmu_lookup_hv par vadr hv_write =
     (let ret = (if hv_write then par ATS1CPW vadr else par ATS1CPR vadr)
      in ((vadr AND 4095) OR (ret AND NOT 4095), (ret XOR 1) AND 1))"

end
