(* ===== verification/Dmmu.thy ===== *)
theory Dmmu
  imports Config
begin

text \<open>
  The direct memory management unit of \<^verbatim>\<open>core/hypervisor/dmmu.c\<close>: the block flag table (BFT),
  which holds the type and the reference count of each 4 KiB physical block, and the
  operations by which a guest creates, frees, edits and switches page tables. Each operation
  is the C function: it takes the configuration of the current virtual machine and the
  hypervisor state and returns the error code and the new state.
\<close>

section \<open>State\<close>

text \<open>\<^verbatim>\<open>union dmmu_entry\<close>: a 30-bit reference count and a 2-bit type.\<close>

record dmmu_entry =
  refcnt :: "30 word"
  btype :: "2 word"

abbreviation (input) PAGE_INFO_TYPE_DATA :: "2 word" where "PAGE_INFO_TYPE_DATA \<equiv> 0"
abbreviation (input) PAGE_INFO_TYPE_L1PT :: "2 word" where "PAGE_INFO_TYPE_L1PT \<equiv> 1"
abbreviation (input) PAGE_INFO_TYPE_L2PT :: "2 word" where "PAGE_INFO_TYPE_L2PT \<equiv> 2"
abbreviation (input) DMMU_BFT_COUNT :: nat where "DMMU_BFT_COUNT \<equiv> 1024 * 1024"

text \<open>
  \<open>bft\<close> is indexed by physical block, \<open>mem\<close> gives the 32-bit word at a physical address,
  \<open>flpt\<close> is the master page table \<^verbatim>\<open>flpt_va\<close> by index; \<open>ttbr0\<close>, \<open>context_id\<close> and \<open>dacr\<close>
  are the CP15 registers the code writes.
\<close>

record hv =
  bft :: "u32 \<Rightarrow> dmmu_entry"
  mem :: "u32 \<Rightarrow> u32"
  flpt :: "u32 \<Rightarrow> u32"
  ttbr0 :: u32
  context_id :: u32
  dacr :: u32

text \<open>\<open>*((uint32_t *) va)\<close> for an address in the hypervisor's window on the guest memory.\<close>

definition mem_read :: "hc_config \<Rightarrow> hv \<Rightarrow> u32 \<Rightarrow> u32" where
  "mem_read c s va = mem s (win_pa c va)"

definition mem_write :: "hc_config \<Rightarrow> u32 \<Rightarrow> u32 \<Rightarrow> hv \<Rightarrow> hv" where
  "mem_write c va v s = s\<lparr>mem := (mem s)(win_pa c va := v)\<rparr>"

definition entry_update :: "u32 \<Rightarrow> (dmmu_entry \<Rightarrow> dmmu_entry) \<Rightarrow> hv \<Rightarrow> hv" where
  "entry_update blk f s = s\<lparr>bft := (bft s)(blk := f (bft s blk))\<rparr>"

text \<open>The assignments \<^verbatim>\<open>e->refcnt += 1\<close>, \<^verbatim>\<open>e->refcnt -= 1\<close> and \<^verbatim>\<open>e->type = t\<close>.\<close>

abbreviation inc_ref :: "dmmu_entry \<Rightarrow> dmmu_entry" where
  "inc_ref e \<equiv> e\<lparr>refcnt := refcnt e + 1\<rparr>"

abbreviation dec_ref :: "dmmu_entry \<Rightarrow> dmmu_entry" where
  "dec_ref e \<equiv> e\<lparr>refcnt := refcnt e - 1\<rparr>"

abbreviation set_type :: "2 word \<Rightarrow> dmmu_entry \<Rightarrow> dmmu_entry" where
  "set_type t e \<equiv> e\<lparr>btype := t\<rparr>"

section \<open>BFT helper functions\<close>

definition get_bft_entry_by_block_idx :: "hv \<Rightarrow> u32 \<Rightarrow> dmmu_entry" where
  "get_bft_entry_by_block_idx s ph_block = bft s ph_block"

definition get_bft_entry :: "hv \<Rightarrow> u32 \<Rightarrow> dmmu_entry" where
  "get_bft_entry s adr_py = get_bft_entry_by_block_idx s (PA_TO_PH_BLOCK adr_py)"

definition mmu_bft_region_set :: "u32 \<Rightarrow> u32 \<Rightarrow> u32 \<Rightarrow> u32 \<Rightarrow> hv \<Rightarrow> hv" where
  "mmu_bft_region_set start sz refc t s =
     for_loop (unat (drop_bit 12 sz))
       (\<lambda>i. entry_update (PA_TO_PH_BLOCK start + of_nat i)
              (\<lambda>e. e\<lparr>refcnt := ucast refc, btype := ucast t\<rparr>)) s"

definition mmu_bft_region_type_equals :: "hv \<Rightarrow> u32 \<Rightarrow> u32 \<Rightarrow> u32 \<Rightarrow> bool" where
  "mmu_bft_region_type_equals s start sz t \<longleftrightarrow>
     list_all (\<lambda>i. ucast (btype (bft s (PA_TO_PH_BLOCK start + of_nat i))) = t)
       [0..<unat (drop_bit 12 sz)]"

definition mmu_bft_region_refcnt_equals :: "hv \<Rightarrow> u32 \<Rightarrow> u32 \<Rightarrow> u32 \<Rightarrow> bool" where
  "mmu_bft_region_refcnt_equals s start sz cnt \<longleftrightarrow>
     list_all (\<lambda>i. ucast (refcnt (bft s (PA_TO_PH_BLOCK start + of_nat i))) = cnt)
       [0..<unat (drop_bit 12 sz)]"

definition dmmu_init :: "hv \<Rightarrow> hv" where
  "dmmu_init s = for_loop DMMU_BFT_COUNT
     (\<lambda>i. entry_update (of_nat i) (\<lambda>e. \<lparr>refcnt = 0, btype = 0\<rparr>)) s"

section \<open>Range checks\<close>

text \<open>
  The parameters of these old-style functions are \<^verbatim>\<open>int\<close>; the comparisons with
  \<^verbatim>\<open>uint32_t\<close> are unsigned and the additions are 32-bit, so \<open>pa + size\<close> can wrap.
\<close>

definition guest_pa_range_checker :: "hc_config \<Rightarrow> u32 \<Rightarrow> u32 \<Rightarrow> bool" where
  "guest_pa_range_checker c pa sz =
     (let guest_start_pa = pstart (firmware c);
          guest_end_pa = pstart (firmware c) + psize (firmware c) + SECTION_SIZE
      in if \<not> (pa \<ge> guest_start_pa \<and> pa + sz \<le> guest_end_pa) then False else True)"

definition guest_inside_always_cached_region :: "hc_config \<Rightarrow> u32 \<Rightarrow> u32 \<Rightarrow> bool" where
  "guest_inside_always_cached_region c pa sz =
     (let guest_pt_start_pa = pstart (firmware c) + always_cached_offset c;
          guest_pt_end_pa = guest_pt_start_pa + always_cached_size c
      in if \<not> (pa \<ge> guest_pt_start_pa \<and> pa + sz \<le> guest_pt_end_pa) then False else True)"

definition guest_intersect_always_cached_region :: "hc_config \<Rightarrow> u32 \<Rightarrow> u32 \<Rightarrow> bool" where
  "guest_intersect_always_cached_region c pa sz =
     (let guest_pt_start_pa = pstart (firmware c) + always_cached_offset c;
          guest_pt_end_pa = guest_pt_start_pa + always_cached_size c
      in if guest_pt_start_pa \<le> pa \<and> guest_pt_end_pa > pa then True
         else if guest_pt_start_pa \<le> pa + sz \<and> guest_pt_end_pa \<ge> pa + sz then True
         else if guest_pt_start_pa \<ge> pa \<and> guest_pt_end_pa \<le> pa + sz then True
         else False)"

section \<open>Checking the content of an L1 page table\<close>

definition l1PT_checker :: "hv \<Rightarrow> u32 \<Rightarrow> u32" where
  "l1PT_checker s l1_desc =
     (let pt = l1_pt_of l1_desc;
          bft_entry_pt = get_bft_entry_by_block_idx s (PT_PA_TO_PH_BLOCK (pt_addr pt))
      in if pt_addr pt AND 2 = 2 then ERR_MMU_L2_BASE_OUT_OF_RANGE
         else if btype bft_entry_pt \<noteq> PAGE_INFO_TYPE_L2PT then ERR_MMU_IS_NOT_L2_PT
         else if unat (refcnt bft_entry_pt) \<ge> MAX_30BIT - 4096 then ERR_MMU_REF_OVERFLOW
         else if pt_pxn pt \<noteq> 0 then ERR_MMU_AP_UNSUPPORTED
         else SUCCESS_MMU)"

text \<open>The body of the loop over the 256 blocks of a section; a later failure overwrites an earlier one.\<close>

definition sec_block_check :: "hv \<Rightarrow> u32 \<Rightarrow> u32 \<Rightarrow> nat \<Rightarrow> u32 \<Rightarrow> u32" where
  "sec_block_check s start l1_base_pa_add sec_idx err_flag0 =
     (let ph_block_in_sec = PA_TO_PH_BLOCK start OR of_nat sec_idx;
          bft_entry_in_sec = get_bft_entry_by_block_idx s ph_block_in_sec;
          err_flag1 = (if btype bft_entry_in_sec \<noteq> PAGE_INFO_TYPE_DATA
                       then ERR_MMU_PH_BLOCK_NOT_WRITABLE else err_flag0);
          err_flag2 = (if push_bit 12 ph_block_in_sec AND L1_BASE_MASK = l1_base_pa_add
                       then ERR_MMU_NEW_L1_NOW_WRITABLE else err_flag1)
      in if unat (refcnt bft_entry_in_sec) \<ge> MAX_30BIT - 4096
         then ERR_MMU_REF_OVERFLOW else err_flag2)"

definition l1Sec_checker :: "hc_config \<Rightarrow> hv \<Rightarrow> u32 \<Rightarrow> u32 \<Rightarrow> u32" where
  "l1Sec_checker c s l1_desc l1_base_pa_add =
     (let sec = l1_sec_of l1_desc; ap = GET_L1_AP sec in
      if guest_intersect_always_cached_region c (START_PA_OF_SECTION sec) SECTION_SIZE
         \<and> sec_c sec \<noteq> 1
      then ERR_MMU_NOT_CACHEABLE
      else if sec_secIndic sec = 1 then ERR_MMU_SUPERSECTION
      else if ap \<noteq> 1 \<and> ap \<noteq> 2 \<and> ap \<noteq> 3 then ERR_MMU_AP_UNSUPPORTED
      else if ap = 3 then
        (let max_kernel_ac = domain_ac (guest_modes c HC_GM_KERNEL)
                             OR domain_ac (guest_modes c HC_GM_TASK);
             page_domain_mask = push_bit (2 * unat (sec_dom sec)) 3;
             kernel_ac = max_kernel_ac AND page_domain_mask;
             err_flag = (if kernel_ac \<noteq> 0
                         then if \<not> guest_pa_range_checker c (START_PA_OF_SECTION sec) SECTION_SIZE
                              then ERR_MMU_OUT_OF_RANGE_PA else SUCCESS_MMU
                         else SUCCESS_MMU)
         in for_loop 256 (sec_block_check s (START_PA_OF_SECTION sec) l1_base_pa_add) err_flag)
      else SUCCESS_MMU)"

definition l1Desc_validityChecker_dispatcher :: "hc_config \<Rightarrow> hv \<Rightarrow> u32 \<Rightarrow> u32 \<Rightarrow> u32 \<Rightarrow> u32" where
  "l1Desc_validityChecker_dispatcher c s l1_type l1_desc pgd =
     (if l1_type = 0 then SUCCESS_MMU
      else if l1_type = 1 then l1PT_checker s l1_desc
      else if l1_type = 2 then l1Sec_checker c s l1_desc pgd
      else ERR_MMU_SUPERSECTION)"

section \<open>Creating and freeing an L1 page table\<close>

text \<open>The loop over the 256 blocks of a section that adjusts each reference count.\<close>

definition section_refs :: "(dmmu_entry \<Rightarrow> dmmu_entry) \<Rightarrow> u32 \<Rightarrow> hv \<Rightarrow> hv" where
  "section_refs f start =
     for_loop 256 (\<lambda>sec_idx. entry_update (PA_TO_PH_BLOCK start OR of_nat sec_idx) f)"

definition create_L1_refs_update :: "hc_config \<Rightarrow> u32 \<Rightarrow> hv \<Rightarrow> hv" where
  "create_L1_refs_update c l1_base_pa_add s0 =
     for_loop 4096 (\<lambda>l1_idx s.
       let l1_desc_pa_add = L1_IDX_TO_PA l1_base_pa_add (of_nat l1_idx);
           l1_desc_va_add = mmu_guest_pa_to_va l1_desc_pa_add c;
           l1_desc = mem_read c s l1_desc_va_add;
           l1_type = l1_desc AND DESC_TYPE_MASK
       in if l1_type = 1 then
            entry_update (PT_PA_TO_PH_BLOCK (pt_addr (l1_pt_of l1_desc))) inc_ref s
          else if l1_type = 2 then
            (let sec = l1_sec_of l1_desc in
             if GET_L1_AP sec = 3 then section_refs inc_ref (START_PA_OF_SECTION sec) s else s)
          else s) s0"

text \<open>The loop that copies the reserved entries of the master page table.\<close>

definition copy_reserved_entries :: "hc_config \<Rightarrow> u32 \<Rightarrow> hv \<Rightarrow> hv" where
  "copy_reserved_entries c l1_base_pa_add s0 =
     for_loop 4096 (\<lambda>l1_idx s.
       let l1_desc = flpt s (of_nat l1_idx) in
       if L1_TYPE l1_desc \<noteq> UNMAPPED_ENTRY then
         (let l1_desc_pa_add = L1_IDX_TO_PA l1_base_pa_add (of_nat l1_idx);
              l1_desc_va_add = mmu_guest_pa_to_va l1_desc_pa_add c
          in mem_write c l1_desc_va_add l1_desc s)
       else s) s0"

definition l1_sanity_checker :: "hc_config \<Rightarrow> u32 \<Rightarrow> hv \<Rightarrow> u32" where
  "l1_sanity_checker c l1_base_pa_add s =
     first_error 4096 (\<lambda>l1_idx.
       let l1_desc_pa_add = L1_IDX_TO_PA l1_base_pa_add (of_nat l1_idx);
           l1_desc_va_add = mmu_guest_pa_to_va l1_desc_pa_add c;
           l1_desc = mem_read c s l1_desc_va_add;
           l1_type = l1_desc AND DESC_TYPE_MASK
       in l1Desc_validityChecker_dispatcher c s l1_type l1_desc l1_base_pa_add)"

text \<open>The four consecutive blocks of an L1 page table.\<close>

definition set_type4 :: "2 word \<Rightarrow> u32 \<Rightarrow> hv \<Rightarrow> hv" where
  "set_type4 t ph_block s =
     entry_update (ph_block + 3) (set_type t) (entry_update (ph_block + 2) (set_type t)
       (entry_update (ph_block + 1) (set_type t) (entry_update ph_block (set_type t) s)))"

definition dmmu_create_L1_pt :: "hc_config \<Rightarrow> u32 \<Rightarrow> hv \<Rightarrow> u32 \<times> hv" where
  "dmmu_create_L1_pt c l1_base_pa_add s =
     (if \<not> guest_pa_range_checker c l1_base_pa_add (4 * PAGE_SIZE) then (ERR_MMU_OUT_OF_RANGE_PA, s)
      else if \<not> guest_inside_always_cached_region c l1_base_pa_add (4 * PAGE_SIZE)
      then (ERR_MMU_OUT_OF_CACHEABLE_RANGE, s)
      else if l1_base_pa_add \<noteq> (l1_base_pa_add AND 0xFFFFC000)
      then (ERR_MMU_L1_BASE_IS_NOT_16KB_ALIGNED, s)
      else
        (let ph_block = PA_TO_PH_BLOCK l1_base_pa_add;
             ty = (\<lambda>i. btype (get_bft_entry_by_block_idx s (ph_block + i)));
             rc = (\<lambda>i. refcnt (get_bft_entry_by_block_idx s (ph_block + i)))
         in if ty 0 = PAGE_INFO_TYPE_L1PT \<and> ty 1 = PAGE_INFO_TYPE_L1PT
               \<and> ty 2 = PAGE_INFO_TYPE_L1PT \<and> ty 3 = PAGE_INFO_TYPE_L1PT
            then (ERR_MMU_ALREADY_L1_PT, s)
            else if ty 0 \<noteq> PAGE_INFO_TYPE_DATA \<or> ty 1 \<noteq> PAGE_INFO_TYPE_DATA
               \<or> ty 2 \<noteq> PAGE_INFO_TYPE_DATA \<or> ty 3 \<noteq> PAGE_INFO_TYPE_DATA
            then (ERR_MMU_PT_REGION, s)
            else if rc 0 \<noteq> 0 \<or> rc 1 \<noteq> 0 \<or> rc 2 \<noteq> 0 \<or> rc 3 \<noteq> 0
            then (ERR_MMU_REFERENCED, s)
            else
              (let s1 = copy_reserved_entries c l1_base_pa_add s;
                   sanity_checker = l1_sanity_checker c l1_base_pa_add s1
               in if sanity_checker \<noteq> SUCCESS_MMU then (sanity_checker, s1)
                  else (SUCCESS_MMU,
                        set_type4 PAGE_INFO_TYPE_L1PT ph_block
                          (create_L1_refs_update c l1_base_pa_add s1)))))"

text \<open>
  \<^verbatim>\<open>dmmu_unmap_L1_pt\<close> tests the types of the blocks at \<^verbatim>\<open>ph_block\<close> before it assigns that
  variable: the indeterminate value it holds then is the argument \<open>ph_block0\<close>.
\<close>

definition unmap_L1_pt_ref_update :: "hc_config \<Rightarrow> u32 \<Rightarrow> hv \<Rightarrow> hv" where
  "unmap_L1_pt_ref_update c l1_base_pa_add s0 =
     for_loop 4096 (\<lambda>l1_idx s.
       let l1_desc_pa_add = L1_IDX_TO_PA l1_base_pa_add (of_nat l1_idx);
           l1_desc_va_add = mmu_guest_pa_to_va l1_desc_pa_add c;
           l1_desc = mem_read c s l1_desc_va_add;
           l1_type = l1_desc AND DESC_TYPE_MASK
       in if l1_type = 0 then s
          else if l1_type = 1 then
            entry_update (PT_PA_TO_PH_BLOCK (pt_addr (l1_pt_of l1_desc))) dec_ref s
          else if l1_type = 2 then
            (let sec = l1_sec_of l1_desc in
             if GET_L1_AP sec = 3 then section_refs dec_ref (START_PA_OF_SECTION sec) s else s)
          else s) s0"

definition dmmu_unmap_L1_pt :: "hc_config \<Rightarrow> u32 \<Rightarrow> u32 \<Rightarrow> hv \<Rightarrow> u32 \<times> hv" where
  "dmmu_unmap_L1_pt c ph_block0 l1_base_pa_add s =
     (if \<not> guest_pa_range_checker c l1_base_pa_add (4 * PAGE_SIZE) then (ERR_MMU_OUT_OF_RANGE_PA, s)
      else if l1_base_pa_add \<noteq> (l1_base_pa_add AND 0xFFFFC000)
      then (ERR_MMU_L1_BASE_IS_NOT_16KB_ALIGNED, s)
      else if btype (get_bft_entry_by_block_idx s ph_block0) \<noteq> PAGE_INFO_TYPE_L1PT
        \<or> btype (get_bft_entry_by_block_idx s (ph_block0 + 1)) \<noteq> PAGE_INFO_TYPE_L1PT
        \<or> btype (get_bft_entry_by_block_idx s (ph_block0 + 2)) \<noteq> PAGE_INFO_TYPE_L1PT
        \<or> btype (get_bft_entry_by_block_idx s (ph_block0 + 3)) \<noteq> PAGE_INFO_TYPE_L1PT
      then (ERR_MMU_IS_NOT_L1_PT, s)
      else if ttbr0 s AND 0xFFFFC000 = l1_base_pa_add AND 0xFFFFC000
      then (ERR_MMU_FREE_ACTIVE_L1, s)
      else
        (let ph_block = PA_TO_PH_BLOCK l1_base_pa_add
         in (0, set_type4 PAGE_INFO_TYPE_DATA ph_block
                  (unmap_L1_pt_ref_update c l1_base_pa_add s))))"

section \<open>Editing the active L1 page table\<close>

definition dmmu_map_L1_section :: "hc_config \<Rightarrow> u32 \<Rightarrow> u32 \<Rightarrow> u32 \<Rightarrow> hv \<Rightarrow> u32 \<times> hv" where
  "dmmu_map_L1_section c va sec_base_add attrs s =
     (if L1_TYPE (flpt s (VA_TO_L1_IDX va)) \<noteq> UNMAPPED_ENTRY then (ERR_MMU_RESERVED_VA, s)
      else if \<not> guest_pa_range_checker c sec_base_add SECTION_SIZE then (ERR_MMU_OUT_OF_RANGE_PA, s)
      else
        (let l1_base_add = ttbr0 s;
             l1_idx = VA_TO_L1_IDX va;
             l1_desc_pa_add = L1_IDX_TO_PA l1_base_add l1_idx;
             l1_desc_va_add = mmu_guest_pa_to_va l1_desc_pa_add c
         in if L1_TYPE (mem_read c s l1_desc_va_add) \<noteq> UNMAPPED_ENTRY
            then (ERR_MMU_SECTION_NOT_UNMAPPED, s)
            else
              (let l1_desc = CREATE_L1_SEC_DESC sec_base_add attrs;
                   sanity_check = l1Sec_checker c s l1_desc l1_base_add
               in if sanity_check \<noteq> SUCCESS_MMU then (sanity_check, s)
                  else
                    (let l1_sec_desc = l1_sec_of l1_desc;
                         ap = GET_L1_AP l1_sec_desc;
                         s1 = (if ap = 3 then section_refs inc_ref (START_PA_OF_SECTION l1_sec_desc) s
                               else s)
                     in (0, mem_write c l1_desc_va_add l1_desc s1)))))"

definition dmmu_l1_pt_map :: "hc_config \<Rightarrow> u32 \<Rightarrow> u32 \<Rightarrow> u32 \<Rightarrow> hv \<Rightarrow> u32 \<times> hv" where
  "dmmu_l1_pt_map c va l2_base_pa_add attrs s =
     (if L1_TYPE (flpt s (VA_TO_L1_IDX va)) \<noteq> UNMAPPED_ENTRY then (ERR_MMU_RESERVED_VA, s)
      else if \<not> guest_pa_range_checker c l2_base_pa_add PAGE_SIZE then (ERR_MMU_OUT_OF_RANGE_PA, s)
      else
        (let ph_block = PA_TO_PH_BLOCK l2_base_pa_add;
             bft_entry = get_bft_entry_by_block_idx s ph_block
         in if btype bft_entry \<noteq> PAGE_INFO_TYPE_L2PT then (ERR_MMU_IS_NOT_L2_PT, s)
            else
              (let l1_base_add = ttbr0 s;
                   l1_idx = VA_TO_L1_IDX va;
                   l1_desc_pa_add = L1_IDX_TO_PA l1_base_add l1_idx;
                   l1_desc_va_add = mmu_guest_pa_to_va l1_desc_pa_add c;
                   l1_desc0 = mem_read c s l1_desc_va_add
               in if L1_DESC_PXN attrs \<noteq> 0 then (ERR_MMU_XN_BIT_IS_ON, s)
                  else if l1_desc0 AND DESC_TYPE_MASK \<noteq> 0 then (ERR_MMU_PT_NOT_UNMAPPED, s)
                  else if unat (refcnt bft_entry) = MAX_30BIT then (ERR_MMU_REF_OVERFLOW, s)
                  else
                    (let s1 = entry_update ph_block inc_ref s;
                         l1_desc = CREATE_L1_PT_DESC l2_base_pa_add attrs;
                         pt = l1_pt_of l1_desc
                     in if pt_addr pt AND 2 = 2 then (ERR_MMU_L2_BASE_OUT_OF_RANGE, s1)
                        else (0, mem_write c l1_desc_va_add l1_desc s1)))))"

definition dmmu_unmap_L1_pageTable_entry :: "hc_config \<Rightarrow> u32 \<Rightarrow> hv \<Rightarrow> u32 \<times> hv" where
  "dmmu_unmap_L1_pageTable_entry c va s =
     (if L1_TYPE (flpt s (VA_TO_L1_IDX va)) \<noteq> UNMAPPED_ENTRY then (ERR_MMU_RESERVED_VA, s)
      else
        (let l1_base_add = ttbr0 s;
             l1_idx = VA_TO_L1_IDX va;
             l1_desc_pa_add = L1_IDX_TO_PA l1_base_add l1_idx;
             l1_desc_va_add = mmu_guest_pa_to_va l1_desc_pa_add c;
             l1_desc = mem_read c s l1_desc_va_add;
             l1_type = L1_TYPE l1_desc
         in if l1_type = 1 then
              (let l1_pt_desc = l1_pt_of l1_desc;
                   ph_block = PA_TO_PH_BLOCK (PA_OF_POINTED_PT l1_pt_desc)
               in (0, mem_write c l1_desc_va_add (UNMAP_L1_ENTRY l1_desc)
                        (entry_update ph_block dec_ref s)))
            else if l1_type = 2 \<and> sec_secIndic (l1_sec_of l1_desc) = 0 then
              (let l1_sec_desc = l1_sec_of l1_desc;
                   ap = GET_L1_AP l1_sec_desc;
                   s1 = (if ap = 3 then section_refs dec_ref (START_PA_OF_SECTION l1_sec_desc) s else s)
               in (0, mem_write c l1_desc_va_add (UNMAP_L1_ENTRY l1_desc) s1))
            else (ERR_MMU_ENTRY_UNMAPPED, s)))"

section \<open>Checking the content of an L2 page table\<close>

definition l2Pt_desc_ap :: "hc_config \<Rightarrow> hv \<Rightarrow> u32 \<Rightarrow> l2_small \<Rightarrow> u32" where
  "l2Pt_desc_ap c s l2_base_pa_add pg_desc =
     (let ap = push_bit 2 (pg_ap_3b pg_desc) OR pg_ap_0_1bs pg_desc;
          bft_entry = get_bft_entry_by_block_idx s (PA_TO_PH_BLOCK (START_PA_OF_SPT pg_desc))
      in if guest_intersect_always_cached_region c (START_PA_OF_SPT pg_desc) PAGE_SIZE
            \<and> pg_c pg_desc \<noteq> 1
         then ERR_MMU_NOT_CACHEABLE
         else if ap \<noteq> 1 \<and> ap \<noteq> 2 \<and> ap \<noteq> 3 then ERR_MMU_AP_UNSUPPORTED
         else if ap = 1 \<or> ap = 2 then SUCCESS_MMU
         else if ap = 3 then
           (if pg_addr pg_desc = drop_bit 12 l2_base_pa_add then ERR_MMU_NEW_L2_NOW_WRITABLE
            else if btype bft_entry \<noteq> PAGE_INFO_TYPE_DATA then ERR_MMU_PH_BLOCK_NOT_WRITABLE
            else if \<not> guest_pa_range_checker c (START_PA_OF_SPT pg_desc) PAGE_SIZE
            then ERR_MMU_OUT_OF_RANGE_PA
            else SUCCESS_MMU)
         else SUCCESS_MMU)"

definition l2PT_checker :: "hc_config \<Rightarrow> hv \<Rightarrow> u32 \<Rightarrow> u32 \<Rightarrow> u32" where
  "l2PT_checker c s l2_base_pa_add l2_desc =
     (let pg_desc = l2_small_of l2_desc;
          bft_entry = get_bft_entry_by_block_idx s (PA_TO_PH_BLOCK (START_PA_OF_SPT pg_desc))
      in if unat (refcnt bft_entry) \<ge> MAX_30BIT - 1024 then ERR_MMU_REF_OVERFLOW
         else l2Pt_desc_ap c s l2_base_pa_add pg_desc)"

definition l2Desc_validityChecker_dispatcher :: "hc_config \<Rightarrow> hv \<Rightarrow> u32 \<Rightarrow> u32 \<Rightarrow> u32 \<Rightarrow> u32" where
  "l2Desc_validityChecker_dispatcher c s l2_type l2_desc l2_base_pa_add =
     (if l2_type = 0 then SUCCESS_MMU
      else if l2_type = 2 \<or> l2_type = 3 then l2PT_checker c s l2_base_pa_add l2_desc
      else ERR_MMU_L2_UNSUPPORTED_DESC_TYPE)"

section \<open>Creating and freeing an L2 page table\<close>

definition create_L2_refs_update :: "hc_config \<Rightarrow> u32 \<Rightarrow> hv \<Rightarrow> hv" where
  "create_L2_refs_update c l2_base_pa_add s0 =
     for_loop 512 (\<lambda>l2_idx s.
       let l2_desc_pa_add = L2_DESC_PA l2_base_pa_add (of_nat l2_idx);
           l2_desc_va_add = mmu_guest_pa_to_va l2_desc_pa_add c;
           l2_desc = mem_read c s l2_desc_va_add;
           l2_type = l2_desc AND DESC_TYPE_MASK;
           pg_desc = l2_small_of l2_desc
       in if l2_type = 2 \<or> l2_type = 3 then
            (let ap = GET_L2_AP pg_desc;
                 ph_block = PA_TO_PH_BLOCK (START_PA_OF_SPT pg_desc);
                 bft_entry = get_bft_entry_by_block_idx s ph_block
             in if btype bft_entry = PAGE_INFO_TYPE_DATA \<and> ap = 3
                then entry_update ph_block inc_ref s else s)
          else s) s0"

definition create_L2_pgtype_update :: "u32 \<Rightarrow> hv \<Rightarrow> hv" where
  "create_L2_pgtype_update l2_base_pa_add s =
     entry_update (PA_TO_PH_BLOCK l2_base_pa_add) (set_type PAGE_INFO_TYPE_L2PT) s"

definition l2_sanity_checker :: "hc_config \<Rightarrow> u32 \<Rightarrow> hv \<Rightarrow> u32" where
  "l2_sanity_checker c l2_base_pa_add s =
     first_error 512 (\<lambda>l2_idx.
       let l2_desc_pa_add = L2_DESC_PA l2_base_pa_add (of_nat l2_idx);
           l2_desc_va_add = mmu_guest_pa_to_va l2_desc_pa_add c;
           l2_desc = mem_read c s l2_desc_va_add;
           l2_type = l2_desc AND DESC_TYPE_MASK
       in l2Desc_validityChecker_dispatcher c s l2_type l2_desc l2_base_pa_add)"

definition dmmu_create_L2_pt :: "hc_config \<Rightarrow> u32 \<Rightarrow> hv \<Rightarrow> u32 \<times> hv" where
  "dmmu_create_L2_pt c l2_base_pa_add s =
     (if \<not> guest_pa_range_checker c l2_base_pa_add PAGE_SIZE then (ERR_MMU_OUT_OF_RANGE_PA, s)
      else if \<not> guest_inside_always_cached_region c l2_base_pa_add PAGE_SIZE
      then (ERR_MMU_OUT_OF_CACHEABLE_RANGE, s)
      else if l2_base_pa_add \<noteq> (l2_base_pa_add AND L2_BASE_MASK)
      then (ERR_MMU_BASE_ADDRESS_IS_NOT_ALIGNED, s)
      else
        (let ph_block = PA_TO_PH_BLOCK l2_base_pa_add;
             bft_entry = get_bft_entry_by_block_idx s ph_block
         in if btype bft_entry = PAGE_INFO_TYPE_L2PT then (ERR_MMU_ALREADY_L2_PT, s)
            else if btype bft_entry = PAGE_INFO_TYPE_L1PT then (ERR_MMU_PT_REGION, s)
            else if btype bft_entry = PAGE_INFO_TYPE_DATA \<and> refcnt bft_entry \<noteq> 0
            then (ERR_MMU_REFERENCED, s)
            else
              (let sanity_checker = l2_sanity_checker c l2_base_pa_add s
               in if sanity_checker \<noteq> SUCCESS_MMU then (sanity_checker, s)
                  else (SUCCESS_MMU,
                        create_L2_pgtype_update l2_base_pa_add
                          (create_L2_refs_update c l2_base_pa_add s)))))"

definition unmap_L2_pt_ref_update :: "hc_config \<Rightarrow> u32 \<Rightarrow> hv \<Rightarrow> hv" where
  "unmap_L2_pt_ref_update c l2_base_pa_add s0 =
     for_loop 512 (\<lambda>l2_idx s.
       let l2_desc_pa_add = L2_DESC_PA l2_base_pa_add (of_nat l2_idx);
           l2_desc_va_add = mmu_guest_pa_to_va l2_desc_pa_add c;
           l2_desc = mem_read c s l2_desc_va_add;
           pg_desc = l2_small_of l2_desc;
           ap = push_bit 2 (pg_ap_3b pg_desc) OR pg_ap_0_1bs pg_desc;
           l2_type = l2_desc AND DESC_TYPE_MASK
       in if l2_type = 0 then s
          else if l2_type = 2 \<or> l2_type = 3 then
            (if ap = 3 then entry_update (PA_TO_PH_BLOCK (START_PA_OF_SPT pg_desc)) dec_ref s else s)
          else s) s0"

definition dmmu_unmap_L2_pt :: "hc_config \<Rightarrow> u32 \<Rightarrow> hv \<Rightarrow> u32 \<times> hv" where
  "dmmu_unmap_L2_pt c l2_base_pa_add s =
     (if \<not> guest_pa_range_checker c l2_base_pa_add PAGE_SIZE then (ERR_MMU_OUT_OF_RANGE_PA, s)
      else
        (let ph_block = PA_TO_PH_BLOCK l2_base_pa_add;
             bft_entry = get_bft_entry_by_block_idx s ph_block
         in if btype bft_entry \<noteq> PAGE_INFO_TYPE_L2PT
               \<or> l2_base_pa_add \<noteq> (l2_base_pa_add AND L2_BASE_MASK)
            then (ERR_MMU_IS_NOT_L2_PT, s)
            else if refcnt bft_entry > 0 then (ERR_MMU_REFERENCE_L2, s)
            else (0, entry_update ph_block (set_type PAGE_INFO_TYPE_DATA)
                       (unmap_L2_pt_ref_update c l2_base_pa_add s))))"

section \<open>Editing an L2 page table\<close>

definition dmmu_l2_map_entry :: "hc_config \<Rightarrow> u32 \<Rightarrow> u32 \<Rightarrow> u32 \<Rightarrow> u32 \<Rightarrow> hv \<Rightarrow> u32 \<times> hv" where
  "dmmu_l2_map_entry c l2_base_pa_add l2_idx page_pa_add attrs s =
     (if \<not> guest_pa_range_checker c l2_base_pa_add PAGE_SIZE then (ERR_MMU_OUT_OF_RANGE_PA, s)
      else if \<not> guest_pa_range_checker c page_pa_add PAGE_SIZE then (ERR_MMU_OUT_OF_RANGE_PA, s)
      else
        (let l2_desc_pa_add = L2_IDX_TO_PA l2_base_pa_add l2_idx;
             l2_desc_va_add = mmu_guest_pa_to_va l2_desc_pa_add c;
             ph_block_pg = PA_TO_PH_BLOCK page_pa_add;
             ph_block_pt = PA_TO_PH_BLOCK l2_base_pa_add;
             bft_entry_pt = get_bft_entry_by_block_idx s ph_block_pt
         in if btype bft_entry_pt \<noteq> PAGE_INFO_TYPE_L2PT then (ERR_MMU_IS_NOT_L2_PT, s)
            else if mem_read c s l2_desc_va_add AND DESC_TYPE_MASK \<noteq> 0
            then (ERR_MMU_PT_NOT_UNMAPPED, s)
            else
              (let new_l2_desc = CREATE_L2_DESC page_pa_add attrs;
                   sanity_check = l2PT_checker c s l2_base_pa_add new_l2_desc
               in if sanity_check \<noteq> SUCCESS_MMU then (sanity_check, s)
                  else
                    (let pg_desc = l2_small_of new_l2_desc;
                         ap = GET_L2_AP pg_desc;
                         s1 = (if ap = 3 then entry_update ph_block_pg inc_ref s else s)
                     in (SUCCESS_MMU, mem_write c l2_desc_va_add new_l2_desc s1)))))"

definition dmmu_l2_unmap_entry :: "hc_config \<Rightarrow> u32 \<Rightarrow> u32 \<Rightarrow> hv \<Rightarrow> u32 \<times> hv" where
  "dmmu_l2_unmap_entry c l2_base_pa_add l2_idx s =
     (if \<not> guest_pa_range_checker c l2_base_pa_add PAGE_SIZE then (ERR_MMU_OUT_OF_RANGE_PA, s)
      else if btype (get_bft_entry_by_block_idx s (PA_TO_PH_BLOCK l2_base_pa_add)) \<noteq> PAGE_INFO_TYPE_L2PT
      then (ERR_MMU_IS_NOT_L2_PT, s)
      else
        (let l2_desc_pa_add = L2_IDX_TO_PA l2_base_pa_add l2_idx;
             l2_desc_va_add = mmu_guest_pa_to_va l2_desc_pa_add c;
             l2_desc = mem_read c s l2_desc_va_add;
             l2_type = l2_desc AND DESC_TYPE_MASK
         in if l2_type \<noteq> 2 \<and> l2_type \<noteq> 3 then (0, s)
            else
              (let pg_desc = l2_small_of l2_desc;
                   ap = push_bit 2 (pg_ap_3b pg_desc) OR pg_ap_0_1bs pg_desc;
                   s1 = (if ap = 3
                         then entry_update (PA_TO_PH_BLOCK (START_PA_OF_SPT pg_desc)) dec_ref s else s)
               in (0, mem_write c l2_desc_va_add (UNMAP_L2_ENTRY l2_desc) s1))))"

section \<open>Switching the active L1 page table\<close>

definition dmmu_switch_mm :: "hc_config \<Rightarrow> u32 \<Rightarrow> hv \<Rightarrow> u32 \<times> hv" where
  "dmmu_switch_mm c l1_base_pa_add s =
     (if \<not> guest_pa_range_checker c l1_base_pa_add (4 * PAGE_SIZE) then (ERR_MMU_OUT_OF_RANGE_PA, s)
      else if l1_base_pa_add \<noteq> (l1_base_pa_add AND 0xFFFFC000)
      then (ERR_MMU_L1_BASE_IS_NOT_16KB_ALIGNED, s)
      else if btype (get_bft_entry_by_block_idx s (PA_TO_PH_BLOCK l1_base_pa_add)) \<noteq> PAGE_INFO_TYPE_L1PT
      then (ERR_MMU_IS_NOT_L1_PT, s)
      else (0, s\<lparr>context_id := 0, ttbr0 := l1_base_pa_add\<rparr>))"

section \<open>The request dispatcher\<close>

datatype dmmu_command =
    CMD_MAP_L1_SECTION | CMD_UNMAP_L1_PT_ENTRY | CMD_CREATE_L2_PT | CMD_MAP_L1_PT
  | CMD_MAP_L2_ENTRY | CMD_UNMAP_L2_ENTRY | CMD_FREE_L2 | CMD_CREATE_L1_PT
  | CMD_SWITCH_ACTIVE_L1 | CMD_FREE_L1

definition dmmu_command_of :: "u32 \<Rightarrow> dmmu_command option" where
  "dmmu_command_of p0 =
     (if p0 = 0 then Some CMD_MAP_L1_SECTION else if p0 = 1 then Some CMD_UNMAP_L1_PT_ENTRY
      else if p0 = 2 then Some CMD_CREATE_L2_PT else if p0 = 3 then Some CMD_MAP_L1_PT
      else if p0 = 4 then Some CMD_MAP_L2_ENTRY else if p0 = 5 then Some CMD_UNMAP_L2_ENTRY
      else if p0 = 6 then Some CMD_FREE_L2 else if p0 = 7 then Some CMD_CREATE_L1_PT
      else if p0 = 8 then Some CMD_SWITCH_ACTIVE_L1 else if p0 = 9 then Some CMD_FREE_L1
      else None)"

text \<open>\<open>ph_block0\<close> is the indeterminate value \<^verbatim>\<open>dmmu_unmap_L1_pt\<close> finds in its uninitialised variable.\<close>

definition dmmu_handler :: "hc_config \<Rightarrow> u32 \<Rightarrow> u32 \<Rightarrow> u32 \<Rightarrow> u32 \<Rightarrow> hv \<Rightarrow> u32 \<times> hv" where
  "dmmu_handler c ph_block0 p03 p1 p2 s =
     (let p0 = p03 AND 0xF; p3 = drop_bit 4 p03 in
      case dmmu_command_of p0 of
        Some CMD_CREATE_L1_PT \<Rightarrow> dmmu_create_L1_pt c p1 s
      | Some CMD_FREE_L1 \<Rightarrow> dmmu_unmap_L1_pt c ph_block0 p1 s
      | Some CMD_MAP_L1_SECTION \<Rightarrow> dmmu_map_L1_section c p1 p2 p3 s
      | Some CMD_MAP_L1_PT \<Rightarrow> dmmu_l1_pt_map c p1 p2 p3 s
      | Some CMD_UNMAP_L1_PT_ENTRY \<Rightarrow> dmmu_unmap_L1_pageTable_entry c p1 s
      | Some CMD_CREATE_L2_PT \<Rightarrow> dmmu_create_L2_pt c p1 s
      | Some CMD_FREE_L2 \<Rightarrow> dmmu_unmap_L2_pt c p1 s
      | Some CMD_MAP_L2_ENTRY \<Rightarrow>
          (let p3' = p03 AND 0xFFFFFFF0; idx = drop_bit 20 p2; attrs = p2 AND 0xFFF
           in dmmu_l2_map_entry c p1 idx p3' attrs s)
      | Some CMD_UNMAP_L2_ENTRY \<Rightarrow> dmmu_l2_unmap_entry c p1 p2 s
      | Some CMD_SWITCH_ACTIVE_L1 \<Rightarrow> dmmu_switch_mm c p1 s
      | None \<Rightarrow> (ERR_MMU_UNIMPLEMENTED, s))"

end
