(* ===== verification/Tables.thy ===== *)
theory Tables
  imports Descriptors
begin

text \<open>
  What a set of page tables refers to. A table is named by its physical block, has a fixed
  number of descriptors at known addresses, and each descriptor refers to a block or does
  not. The accounting of references (what writing one descriptor, adding a table or dropping
  a table does to the number of references to a block) is proved once, in the locale
  \<^verbatim>\<open>ref_tables\<close>, and interpreted for first-level and for second-level tables.
\<close>

section \<open>References of tables\<close>

definition table_refs :: "(u32 \<Rightarrow> nat \<Rightarrow> u32) \<Rightarrow> nat \<Rightarrow> (u32 \<Rightarrow> u32 \<Rightarrow> nat) \<Rightarrow> (u32 \<Rightarrow> u32) \<Rightarrow> u32 \<Rightarrow> u32 \<Rightarrow> nat" where
  "table_refs addr n dref m p blk = (\<Sum>i<n. dref (m (addr p i)) blk)"

definition set_refs :: "(u32 \<Rightarrow> nat \<Rightarrow> u32) \<Rightarrow> nat \<Rightarrow> (u32 \<Rightarrow> u32 \<Rightarrow> nat) \<Rightarrow> (u32 \<Rightarrow> u32) \<Rightarrow> u32 set \<Rightarrow> u32 \<Rightarrow> nat" where
  "set_refs addr n dref m T blk = (\<Sum>p\<in>T. table_refs addr n dref m p blk)"

locale ref_tables =
  fixes addr :: "u32 \<Rightarrow> nat \<Rightarrow> u32"
    and n :: nat
    and dref :: "u32 \<Rightarrow> u32 \<Rightarrow> nat"
    and valid :: "u32 \<Rightarrow> bool"
  assumes addr_inj: "valid p \<Longrightarrow> valid q \<Longrightarrow> i < n \<Longrightarrow> j < n \<Longrightarrow> addr p i = addr q j \<longleftrightarrow> p = q \<and> i = j"
    and dref_le_1: "dref d blk \<le> 1"
begin

lemma table_refs_le: "table_refs addr n dref m p blk \<le> n"
proof -
  have "(\<Sum>i<n. dref (m (addr p i)) blk) \<le> (\<Sum>i<n. 1)"
    by (intro sum_mono dref_le_1)
  then show ?thesis by (simp add: table_refs_def)
qed

lemma table_refs_cong:
  "(\<And>i. i < n \<Longrightarrow> m (addr p i) = m' (addr p i)) \<Longrightarrow>
     table_refs addr n dref m p blk = table_refs addr n dref m' p blk"
  by (simp add: table_refs_def)

lemma set_refs_cong:
  "(\<And>p i. p \<in> T \<Longrightarrow> i < n \<Longrightarrow> m (addr p i) = m' (addr p i)) \<Longrightarrow>
     set_refs addr n dref m T blk = set_refs addr n dref m' T blk"
  unfolding set_refs_def by (intro sum.cong refl table_refs_cong)

lemma table_refs_ge:
  assumes "i < n"
  shows "dref (m (addr p i)) blk \<le> table_refs addr n dref m p blk"
  unfolding table_refs_def
  by (rule member_le_sum) (use assms in auto)

lemma set_refs_ge_table:
  assumes "p \<in> T"
  shows "table_refs addr n dref m p blk \<le> set_refs addr n dref m T blk"
  unfolding set_refs_def
  by (rule member_le_sum) (use assms in auto)

lemma set_refs_ge:
  assumes "p \<in> T" "i < n"
  shows "dref (m (addr p i)) blk \<le> set_refs addr n dref m T blk"
  using table_refs_ge [OF assms(2)] set_refs_ge_table [OF assms(1)] order_trans by blast

lemma set_refs_insert:
  "p \<notin> T \<Longrightarrow> set_refs addr n dref m (insert p T) blk =
     table_refs addr n dref m p blk + set_refs addr n dref m T blk"
  by (simp add: set_refs_def)

lemma table_refs_upd:
  assumes "valid p" "i < n"
  shows "table_refs addr n dref (m(addr p i := d)) p blk + dref (m (addr p i)) blk =
    table_refs addr n dref m p blk + dref d blk"
proof -
  have split: "(\<Sum>j<n. f j) = f i + (\<Sum>j\<in>{..<n} - {i}. f j)" for f :: "nat \<Rightarrow> nat"
    using assms(2) by (intro sum.remove) auto
  have "(\<Sum>j\<in>{..<n} - {i}. dref ((m(addr p i := d)) (addr p j)) blk) =
    (\<Sum>j\<in>{..<n} - {i}. dref (m (addr p j)) blk)"
    using assms addr_inj [of p p] by (intro sum.cong) auto
  then show ?thesis by (simp add: table_refs_def split)
qed

lemma set_refs_upd:
  assumes "\<And>q. q \<in> T \<Longrightarrow> valid q" "p \<in> T" "i < n"
  shows "set_refs addr n dref (m(addr p i := d)) T blk + dref (m (addr p i)) blk =
    set_refs addr n dref m T blk + dref d blk"
proof -
  have split: "(\<Sum>q\<in>T. f q) = f p + (\<Sum>q\<in>T - {p}. f q)" for f :: "u32 \<Rightarrow> nat"
    using assms(2) by (intro sum.remove) auto
  have "(\<Sum>q\<in>T - {p}. table_refs addr n dref (m(addr p i := d)) q blk) =
    (\<Sum>q\<in>T - {p}. table_refs addr n dref m q blk)"
    using assms addr_inj by (intro sum.cong refl table_refs_cong) auto
  then show ?thesis
    using table_refs_upd [OF assms(1) [OF assms(2)] assms(3), of m d blk]
    by (simp add: set_refs_def split)
qed

lemma set_refs_zero_imp:
  assumes "set_refs addr n dref m T blk = 0" "p \<in> T" "i < n"
  shows "dref (m (addr p i)) blk = 0"
  using set_refs_ge [OF assms(2,3), of m blk] assms(1) by simp

end

section \<open>First-level tables\<close>

text \<open>
  A descriptor of type 1 refers to the block of the second-level table it points to; a
  section descriptor that lets the guest write (\<open>AP = 3\<close>) refers to its 256 blocks.
\<close>

definition l1_desc_refs :: "u32 \<Rightarrow> u32 \<Rightarrow> nat" where
  "l1_desc_refs d blk =
     (if d AND DESC_TYPE_MASK = 1 then of_bool (blk = PT_PA_TO_PH_BLOCK (pt_addr (l1_pt_of d)))
      else if d AND DESC_TYPE_MASK = 2 \<and> GET_L1_AP (l1_sec_of d) = 3
      then of_bool (drop_bit 8 blk = sec_addr (l1_sec_of d))
      else 0)"

definition l1_addr :: "u32 \<Rightarrow> nat \<Rightarrow> u32" where
  "l1_addr p i = L1_IDX_TO_PA (push_bit 12 p) (of_nat i)"

definition l1_base_ok :: "u32 \<Rightarrow> bool" where
  "l1_base_ok p \<longleftrightarrow> p < 2 ^ 20 \<and> p AND 3 = 0"

section \<open>Second-level tables\<close>

text \<open>A small-page descriptor that lets the guest write refers to its page.\<close>

definition l2_desc_refs :: "u32 \<Rightarrow> u32 \<Rightarrow> nat" where
  "l2_desc_refs d blk =
     of_bool ((d AND DESC_TYPE_MASK = 2 \<or> d AND DESC_TYPE_MASK = 3)
       \<and> GET_L2_AP (l2_small_of d) = 3 \<and> blk = pg_addr (l2_small_of d))"

definition l2_addr :: "u32 \<Rightarrow> nat \<Rightarrow> u32" where
  "l2_addr q i = L2_IDX_TO_PA (push_bit 12 q) (of_nat i)"

definition l2_base_ok :: "u32 \<Rightarrow> bool" where
  "l2_base_ok q \<longleftrightarrow> q < 2 ^ 20"

section \<open>Addresses of descriptors\<close>

lemma bit_of_nat_less: "bit (of_nat i :: u32) k \<Longrightarrow> i < 2 ^ n \<Longrightarrow> k < n"
proof -
  assume b: "bit (of_nat i :: u32) k" and i: "i < 2 ^ n"
  have "bit i k" using b by (simp add: bit_simps)
  then show "k < n" using i
    by (metis bit_take_bit_iff take_bit_nat_eq_self)
qed

lemma l1_base_low_bits: "l1_base_ok p \<Longrightarrow> j < 2 \<Longrightarrow> \<not> bit p j"
proof
  assume ok: "l1_base_ok p" and j: "j < 2" and b: "bit p j"
  then have "bit (p AND 3) j" by (auto simp: low_masks bit_simps)
  then show False using ok by (simp add: l1_base_ok_def)
qed

lemma not_mask_14_shift: "l1_base_ok p \<Longrightarrow> push_bit 12 p AND 0xFFFFC000 = push_bit 12 p"
  by (unfold high_masks, rule bit_word_eqI) (auto simp: bit_simps l1_base_low_bits)

lemma l1_addr_eq: "l1_base_ok p \<Longrightarrow> l1_addr p i = push_bit 12 p OR push_bit 2 (of_nat i)"
  by (simp add: l1_addr_def L1_IDX_TO_PA_def not_mask_14_shift)

lemma l2_addr_eq: "l2_addr q i = push_bit 12 q OR push_bit 2 (of_nat i)"
  by (simp add: l2_addr_def L2_IDX_TO_PA_def high_masks) (auto intro!: bit_word_eqI simp: bit_simps)

lemma unat_push_bit: "unat w < 2 ^ (32 - n) \<Longrightarrow> n \<le> 32 \<Longrightarrow> unat (push_bit n (w :: u32)) = unat w * 2 ^ n"
proof -
  assume a: "unat w < 2 ^ (32 - n)" "n \<le> 32"
  then have "unat w * 2 ^ n < 2 ^ (32 - n) * 2 ^ n" by simp
  also have "\<dots> = 2 ^ 32" using a(2) by (simp add: power_add [symmetric] del: power_Suc)
  finally have "push_bit n (unat w) < 2 ^ 32" by (simp add: push_bit_eq_mult)
  then have "take_bit 32 (push_bit n (unat w)) = push_bit n (unat w)" by (rule take_bit_nat_eq_self)
  then show ?thesis unfolding unsigned_push_bit_eq by (simp add: push_bit_eq_mult)
qed

lemma unat_or_disjoint: "(a :: u32) AND b = 0 \<Longrightarrow> unat a + unat b < 2 ^ 32 \<Longrightarrow> unat (a OR b) = unat a + unat b"
  by (simp add: disjunctive_add_eq_or [symmetric] unat_word_ariths)

lemma l1_base_unat: "l1_base_ok p \<Longrightarrow> unat p < 2 ^ 20 \<and> unat p mod 4 = 0"
proof -
  assume ok: "l1_base_ok p"
  have "unat (take_bit 2 p) = 0" using ok by (simp add: l1_base_ok_def low_masks and_mask_low)
  then have "unat p mod 2 ^ 2 = 0" unfolding unsigned_take_bit_eq by (simp only: take_bit_eq_mod)
  then show ?thesis using ok by (simp add: l1_base_ok_def word_less_nat_alt)
qed

lemma unat_l1_addr:
  assumes "l1_base_ok p" "i < 4096"
  shows "unat (l1_addr p i) = 4096 * unat p + 4 * i"
proof -
  note p = l1_base_unat [OF assms(1)]
  have a: "push_bit 12 p AND push_bit 2 (of_nat i) = 0"
  proof (rule bit_word_eqI)
    fix k assume "k < LENGTH(32)"
    have "k - 2 < 12" if "bit (of_nat i :: u32) (k - 2)"
      using bit_of_nat_less [OF that, of 12] assms(2) by simp
    then have "bit (of_nat i :: u32) (k - 2) \<Longrightarrow> 12 \<le> k \<Longrightarrow> k - 12 < 2" by arith
    then show "bit (push_bit 12 p AND push_bit 2 (of_nat i)) k = bit (0 :: u32) k"
      using l1_base_low_bits [OF assms(1), of "k - 12"] by (auto simp: bit_push_bit_iff bit_and_iff)
  qed
  have "unat (push_bit 12 p) = unat p * 2 ^ 12"
    by (rule unat_push_bit) (use p in simp_all)
  moreover have "unat (push_bit 2 (of_nat i :: u32)) = i * 2 ^ 2"
    by (subst unat_push_bit) (use assms(2) in \<open>simp_all add: unsigned_of_nat take_bit_nat_eq_self\<close>)
  moreover have "unat p * 2 ^ 12 + i * 2 ^ 2 < 2 ^ 32" using p assms(2) by auto
  ultimately show ?thesis
    using a assms(1) by (simp add: l1_addr_eq unat_or_disjoint)
qed

lemma unat_l2_addr:
  assumes "q < 2 ^ 20" "i < 1024"
  shows "unat (l2_addr q i) = 4096 * unat q + 4 * i"
proof -
  have q: "unat q < 2 ^ 20" using assms(1) by (simp add: word_less_nat_alt)
  have a: "push_bit 12 q AND push_bit 2 (of_nat i) = 0"
  proof (rule bit_word_eqI)
    fix k assume "k < LENGTH(32)"
    have "k - 2 < 10" if "bit (of_nat i :: u32) (k - 2)"
      using bit_of_nat_less [OF that, of 10] assms(2) by simp
    then show "bit (push_bit 12 q AND push_bit 2 (of_nat i)) k = bit (0 :: u32) k"
      by (auto simp: bit_push_bit_iff bit_and_iff)
  qed
  have "unat (push_bit 12 q) = unat q * 2 ^ 12"
    by (rule unat_push_bit) (use q in simp_all)
  moreover have "unat (push_bit 2 (of_nat i :: u32)) = i * 2 ^ 2"
    by (subst unat_push_bit) (use assms(2) in \<open>simp_all add: unsigned_of_nat take_bit_nat_eq_self\<close>)
  moreover have "unat q * 2 ^ 12 + i * 2 ^ 2 < 2 ^ 32" using q assms(2) by auto
  ultimately show ?thesis
    using a by (simp add: l2_addr_eq unat_or_disjoint)
qed

lemma unat_block: "unat (drop_bit 12 (w :: u32)) = unat w div 4096"
  unfolding unat_drop_bit_eq by (simp add: drop_bit_eq_div)

lemma block_l1_addr:
  assumes "l1_base_ok p" "i < 4096"
  shows "unat (drop_bit 12 (l1_addr p i)) = unat p + i div 1024"
  using unat_l1_addr [OF assms] by (simp add: unat_block)

lemma block_l2_addr: "q < 2 ^ 20 \<Longrightarrow> i < 1024 \<Longrightarrow> drop_bit 12 (l2_addr q i) = q"
  by (simp add: word_unat_eq_iff unat_block unat_l2_addr)

lemma l1_addr_inj:
  assumes "l1_base_ok p" "l1_base_ok q" "i < 4096" "j < 4096"
  shows "l1_addr p i = l1_addr q j \<longleftrightarrow> p = q \<and> i = j"
proof
  assume "l1_addr p i = l1_addr q j"
  then have e: "4096 * unat p + 4 * i = 4096 * unat q + 4 * j"
    using unat_l1_addr [OF assms(1,3)] unat_l1_addr [OF assms(2,4)] by simp
  have p4: "unat p = 4 * (unat p div 4)" and q4: "unat q = 4 * (unat q div 4)"
    using l1_base_unat [OF assms(1)] l1_base_unat [OF assms(2)] by auto
  have "(16384 * (unat p div 4) + 4 * i) div 16384 = (16384 * (unat q div 4) + 4 * j) div 16384"
    using e p4 q4 by simp
  then have "unat p = unat q" using p4 q4 assms(3,4) by simp
  then show "p = q \<and> i = j" using e by (simp add: word_unat_eq_iff)
qed simp

lemma l2_addr_inj:
  assumes "l2_base_ok p" "l2_base_ok q" "i < 1024" "j < 1024"
  shows "l2_addr p i = l2_addr q j \<longleftrightarrow> p = q \<and> i = j"
proof
  assume "l2_addr p i = l2_addr q j"
  then have e: "4096 * unat p + 4 * i = 4096 * unat q + 4 * j"
    using assms unat_l2_addr [of p i] unat_l2_addr [of q j] by (simp add: l2_base_ok_def)
  have "(4096 * unat p + 4 * i) div 4096 = (4096 * unat q + 4 * j) div 4096" using e by simp
  then have "unat p = unat q" using assms(3,4) by simp
  then show "p = q \<and> i = j" using e by (simp add: word_unat_eq_iff)
qed simp

interpretation l1t: ref_tables l1_addr 4096 l1_desc_refs l1_base_ok
  by unfold_locales (simp_all add: l1_addr_inj l1_desc_refs_def)

interpretation l2t: ref_tables l2_addr 512 l2_desc_refs l2_base_ok
  by unfold_locales (simp_all add: l2_addr_inj l2_desc_refs_def)

end
