(* ===== verification/PtInv.thy ===== *)
theory PtInv
  imports Tables
begin

text \<open>
  The abstract specification of the memory-management interface: what the block types, the
  reference counts and the contents of the page tables must satisfy together so that no
  block that holds a page table can be written through a guest mapping, and how the four
  kinds of change (writing a descriptor, adding a table, dropping a table, switching the
  active table) keep it. Everything here is stated on three functions of a block or address:
  the type \<open>ty\<close>, the reference count \<open>rc\<close> and the memory \<open>m\<close>.
\<close>

section \<open>Definitions\<close>

definition is_l1 :: "(u32 \<Rightarrow> 2 word) \<Rightarrow> u32 \<Rightarrow> bool" where
  "is_l1 ty p \<longleftrightarrow> l1_base_ok p \<and> ty p = 1"

definition is_l2 :: "(u32 \<Rightarrow> 2 word) \<Rightarrow> u32 \<Rightarrow> bool" where
  "is_l2 ty q \<longleftrightarrow> l2_base_ok q \<and> ty q = 2"

text \<open>
  A first-level descriptor is acceptable: a pointer goes to a block typed as second-level
  table, into its first half (the only half whose content is validated); a writable section
  covers data blocks only.
\<close>

definition l1_ok :: "(u32 \<Rightarrow> 2 word) \<Rightarrow> u32 \<Rightarrow> bool" where
  "l1_ok ty d \<longleftrightarrow> d AND DESC_TYPE_MASK \<noteq> 3
     \<and> (d AND DESC_TYPE_MASK = 1 \<longrightarrow>
          ty (PT_PA_TO_PH_BLOCK (pt_addr (l1_pt_of d))) = 2 \<and> pt_addr (l1_pt_of d) AND 2 = 0)
     \<and> (d AND DESC_TYPE_MASK = 2 \<longrightarrow> sec_secIndic (l1_sec_of d) = 0
          \<and> (GET_L1_AP (l1_sec_of d) = 3 \<longrightarrow>
               (\<forall>blk. drop_bit 8 blk = sec_addr (l1_sec_of d) \<longrightarrow> ty blk = 0)))"

text \<open>A second-level descriptor is acceptable: a writable page is a data block.\<close>

definition l2_ok :: "(u32 \<Rightarrow> 2 word) \<Rightarrow> u32 \<Rightarrow> bool" where
  "l2_ok ty d \<longleftrightarrow>
     (d AND DESC_TYPE_MASK = 2 \<or> d AND DESC_TYPE_MASK = 3) \<and> GET_L2_AP (l2_small_of d) = 3
       \<longrightarrow> ty (pg_addr (l2_small_of d)) = 0"

text \<open>
  The references to a block: from all first-level tables, and from all second-level tables
  but the \<open>pinned\<close> ones, which the hypervisor built at boot and whose mappings it does not
  count.
\<close>

definition refs :: "u32 set \<Rightarrow> (u32 \<Rightarrow> 2 word) \<Rightarrow> (u32 \<Rightarrow> u32) \<Rightarrow> u32 \<Rightarrow> nat" where
  "refs pinned ty m blk =
     set_refs l1_addr 4096 l1_desc_refs m {p. is_l1 ty p} blk
     + set_refs l2_addr 512 l2_desc_refs m {q. is_l2 ty q \<and> q \<notin> pinned} blk"

definition active_block :: "u32 \<Rightarrow> u32" where
  "active_block tt = drop_bit 12 (tt AND 0xFFFFC000)"

definition pt_inv :: "u32 set \<Rightarrow> (u32 \<Rightarrow> 2 word) \<Rightarrow> (u32 \<Rightarrow> 30 word) \<Rightarrow> (u32 \<Rightarrow> u32) \<Rightarrow> u32 \<Rightarrow> bool" where
  "pt_inv pinned ty rc m tt \<longleftrightarrow>
     (\<forall>p j. l1_base_ok p \<longrightarrow> j < 4 \<longrightarrow> (ty (p + j) = 1 \<longleftrightarrow> ty p = 1))
   \<and> (\<forall>p i. is_l1 ty p \<longrightarrow> i < 4096 \<longrightarrow> l1_ok ty (m (l1_addr p i)))
   \<and> (\<forall>q i. is_l2 ty q \<longrightarrow> q \<notin> pinned \<longrightarrow> i < 512 \<longrightarrow> l2_ok ty (m (l2_addr q i)))
   \<and> (\<forall>blk. blk < 2 ^ 20 \<longrightarrow> refs pinned ty m blk + of_bool (blk \<in> pinned) \<le> unat (rc blk))
   \<and> (\<forall>q\<in>pinned. is_l2 ty q)
   \<and> is_l1 ty (active_block tt)
   \<and> (\<forall>blk. ty blk \<noteq> 3)"

text \<open>The words of memory that belong to a table whose content is accounted for.\<close>

definition table_word :: "u32 set \<Rightarrow> (u32 \<Rightarrow> 2 word) \<Rightarrow> u32 \<Rightarrow> bool" where
  "table_word pinned ty a \<longleftrightarrow>
     (\<exists>p i. is_l1 ty p \<and> i < 4096 \<and> a = l1_addr p i)
   \<or> (\<exists>q i. is_l2 ty q \<and> q \<notin> pinned \<and> i < 512 \<and> a = l2_addr q i)"

lemma table_word_l1: "is_l1 ty p \<Longrightarrow> i < 4096 \<Longrightarrow> table_word P ty (l1_addr p i)"
  unfolding table_word_def by blast

lemma table_word_l2: "is_l2 ty q \<Longrightarrow> q \<notin> P \<Longrightarrow> i < 512 \<Longrightarrow> table_word P ty (l2_addr q i)"
  unfolding table_word_def by blast

section \<open>The parts of the invariant\<close>

lemma pt_invD:
  assumes "pt_inv P ty rc m tt"
  shows pt_inv_group: "l1_base_ok p \<Longrightarrow> j < 4 \<Longrightarrow> ty (p + j) = 1 \<longleftrightarrow> ty p = 1"
    and pt_inv_l1: "is_l1 ty p \<Longrightarrow> i < 4096 \<Longrightarrow> l1_ok ty (m (l1_addr p i))"
    and pt_inv_l2: "is_l2 ty q \<Longrightarrow> q \<notin> P \<Longrightarrow> i < 512 \<Longrightarrow> l2_ok ty (m (l2_addr q i))"
    and pt_inv_refs: "blk < 2 ^ 20 \<Longrightarrow> refs P ty m blk + of_bool (blk \<in> P) \<le> unat (rc blk)"
    and pt_inv_pinned: "q \<in> P \<Longrightarrow> is_l2 ty q"
    and pt_inv_active: "is_l1 ty (active_block tt)"
    and pt_inv_types: "ty blk \<noteq> 3"
  using assms unfolding pt_inv_def by blast+

lemma pt_invI:
  assumes "\<And>p j. l1_base_ok p \<Longrightarrow> j < 4 \<Longrightarrow> ty (p + j) = 1 \<longleftrightarrow> ty p = 1"
    and "\<And>p i. is_l1 ty p \<Longrightarrow> i < 4096 \<Longrightarrow> l1_ok ty (m (l1_addr p i))"
    and "\<And>q i. is_l2 ty q \<Longrightarrow> q \<notin> P \<Longrightarrow> i < 512 \<Longrightarrow> l2_ok ty (m (l2_addr q i))"
    and "\<And>blk. blk < 2 ^ 20 \<Longrightarrow> refs P ty m blk + of_bool (blk \<in> P) \<le> unat (rc blk)"
    and "\<And>q. q \<in> P \<Longrightarrow> is_l2 ty q"
    and "is_l1 ty (active_block tt)"
    and "\<And>blk. ty blk \<noteq> 3"
  shows "pt_inv P ty rc m tt"
  using assms unfolding pt_inv_def by blast

section \<open>Where the words of tables lie\<close>

lemma unat_plus_small:
  assumes "(p :: u32) < 2 ^ 20" "(j :: u32) < 4"
  shows "unat (p + j) = unat p + unat j"
proof -
  have "unat p < 2 ^ 20" "unat j < 4" using assms by (simp_all add: word_less_nat_alt)
  then show ?thesis by (simp add: unat_word_ariths)
qed

lemma l1_block_group:
  assumes "l1_base_ok p" "i < 4096"
  shows "drop_bit 12 (l1_addr p i) = p + of_nat (i div 1024)" "(of_nat (i div 1024) :: u32) < 4"
proof -
  have k: "i div 1024 < 4" using assms(2) by auto
  have u: "unat (of_nat (i div 1024) :: u32) = i div 1024"
    using k by (simp add: unsigned_of_nat take_bit_nat_eq_self)
  show small: "(of_nat (i div 1024) :: u32) < 4" using k u by (simp add: word_less_nat_alt)
  have "p < 2 ^ 20" using assms(1) by (simp add: l1_base_ok_def)
  then show "drop_bit 12 (l1_addr p i) = p + of_nat (i div 1024)"
    using block_l1_addr [OF assms] unat_plus_small [OF _ small, of p] u
    by (simp add: word_unat_eq_iff)
qed

lemma table_word_type:
  assumes "pt_inv P ty rc m tt" "table_word P ty a"
  shows "ty (drop_bit 12 a) = 1 \<or> ty (drop_bit 12 a) = 2"
  using assms(2) unfolding table_word_def
proof
  assume "\<exists>p i. is_l1 ty p \<and> i < 4096 \<and> a = l1_addr p i"
  then obtain p i where p: "is_l1 ty p" "i < 4096" "a = l1_addr p i" by blast
  then have ok: "l1_base_ok p" by (simp add: is_l1_def)
  show ?thesis
    using l1_block_group [OF ok p(2)] pt_inv_group [OF assms(1) ok] p by (simp add: is_l1_def)
next
  assume "\<exists>q i. is_l2 ty q \<and> q \<notin> P \<and> i < 512 \<and> a = l2_addr q i"
  then obtain q i where "is_l2 ty q" "i < 512" "a = l2_addr q i" by blast
  then show ?thesis by (simp add: is_l2_def l2_base_ok_def block_l2_addr)
qed

lemma l1_addr_type:
  assumes "pt_inv P ty rc m tt" "is_l1 ty p" "i < 4096"
  shows "ty (drop_bit 12 (l1_addr p i)) = 1"
proof -
  have ok: "l1_base_ok p" using assms(2) by (simp add: is_l1_def)
  show ?thesis
    using l1_block_group [OF ok assms(3)] pt_inv_group [OF assms(1) ok] assms(2)
    by (simp add: is_l1_def)
qed

lemma l2_addr_type: "is_l2 ty q \<Longrightarrow> i < 1024 \<Longrightarrow> ty (drop_bit 12 (l2_addr q i)) = 2"
  by (simp add: is_l2_def l2_base_ok_def block_l2_addr)

lemma l1_l2_disjoint:
  assumes "pt_inv P ty rc m tt" "is_l1 ty p" "i < 4096" "is_l2 ty q" "j < 1024"
  shows "l1_addr p i \<noteq> l2_addr q j"
  using l1_addr_type [OF assms(1-3)] l2_addr_type [OF assms(4,5)] by auto

section \<open>Writes outside the tables, and larger counts\<close>

lemma refs_cong:
  assumes "\<And>a. table_word P ty a \<Longrightarrow> m' a = m a"
  shows "refs P ty m' blk = refs P ty m blk"
proof -
  have "set_refs l1_addr 4096 l1_desc_refs m' {p. is_l1 ty p} blk =
    set_refs l1_addr 4096 l1_desc_refs m {p. is_l1 ty p} blk"
    by (rule l1t.set_refs_cong) (simp add: assms table_word_l1)
  moreover have "set_refs l2_addr 512 l2_desc_refs m' {q. is_l2 ty q \<and> q \<notin> P} blk =
    set_refs l2_addr 512 l2_desc_refs m {q. is_l2 ty q \<and> q \<notin> P} blk"
    by (rule l2t.set_refs_cong) (simp add: assms table_word_l2)
  ultimately show ?thesis by (simp add: refs_def)
qed

lemma pt_inv_outside:
  assumes inv: "pt_inv P ty rc m tt"
    and m: "\<And>a. table_word P ty a \<Longrightarrow> m' a = m a"
    and rc: "\<And>blk. blk < 2 ^ 20 \<Longrightarrow> unat (rc blk) \<le> unat (rc' blk)"
  shows "pt_inv P ty rc' m' tt"
proof (rule pt_invI)
  fix p i assume "is_l1 ty p" "i < (4096 :: nat)"
  then show "l1_ok ty (m' (l1_addr p i))"
    using pt_inv_l1 [OF inv, of p i] by (simp add: m table_word_l1)
next
  fix q i assume "is_l2 ty q" "q \<notin> P" "i < (512 :: nat)"
  then show "l2_ok ty (m' (l2_addr q i))"
    using pt_inv_l2 [OF inv, of q i] by (simp add: m table_word_l2)
next
  fix blk :: u32 assume "blk < 2 ^ 20"
  then show "refs P ty m' blk + of_bool (blk \<in> P) \<le> unat (rc' blk)"
    using pt_inv_refs [OF inv, of blk] rc [of blk] refs_cong [OF m, where blk = blk] by simp
qed (use pt_invD [OF inv] in auto)

lemma pt_inv_data_write:
  assumes inv: "pt_inv P ty rc m tt" and "ty (drop_bit 12 a) = 0"
  shows "pt_inv P ty rc (m(a := v)) tt"
  by (rule pt_inv_outside [OF inv]) (use table_word_type [OF inv] assms(2) in fastforce)+

section \<open>Writing one descriptor of a table\<close>

lemma refs_l1_write:
  assumes inv: "pt_inv P ty rc m tt" and p: "is_l1 ty p" "i < 4096"
  shows "refs P ty (m(l1_addr p i := d)) blk + l1_desc_refs (m (l1_addr p i)) blk
    = refs P ty m blk + l1_desc_refs d blk"
proof -
  let ?m = "m(l1_addr p i := d)"
  have "set_refs l1_addr 4096 l1_desc_refs ?m {p. is_l1 ty p} blk + l1_desc_refs (m (l1_addr p i)) blk
    = set_refs l1_addr 4096 l1_desc_refs m {p. is_l1 ty p} blk + l1_desc_refs d blk"
    by (rule l1t.set_refs_upd) (use p in \<open>auto simp: is_l1_def\<close>)
  moreover have "set_refs l2_addr 512 l2_desc_refs ?m {q. is_l2 ty q \<and> q \<notin> P} blk =
    set_refs l2_addr 512 l2_desc_refs m {q. is_l2 ty q \<and> q \<notin> P} blk"
  proof (rule l2t.set_refs_cong)
    fix q j assume "q \<in> {q. is_l2 ty q \<and> q \<notin> P}" "j < (512 :: nat)"
    then show "?m (l2_addr q j) = m (l2_addr q j)" using l1_l2_disjoint [OF inv p, of q j] by auto
  qed
  ultimately show ?thesis by (simp add: refs_def)
qed

lemma refs_l2_write:
  assumes inv: "pt_inv P ty rc m tt" and q: "is_l2 ty q" "q \<notin> P" "i < 512"
  shows "refs P ty (m(l2_addr q i := d)) blk + l2_desc_refs (m (l2_addr q i)) blk
    = refs P ty m blk + l2_desc_refs d blk"
proof -
  let ?m = "m(l2_addr q i := d)"
  have "set_refs l2_addr 512 l2_desc_refs ?m {q. is_l2 ty q \<and> q \<notin> P} blk + l2_desc_refs (m (l2_addr q i)) blk
    = set_refs l2_addr 512 l2_desc_refs m {q. is_l2 ty q \<and> q \<notin> P} blk + l2_desc_refs d blk"
    by (rule l2t.set_refs_upd) (use q in \<open>auto simp: is_l2_def\<close>)
  moreover have "set_refs l1_addr 4096 l1_desc_refs ?m {p. is_l1 ty p} blk =
    set_refs l1_addr 4096 l1_desc_refs m {p. is_l1 ty p} blk"
  proof (rule l1t.set_refs_cong)
    fix p j assume "p \<in> {p. is_l1 ty p}" "j < (4096 :: nat)"
    then show "?m (l1_addr p j) = m (l1_addr p j)"
      using l1_l2_disjoint [OF inv _ _ q(1), of p j i] q(3) by auto
  qed
  ultimately show ?thesis by (simp add: refs_def)
qed

lemma pt_inv_l1_write:
  assumes inv: "pt_inv P ty rc m tt" and p: "is_l1 ty p" "i < 4096" and d: "l1_ok ty d"
    and rc: "\<And>blk. blk < 2 ^ 20 \<Longrightarrow>
      unat (rc blk) + l1_desc_refs d blk \<le> unat (rc' blk) + l1_desc_refs (m (l1_addr p i)) blk"
  shows "pt_inv P ty rc' (m(l1_addr p i := d)) tt"
proof (rule pt_invI)
  fix p' i' assume "is_l1 ty p'" "i' < (4096 :: nat)"
  then show "l1_ok ty ((m(l1_addr p i := d)) (l1_addr p' i'))"
    using pt_inv_l1 [OF inv, of p' i'] d by auto
next
  fix q j assume q: "is_l2 ty q" "q \<notin> P" "j < (512 :: nat)"
  then show "l2_ok ty ((m(l1_addr p i := d)) (l2_addr q j))"
    using pt_inv_l2 [OF inv q] l1_l2_disjoint [OF inv p q(1), of j] by auto
next
  fix blk :: u32 assume b: "blk < 2 ^ 20"
  show "refs P ty (m(l1_addr p i := d)) blk + of_bool (blk \<in> P) \<le> unat (rc' blk)"
    using pt_inv_refs [OF inv b] rc [OF b] refs_l1_write [OF inv p, of d blk] by linarith
qed (use pt_invD [OF inv] in auto)

lemma pt_inv_l2_write:
  assumes inv: "pt_inv P ty rc m tt" and q: "is_l2 ty q" "q \<notin> P" "i < 512" and d: "l2_ok ty d"
    and rc: "\<And>blk. blk < 2 ^ 20 \<Longrightarrow>
      unat (rc blk) + l2_desc_refs d blk \<le> unat (rc' blk) + l2_desc_refs (m (l2_addr q i)) blk"
  shows "pt_inv P ty rc' (m(l2_addr q i := d)) tt"
proof (rule pt_invI)
  fix p' i' assume p: "is_l1 ty p'" "i' < (4096 :: nat)"
  then show "l1_ok ty ((m(l2_addr q i := d)) (l1_addr p' i'))"
    using pt_inv_l1 [OF inv p] l1_l2_disjoint [OF inv p q(1), of i] q(3) by auto
next
  fix q' j assume q': "is_l2 ty q'" "q' \<notin> P" "j < (512 :: nat)"
  then show "l2_ok ty ((m(l2_addr q i := d)) (l2_addr q' j))"
    using pt_inv_l2 [OF inv q'] d by auto
next
  fix blk :: u32 assume b: "blk < 2 ^ 20"
  show "refs P ty (m(l2_addr q i := d)) blk + of_bool (blk \<in> P) \<le> unat (rc' blk)"
    using pt_inv_refs [OF inv b] rc [OF b] refs_l2_write [OF inv q, of d blk] by linarith
qed (use pt_invD [OF inv] in auto)

section \<open>Changing the type of blocks nothing refers to\<close>

lemma refs_ge_l1: "is_l1 ty p \<Longrightarrow> i < 4096 \<Longrightarrow> l1_desc_refs (m (l1_addr p i)) blk \<le> refs P ty m blk"
  unfolding refs_def by (rule trans_le_add1, rule l1t.set_refs_ge) auto

lemma refs_ge_l2:
  "is_l2 ty q \<Longrightarrow> q \<notin> P \<Longrightarrow> i < 512 \<Longrightarrow> l2_desc_refs (m (l2_addr q i)) blk \<le> refs P ty m blk"
  unfolding refs_def by (rule trans_le_add2, rule l2t.set_refs_ge) auto

lemma l1_ok_retype:
  assumes "l1_ok ty d" "\<And>blk. ty' blk \<noteq> ty blk \<Longrightarrow> l1_desc_refs d blk = 0"
  shows "l1_ok ty' d"
proof -
  have "ty' blk = ty blk" if "l1_desc_refs d blk \<noteq> 0" for blk using assms(2) [of blk] that by auto
  then show ?thesis using assms(1) unfolding l1_ok_def l1_desc_refs_def by (auto split: if_splits)
qed

lemma l2_ok_retype:
  assumes "l2_ok ty d" "\<And>blk. ty' blk \<noteq> ty blk \<Longrightarrow> l2_desc_refs d blk = 0"
  shows "l2_ok ty' d"
proof -
  have "ty' blk = ty blk" if "l2_desc_refs d blk \<noteq> 0" for blk using assms(2) [of blk] that by auto
  then show ?thesis using assms(1) unfolding l2_ok_def l2_desc_refs_def by (auto split: if_splits)
qed

lemma l1_ok_refs_type: "l1_ok ty d \<Longrightarrow> l1_desc_refs d blk \<noteq> 0 \<Longrightarrow> ty blk = 0 \<or> ty blk = 2"
  unfolding l1_ok_def l1_desc_refs_def by (auto split: if_splits)

lemma l2_ok_refs_type: "l2_ok ty d \<Longrightarrow> l2_desc_refs d blk \<noteq> 0 \<Longrightarrow> ty blk = 0"
  unfolding l2_ok_def l2_desc_refs_def by auto

lemma pt_inv_retype:
  assumes inv: "pt_inv P ty rc m tt"
    and unref: "\<And>blk. ty' blk \<noteq> ty blk \<Longrightarrow> refs P ty m blk = 0 \<and> blk \<notin> P"
    and group: "\<And>p j. l1_base_ok p \<Longrightarrow> j < 4 \<Longrightarrow> ty' (p + j) = 1 \<longleftrightarrow> ty' p = 1"
    and new1: "\<And>p i. is_l1 ty' p \<Longrightarrow> \<not> is_l1 ty p \<Longrightarrow> i < 4096 \<Longrightarrow> l1_ok ty' (m (l1_addr p i))"
    and new2: "\<And>q i. is_l2 ty' q \<Longrightarrow> \<not> is_l2 ty q \<Longrightarrow> q \<notin> P \<Longrightarrow> i < 512 \<Longrightarrow> l2_ok ty' (m (l2_addr q i))"
    and rc: "\<And>blk. blk < 2 ^ 20 \<Longrightarrow> refs P ty' m blk + of_bool (blk \<in> P) \<le> unat (rc' blk)"
    and act: "is_l1 ty' (active_block tt)"
    and types: "\<And>blk. ty' blk \<noteq> 3"
  shows "pt_inv P ty' rc' m tt"
proof (rule pt_invI)
  fix p i assume p: "is_l1 ty' p" "i < (4096 :: nat)"
  show "l1_ok ty' (m (l1_addr p i))"
  proof (cases "is_l1 ty p")
    case True
    then have "l1_ok ty (m (l1_addr p i))" using pt_inv_l1 [OF inv] p(2) by blast
    then show ?thesis
      by (rule l1_ok_retype)
        (metis unref refs_ge_l1 [OF True p(2)] le_zero_eq)
  qed (use new1 p in blast)
next
  fix q i assume q: "is_l2 ty' q" "q \<notin> P" "i < (512 :: nat)"
  show "l2_ok ty' (m (l2_addr q i))"
  proof (cases "is_l2 ty q")
    case True
    then have "l2_ok ty (m (l2_addr q i))" using pt_inv_l2 [OF inv] q by blast
    then show ?thesis
      by (rule l2_ok_retype)
        (metis unref refs_ge_l2 [OF True q(2,3)] le_zero_eq)
  qed (use new2 q in blast)
next
  fix q assume "q \<in> P"
  then show "is_l2 ty' q" using unref [of q] pt_inv_pinned [OF inv, of q] by (auto simp: is_l2_def)
qed (use group rc act types in auto)

section \<open>The group of blocks of a first-level table\<close>

definition group_upd :: "(u32 \<Rightarrow> 2 word) \<Rightarrow> u32 \<Rightarrow> 2 word \<Rightarrow> u32 \<Rightarrow> 2 word" where
  "group_upd ty p t blk = (if drop_bit 2 blk = drop_bit 2 p then t else ty blk)"

lemma unat_drop2: "unat (drop_bit 2 (w :: u32)) = unat w div 4"
  unfolding unat_drop_bit_eq by (simp add: drop_bit_eq_div)

lemma l1_group_iff:
  assumes "l1_base_ok p"
  shows "drop_bit 2 blk = drop_bit 2 p \<longleftrightarrow> blk = p \<or> blk = p + 1 \<or> blk = p + 2 \<or> blk = p + 3"
proof -
  have p: "unat p < 2 ^ 20" "unat p mod 4 = 0" using l1_base_unat [OF assms] by auto
  have u: "unat (p + 1) = unat p + 1" "unat (p + 2) = unat p + 2" "unat (p + 3) = unat p + 3"
    using p by (simp_all add: unat_word_ariths)
  have "drop_bit 2 blk = drop_bit 2 p \<longleftrightarrow> unat blk div 4 = unat p div 4"
    by (simp add: word_unat_eq_iff unat_drop2)
  also have "\<dots> \<longleftrightarrow> unat blk = unat p \<or> unat blk = unat p + 1 \<or> unat blk = unat p + 2 \<or> unat blk = unat p + 3"
  proof
    assume d: "unat blk div 4 = unat p div 4"
    have "unat blk = 4 * (unat blk div 4) + unat blk mod 4" "unat p = 4 * (unat p div 4)" using p(2) by auto
    moreover have "unat blk mod 4 = 0 \<or> unat blk mod 4 = 1 \<or> unat blk mod 4 = 2 \<or> unat blk mod 4 = 3" by arith
    ultimately show "unat blk = unat p \<or> unat blk = unat p + 1 \<or> unat blk = unat p + 2 \<or> unat blk = unat p + 3"
      using d by auto
  next
    obtain k where "unat p = 4 * k" using p(2) by (metis mod_eq_0_iff_dvd dvdE)
    then show "unat blk = unat p \<or> unat blk = unat p + 1 \<or> unat blk = unat p + 2 \<or> unat blk = unat p + 3
      \<Longrightarrow> unat blk div 4 = unat p div 4" by auto
  qed
  finally show ?thesis by (simp add: word_unat_eq_iff u)
qed

lemma group_upd_updates:
  assumes "l1_base_ok p"
  shows "ty(p := t, p + 1 := t, p + 2 := t, p + 3 := t) = group_upd ty p t"
  by (rule ext) (simp add: group_upd_def l1_group_iff [OF assms])

lemma drop2_group: "l1_base_ok p \<Longrightarrow> j < 4 \<Longrightarrow> drop_bit 2 (p + j) = drop_bit 2 p"
proof -
  assume p: "l1_base_ok p" and j: "j < 4"
  then have "unat (p + j) = unat p + unat j" by (intro unat_plus_small) (simp_all add: l1_base_ok_def)
  moreover have "unat j < 4" using j by (simp add: word_less_nat_alt)
  ultimately have "unat (p + j) div 4 = unat p div 4" using l1_base_unat [OF p] by presburger
  then show ?thesis by (simp add: word_unat_eq_iff unat_drop2)
qed

lemma l1_base_eq_group: "l1_base_ok p \<Longrightarrow> l1_base_ok q \<Longrightarrow> drop_bit 2 p = drop_bit 2 q \<longleftrightarrow> p = q"
proof
  assume ok: "l1_base_ok p" "l1_base_ok q" and "drop_bit 2 p = drop_bit 2 q"
  then have "unat p div 4 = unat q div 4" by (metis unat_drop2)
  then show "p = q"
    using l1_base_unat [OF ok(1)] l1_base_unat [OF ok(2)] by (metis mult_div_mod_eq word_unat_eq_iff)
qed simp

lemma is_l1_group_upd:
  assumes "l1_base_ok p"
  shows "is_l1 (group_upd ty p t) q \<longleftrightarrow> (if q = p then t = 1 else is_l1 ty q)"
  using assms l1_base_eq_group [of q p] by (auto simp: is_l1_def group_upd_def)

lemma is_l2_group_upd:
  assumes "l1_base_ok p" "t \<noteq> 2" "\<And>j. j < 4 \<Longrightarrow> ty (p + j) \<noteq> 2"
  shows "is_l2 (group_upd ty p t) q \<longleftrightarrow> is_l2 ty q"
  using assms(2) assms(3) [of 0] assms(3) [of 1] assms(3) [of 2] assms(3) [of 3]
  by (auto simp: is_l2_def group_upd_def l1_group_iff [OF assms(1)])

lemma group_upd_consistent:
  assumes "pt_inv P ty rc m tt" "l1_base_ok p" "l1_base_ok q" "j < 4"
  shows "group_upd ty p t (q + j) = 1 \<longleftrightarrow> group_upd ty p t q = 1"
  using pt_inv_group [OF assms(1,3,4)] drop2_group [OF assms(3,4)] by (simp add: group_upd_def)


lemma group_block:
  assumes "l1_base_ok p" "drop_bit 2 blk = drop_bit 2 p"
  shows "\<exists>j < 4. blk = p + j \<and> blk < 2 ^ 20"
proof -
  have p: "unat p < 2 ^ 20" "unat p mod 4 = 0" using l1_base_unat [OF assms(1)] by auto
  obtain j where j: "j < 4" "blk = p + j"
    using assms(2) l1_group_iff [OF assms(1), of blk] by (auto intro: that [of 0] that [of 1] that [of 2] that [of 3])
  have "unat blk = unat p + unat j" "unat j < 4"
    using j unat_plus_small [of p j] assms(1) by (simp_all add: l1_base_ok_def word_less_nat_alt)
  then have "blk < 2 ^ 20" using p by (simp add: word_less_nat_alt) presburger
  with j show ?thesis by blast
qed

lemma pt_inv_no_refs:
  assumes "pt_inv P ty rc m tt" "blk < 2 ^ 20" "rc blk = 0"
  shows "refs P ty m blk = 0 \<and> blk \<notin> P"
  using pt_inv_refs [OF assms(1,2)] assms(3) by (auto split: if_splits)

section \<open>Adding and dropping tables\<close>

lemma pt_inv_add_l1:
  assumes inv: "pt_inv P ty rc m tt" and p: "l1_base_ok p"
    and free: "\<And>j. j < 4 \<Longrightarrow> ty (p + j) = 0 \<and> rc (p + j) = 0"
    and new: "\<And>i. i < 4096 \<Longrightarrow> l1_ok (group_upd ty p 1) (m (l1_addr p i))"
    and rc: "\<And>blk. blk < 2 ^ 20 \<Longrightarrow>
      unat (rc blk) + table_refs l1_addr 4096 l1_desc_refs m p blk \<le> unat (rc' blk)"
  shows "pt_inv P (group_upd ty p 1) rc' m tt"
proof (rule pt_inv_retype [OF inv])
  fix blk assume "group_upd ty p 1 blk \<noteq> ty blk"
  then have "drop_bit 2 blk = drop_bit 2 p" by (simp add: group_upd_def split: if_splits)
  then obtain j where j: "j < 4" "blk = p + j" "blk < 2 ^ 20" using group_block [OF p] by blast
  then show "refs P ty m blk = 0 \<and> blk \<notin> P"
    using pt_inv_no_refs [OF inv j(3)] free [OF j(1)] by simp
next
  fix q i assume "is_l1 (group_upd ty p 1) q" "\<not> is_l1 ty q" "i < (4096 :: nat)"
  then show "l1_ok (group_upd ty p 1) (m (l1_addr q i))"
    using new by (simp add: is_l1_group_upd [OF p] split: if_splits)
next
  fix q assume "is_l2 (group_upd ty p 1) q" "\<not> is_l2 ty q"
  then show "l2_ok (group_upd ty p 1) (m (l2_addr q i))" for i
    using is_l2_group_upd [OF p, of 1 ty q] free by simp
next
  fix blk :: u32 assume blk: "blk < 2 ^ 20"
  have n: "\<not> is_l1 ty p" using free [of 0] by (simp add: is_l1_def)
  have "{q. is_l1 (group_upd ty p 1) q} = insert p {q. is_l1 ty q}"
    using is_l1_group_upd [OF p, of ty 1] by auto
  moreover have "is_l2 (group_upd ty p 1) q = is_l2 ty q" for q
    using is_l2_group_upd [OF p, of 1 ty q] free by simp
  ultimately have "refs P (group_upd ty p 1) m blk
    = table_refs l1_addr 4096 l1_desc_refs m p blk + refs P ty m blk"
    using n by (simp add: refs_def l1t.set_refs_insert)
  then show "refs P (group_upd ty p 1) m blk + of_bool (blk \<in> P) \<le> unat (rc' blk)"
    using rc [OF blk] pt_inv_refs [OF inv blk] by linarith
next
  show "is_l1 (group_upd ty p 1) (active_block tt)"
    using pt_inv_active [OF inv] by (simp add: is_l1_group_upd [OF p])
next
  show "group_upd ty p 1 blk \<noteq> 3" for blk using pt_inv_types [OF inv, of blk] by (simp add: group_upd_def)
qed (use group_upd_consistent [OF inv p] in blast)

lemma pt_inv_del_l1:
  assumes inv: "pt_inv P ty rc m tt" and p: "is_l1 ty p"
    and act: "p \<noteq> active_block tt"
    and rc: "\<And>blk. blk < 2 ^ 20 \<Longrightarrow>
      unat (rc blk) \<le> unat (rc' blk) + table_refs l1_addr 4096 l1_desc_refs m p blk"
  shows "pt_inv P (group_upd ty p 0) rc' m tt"
proof (rule pt_inv_retype [OF inv])
  have ok: "l1_base_ok p" using p by (simp add: is_l1_def)
  have one: "ty (p + j) = 1" if "j < 4" for j
    using pt_inv_group [OF inv ok that] p by (simp add: is_l1_def)
  have eq2: "is_l2 (group_upd ty p 0) q \<longleftrightarrow> is_l2 ty q" for q
    using is_l2_group_upd [OF ok, of 0 ty q] one by simp
  have unref: "refs P ty m blk = 0" if "ty blk = 1" for blk
  proof -
    have "l1_desc_refs (m (l1_addr q i)) blk = 0" if "is_l1 ty q" "i < 4096" for q i
      using l1_ok_refs_type [OF pt_inv_l1 [OF inv that], of blk] \<open>ty blk = 1\<close> by fastforce
    moreover have "l2_desc_refs (m (l2_addr q i)) blk = 0" if "is_l2 ty q" "q \<notin> P" "i < 512" for q i
      using l2_ok_refs_type [OF pt_inv_l2 [OF inv that], of blk] \<open>ty blk = 1\<close> by fastforce
    ultimately show ?thesis by (simp add: refs_def set_refs_def table_refs_def)
  qed
  show "refs P ty m blk = 0 \<and> blk \<notin> P" if ne: "group_upd ty p 0 blk \<noteq> ty blk" for blk
  proof -
    have "drop_bit 2 blk = drop_bit 2 p" using ne by (simp add: group_upd_def split: if_splits)
    then have "ty blk = 1" using group_block [OF ok, of blk] one by blast
    then show ?thesis using unref pt_inv_pinned [OF inv, of blk] by (auto simp: is_l2_def)
  qed
  show "l1_ok (group_upd ty p 0) (m (l1_addr q i))"
    if "is_l1 (group_upd ty p 0) q" "\<not> is_l1 ty q" for q i
    using that by (simp add: is_l1_group_upd [OF ok] split: if_splits)
  show "l2_ok (group_upd ty p 0) (m (l2_addr q i))"
    if "is_l2 (group_upd ty p 0) q" "\<not> is_l2 ty q" for q i
    using that eq2 by simp
  show "refs P (group_upd ty p 0) m blk + of_bool (blk \<in> P) \<le> unat (rc' blk)"
    if blk: "blk < 2 ^ 20" for blk
  proof -
    have "{q. is_l1 ty q} = insert p {q. is_l1 (group_upd ty p 0) q}"
      using is_l1_group_upd [OF ok, of ty 0] p by auto
    moreover have "\<not> is_l1 (group_upd ty p 0) p" by (simp add: is_l1_group_upd [OF ok])
    ultimately have "refs P ty m blk
      = table_refs l1_addr 4096 l1_desc_refs m p blk + refs P (group_upd ty p 0) m blk"
      by (simp add: refs_def l1t.set_refs_insert eq2)
    then show ?thesis using rc [OF blk] pt_inv_refs [OF inv blk] by linarith
  qed
  show "group_upd ty p 0 blk \<noteq> 3" for blk using pt_inv_types [OF inv, of blk] by (simp add: group_upd_def)
  show "is_l1 (group_upd ty p 0) (active_block tt)"
    using pt_inv_active [OF inv] act by (auto simp: is_l1_group_upd [OF ok])
  show "group_upd ty p 0 (q + j) = 1 \<longleftrightarrow> group_upd ty p 0 q = 1" if "l1_base_ok q" "j < 4" for q j
    using group_upd_consistent [OF inv ok that] .
qed

lemma block_retype:
  assumes inv: "pt_inv P ty rc m tt" and t: "ty q \<noteq> 1" "t \<noteq> (1 :: 2 word)"
  shows "is_l1 (ty(q := t)) p \<longleftrightarrow> is_l1 ty p"
    and "l1_base_ok p \<Longrightarrow> j < 4 \<Longrightarrow> (ty(q := t)) (p + j) = 1 \<longleftrightarrow> (ty(q := t)) p = 1"
  using t pt_inv_group [OF inv, of p j] by (auto simp: is_l1_def)

lemma pt_inv_add_l2:
  assumes inv: "pt_inv P ty rc m tt" and q: "l2_base_ok q" "ty q = 0" "rc q = 0"
    and new: "\<And>i. i < 512 \<Longrightarrow> l2_ok (ty(q := 2)) (m (l2_addr q i))"
    and rc: "\<And>blk. blk < 2 ^ 20 \<Longrightarrow>
      unat (rc blk) + table_refs l2_addr 512 l2_desc_refs m q blk \<le> unat (rc' blk)"
  shows "pt_inv P (ty(q := 2)) rc' m tt"
proof (rule pt_inv_retype [OF inv])
  note retype = block_retype [OF inv, of q 2]
  have free: "refs P ty m q = 0 \<and> q \<notin> P" using pt_inv_no_refs [OF inv _ q(3)] q(1) by (simp add: l2_base_ok_def)
  show "refs P ty m blk = 0 \<and> blk \<notin> P" if "(ty(q := 2)) blk \<noteq> ty blk" for blk
    using that free by (auto split: if_splits)
  show "l1_ok (ty(q := 2)) (m (l1_addr p i))" if "is_l1 (ty(q := 2)) p" "\<not> is_l1 ty p" for p i
    using that retype(1) q(2) by simp
  show "l2_ok (ty(q := 2)) (m (l2_addr q' i))"
    if "is_l2 (ty(q := 2)) q'" "\<not> is_l2 ty q'" "i < 512" for q' i
    using that new by (auto simp: is_l2_def split: if_splits)
  show "refs P (ty(q := 2)) m blk + of_bool (blk \<in> P) \<le> unat (rc' blk)" if blk: "blk < 2 ^ 20" for blk
  proof -
    have "{q'. is_l2 (ty(q := 2)) q' \<and> q' \<notin> P} = insert q {q'. is_l2 ty q' \<and> q' \<notin> P}"
      using q(1) free by (auto simp: is_l2_def)
    moreover have "\<not> is_l2 ty q" using q(2) by (simp add: is_l2_def)
    ultimately have "refs P (ty(q := 2)) m blk
      = refs P ty m blk + table_refs l2_addr 512 l2_desc_refs m q blk"
      using retype(1) q(2) by (simp add: refs_def l2t.set_refs_insert)
    then show ?thesis using rc [OF blk] pt_inv_refs [OF inv blk] by linarith
  qed
  show "(ty(q := 2)) blk \<noteq> 3" for blk using pt_inv_types [OF inv, of blk] by simp
  show "is_l1 (ty(q := 2)) (active_block tt)" using pt_inv_active [OF inv] retype(1) q(2) by simp
  show "(ty(q := 2)) (p + j) = 1 \<longleftrightarrow> (ty(q := 2)) p = 1" if "l1_base_ok p" "j < 4" for p j
    using retype(2) [OF _ _ that] q(2) by simp
qed

lemma pt_inv_del_l2:
  assumes inv: "pt_inv P ty rc m tt" and q: "is_l2 ty q" "rc q = 0"
    and rc: "\<And>blk. blk < 2 ^ 20 \<Longrightarrow>
      unat (rc blk) \<le> unat (rc' blk) + table_refs l2_addr 512 l2_desc_refs m q blk"
  shows "pt_inv P (ty(q := 0)) rc' m tt"
proof (rule pt_inv_retype [OF inv])
  have ty: "ty q = 2" using q(1) by (simp add: is_l2_def)
  note retype = block_retype [OF inv, of q 0]
  have free: "refs P ty m q = 0 \<and> q \<notin> P"
    using pt_inv_no_refs [OF inv _ q(2)] q(1) by (simp add: is_l2_def l2_base_ok_def)
  show "refs P ty m blk = 0 \<and> blk \<notin> P" if "(ty(q := 0)) blk \<noteq> ty blk" for blk
    using that free by (auto split: if_splits)
  show "l1_ok (ty(q := 0)) (m (l1_addr p i))" if "is_l1 (ty(q := 0)) p" "\<not> is_l1 ty p" for p i
    using that retype(1) ty by simp
  show "l2_ok (ty(q := 0)) (m (l2_addr q' i))"
    if "is_l2 (ty(q := 0)) q'" "\<not> is_l2 ty q'" for q' i
    using that by (auto simp: is_l2_def split: if_splits)
  show "refs P (ty(q := 0)) m blk + of_bool (blk \<in> P) \<le> unat (rc' blk)" if blk: "blk < 2 ^ 20" for blk
  proof -
    have "{q'. is_l2 ty q' \<and> q' \<notin> P} = insert q {q'. is_l2 (ty(q := 0)) q' \<and> q' \<notin> P}"
      using q(1) free by (auto simp: is_l2_def)
    moreover have "\<not> is_l2 (ty(q := 0)) q" by (simp add: is_l2_def)
    ultimately have "refs P ty m blk
      = refs P (ty(q := 0)) m blk + table_refs l2_addr 512 l2_desc_refs m q blk"
      using retype(1) ty by (simp add: refs_def l2t.set_refs_insert)
    then show ?thesis using rc [OF blk] pt_inv_refs [OF inv blk] by linarith
  qed
  show "(ty(q := 0)) blk \<noteq> 3" for blk using pt_inv_types [OF inv, of blk] by simp
  show "is_l1 (ty(q := 0)) (active_block tt)" using pt_inv_active [OF inv] retype(1) ty by simp
  show "(ty(q := 0)) (p + j) = 1 \<longleftrightarrow> (ty(q := 0)) p = 1" if "l1_base_ok p" "j < 4" for p j
    using retype(2) [OF _ _ that] ty by simp
qed

lemma pt_inv_switch:
  "pt_inv P ty rc m tt \<Longrightarrow> is_l1 ty (active_block tt') \<Longrightarrow> pt_inv P ty rc m tt'"
  by (simp add: pt_inv_def)

text \<open>What the invariant is for: a block the guest can write holds no page table.\<close>

lemma pt_inv_section_writable:
  assumes "pt_inv P ty rc m tt" "is_l1 ty p" "i < 4096"
    and "m (l1_addr p i) AND DESC_TYPE_MASK = 2" "GET_L1_AP (l1_sec_of (m (l1_addr p i))) = 3"
    and "drop_bit 8 blk = sec_addr (l1_sec_of (m (l1_addr p i)))"
  shows "ty blk = 0"
  using pt_inv_l1 [OF assms(1-3)] assms(4-6) by (simp add: l1_ok_def)

lemma pt_inv_page_writable:
  assumes "pt_inv P ty rc m tt" "is_l2 ty q" "q \<notin> P" "i < 512"
    and "m (l2_addr q i) AND DESC_TYPE_MASK = 2 \<or> m (l2_addr q i) AND DESC_TYPE_MASK = 3"
    and "GET_L2_AP (l2_small_of (m (l2_addr q i))) = 3"
  shows "ty (pg_addr (l2_small_of (m (l2_addr q i)))) = 0"
  using pt_inv_l2 [OF assms(1-4)] assms(5,6) by (simp add: l2_ok_def)

end
