(* ===== verification/DmmuRefs.thy ===== *)
theory DmmuRefs
  imports Dmmu PtInv
begin

text \<open>
  The loops of \<^verbatim>\<open>dmmu.c\<close> that count references, as equations: each of them adjusts the
  reference count of every block by the number of references the table makes to it
  (\<open>table_refs\<close>), and changes nothing else.
\<close>

section \<open>Adjusting reference counts\<close>

text \<open>The hypervisor state with every reference count adjusted by a (30-bit) amount.\<close>

definition bft_adjust :: "(u32 \<Rightarrow> 30 word) \<Rightarrow> hv \<Rightarrow> hv" where
  "bft_adjust f s = s\<lparr>bft := \<lambda>blk. (bft s blk)\<lparr>refcnt := refcnt (bft s blk) + f blk\<rparr>\<rparr>"

lemma bft_adjust_sel [frame]:
  "mem (bft_adjust f s) = mem s" "flpt (bft_adjust f s) = flpt s" "ttbr0 (bft_adjust f s) = ttbr0 s"
  "btype (bft (bft_adjust f s) blk) = btype (bft s blk)"
  "refcnt (bft (bft_adjust f s) blk) = refcnt (bft s blk) + f blk"
  by (simp_all add: bft_adjust_def)

lemma bft_adjust_0: "bft_adjust (\<lambda>_. 0) s = s"
  by (simp add: bft_adjust_def)

lemma bft_adjust_adjust: "bft_adjust f (bft_adjust g s) = bft_adjust (\<lambda>b. g b + f b) s"
  by (simp add: bft_adjust_def add.assoc)

lemma bft_adjust_mem: "bft_adjust f (s\<lparr>mem := m\<rparr>) = (bft_adjust f s)\<lparr>mem := m\<rparr>"
  by (simp add: bft_adjust_def)

lemma update_inc: "entry_update blk inc_ref s = bft_adjust (\<lambda>b. of_bool (b = blk)) s"
  by (simp add: entry_update_def bft_adjust_def, rule hv.fold_congs, auto)

lemma update_dec: "entry_update blk dec_ref s = bft_adjust (\<lambda>b. - of_bool (b = blk)) s"
  by (simp add: entry_update_def bft_adjust_def, rule hv.fold_congs, auto)

text \<open>A loop each of whose iterations adjusts the counts adjusts them by the sum.\<close>

lemma for_loop_adjust:
  assumes "\<And>i t. i < n \<Longrightarrow> mem t = mem s \<Longrightarrow> (\<And>b. btype (bft t b) = btype (bft s b)) \<Longrightarrow>
    body i t = bft_adjust (f i) t"
  shows "for_loop n body s = bft_adjust (\<lambda>b. \<Sum>i<n. f i b) s"
  using assms
  by (induction n) (simp_all add: bft_adjust_0 bft_adjust_adjust frame)

text \<open>The 256 blocks of a section are those whose number starts with the section's number.\<close>

lemma section_block_iff:
  assumes "(a :: u32) < 2 ^ 12" "i < 256"
  shows "blk = push_bit 8 a OR of_nat i \<longleftrightarrow> drop_bit 8 blk = a \<and> i = unat (take_bit 8 blk)"
proof -
  have a: "unat a < 2 ^ 12" using assms(1) by (simp add: word_less_nat_alt)
  have i: "unat (of_nat i :: u32) = i"
    using assms(2) by (simp add: unsigned_of_nat take_bit_nat_eq_self)
  have "push_bit 8 a AND of_nat i = 0"
  proof (rule bit_word_eqI)
    fix k
    have "bit (of_nat i :: u32) k \<Longrightarrow> k < 8" using bit_of_nat_less [of i k 8] assms(2) by simp
    then show "bit (push_bit 8 a AND of_nat i) k = bit (0 :: u32) k"
      by (auto simp: bit_push_bit_iff bit_and_iff)
  qed
  moreover have "unat (push_bit 8 a) = unat a * 2 ^ 8" by (rule unat_push_bit) (use a in simp_all)
  ultimately have u: "unat (push_bit 8 a OR of_nat i) = 256 * unat a + i"
    using a i assms(2) by (simp add: unat_or_disjoint)
  have d: "unat (drop_bit 8 blk) = unat blk div 256"
    unfolding unat_drop_bit_eq by (simp add: drop_bit_eq_div)
  have t: "unat (take_bit 8 blk) = unat blk mod 256"
    unfolding unsigned_take_bit_eq by (simp add: take_bit_eq_mod)
  have "blk = push_bit 8 a OR of_nat i \<longleftrightarrow> unat blk = 256 * unat a + i"
    by (simp add: word_unat_eq_iff u)
  also have "\<dots> \<longleftrightarrow> unat blk div 256 = unat a \<and> i = unat blk mod 256"
  proof
    assume "unat blk div 256 = unat a \<and> i = unat blk mod 256"
    then show "unat blk = 256 * unat a + i" by (metis mult_div_mod_eq)
  qed (use assms(2) in auto)
  also have "\<dots> \<longleftrightarrow> drop_bit 8 blk = a \<and> i = unat (take_bit 8 blk)"
    using d t by (simp add: word_unat_eq_iff)
  finally show ?thesis .
qed

lemma section_block_sum:
  assumes "(a :: u32) < 2 ^ 12"
  shows "(\<Sum>i<256::nat. of_bool (blk = push_bit 8 a OR of_nat i)) = (of_bool (drop_bit 8 blk = a) :: 30 word)"
proof -
  have t: "unat (take_bit 8 blk) < 256" unfolding unsigned_take_bit_eq by (simp add: take_bit_eq_mod)
  have "(\<Sum>i<256::nat. of_bool (blk = push_bit 8 a OR of_nat i)) =
    (\<Sum>i<256::nat. if i = unat (take_bit 8 blk) then of_bool (drop_bit 8 blk = a) else (0 :: 30 word))"
    by (rule sum.cong) (auto simp: section_block_iff [OF assms])
  then show ?thesis using t by (simp add: sum.delta')
qed

lemma sec_addr_less: "sec_addr (l1_sec_of d) < 2 ^ 12"
  using bitfield_less [of 12 20 d] by (simp add: layout)

lemma section_start: "PA_TO_PH_BLOCK (START_PA_OF_SECTION (l1_sec_of d)) = push_bit 8 (sec_addr (l1_sec_of d))"
  by (simp add: desc_macros layout) (rule bit_word_eqI, auto simp: word_bits)

lemma section_refs_inc:
  "section_refs inc_ref (START_PA_OF_SECTION (l1_sec_of d)) s =
     bft_adjust (\<lambda>b. of_bool (drop_bit 8 b = sec_addr (l1_sec_of d))) s"
  unfolding section_refs_def section_start
  by (subst for_loop_adjust) (auto simp: update_inc section_block_sum [OF sec_addr_less])

lemma section_refs_dec:
  "section_refs dec_ref (START_PA_OF_SECTION (l1_sec_of d)) s =
     bft_adjust (\<lambda>b. - of_bool (drop_bit 8 b = sec_addr (l1_sec_of d))) s"
  unfolding section_refs_def section_start
  by (subst for_loop_adjust) (auto simp: update_dec sum_negf section_block_sum [OF sec_addr_less])

section \<open>Tables at an aligned base address\<close>

lemma block_less_nat: "unat (drop_bit 12 (w :: u32)) < 2 ^ 20"
proof -
  have "unat w < 2 ^ LENGTH(32)" by (rule unsigned_less)
  then show ?thesis by (simp add: unat_block)
qed

lemma block_less: "PA_TO_PH_BLOCK pa < 2 ^ 20"
  using block_less_nat [of pa] by (simp add: PA_TO_PH_BLOCK_def word_less_nat_alt)

lemma l1_aligned:
  assumes "base = base AND 0xFFFFC000"
  shows l1_aligned_ok: "l1_base_ok (PA_TO_PH_BLOCK base)"
    and l1_aligned_push: "push_bit 12 (PA_TO_PH_BLOCK base) = base"
    and l1_aligned_addr: "L1_IDX_TO_PA base (of_nat i) = l1_addr (PA_TO_PH_BLOCK base) i"
proof -
  have low: "\<not> bit base k" if "k < 14" for k
  proof -
    have "bit (base AND 0xFFFFC000) k = False" using that by (auto simp: high_masks bit_simps)
    then show ?thesis using assms by metis
  qed
  have ge: "14 \<le> k" if "bit base k" for k using low that not_less by blast
  have "drop_bit 12 base AND 3 = 0"
    by (unfold low_masks, rule bit_word_eqI) (auto simp: bit_simps low)
  then show "l1_base_ok (PA_TO_PH_BLOCK base)"
    using block_less [of base] by (simp add: l1_base_ok_def PA_TO_PH_BLOCK_def)
  have "base AND NOT (mask 12) = base"
    by (rule bit_word_eqI) (auto simp: bit_simps dest: ge)
  then show p: "push_bit 12 (PA_TO_PH_BLOCK base) = base"
    by (simp add: PA_TO_PH_BLOCK_def shl_drop_eq_and_not_mask)
  show "L1_IDX_TO_PA base (of_nat i) = l1_addr (PA_TO_PH_BLOCK base) i"
    by (simp add: l1_addr_def p)
qed


lemma l2_base_ok_block: "l2_base_ok (PA_TO_PH_BLOCK pa)"
  using block_less [of pa] by (simp add: l2_base_ok_def)

lemma l2_aligned_addr:
  assumes "base = base AND 0xFFFFF000"
  shows "L2_DESC_PA base (of_nat i) = l2_addr (PA_TO_PH_BLOCK base) i"
proof -
  have "push_bit 12 (PA_TO_PH_BLOCK base) = base AND NOT (mask 12)"
    by (simp add: PA_TO_PH_BLOCK_def shl_drop_eq_and_not_mask)
  then have "push_bit 12 (PA_TO_PH_BLOCK base) = base" using assms by (simp add: high_masks)
  then show ?thesis by (simp add: l2_addr_eq L2_DESC_PA_def)
qed

lemma l2_idx_addr: "L2_IDX_TO_PA base (of_nat i) = l2_addr (PA_TO_PH_BLOCK base) i"
  by (simp add: l2_addr_eq L2_IDX_TO_PA_def high_masks PA_TO_PH_BLOCK_def shl_drop_eq_and_not_mask)

lemma page_block: "PA_TO_PH_BLOCK (START_PA_OF_SPT (l2_small_of d)) = pg_addr (l2_small_of d)"
  by (simp add: desc_macros layout) (rule bit_word_eqI, auto simp: word_bits)

lemma pointed_block: "PA_TO_PH_BLOCK (PA_OF_POINTED_PT (l1_pt_of d)) = PT_PA_TO_PH_BLOCK (pt_addr (l1_pt_of d))"
  by (simp add: desc_macros layout) (rule bit_word_eqI, auto simp: word_bits)

lemma mem_read_pa [simp]: "mem_read c s (mmu_guest_pa_to_va pa c) = mem s pa"
  by (simp add: mem_read_def)

lemma mem_write_pa [simp]: "mem_write c (mmu_guest_pa_to_va pa c) v s = s\<lparr>mem := (mem s)(pa := v)\<rparr>"
  by (simp add: mem_write_def)

section \<open>The reference-counting loops\<close>

lemma of_nat_table_refs:
  "(of_nat (table_refs addr n dref m p b) :: 30 word) = (\<Sum>i<n. of_nat (dref (m (addr p i)) b))"
  by (simp add: table_refs_def)

theorem create_L1_refs_update_eq:
  assumes "base = base AND 0xFFFFC000"
  shows "create_L1_refs_update c base s =
    bft_adjust (\<lambda>b. of_nat (table_refs l1_addr 4096 l1_desc_refs (mem s) (PA_TO_PH_BLOCK base) b)) s"
  unfolding create_L1_refs_update_def of_nat_table_refs l1_aligned_addr [OF assms]
  by (rule for_loop_adjust)
    (auto simp: Let_def l1_desc_refs_def update_inc section_refs_inc bft_adjust_0)

theorem unmap_L1_pt_ref_update_eq:
  assumes "base = base AND 0xFFFFC000"
  shows "unmap_L1_pt_ref_update c base s =
    bft_adjust (\<lambda>b. - of_nat (table_refs l1_addr 4096 l1_desc_refs (mem s) (PA_TO_PH_BLOCK base) b)) s"
  unfolding unmap_L1_pt_ref_update_def of_nat_table_refs l1_aligned_addr [OF assms] sum_negf [symmetric]
  by (rule for_loop_adjust)
    (auto simp: Let_def l1_desc_refs_def update_dec section_refs_dec bft_adjust_0)

lemma l2_entry_inc:
  assumes "l2_ok (\<lambda>b. btype (bft t b)) d"
  shows "(if d AND DESC_TYPE_MASK = 2 \<or> d AND DESC_TYPE_MASK = 3 then
      (if btype (bft t (pg_addr (l2_small_of d))) = 0 \<and> GET_L2_AP (l2_small_of d) = 3
       then entry_update (pg_addr (l2_small_of d)) inc_ref t else t) else t)
    = bft_adjust (\<lambda>b. of_nat (l2_desc_refs d b)) t"
proof (cases "(d AND 3 = 2 \<or> d AND 3 = 3) \<and> GET_L2_AP (l2_small_of d) = 3")
  case True
  then have "btype (bft t (pg_addr (l2_small_of d))) = 0" using assms by (simp add: l2_ok_def)
  moreover have "l2_desc_refs d = (\<lambda>b. of_bool (b = pg_addr (l2_small_of d)))"
    using True by (simp add: l2_desc_refs_def fun_eq_iff)
  ultimately show ?thesis using True by (simp add: update_inc)
next
  case False
  then have "l2_desc_refs d = (\<lambda>b. 0)" by (auto simp: l2_desc_refs_def fun_eq_iff)
  then show ?thesis using False by (auto simp: bft_adjust_0)
qed

theorem create_L2_refs_update_eq:
  assumes "base = base AND 0xFFFFF000"
    and "\<And>i. i < 512 \<Longrightarrow> l2_ok (\<lambda>b. btype (bft s b)) (mem s (l2_addr (PA_TO_PH_BLOCK base) i))"
  shows "create_L2_refs_update c base s =
    bft_adjust (\<lambda>b. of_nat (table_refs l2_addr 512 l2_desc_refs (mem s) (PA_TO_PH_BLOCK base) b)) s"
  unfolding create_L2_refs_update_def of_nat_table_refs l2_aligned_addr [OF assms(1)]
proof (rule for_loop_adjust)
  fix i and t :: hv assume a: "i < (512 :: nat)" "mem t = mem s" "\<And>b. btype (bft t b) = btype (bft s b)"
  let ?d = "mem s (l2_addr (PA_TO_PH_BLOCK base) i)"
  show "(let l2_desc_pa_add = l2_addr (PA_TO_PH_BLOCK base) i; l2_desc_va_add = mmu_guest_pa_to_va l2_desc_pa_add c;
          l2_desc = mem_read c t l2_desc_va_add; l2_type = l2_desc AND 3; pg_desc = l2_small_of l2_desc
      in if l2_type = 2 \<or> l2_type = 3
         then let ap = GET_L2_AP pg_desc; ph_block = PA_TO_PH_BLOCK (START_PA_OF_SPT pg_desc);
                  bft_entry = get_bft_entry_by_block_idx t ph_block
              in if btype bft_entry = 0 \<and> ap = 3 then entry_update ph_block inc_ref t else t
         else t) = bft_adjust (\<lambda>b. of_nat (l2_desc_refs ?d b)) t"
    unfolding Let_def mem_read_pa page_block get_bft_entry_by_block_idx_def a(2)
    by (rule l2_entry_inc) (simp add: a assms(2))
qed

theorem unmap_L2_pt_ref_update_eq:
  assumes "base = base AND 0xFFFFF000"
  shows "unmap_L2_pt_ref_update c base s =
    bft_adjust (\<lambda>b. - of_nat (table_refs l2_addr 512 l2_desc_refs (mem s) (PA_TO_PH_BLOCK base) b)) s"
  unfolding unmap_L2_pt_ref_update_def of_nat_table_refs l2_aligned_addr [OF assms] sum_negf [symmetric]
  by (rule for_loop_adjust)
    (auto simp: Let_def l2_desc_refs_def update_dec bft_adjust_0 page_block GET_L2_AP_def)

section \<open>30-bit counts\<close>

lemma unat_add_ref:
  fixes x :: "30 word"
  assumes "unat x + k < 2 ^ 30"
  shows "unat (x + of_nat k) = unat x + k"
proof -
  have "unat (of_nat k :: 30 word) = k" using assms by (simp add: unsigned_of_nat take_bit_nat_eq_self)
  then show ?thesis using assms by (simp add: unat_word_ariths)
qed

lemma unat_sub_ref:
  fixes x :: "30 word"
  shows "unat x \<le> unat (x - of_nat k) + k"
proof -
  have "unat (of_nat k :: 30 word) \<le> k" by (simp add: unsigned_of_nat take_bit_eq_mod)
  moreover have "unat ((x - of_nat k) + of_nat k) \<le> unat (x - of_nat k) + unat (of_nat k :: 30 word)"
    by (simp only: unat_word_ariths mod_less_eq_dividend)
  ultimately show ?thesis by simp
qed
end
