(* ===== verification/DmmuInv.thy ===== *)
theory DmmuInv
  imports DmmuRefs
begin

text \<open>
  Every operation of \<^verbatim>\<open>dmmu.c\<close> keeps the invariant \<open>pt_inv\<close> of the page tables: what the
  descriptor checks establish, what each operation writes, and one theorem per operation.
\<close>

abbreviation types :: "hv \<Rightarrow> u32 \<Rightarrow> 2 word" where "types s \<equiv> \<lambda>b. btype (bft s b)"
abbreviation counts :: "hv \<Rightarrow> u32 \<Rightarrow> 30 word" where "counts s \<equiv> \<lambda>b. refcnt (bft s b)"

section \<open>What the descriptor checks establish\<close>

lemma and_2_cases: "(w :: u32) AND 2 = 0 \<or> w AND 2 = 2"
proof (cases "bit w 1")
  case True
  have "w AND 2 = 2" by (rule bit_word_eqI) (use True in \<open>auto simp: bit_and_iff bit_2_iff\<close>)
  then show ?thesis ..
next
  case False
  have "w AND 2 = 0" by (rule bit_word_eqI) (use False in \<open>auto simp: bit_and_iff bit_2_iff\<close>)
  then show ?thesis ..
qed

lemma bitfield_1_cases: "bitfield pos 1 w = 0 \<or> bitfield pos 1 w = 1"
  using bitfield_less [of 1 pos w] by (auto simp: word_less_nat_alt word_unat_eq_iff)

text \<open>A descriptor the check accepts is acceptable, and its targets have room for more references.\<close>

definition room :: "nat \<Rightarrow> (u32 \<Rightarrow> 30 word) \<Rightarrow> (u32 \<Rightarrow> nat) \<Rightarrow> bool" where
  "room k rc r \<longleftrightarrow> (\<forall>blk. r blk \<noteq> 0 \<longrightarrow> unat (rc blk) + k \<le> MAX_30BIT)"

lemma roomD: "room k rc r \<Longrightarrow> r b \<noteq> 0 \<Longrightarrow> unat (rc b) + k \<le> MAX_30BIT"
  by (simp add: room_def)

lemma room_mono: "room k rc r \<Longrightarrow> j \<le> k \<Longrightarrow> room j rc r"
  unfolding room_def by (meson add_left_mono le_trans)

lemma l1PT_checker_ok:
  assumes "l1PT_checker s d = 0" "d AND 3 = 1"
  shows "l1_ok (types s) d \<and> room 4096 (counts s) (l1_desc_refs d)"
  using assms and_2_cases [of "pt_addr (l1_pt_of d)"]
  by (auto simp: l1PT_checker_def Let_def l1_ok_def room_def l1_desc_refs_def
      get_bft_entry_by_block_idx_def split: if_splits)

lemma sec_block_check_eq:
  "sec_block_check s start base i e =
    (let blk = PA_TO_PH_BLOCK start OR of_nat i in
     if unat (counts s blk) \<ge> MAX_30BIT - 4096 then ERR_MMU_REF_OVERFLOW
     else if push_bit 12 blk AND L1_BASE_MASK = base then ERR_MMU_NEW_L1_NOW_WRITABLE
     else if types s blk \<noteq> 0 then ERR_MMU_PH_BLOCK_NOT_WRITABLE else e)"
  by (simp add: sec_block_check_def Let_def get_bft_entry_by_block_idx_def)

lemma sec_loop_ok:
  assumes "for_loop n (sec_block_check s start base) e = 0"
  shows "e = 0 \<and> (\<forall>i<n. let blk = PA_TO_PH_BLOCK start OR of_nat i in
    unat (counts s blk) + 4096 < MAX_30BIT \<and> push_bit 12 blk AND L1_BASE_MASK \<noteq> base \<and> types s blk = 0)"
  using assms by (induction n) (auto simp: sec_block_check_eq Let_def less_Suc_eq split: if_splits)

lemma l1Sec_checker_ok:
  assumes "l1Sec_checker c s d base = 0"
  shows "sec_secIndic (l1_sec_of d) = 0"
    and "GET_L1_AP (l1_sec_of d) = 3 \<Longrightarrow> drop_bit 8 blk = sec_addr (l1_sec_of d) \<Longrightarrow>
      unat (counts s blk) + 4096 < MAX_30BIT \<and> push_bit 12 blk AND L1_BASE_MASK \<noteq> base \<and> types s blk = 0"
proof -
  have "sec_secIndic (l1_sec_of d) \<noteq> 1"
    using assms by (auto simp: l1Sec_checker_def Let_def split: if_splits)
  then show "sec_secIndic (l1_sec_of d) = 0" using bitfield_1_cases [of 18 d] by (simp add: layout)
next
  assume ap: "GET_L1_AP (l1_sec_of d) = 3" and blk: "drop_bit 8 blk = sec_addr (l1_sec_of d)"
  from ap obtain e where "for_loop 256 (sec_block_check s (START_PA_OF_SECTION (l1_sec_of d)) base) e = 0"
    using assms by (auto simp: l1Sec_checker_def Let_def split: if_splits)
  then have all: "\<forall>i<256. let blk = PA_TO_PH_BLOCK (START_PA_OF_SECTION (l1_sec_of d)) OR of_nat i in
    unat (counts s blk) + 4096 < MAX_30BIT \<and> push_bit 12 blk AND L1_BASE_MASK \<noteq> base \<and> types s blk = 0"
    by (rule sec_loop_ok [THEN conjunct2])
  have i: "unat (take_bit 8 blk) < 256" unfolding unsigned_take_bit_eq by (simp add: take_bit_eq_mod)
  have "blk = PA_TO_PH_BLOCK (START_PA_OF_SECTION (l1_sec_of d)) OR of_nat (unat (take_bit 8 blk))"
    unfolding section_start using blk by (subst section_block_iff [OF sec_addr_less i]) simp
  then show "unat (counts s blk) + 4096 < MAX_30BIT \<and> push_bit 12 blk AND L1_BASE_MASK \<noteq> base \<and> types s blk = 0"
    using all i by (metis (no_types, lifting))
qed

lemma and_3_cases: "(w :: u32) AND 3 = 0 \<or> w AND 3 = 1 \<or> w AND 3 = 2 \<or> w AND 3 = 3"
proof -
  have "unat (w AND 3) < 4"
    using and_mask_less' [of 2 w] by (simp add: low_masks word_less_nat_alt)
  then have "unat (w AND 3) = 0 \<or> unat (w AND 3) = 1 \<or> unat (w AND 3) = 2 \<or> unat (w AND 3) = 3" by arith
  then show ?thesis by (simp add: word_unat_eq_iff)
qed

lemma l1_sec_ok:
  assumes "l1Sec_checker c s d base = 0" "d AND 3 = 2"
  shows "l1_ok (types s) d \<and> room 4096 (counts s) (l1_desc_refs d)"
  using l1Sec_checker_ok [OF assms(1)] assms(2)
  by (simp add: l1_ok_def room_def l1_desc_refs_def less_imp_le)

lemma l1_dispatcher_ok:
  assumes "l1Desc_validityChecker_dispatcher c s (d AND 3) d base = 0"
  shows "l1_ok (types s) d \<and> room 4096 (counts s) (l1_desc_refs d)"
proof -
  consider "d AND 3 = 0" | "d AND 3 = 1" | "d AND 3 = 2" | "d AND 3 = 3" using and_3_cases [of d] by blast
  then show ?thesis
  proof cases
    case 1
    then show ?thesis by (simp add: l1_ok_def room_def l1_desc_refs_def)
  next
    case 2
    then show ?thesis using assms l1PT_checker_ok by (simp add: l1Desc_validityChecker_dispatcher_def)
  next
    case 3
    then show ?thesis using assms l1_sec_ok by (simp add: l1Desc_validityChecker_dispatcher_def)
  next
    case 4
    then show ?thesis using assms by (simp add: l1Desc_validityChecker_dispatcher_def)
  qed
qed

lemma l1_dispatcher_new:
  assumes "l1Desc_validityChecker_dispatcher c s (d AND 3) d base = 0"
    and "l1_desc_refs d blk \<noteq> 0" "types s blk = 0"
  shows "push_bit 12 blk AND L1_BASE_MASK \<noteq> base"
proof -
  have ok: "l1_ok (types s) d" using l1_dispatcher_ok [OF assms(1)] by blast
  have "d AND 3 = 2 \<and> GET_L1_AP (l1_sec_of d) = 3 \<and> drop_bit 8 blk = sec_addr (l1_sec_of d)"
    using assms(2,3) ok by (auto simp: l1_desc_refs_def l1_ok_def split: if_splits)
  moreover from this have "l1Sec_checker c s d base = 0"
    using assms(1) by (simp add: l1Desc_validityChecker_dispatcher_def)
  ultimately show ?thesis using l1Sec_checker_ok(2) by blast
qed

section \<open>Descriptors the operations build\<close>

lemma and_or_distrib: "((a :: u32) OR b) AND m = (a AND m) OR (b AND m)"
  by (rule bit_word_eqI) (auto simp: bit_simps)

lemma and_and_mask: "((k :: u32) AND x) AND m = x AND (k AND m)"
  by (simp add: ac_simps)

lemma created_types:
  "CREATE_L1_SEC_DESC x y AND 3 = 2" "CREATE_L1_PT_DESC x y AND 3 = 1"
  unfolding desc_macros and_or_distrib and_and_mask by simp_all

lemma unmapped_type: "UNMAP_L1_ENTRY d AND 3 = 0" "UNMAP_L2_ENTRY d AND 3 = 0"
  by (simp_all add: desc_macros and.assoc)

lemma created_l2_type: "CREATE_L2_DESC x y AND 3 = 2 \<or> CREATE_L2_DESC x y AND 3 = 3"
proof -
  have "bit (CREATE_L2_DESC x y AND 3) 1"
    by (simp add: desc_macros bit_and_iff bit_or_iff bit_2_iff)
  then show ?thesis using and_3_cases [of "CREATE_L2_DESC x y"] by auto
qed

lemma attr_masks:
  "(0x000003FC :: u32) = push_bit 2 (mask 8)" "(0x00000FFD :: u32) = NOT (push_bit 1 1) AND mask 12"
  by (simp_all add: mask_eq_exp_minus_1)

lemma created_pt_block:
  "PT_PA_TO_PH_BLOCK (pt_addr (l1_pt_of (CREATE_L1_PT_DESC pa attrs))) = PA_TO_PH_BLOCK pa"
  unfolding desc_macros layout high_masks attr_masks
  by (rule bit_word_eqI) (auto simp: word_bits bit_1_iff dest: bit_imp_le_length)

lemma unmapped_refs: "d AND 3 = 0 \<Longrightarrow> l1_desc_refs d blk = 0" "d AND 3 = 0 \<Longrightarrow> l2_desc_refs d blk = 0"
  by (simp_all add: l1_desc_refs_def l2_desc_refs_def)

lemma unmapped_ok: "d AND 3 = 0 \<Longrightarrow> l1_ok ty d" "d AND 3 = 0 \<Longrightarrow> l2_ok ty d"
  by (simp_all add: l1_ok_def l2_ok_def)

lemma section_inc:
  assumes "d AND 3 = 2"
  shows "(if GET_L1_AP (l1_sec_of d) = 3 then section_refs inc_ref (START_PA_OF_SECTION (l1_sec_of d)) s else s)
    = bft_adjust (\<lambda>b. of_nat (l1_desc_refs d b)) s"
  using assms by (simp add: section_refs_inc l1_desc_refs_def bft_adjust_0)

lemma section_dec:
  assumes "d AND 3 = 2"
  shows "(if GET_L1_AP (l1_sec_of d) = 3 then section_refs dec_ref (START_PA_OF_SECTION (l1_sec_of d)) s else s)
    = bft_adjust (\<lambda>b. - of_nat (l1_desc_refs d b)) s"
  using assms by (simp add: section_refs_dec l1_desc_refs_def bft_adjust_0)

section \<open>The active table\<close>

lemma active_addr:
  shows "L1_IDX_TO_PA tt (VA_TO_L1_IDX va) = l1_addr (active_block tt) (unat (VA_TO_L1_IDX va))"
    and "unat (VA_TO_L1_IDX va) < 4096"
proof -
  have "push_bit 12 (PA_TO_PH_BLOCK (tt AND 0xFFFFC000)) = tt AND 0xFFFFC000"
    by (rule l1_aligned_push) (simp add: and.assoc)
  then have "push_bit 12 (active_block tt) AND 0xFFFFC000 = tt AND 0xFFFFC000"
    by (simp add: active_block_def PA_TO_PH_BLOCK_def and.assoc)
  then show "L1_IDX_TO_PA tt (VA_TO_L1_IDX va) = l1_addr (active_block tt) (unat (VA_TO_L1_IDX va))"
    by (simp add: l1_addr_def L1_IDX_TO_PA_def)
  have "unat va < 2 ^ LENGTH(32)" by (rule unsigned_less)
  then show "unat (VA_TO_L1_IDX va) < 4096"
    unfolding VA_TO_L1_IDX_def unat_drop_bit_eq by (simp add: drop_bit_eq_div)
qed

section \<open>The invariant of the hypervisor state\<close>

definition dmmu_inv :: "u32 set \<Rightarrow> hv \<Rightarrow> bool" where
  "dmmu_inv pinned s \<longleftrightarrow> pt_inv pinned (types s) (counts s) (mem s) (ttbr0 s)"

text \<open>
  The pinned tables are outside the memory the guest may name: the range check rejects every
  address in them.
\<close>

definition pinned_outside :: "hc_config \<Rightarrow> u32 set \<Rightarrow> bool" where
  "pinned_outside c pinned \<longleftrightarrow>
     (\<forall>pa. PA_TO_PH_BLOCK pa \<in> pinned \<longrightarrow> \<not> guest_pa_range_checker c pa PAGE_SIZE)"

lemma room_add:
  assumes "room k rc r" "r b \<le> k" "k \<le> 4096"
  shows "unat (rc b) + r b \<le> unat (rc b + of_nat (r b))"
proof (cases "r b = 0")
  case False
  then have "unat (rc b) + r b < 2 ^ 30" using roomD [OF assms(1) False] assms(2) by simp
  then show ?thesis by (simp add: unat_add_ref)
qed simp

lemma room_table:
  assumes "\<And>i. i < n \<Longrightarrow> room k rc (dref (m (addr p i)))"
  shows "room k rc (table_refs addr n dref m p)"
  unfolding room_def
proof (intro allI impI)
  fix b assume "table_refs addr n dref m p b \<noteq> 0"
  then obtain i where "i < n" "dref (m (addr p i)) b \<noteq> 0" by (auto simp: table_refs_def)
  then show "unat (rc b) + k \<le> MAX_30BIT" using roomD [OF assms] by blast
qed

lemma active_is_l1: "dmmu_inv P s \<Longrightarrow> is_l1 (types s) (active_block (ttbr0 s))"
  by (simp add: dmmu_inv_def pt_inv_active)

section \<open>Writing a first-level descriptor\<close>

lemma l1_desc_le_1: "l1_desc_refs d b \<le> 1" "l2_desc_refs d b \<le> 1"
  by (simp_all add: l1_desc_refs_def l2_desc_refs_def)

lemma write_l1_new:
  assumes inv: "dmmu_inv P s" and i: "i < 4096"
    and old: "mem s (l1_addr (active_block (ttbr0 s)) i) AND 3 = 0"
    and d: "l1_ok (types s) d" "room 1 (counts s) (l1_desc_refs d)"
  shows "dmmu_inv P ((bft_adjust (\<lambda>b. of_nat (l1_desc_refs d b)) s)
    \<lparr>mem := (mem s)(l1_addr (active_block (ttbr0 s)) i := d)\<rparr>)"
  unfolding dmmu_inv_def
proof (simp add: frame, rule pt_inv_l1_write [OF inv [unfolded dmmu_inv_def] active_is_l1 [OF inv] i d(1)])
  fix blk :: u32
  show "unat (counts s blk) + l1_desc_refs d blk
    \<le> unat (counts s blk + of_nat (l1_desc_refs d blk))
      + l1_desc_refs (mem s (l1_addr (active_block (ttbr0 s)) i)) blk"
    using room_add [OF d(2) l1_desc_le_1(1), of blk] by simp
qed

lemma write_l1_unmap:
  assumes inv: "dmmu_inv P s" and i: "i < 4096"
    and old: "d0 = mem s (l1_addr (active_block (ttbr0 s)) i)" and d: "d AND 3 = 0"
  shows "dmmu_inv P ((bft_adjust (\<lambda>b. - of_nat (l1_desc_refs d0 b)) s)
    \<lparr>mem := (mem s)(l1_addr (active_block (ttbr0 s)) i := d)\<rparr>)"
  unfolding dmmu_inv_def
proof (simp add: frame, rule pt_inv_l1_write [OF inv [unfolded dmmu_inv_def] active_is_l1 [OF inv] i unmapped_ok(1) [OF d]])
  fix blk :: u32
  show "unat (counts s blk) + l1_desc_refs d blk
    \<le> unat (counts s blk - of_nat (l1_desc_refs d0 blk))
      + l1_desc_refs (mem s (l1_addr (active_block (ttbr0 s)) i)) blk"
    using unat_sub_ref [of "counts s blk" "l1_desc_refs d0 blk"] unmapped_refs(1) [OF d] old by simp
qed

lemma dmmu_inv_counts:
  assumes "dmmu_inv P s" "\<And>b. unat (counts s b) \<le> unat (counts s b + f b)"
  shows "dmmu_inv P (bft_adjust f s)"
  unfolding dmmu_inv_def
  by (simp add: frame, rule pt_inv_outside [OF assms(1) [unfolded dmmu_inv_def]]) (simp_all add: assms(2))

theorem map_L1_section_inv:
  assumes "dmmu_inv P s"
  shows "dmmu_inv P (snd (dmmu_map_L1_section c va sec_base attrs s))"
proof -
  let ?i = "unat (VA_TO_L1_IDX va)" and ?d = "CREATE_L1_SEC_DESC sec_base attrs"
  have "dmmu_inv P ((bft_adjust (\<lambda>b. of_nat (l1_desc_refs ?d b)) s)
      \<lparr>mem := (mem s)(l1_addr (active_block (ttbr0 s)) ?i := ?d)\<rparr>)"
    if "mem s (l1_addr (active_block (ttbr0 s)) ?i) AND 3 = 0" "l1Sec_checker c s ?d (ttbr0 s) = 0"
  proof (rule write_l1_new [OF assms active_addr(2) that(1)])
    have "l1_ok (types s) ?d \<and> room 4096 (counts s) (l1_desc_refs ?d)"
      using l1_sec_ok [OF that(2)] by (simp add: created_types)
    then show "l1_ok (types s) ?d" "room 1 (counts s) (l1_desc_refs ?d)" by (auto intro: room_mono)
  qed
  then show ?thesis using assms
    by (simp add: dmmu_map_L1_section_def Let_def active_addr(1) section_inc created_types L1_TYPE_def frame)
qed

theorem l1_pt_map_inv:
  assumes "dmmu_inv P s"
  shows "dmmu_inv P (snd (dmmu_l1_pt_map c va l2_base attrs s))"
proof -
  let ?i = "unat (VA_TO_L1_IDX va)" and ?d = "CREATE_L1_PT_DESC l2_base attrs"
  have refs: "l1_desc_refs ?d = (\<lambda>b. of_bool (b = PA_TO_PH_BLOCK l2_base))"
    by (simp add: l1_desc_refs_def created_types created_pt_block fun_eq_iff)
  have inc: "entry_update (PA_TO_PH_BLOCK l2_base) inc_ref s = bft_adjust (\<lambda>b. of_nat (l1_desc_refs ?d b)) s"
    by (simp add: refs update_inc)
  have room: "room 1 (counts s) (l1_desc_refs ?d)"
    if "unat (counts s (PA_TO_PH_BLOCK l2_base)) \<noteq> MAX_30BIT"
  proof -
    have "unat (counts s (PA_TO_PH_BLOCK l2_base)) < 2 ^ LENGTH(30)" by (rule unsigned_less)
    then show ?thesis using that by (simp add: room_def refs)
  qed
  have new: "dmmu_inv P ((bft_adjust (\<lambda>b. of_nat (l1_desc_refs ?d b)) s)
      \<lparr>mem := (mem s)(l1_addr (active_block (ttbr0 s)) ?i := ?d)\<rparr>)"
    if "mem s (l1_addr (active_block (ttbr0 s)) ?i) AND 3 = 0" "pt_addr (l1_pt_of ?d) AND 2 \<noteq> 2"
      "types s (PA_TO_PH_BLOCK l2_base) = 2" "unat (counts s (PA_TO_PH_BLOCK l2_base)) \<noteq> MAX_30BIT"
  proof (rule write_l1_new [OF assms active_addr(2) that(1)])
    show "l1_ok (types s) ?d"
      using that(2,3) and_2_cases by (auto simp: l1_ok_def created_types created_pt_block)
    show "room 1 (counts s) (l1_desc_refs ?d)" by (rule room [OF that(4)])
  qed
  have leak: "dmmu_inv P (bft_adjust (\<lambda>b. of_nat (l1_desc_refs ?d b)) s)"
    if "unat (counts s (PA_TO_PH_BLOCK l2_base)) \<noteq> MAX_30BIT"
    by (rule dmmu_inv_counts [OF assms])
      (use room_add [OF room [OF that] l1_desc_le_1(1)] in \<open>auto dest: add_leD1\<close>)
  show ?thesis using assms new leak
    by (simp add: dmmu_l1_pt_map_def Let_def active_addr(1) inc frame get_bft_entry_by_block_idx_def)
qed

theorem unmap_L1_entry_inv:
  assumes "dmmu_inv P s"
  shows "dmmu_inv P (snd (dmmu_unmap_L1_pageTable_entry c va s))"
proof -
  let ?i = "unat (VA_TO_L1_IDX va)"
  let ?d = "mem s (l1_addr (active_block (ttbr0 s)) ?i)"
  have res: "dmmu_inv P ((bft_adjust (\<lambda>b. - of_nat (l1_desc_refs ?d b)) s)
      \<lparr>mem := (mem s)(l1_addr (active_block (ttbr0 s)) ?i := UNMAP_L1_ENTRY ?d)\<rparr>)"
    by (rule write_l1_unmap [OF assms active_addr(2) refl unmapped_type(1)])
  have pt: "entry_update (PT_PA_TO_PH_BLOCK (pt_addr (l1_pt_of ?d))) dec_ref s
      = bft_adjust (\<lambda>b. - of_nat (l1_desc_refs ?d b)) s" if "?d AND 3 = 1"
    using that by (simp add: update_dec l1_desc_refs_def)
  consider "?d AND 3 = 1" | "?d AND 3 = 2" | "?d AND 3 = 0 \<or> ?d AND 3 = 3"
    using and_3_cases [of ?d] by blast
  then show ?thesis
  proof cases
    case 1
    then show ?thesis using assms res
      by (simp add: dmmu_unmap_L1_pageTable_entry_def Let_def active_addr(1) L1_TYPE_def pointed_block pt frame)
  next
    case 2
    then show ?thesis using assms res
      by (simp add: dmmu_unmap_L1_pageTable_entry_def Let_def active_addr(1) L1_TYPE_def section_dec frame)
  next
    case 3
    then show ?thesis using assms
      by (auto simp add: dmmu_unmap_L1_pageTable_entry_def Let_def active_addr(1) L1_TYPE_def)
  qed
qed

section \<open>Switching and freeing first-level tables\<close>

lemma aligned_active: "base = base AND 0xFFFFC000 \<Longrightarrow> active_block base = PA_TO_PH_BLOCK base"
  by (simp add: active_block_def PA_TO_PH_BLOCK_def)

theorem switch_mm_inv:
  assumes "dmmu_inv P s"
  shows "dmmu_inv P (snd (dmmu_switch_mm c base s))"
proof -
  have "dmmu_inv P (s\<lparr>context_id := 0, ttbr0 := base\<rparr>)"
    if a: "base = base AND 0xFFFFC000" and "types s (PA_TO_PH_BLOCK base) = 1"
    using pt_inv_switch [OF assms [unfolded dmmu_inv_def], of base] aligned_active [OF a]
      l1_aligned_ok [OF a] that(2)
    by (simp add: dmmu_inv_def is_l1_def)
  then show ?thesis using assms
    by (simp add: dmmu_switch_mm_def get_bft_entry_by_block_idx_def)
qed

lemma set_type4_sel [frame]:
  "mem (set_type4 t p s) = mem s" "ttbr0 (set_type4 t p s) = ttbr0 s" "flpt (set_type4 t p s) = flpt s"
  "refcnt (bft (set_type4 t p s) b) = refcnt (bft s b)"
  by (simp_all add: set_type4_def entry_update_def)

lemma set_type4_types:
  assumes "l1_base_ok p"
  shows "types (set_type4 t p s) = group_upd (types s) p t"
  by (rule ext) (simp add: set_type4_def entry_update_def group_upd_updates [OF assms, symmetric])

theorem unmap_L1_pt_inv:
  assumes "dmmu_inv P s" and "ph_block0 = PA_TO_PH_BLOCK base"
  shows "dmmu_inv P (snd (dmmu_unmap_L1_pt c ph_block0 base s))"
proof -
  let ?p = "PA_TO_PH_BLOCK base"
  have "dmmu_inv P (set_type4 0 ?p (unmap_L1_pt_ref_update c base s))"
    if a: "base = base AND 0xFFFFC000" and t: "types s ?p = 1"
      and n: "ttbr0 s AND 0xFFFFC000 \<noteq> base AND 0xFFFFC000"
  proof -
    note ok = l1_aligned_ok [OF a]
    have "?p \<noteq> active_block (ttbr0 s)"
    proof
      assume e: "?p = active_block (ttbr0 s)"
      have tt: "ttbr0 s AND 0xFFFFC000 = (ttbr0 s AND 0xFFFFC000) AND 0xFFFFC000" by (simp add: and.assoc)
      have "push_bit 12 (PA_TO_PH_BLOCK (ttbr0 s AND 0xFFFFC000)) = push_bit 12 ?p"
        using e by (simp add: active_block_def PA_TO_PH_BLOCK_def)
      then show False using n l1_aligned_push [OF a] l1_aligned_push [OF tt] a by simp
    qed
    then show ?thesis
      unfolding dmmu_inv_def frame unmap_L1_pt_ref_update_eq [OF a] set_type4_types [OF ok]
      using t ok unat_sub_ref
      by (intro pt_inv_del_l1 [OF assms(1) [unfolded dmmu_inv_def]]) (simp_all add: is_l1_def)
  qed
  then show ?thesis using assms
    by (simp add: dmmu_unmap_L1_pt_def Let_def get_bft_entry_by_block_idx_def)
qed

section \<open>Creating first-level tables\<close>

text \<open>The copy of the reserved entries changes only the table's words.\<close>

lemma copy_reserved_aux:
  assumes a: "base = base AND 0xFFFFC000" and n: "n \<le> 4096"
  shows "let t = for_loop n (\<lambda>l1_idx s.
       let l1_desc = flpt s (of_nat l1_idx) in
       if L1_TYPE l1_desc \<noteq> UNMAPPED_ENTRY then
         (let l1_desc_pa_add = L1_IDX_TO_PA base (of_nat l1_idx);
              l1_desc_va_add = mmu_guest_pa_to_va l1_desc_pa_add c
          in mem_write c l1_desc_va_add l1_desc s)
       else s) s; p = PA_TO_PH_BLOCK base in
    bft t = bft s \<and> flpt t = flpt s \<and> ttbr0 t = ttbr0 s
    \<and> (\<forall>i<4096. mem t (l1_addr p i) =
          (if i < n \<and> L1_TYPE (flpt s (of_nat i)) \<noteq> 0 then flpt s (of_nat i) else mem s (l1_addr p i)))
    \<and> (\<forall>x. (\<forall>i<4096. x \<noteq> l1_addr p i) \<longrightarrow> mem t x = mem s x)"
  using n
proof (induction n)
  case (Suc n)
  then show ?case
    by (auto simp: Let_def l1_aligned_addr [OF a] l1_addr_inj [OF l1_aligned_ok [OF a] l1_aligned_ok [OF a]] less_Suc_eq)
qed (simp add: Let_def)

lemma copy_reserved_frame:
  assumes "base = base AND 0xFFFFC000"
  shows "bft (copy_reserved_entries c base s) = bft s"
    and "flpt (copy_reserved_entries c base s) = flpt s"
    and "ttbr0 (copy_reserved_entries c base s) = ttbr0 s"
    and "i < 4096 \<Longrightarrow> mem (copy_reserved_entries c base s) (l1_addr (PA_TO_PH_BLOCK base) i) =
      (if L1_TYPE (flpt s (of_nat i)) \<noteq> 0 then flpt s (of_nat i) else mem s (l1_addr (PA_TO_PH_BLOCK base) i))"
    and "(\<And>i. i < 4096 \<Longrightarrow> x \<noteq> l1_addr (PA_TO_PH_BLOCK base) i) \<Longrightarrow> mem (copy_reserved_entries c base s) x = mem s x"
  using copy_reserved_aux [OF assms order_refl, of c s] unfolding copy_reserved_entries_def Let_def
  by auto

lemma l1_sanity_checker_ok:
  assumes a: "base = base AND 0xFFFFC000" and "l1_sanity_checker c base s = 0" "i < 4096"
  shows "l1Desc_validityChecker_dispatcher c s (mem s (l1_addr (PA_TO_PH_BLOCK base) i) AND 3)
    (mem s (l1_addr (PA_TO_PH_BLOCK base) i)) base = 0"
  using assms(2,3) by (simp add: l1_sanity_checker_def first_error_0_iff Let_def l1_aligned_addr [OF a])

lemma push_group:
  assumes a: "base = base AND 0xFFFFC000" and b: "drop_bit 2 blk = drop_bit 2 (PA_TO_PH_BLOCK base)"
  shows "push_bit 12 blk AND L1_BASE_MASK = base"
proof -
  have "push_bit 12 blk AND NOT (mask 14) = push_bit 14 (drop_bit 2 blk)" for blk :: u32
  proof (rule bit_word_eqI)
    fix n :: nat
    have "n - 12 = 2 + (n - 14)" if "14 \<le> n" using that by arith
    then show "bit (push_bit 12 blk AND NOT (mask 14)) n = bit (push_bit 14 (drop_bit 2 blk)) n"
      if "n < LENGTH(32)" by (cases "14 \<le> n") (auto simp: bit_simps that)
  qed
  then have "push_bit 12 blk AND L1_BASE_MASK = push_bit 12 (PA_TO_PH_BLOCK base) AND L1_BASE_MASK"
    using b by (simp add: high_masks)
  then show ?thesis using a l1_aligned_push [OF a] by simp
qed

theorem create_L1_pt_inv:
  assumes inv: "dmmu_inv P s"
  shows "dmmu_inv P (snd (dmmu_create_L1_pt c base s))"
proof -
  let ?p = "PA_TO_PH_BLOCK base" and ?s1 = "copy_reserved_entries c base s"
  have res: "dmmu_inv P ?s1" "l1_sanity_checker c base ?s1 = 0 \<Longrightarrow>
      dmmu_inv P (set_type4 1 ?p (create_L1_refs_update c base ?s1))"
    if a: "base = base AND 0xFFFFC000" and free: "\<And>j. j < 4 \<Longrightarrow> types s (?p + j) = 0 \<and> counts s (?p + j) = 0"
  proof -
    note ok = l1_aligned_ok [OF a] and fr = copy_reserved_frame [OF a]
    show inv1: "dmmu_inv P ?s1"
      unfolding dmmu_inv_def fr
    proof (rule pt_inv_outside [OF inv [unfolded dmmu_inv_def]])
      fix x assume "table_word P (types s) x"
      then have t: "types s (drop_bit 12 x) = 1 \<or> types s (drop_bit 12 x) = 2"
        by (rule table_word_type [OF inv [unfolded dmmu_inv_def]])
      have "x \<noteq> l1_addr ?p i" if "i < 4096" for i
        using t free [OF l1_block_group(2) [OF ok that]] l1_block_group(1) [OF ok that] by auto
      then show "mem ?s1 x = mem s x" by (rule fr(5))
    qed simp
    assume chk: "l1_sanity_checker c base ?s1 = 0"
    show "dmmu_inv P (set_type4 1 ?p (create_L1_refs_update c base ?s1))"
      unfolding dmmu_inv_def frame create_L1_refs_update_eq [OF a] set_type4_types [OF ok] fr(1,3)
    proof (rule pt_inv_add_l1 [OF inv1 [unfolded dmmu_inv_def fr(1,3)] ok])
      fix i assume i: "i < (4096 :: nat)"
      let ?d = "mem ?s1 (l1_addr ?p i)"
      note c = l1_sanity_checker_ok [OF a chk i]
      have "l1_ok (types s) ?d" using l1_dispatcher_ok [OF c] by (simp add: fr)
      then show "l1_ok (group_upd (types s) ?p 1) ?d"
      proof (rule l1_ok_retype)
        fix blk assume "group_upd (types s) ?p 1 blk \<noteq> types s blk"
        then have g: "drop_bit 2 blk = drop_bit 2 ?p" by (simp add: group_upd_def split: if_splits)
        then have "types ?s1 blk = 0" using group_block [OF ok g] free by (auto simp: fr)
        then show "l1_desc_refs ?d blk = 0" using l1_dispatcher_new [OF c] push_group [OF a g] by blast
      qed
    next
      have "room 4096 (counts s) (table_refs l1_addr 4096 l1_desc_refs (mem ?s1) ?p)"
        by (rule room_table) (use l1_dispatcher_ok [OF l1_sanity_checker_ok [OF a chk]] in \<open>simp add: fr\<close>)
      then show "unat (counts s blk) + table_refs l1_addr 4096 l1_desc_refs (mem ?s1) ?p blk \<le>
        unat (counts s blk + of_nat (table_refs l1_addr 4096 l1_desc_refs (mem ?s1) ?p blk))" for blk
        by (rule room_add [OF _ l1t.table_refs_le order_refl])
    qed (use free in auto)
  qed
  have j4: "j < 4 \<Longrightarrow> j = 0 \<or> j = 1 \<or> j = 2 \<or> j = (3 :: u32)" for j
    by (auto simp: word_less_nat_alt word_unat_eq_iff)
  show ?thesis using inv
    by (auto simp: dmmu_create_L1_pt_def Let_def get_bft_entry_by_block_idx_def intro!: res dest!: j4)
qed

section \<open>Creating and freeing second-level tables\<close>

lemma l2_ap_le_3: "l2Pt_desc_ap c s base pg = 0 \<Longrightarrow> GET_L2_AP pg = 3 \<Longrightarrow>
    pg_addr pg \<noteq> drop_bit 12 base \<and> types s (PA_TO_PH_BLOCK (START_PA_OF_SPT pg)) = 0"
  by (auto simp: l2Pt_desc_ap_def GET_L2_AP_def Let_def get_bft_entry_by_block_idx_def split: if_splits)

lemma l2PT_checker_ok:
  assumes "l2PT_checker c s base d = 0"
  shows "l2_ok (types s) d \<and> room 1024 (counts s) (l2_desc_refs d)"
    and "l2_desc_refs d blk \<noteq> 0 \<Longrightarrow> blk \<noteq> PA_TO_PH_BLOCK base"
  using assms l2_ap_le_3 [of c s base "l2_small_of d"]
  by (auto simp: l2PT_checker_def Let_def l2_ok_def room_def l2_desc_refs_def page_block
      get_bft_entry_by_block_idx_def PA_TO_PH_BLOCK_def [of base] split: if_splits)

lemma l2_dispatcher_ok:
  assumes "l2Desc_validityChecker_dispatcher c s (d AND 3) d base = 0"
  shows "l2_ok (types s) d \<and> room 1024 (counts s) (l2_desc_refs d)"
    and "l2_desc_refs d blk \<noteq> 0 \<Longrightarrow> blk \<noteq> PA_TO_PH_BLOCK base"
proof -
  consider "d AND 3 = 0" | "l2PT_checker c s base d = 0"
    using assms and_3_cases [of d] by (auto simp: l2Desc_validityChecker_dispatcher_def split: if_splits)
  note c = this
  show "l2_ok (types s) d \<and> room 1024 (counts s) (l2_desc_refs d)"
    using l2PT_checker_ok(1) by (cases rule: c) (auto simp: unmapped_ok unmapped_refs room_def)
  show "l2_desc_refs d blk \<noteq> 0 \<Longrightarrow> blk \<noteq> PA_TO_PH_BLOCK base"
    using l2PT_checker_ok(2) by (cases rule: c) (auto simp: unmapped_refs)
qed

lemma l2_sanity_checker_ok:
  assumes a: "base = base AND 0xFFFFF000" and "l2_sanity_checker c base s = 0" "i < 512"
  shows "l2Desc_validityChecker_dispatcher c s (mem s (l2_addr (PA_TO_PH_BLOCK base) i) AND 3)
    (mem s (l2_addr (PA_TO_PH_BLOCK base) i)) base = 0"
  using assms(2,3) by (simp add: l2_sanity_checker_def first_error_0_iff Let_def l2_aligned_addr [OF a])

lemma set_type_sel [frame]:
  "mem (entry_update q (set_type t) s) = mem s" "ttbr0 (entry_update q (set_type t) s) = ttbr0 s"
  "refcnt (bft (entry_update q (set_type t) s) b) = refcnt (bft s b)"
  "types (entry_update q (set_type t) s) = (types s)(q := t)"
  by (auto simp: entry_update_def)

lemma word_2_cases: "(t :: 2 word) = 0 \<or> t = 1 \<or> t = 2 \<or> t = 3"
proof -
  have "unat t < 2 ^ LENGTH(2)" by (rule unsigned_less)
  then have "unat t = 0 \<or> unat t = 1 \<or> unat t = 2 \<or> unat t = 3" by auto
  then show ?thesis by (simp add: word_unat_eq_iff)
qed

theorem create_L2_pt_inv:
  assumes inv: "dmmu_inv P s"
  shows "dmmu_inv P (snd (dmmu_create_L2_pt c base s))"
proof -
  let ?q = "PA_TO_PH_BLOCK base"
  have res: "dmmu_inv P (create_L2_pgtype_update base (create_L2_refs_update c base s))"
    if a: "base = base AND 0xFFFFF000" and free: "types s ?q = 0" "counts s ?q = 0"
      and chk: "l2_sanity_checker c base s = 0"
  proof -
    note c = l2_dispatcher_ok [OF l2_sanity_checker_ok [OF a chk]]
    have ok: "l2_ok (types s) (mem s (l2_addr ?q i))" if "i < 512" for i using c(1) that by blast
    have r: "room 512 (counts s) (table_refs l2_addr 512 l2_desc_refs (mem s) ?q)"
      by (rule room_table, rule room_mono [of 1024]) (use c(1) in auto)
    have eq: "create_L2_refs_update c base s =
      bft_adjust (\<lambda>b. of_nat (table_refs l2_addr 512 l2_desc_refs (mem s) ?q b)) s"
      by (rule create_L2_refs_update_eq [OF a]) (rule ok)
    show ?thesis
      unfolding dmmu_inv_def frame create_L2_pgtype_update_def eq
    proof (rule pt_inv_add_l2 [OF inv [unfolded dmmu_inv_def] l2_base_ok_block free])
      show "l2_ok ((types s)(?q := 2)) (mem s (l2_addr ?q i))" if "i < 512" for i
        using c(2) [OF that, of ?q] by (intro l2_ok_retype [OF ok [OF that]]) (auto split: if_splits)
      show "unat (counts s blk) + table_refs l2_addr 512 l2_desc_refs (mem s) ?q blk \<le>
        unat (counts s blk + of_nat (table_refs l2_addr 512 l2_desc_refs (mem s) ?q blk))" for blk
        by (rule room_add [OF r l2t.table_refs_le]) simp
    qed
  qed
  have "types s ?q = 0" if "types s ?q \<noteq> 1" "types s ?q \<noteq> 2"
    using that pt_inv_types [OF inv [unfolded dmmu_inv_def], of ?q] word_2_cases [of "types s ?q"] by blast
  then show ?thesis using inv
    by (auto simp: dmmu_create_L2_pt_def Let_def get_bft_entry_by_block_idx_def intro!: res)
qed

theorem unmap_L2_pt_inv:
  assumes inv: "dmmu_inv P s"
  shows "dmmu_inv P (snd (dmmu_unmap_L2_pt c base s))"
proof -
  let ?q = "PA_TO_PH_BLOCK base"
  have "dmmu_inv P (entry_update ?q (set_type 0) (unmap_L2_pt_ref_update c base s))"
    if a: "base = base AND 0xFFFFF000" and t: "types s ?q = 2" "counts s ?q = 0"
    unfolding dmmu_inv_def frame unmap_L2_pt_ref_update_eq [OF a]
    using t unat_sub_ref
    by (intro pt_inv_del_l2 [OF inv [unfolded dmmu_inv_def]])
      (simp_all add: is_l2_def l2_base_ok_block)
  then show ?thesis using inv
    by (auto simp: dmmu_unmap_L2_pt_def Let_def get_bft_entry_by_block_idx_def word_gt_0)
qed

section \<open>Editing second-level tables\<close>

lemma l2_idx_addr_word:
  "idx < 1024 \<Longrightarrow> L2_IDX_TO_PA base idx = l2_addr (PA_TO_PH_BLOCK base) (unat idx)"
  using l2_idx_addr [of base "unat idx"] by simp

text \<open>
  Creation validates and counts the first half of a table only: the words of the second half
  belong to no accounted table.
\<close>

lemma l2_addr_table_word:
  assumes inv: "pt_inv P ty rc m tt" and q: "is_l2 ty q" "i < 1024" "\<not> i < 512"
  shows "\<not> table_word P ty (l2_addr q i)"
proof
  assume "table_word P ty (l2_addr q i)"
  then consider (1) p j where "is_l1 ty p" "j < 4096" "l2_addr q i = l1_addr p j"
    | (2) q' j where "is_l2 ty q'" "j < 512" "l2_addr q i = l2_addr q' j"
    unfolding table_word_def by blast
  then show False
  proof cases
    case 1
    then show False using l1_l2_disjoint [OF inv 1(1,2) q(1,2)] by simp
  next
    case 2
    then show False using l2_addr_inj [of q q' i j] q by (simp add: is_l2_def)
  qed
qed

text \<open>
  The descriptor that is built names the page whose count is incremented, and the check left
  room for that reference.
\<close>

lemma created_page_block: "pg_addr (l2_small_of (CREATE_L2_DESC page attrs)) = PA_TO_PH_BLOCK page"
  unfolding desc_macros layout high_masks attr_masks
  by (rule bit_word_eqI) (auto simp: word_bits bit_1_iff dest: bit_imp_le_length)

lemma map_entry_inc:
  "(if GET_L2_AP (l2_small_of (CREATE_L2_DESC page attrs)) = 3
    then entry_update (PA_TO_PH_BLOCK page) inc_ref s else s)
   = bft_adjust (\<lambda>b. of_nat (l2_desc_refs (CREATE_L2_DESC page attrs) b)) s"
  using created_l2_type [of page attrs]
  by (auto simp: l2_desc_refs_def created_page_block update_inc bft_adjust_0)

lemma write_l2_new:
  assumes inv: "dmmu_inv P s" and q: "is_l2 (types s) q" "q \<notin> P" and i: "i < 1024"
    and d: "l2_ok (types s) d" "room 1024 (counts s) (l2_desc_refs d)"
  shows "dmmu_inv P ((bft_adjust (\<lambda>b. of_nat (l2_desc_refs d b)) s)\<lparr>mem := (mem s)(l2_addr q i := d)\<rparr>)"
proof -
  note pinv = inv [unfolded dmmu_inv_def]
  have le: "l2_desc_refs d b \<le> 1024" for b using l1_desc_le_1(2) [of d b] by simp
  have add: "unat (counts s b) + l2_desc_refs d b \<le> unat (counts s b + of_nat (l2_desc_refs d b))" for b
    by (rule room_add [OF d(2) le]) simp
  show ?thesis
  proof (cases "i < 512")
    case True
    show ?thesis unfolding dmmu_inv_def
      by (simp add: frame, rule pt_inv_l2_write [OF pinv q True d(1)]) (use add in \<open>simp add: trans_le_add1\<close>)
  next
    case False
    note n = l2_addr_table_word [OF pinv q(1) i False]
    show ?thesis unfolding dmmu_inv_def
      by (simp add: frame, rule pt_inv_outside [OF pinv]) (use n add_leD1 [OF add] in auto)
  qed
qed

text \<open>Mapping a page, writable or not, at any index inside the table.\<close>

theorem l2_map_entry_inv:
  assumes inv: "dmmu_inv P s" and out: "pinned_outside c P" and idx: "idx < 1024"
  shows "dmmu_inv P (snd (dmmu_l2_map_entry c base idx page attrs s))"
proof -
  let ?q = "PA_TO_PH_BLOCK base" and ?d = "CREATE_L2_DESC page attrs"
  have i: "unat idx < 1024" using idx by (simp add: word_less_nat_alt)
  have "dmmu_inv P ((bft_adjust (\<lambda>b. of_nat (l2_desc_refs ?d b)) s)\<lparr>mem := (mem s)(l2_addr ?q (unat idx) := ?d)\<rparr>)"
    if r: "guest_pa_range_checker c base PAGE_SIZE" and t: "types s ?q = 2"
      and chk: "l2PT_checker c s base ?d = 0"
  proof (rule write_l2_new [OF inv _ _ i])
    show "is_l2 (types s) ?q" "?q \<notin> P"
      using t r out l2_base_ok_block by (auto simp: is_l2_def pinned_outside_def)
    show "l2_ok (types s) ?d" "room 1024 (counts s) (l2_desc_refs ?d)"
      using l2PT_checker_ok(1) [OF chk] by simp_all
  qed
  then show ?thesis using inv
    by (simp add: dmmu_l2_map_entry_def Let_def get_bft_entry_by_block_idx_def l2_idx_addr_word [OF idx]
        map_entry_inc frame)
qed

theorem l2_unmap_entry_inv:
  assumes inv: "dmmu_inv P s" and out: "pinned_outside c P" and idx: "idx < 512"
  shows "dmmu_inv P (snd (dmmu_l2_unmap_entry c base idx s))"
proof -
  let ?q = "PA_TO_PH_BLOCK base"
  let ?d = "mem s (l2_addr ?q (unat idx))"
  have i: "unat idx < 512" using idx by (simp add: word_less_nat_alt)
  have idx': "idx < 1024" using idx by (simp add: word_less_nat_alt)
  have res: "dmmu_inv P ((bft_adjust (\<lambda>b. - of_nat (l2_desc_refs ?d b)) s)
      \<lparr>mem := (mem s)(l2_addr ?q (unat idx) := UNMAP_L2_ENTRY ?d)\<rparr>)"
    if r: "guest_pa_range_checker c base PAGE_SIZE" and t: "types s ?q = 2"
  proof -
    have q: "is_l2 (types s) ?q" "?q \<notin> P"
      using t r out l2_base_ok_block by (auto simp: is_l2_def pinned_outside_def)
    show ?thesis unfolding dmmu_inv_def
    proof (simp add: frame, rule pt_inv_l2_write [OF inv [unfolded dmmu_inv_def] q i unmapped_ok(2) [OF unmapped_type(2)]])
      fix blk
      show "unat (counts s blk) + l2_desc_refs (UNMAP_L2_ENTRY ?d) blk
        \<le> unat (counts s blk - of_nat (l2_desc_refs ?d blk)) + l2_desc_refs ?d blk"
        using unat_sub_ref [of "counts s blk"] unmapped_refs(2) [OF unmapped_type(2)] by simp
    qed
  qed
  have dec: "(if GET_L2_AP (l2_small_of ?d) = 3 then entry_update (PA_TO_PH_BLOCK (START_PA_OF_SPT (l2_small_of ?d))) dec_ref s else s)
      = bft_adjust (\<lambda>b. - of_nat (l2_desc_refs ?d b)) s" if "?d AND 3 = 2 \<or> ?d AND 3 = 3"
    using that by (auto simp: update_dec l2_desc_refs_def bft_adjust_0 page_block)
  show ?thesis
  proof (cases "guest_pa_range_checker c base PAGE_SIZE \<and> types s ?q = 2 \<and> (?d AND 3 = 2 \<or> ?d AND 3 = 3)")
    case True
    then have "snd (dmmu_l2_unmap_entry c base idx s) = (bft_adjust (\<lambda>b. - of_nat (l2_desc_refs ?d b)) s)
        \<lparr>mem := (mem s)(l2_addr ?q (unat idx) := UNMAP_L2_ENTRY ?d)\<rparr>"
      by (elim conjE disjE) (simp_all add: dmmu_l2_unmap_entry_def Let_def get_bft_entry_by_block_idx_def
        l2_idx_addr_word [OF idx'] page_block dec frame GET_L2_AP_def [symmetric] split del: if_split)
    then show ?thesis using res True by simp
  next
    case False
    then show ?thesis using inv
      by (auto simp: dmmu_l2_unmap_entry_def Let_def get_bft_entry_by_block_idx_def
        l2_idx_addr_word [OF idx'])
  qed
qed
end
