(* ===== verification/DmmuSystem.thy ===== *)
theory DmmuSystem
  imports DmmuInv
begin

text \<open>
  The interface \<^verbatim>\<open>dmmu_handler\<close> as a whole and the system around it: a guest that makes requests
  and writes through its mappings. The invariant holds in every reachable state, and with it the
  isolation of the page tables; then the round trips of the operations, their error paths, and the
  requests for which the code fails (with a concrete attack).
\<close>

section \<open>The whole interface\<close>

text \<open>
  A request is \<open>permitted\<close> when it does not run into the two flaws of the code: the indices of a
  second-level request are not bounded by the code, so the index must be inside the table (map) and
  at a descriptor the table's creation checked (unmap); and a free request uses a variable that
  \<^verbatim>\<open>dmmu_unmap_L1_pt\<close> does not initialise, which must happen to hold the block of the table.
\<close>

definition permitted :: "u32 \<Rightarrow> u32 \<Rightarrow> u32 \<Rightarrow> u32 \<Rightarrow> bool" where
  "permitted ph_block0 p03 p1 p2 =
     (case dmmu_command_of (p03 AND 0xF) of
        Some CMD_MAP_L2_ENTRY \<Rightarrow> drop_bit 20 p2 < 1024
      | Some CMD_UNMAP_L2_ENTRY \<Rightarrow> p2 < 512
      | Some CMD_FREE_L1 \<Rightarrow> ph_block0 = PA_TO_PH_BLOCK p1
      | _ \<Rightarrow> True)"

lemma handler_inv:
  assumes "dmmu_inv P s" "pinned_outside c P" "permitted ph_block0 p03 p1 p2"
  shows "dmmu_inv P (snd (dmmu_handler c ph_block0 p03 p1 p2 s))"
proof (cases "dmmu_command_of (p03 AND 0xF)")
  case None
  then show ?thesis using assms(1) by (simp add: dmmu_handler_def Let_def)
next
  case (Some cmd)
  then show ?thesis using assms
    by (cases cmd) (simp_all add: dmmu_handler_def Let_def permitted_def create_L1_pt_inv unmap_L1_pt_inv
      map_L1_section_inv l1_pt_map_inv unmap_L1_entry_inv create_L2_pt_inv unmap_L2_pt_inv
      l2_map_entry_inv l2_unmap_entry_inv switch_mm_inv)
qed

section \<open>What the guest can write\<close>

text \<open>
  A block is writable for the guest when the active first-level table maps it writable (\<open>AP = 3\<close>)
  by a section, or by a page of a second-level table that is not pinned. Domains are left out:
  they only take permissions away.
\<close>

definition l1_maps :: "hv \<Rightarrow> u32 \<Rightarrow> u32 \<Rightarrow> bool" where
  "l1_maps s d blk \<longleftrightarrow> d AND DESC_TYPE_MASK = 2 \<and> GET_L1_AP (l1_sec_of d) = 3
     \<and> drop_bit 8 blk = sec_addr (l1_sec_of d)"

definition l2_maps :: "u32 \<Rightarrow> u32 \<Rightarrow> bool" where
  "l2_maps e blk \<longleftrightarrow> (e AND DESC_TYPE_MASK = 2 \<or> e AND DESC_TYPE_MASK = 3)
     \<and> GET_L2_AP (l2_small_of e) = 3 \<and> pg_addr (l2_small_of e) = blk"

definition walk_l2 :: "u32 \<Rightarrow> nat \<Rightarrow> u32" where
  "walk_l2 d j = PA_OF_POINTED_PT (l1_pt_of d) OR push_bit 2 (of_nat j)"

definition guest_writable :: "u32 set \<Rightarrow> hv \<Rightarrow> u32 \<Rightarrow> bool" where
  "guest_writable pinned s blk \<longleftrightarrow>
     (\<exists>i<4096. let d = mem s (l1_addr (active_block (ttbr0 s)) i) in
        l1_maps s d blk
        \<or> (d AND DESC_TYPE_MASK = 1 \<and> PT_PA_TO_PH_BLOCK (pt_addr (l1_pt_of d)) \<notin> pinned
           \<and> (\<exists>j<256. l2_maps (mem s (walk_l2 d j)) blk)))"

text \<open>The hardware's walk through an accepted pointer reads the checked half of the table.\<close>

lemma walk_l2_addr:
  assumes "pt_addr (l1_pt_of d) AND 2 = 0" "j < 256"
  shows "\<exists>i<512. walk_l2 d j = l2_addr (PT_PA_TO_PH_BLOCK (pt_addr (l1_pt_of d))) i"
proof -
  let ?a = "pt_addr (l1_pt_of d)"
  define i where "i = 256 * unat (take_bit 1 ?a) + j"
  have j8: "bit (of_nat j :: u32) k \<Longrightarrow> k < 8" for k using bit_of_nat_less [of j k 8] assms(2) by simp
  have b: "unat (take_bit 1 ?a) < 2" unfolding unsigned_take_bit_eq by simp
  then have i: "i < 512" using assms(2) by (simp add: i_def)
  have "(of_nat i :: u32) = push_bit 8 (take_bit 1 ?a) OR of_nat j"
  proof -
    have d: "push_bit 8 (take_bit 1 ?a) AND of_nat j = 0"
      by (rule bit_word_eqI) (auto simp: bit_and_iff bit_push_bit_iff dest: j8)
    have "(of_nat i :: u32) = push_bit 8 (take_bit 1 ?a) + of_nat j"
      by (simp add: i_def push_bit_eq_mult mult.commute)
    then show ?thesis unfolding disjunctive_add_eq_or [OF d] .
  qed
  note oi = this
  have n2: "\<not> bit ?a 1"
  proof
    assume "bit ?a 1"
    then have "bit (?a AND 2) 1" by (simp add: bit_and_iff bit_2_iff)
    then show False using assms(1) by simp
  qed
  have "walk_l2 d j = l2_addr (PT_PA_TO_PH_BLOCK ?a) i"
  proof (rule bit_word_eqI)
    fix k assume k: "k < LENGTH(32)"
    have eq: "bit (walk_l2 d j) k \<longleftrightarrow> (10 \<le> k \<and> bit ?a (k - 10)) \<or> (2 \<le> k \<and> bit (of_nat j :: u32) (k - 2))"
      using k by (auto simp: walk_l2_def PA_OF_POINTED_PT_def bit_or_iff bit_push_bit_iff)
    have eq2: "bit (l2_addr (PT_PA_TO_PH_BLOCK ?a) i) k \<longleftrightarrow>
      (12 \<le> k \<and> bit ?a (2 + (k - 12))) \<or> (k = 10 \<and> bit ?a 0) \<or> (2 \<le> k \<and> bit (of_nat j :: u32) (k - 2))"
      using k by (auto simp: l2_addr_eq oi PT_PA_TO_PH_BLOCK_def bit_or_iff bit_push_bit_iff bit_drop_bit_eq bit_take_bit_iff bit_0)
    consider "k < 10" | "k = 10" | "k = 11" | "12 \<le> k" by arith
    then show "bit (walk_l2 d j) k = bit (l2_addr (PT_PA_TO_PH_BLOCK ?a) i) k"
    proof cases
      case 2
      show ?thesis unfolding eq eq2 using 2 by (auto simp: bit_0)
    next
      case 3
      show ?thesis unfolding eq eq2 using 3 n2 by auto
    next
      case 4
      then have "2 + (k - 12) = k - 10" by arith
      then show ?thesis unfolding eq eq2 using 4 by auto
    qed (unfold eq eq2, auto)
  qed
  then show ?thesis using i by blast
qed

lemma writable_is_data:
  assumes inv: "dmmu_inv P s" and w: "guest_writable P s blk"
  shows "types s blk = 0"
proof -
  note pinv = inv [unfolded dmmu_inv_def]
  obtain i where i: "i < 4096" and d: "let d = mem s (l1_addr (active_block (ttbr0 s)) i) in
        l1_maps s d blk
        \<or> (d AND 3 = 1 \<and> PT_PA_TO_PH_BLOCK (pt_addr (l1_pt_of d)) \<notin> P
           \<and> (\<exists>j<256. l2_maps (mem s (walk_l2 d j)) blk))"
    using w unfolding guest_writable_def by blast
  let ?d = "mem s (l1_addr (active_block (ttbr0 s)) i)"
  have ok: "l1_ok (types s) ?d" by (rule pt_inv_l1 [OF pinv active_is_l1 [OF inv] i])
  show ?thesis
  proof (cases "l1_maps s ?d blk")
    case True
    then show ?thesis using ok by (simp add: l1_ok_def l1_maps_def)
  next
    case False
    let ?q = "PT_PA_TO_PH_BLOCK (pt_addr (l1_pt_of ?d))"
    from False obtain j where pt: "?d AND 3 = 1" "?q \<notin> P" and j: "j < 256" "l2_maps (mem s (walk_l2 ?d j)) blk"
      using d by (auto simp: Let_def)
    have q: "types s ?q = 2" "pt_addr (l1_pt_of ?d) AND 2 = 0" using ok pt(1) by (simp_all add: l1_ok_def)
    have "?q < 2 ^ 20" using block_less [of "PA_OF_POINTED_PT (l1_pt_of ?d)"] by (simp add: pointed_block)
    then have l2: "is_l2 (types s) ?q" using q(1) by (simp add: is_l2_def l2_base_ok_def)
    obtain k where k: "k < 512" "walk_l2 ?d j = l2_addr ?q k" using walk_l2_addr [OF q(2) j(1)] by blast
    show ?thesis
      using pt_inv_l2 [OF pinv l2 pt(2) k(1)] j(2) k(2) by (auto simp: l2_maps_def l2_ok_def)
  qed
qed

section \<open>The system: a guest that writes memory and makes requests\<close>

text \<open>
  One step is a permitted request, with any value in the uninitialised variable, or a write of
  one word to a block the guest can write.
\<close>

inductive sys_step :: "hc_config \<Rightarrow> u32 set \<Rightarrow> hv \<Rightarrow> hv \<Rightarrow> bool" for c P where
  request: "permitted ph_block0 p03 p1 p2 \<Longrightarrow>
    sys_step c P s (snd (dmmu_handler c ph_block0 p03 p1 p2 s))"
| store: "guest_writable P s (PA_TO_PH_BLOCK a) \<Longrightarrow> sys_step c P s (s\<lparr>mem := (mem s)(a := v)\<rparr>)"

inductive reachable :: "hc_config \<Rightarrow> u32 set \<Rightarrow> hv \<Rightarrow> hv \<Rightarrow> bool" for c P s0 where
  start: "reachable c P s0 s0"
| step: "reachable c P s0 s \<Longrightarrow> sys_step c P s s' \<Longrightarrow> reachable c P s0 s'"

inductive_cases sys_stepE: "sys_step c P s s'"

lemma store_inv:
  assumes "dmmu_inv P s" "guest_writable P s (PA_TO_PH_BLOCK a)"
  shows "dmmu_inv P (s\<lparr>mem := (mem s)(a := v)\<rparr>)"
  using pt_inv_data_write [OF assms(1) [unfolded dmmu_inv_def], of a v] writable_is_data [OF assms]
  by (simp add: dmmu_inv_def PA_TO_PH_BLOCK_def)

lemma sys_step_inv:
  assumes "sys_step c P s s'" "pinned_outside c P" "dmmu_inv P s"
  shows "dmmu_inv P s'"
  using assms by (cases rule: sys_step.cases) (auto intro: handler_inv store_inv)

lemma reachable_inv:
  assumes "reachable c P s0 s" "pinned_outside c P" "dmmu_inv P s0"
  shows "dmmu_inv P s"
  using assms by (induction rule: reachable.induct) (auto intro: sys_step_inv)

section \<open>A concrete system\<close>

text \<open>
  A guest of 16 MiB at physical address 0 configured by \<^verbatim>\<open>minimal_config\<close>: an empty first-level
  table at block \<open>0x200\<close>, active, and an empty second-level table at block \<open>0x210\<close>.
\<close>

definition demo_config :: hc_config where
  "demo_config = minimal_config \<lparr>pstart = 0, vstart = 0, psize = 0x1000000, fwsize = 0, offset = 0\<rparr>"

definition demo_state :: hv where
  "demo_state = \<lparr>bft = \<lambda>b. \<lparr>refcnt = 0, btype = if drop_bit 2 b = 0x80 then 1 else if b = 0x210 then 2 else 0\<rparr>,
     mem = \<lambda>_. 0, flpt = \<lambda>_. 0, ttbr0 = 0x200000, context_id = 0, dacr = 0\<rparr>"

lemma demo_types: "btype (bft demo_state b) = (if drop_bit 2 b = 0x80 then 1 else if b = 0x210 then 2 else 0)"
  and demo_rest: "refcnt (bft demo_state b) = 0" "mem demo_state = (\<lambda>_. 0)" "ttbr0 demo_state = 0x200000"
    "flpt demo_state = (\<lambda>_. 0)"
  by (simp_all add: demo_state_def)

lemma demo_inv: "dmmu_inv {} demo_state"
  unfolding dmmu_inv_def demo_rest
proof (rule pt_invI)
  fix p j :: u32 assume a: "l1_base_ok p" "j < 4"
  show "types demo_state (p + j) = 1 \<longleftrightarrow> types demo_state p = 1"
    using drop2_group [OF a] by (simp add: demo_types)
next
  fix blk :: u32
  have "l1_desc_refs 0 blk = 0" "l2_desc_refs 0 blk = 0" by (simp_all add: unmapped_refs)
  then show "refs {} (types demo_state) (\<lambda>_. 0) blk + of_bool (blk \<in> {}) \<le> unat (0 :: 30 word)"
    by (simp add: refs_def set_refs_def table_refs_def)
qed (simp_all add: unmapped_ok is_l1_def l1_base_ok_def active_block_def demo_types)

lemma demo_pinned: "pinned_outside c {}"
  by (simp add: pinned_outside_def)

section \<open>Round trips and errors\<close>

lemma bft_adjust_cancel: "bft_adjust (\<lambda>b. - f b) (bft_adjust f s) = s"
  by (simp add: bft_adjust_adjust bft_adjust_0)

lemma bft_adjust_set_type:
  "bft_adjust f (entry_update q (set_type t) s) = entry_update q (set_type t) (bft_adjust f s)"
  by (simp add: entry_update_def bft_adjust_def fun_eq_iff)

lemma entry_update_twice:
  "btype (bft s q) = t' \<Longrightarrow> entry_update q (set_type t') (entry_update q (set_type t) s) = s"
proof -
  assume "btype (bft s q) = t'"
  then have "set_type t' (bft s q) = bft s q" by (cases "bft s q") simp
  then show ?thesis by (simp add: entry_update_def)
qed

lemma l2_no_self_refs:
  assumes a: "base = base AND 0xFFFFF000" and chk: "l2_sanity_checker c base s = 0"
  shows "table_refs l2_addr 512 l2_desc_refs (mem s) (PA_TO_PH_BLOCK base) (PA_TO_PH_BLOCK base) = 0"
  using l2_dispatcher_ok(2) [OF l2_sanity_checker_ok [OF a chk]] by (force simp: table_refs_def)

lemma create_L2_success:
  assumes "fst (dmmu_create_L2_pt c base s) = 0"
  shows "guest_pa_range_checker c base PAGE_SIZE" "base = base AND 0xFFFFF000"
    "types s (PA_TO_PH_BLOCK base) \<noteq> 1" "types s (PA_TO_PH_BLOCK base) \<noteq> 2"
    "types s (PA_TO_PH_BLOCK base) = 0 \<Longrightarrow> counts s (PA_TO_PH_BLOCK base) = 0"
    "l2_sanity_checker c base s = 0"
    "snd (dmmu_create_L2_pt c base s) = create_L2_pgtype_update base (create_L2_refs_update c base s)"
  using assms by (auto simp: dmmu_create_L2_pt_def Let_def get_bft_entry_by_block_idx_def split: if_splits)

lemma create_free_L2:
  assumes t: "types s (PA_TO_PH_BLOCK base) = 0" and ok: "fst (dmmu_create_L2_pt c base s) = 0"
  shows "dmmu_unmap_L2_pt c base (snd (dmmu_create_L2_pt c base s)) = (0, s)"
proof -
  let ?q = "PA_TO_PH_BLOCK base"
  note a = create_L2_success(2) [OF ok] and chk = create_L2_success(6) [OF ok]
  let ?r = "\<lambda>b. of_nat (table_refs l2_addr 512 l2_desc_refs (mem s) ?q b)"
  have eq: "create_L2_refs_update c base s = bft_adjust ?r s"
    by (rule create_L2_refs_update_eq [OF a])
      (use l2_dispatcher_ok(1) [OF l2_sanity_checker_ok [OF a chk]] in blast)
  define s1 where "s1 = entry_update ?q (set_type 2) (bft_adjust ?r s)"
  have s1: "snd (dmmu_create_L2_pt c base s) = s1"
    using create_L2_success(7) [OF ok] by (simp add: s1_def eq create_L2_pgtype_update_def)
  have m: "mem s1 = mem s" by (simp add: s1_def frame)
  have "unmap_L2_pt_ref_update c base s1 = entry_update ?q (set_type 2) s"
    unfolding unmap_L2_pt_ref_update_eq [OF a] m
    unfolding s1_def bft_adjust_set_type bft_adjust_cancel ..
  then have "entry_update ?q (set_type 0) (unmap_L2_pt_ref_update c base s1) = s"
    using entry_update_twice [OF t] by simp
  moreover have "types s1 ?q = 2" "counts s1 ?q = 0"
    using create_L2_success(5) [OF ok t] l2_no_self_refs [OF a chk] by (simp_all add: s1_def frame entry_update_def)
  ultimately show ?thesis
    using create_L2_success(1) [OF ok] a
    by (simp add: dmmu_unmap_L2_pt_def Let_def get_bft_entry_by_block_idx_def s1)
qed

lemma map_section_success:
  assumes "fst (dmmu_map_L1_section c va sec attrs s) = 0"
  shows "L1_TYPE (flpt s (VA_TO_L1_IDX va)) = 0"
    "mem s (L1_IDX_TO_PA (ttbr0 s) (VA_TO_L1_IDX va)) AND 3 = 0"
    "snd (dmmu_map_L1_section c va sec attrs s) =
       (bft_adjust (\<lambda>b. of_nat (l1_desc_refs (CREATE_L1_SEC_DESC sec attrs) b)) s)
         \<lparr>mem := (mem s)(L1_IDX_TO_PA (ttbr0 s) (VA_TO_L1_IDX va) := CREATE_L1_SEC_DESC sec attrs)\<rparr>"
    "sec_secIndic (l1_sec_of (CREATE_L1_SEC_DESC sec attrs)) = 0"
  using assms l1Sec_checker_ok(1)
  by (auto simp: dmmu_map_L1_section_def Let_def L1_TYPE_def section_inc created_types frame split: if_splits)

lemma map_unmap_section:
  assumes "fst (dmmu_map_L1_section c va sec attrs s) = 0"
  shows "dmmu_unmap_L1_pageTable_entry c va (snd (dmmu_map_L1_section c va sec attrs s))
    = (0, s\<lparr>mem := (mem s)(L1_IDX_TO_PA (ttbr0 s) (VA_TO_L1_IDX va) :=
             UNMAP_L1_ENTRY (CREATE_L1_SEC_DESC sec attrs))\<rparr>)"
proof -
  have adj: "bft_adjust f ((bft_adjust g s)\<lparr>mem := m\<rparr>) = (bft_adjust f (bft_adjust g s))\<lparr>mem := m\<rparr>" for f g m
    by (simp add: bft_adjust_def)
  show ?thesis
    using map_section_success [OF assms]
    by (simp add: dmmu_unmap_L1_pageTable_entry_def Let_def L1_TYPE_def created_types section_dec adj
        bft_adjust_cancel frame)
qed

text \<open>All operations but two leave the state alone when they fail.\<close>

definition fails_clean :: "dmmu_command option \<Rightarrow> bool" where
  "fails_clean cmd \<longleftrightarrow> cmd \<noteq> Some CMD_CREATE_L1_PT \<and> cmd \<noteq> Some CMD_MAP_L1_PT"

lemma error_unchanged:
  "fst (dmmu_map_L1_section c va sec attrs s) \<noteq> 0 \<Longrightarrow> snd (dmmu_map_L1_section c va sec attrs s) = s"
  "fst (dmmu_unmap_L1_pageTable_entry c va s) \<noteq> 0 \<Longrightarrow> snd (dmmu_unmap_L1_pageTable_entry c va s) = s"
  "fst (dmmu_create_L2_pt c base s) \<noteq> 0 \<Longrightarrow> snd (dmmu_create_L2_pt c base s) = s"
  "fst (dmmu_unmap_L2_pt c base s) \<noteq> 0 \<Longrightarrow> snd (dmmu_unmap_L2_pt c base s) = s"
  "fst (dmmu_l2_map_entry c base idx page attrs s) \<noteq> 0 \<Longrightarrow> snd (dmmu_l2_map_entry c base idx page attrs s) = s"
  "fst (dmmu_l2_unmap_entry c base idx s) \<noteq> 0 \<Longrightarrow> snd (dmmu_l2_unmap_entry c base idx s) = s"
  "fst (dmmu_switch_mm c base s) \<noteq> 0 \<Longrightarrow> snd (dmmu_switch_mm c base s) = s"
  "fst (dmmu_unmap_L1_pt c ph_block0 base s) \<noteq> 0 \<Longrightarrow> snd (dmmu_unmap_L1_pt c ph_block0 base s) = s"
  unfolding dmmu_map_L1_section_def dmmu_unmap_L1_pageTable_entry_def dmmu_create_L2_pt_def dmmu_unmap_L2_pt_def
    dmmu_l2_map_entry_def dmmu_l2_unmap_entry_def dmmu_switch_mm_def dmmu_unmap_L1_pt_def Let_def
  by (auto split: if_splits)

lemma handler_error:
  assumes "fails_clean (dmmu_command_of (p03 AND 0xF))"
    and "fst (dmmu_handler c ph_block0 p03 p1 p2 s) \<noteq> 0"
  shows "snd (dmmu_handler c ph_block0 p03 p1 p2 s) = s"
proof (cases "dmmu_command_of (p03 AND 0xF)")
  case (Some cmd)
  then show ?thesis using assms
    by (cases cmd) (simp_all add: dmmu_handler_def Let_def fails_clean_def error_unchanged)
qed (simp add: dmmu_handler_def Let_def)
section \<open>Where the code goes wrong\<close>

lemma demo_config_range: "guest_pa_range_checker demo_config pa sz \<longleftrightarrow> pa + sz \<le> 0x1100000"
  by (simp add: guest_pa_range_checker_def demo_config_def minimal_config_def)

lemma demo_config_cached:
  "guest_inside_always_cached_region demo_config pa sz \<longleftrightarrow> pa \<ge> 0x200000 \<and> pa + sz \<le> 0x400000"
  by (simp add: guest_inside_always_cached_region_def demo_config_def minimal_config_def)

section \<open>A writable mapping on the demonstration system\<close>

definition demo_mapped :: hv where
  "demo_mapped = snd (dmmu_handler demo_config 0 0xC080 0x100000 0x300000 demo_state)"

lemma demo_section_blocks:
  assumes "i < 256"
  shows "btype (bft demo_state (0x300 OR of_nat i)) = 0" "push_bit 12 (0x300 OR of_nat i) AND L1_BASE_MASK \<noteq> 0x200000"
proof -
  have "push_bit 8 3 = (0x300 :: u32)" by simp
  then have d: "drop_bit 8 (0x300 OR of_nat i :: u32) = 3"
    using section_block_iff [of 3 i "0x300 OR of_nat i"] assms by simp
  have "drop_bit 8 0x210 \<noteq> (3 :: u32)" by simp
  then have "0x300 OR of_nat i \<noteq> (0x210 :: u32)" using d by metis
  moreover have d2: "drop_bit 2 (0x300 OR of_nat i :: u32) \<noteq> 0x80"
  proof
    assume "drop_bit 2 (0x300 OR of_nat i :: u32) = 0x80"
    then have "drop_bit 6 (drop_bit 2 (0x300 OR of_nat i :: u32)) = drop_bit 6 0x80" by (rule arg_cong)
    then show False using d by simp
  qed
  ultimately show "btype (bft demo_state (0x300 OR of_nat i)) = 0" by (simp add: demo_types)
  show "push_bit 12 (0x300 OR of_nat i) AND L1_BASE_MASK \<noteq> 0x200000"
  proof
    assume "push_bit 12 (0x300 OR of_nat i) AND L1_BASE_MASK = 0x200000"
    then have "drop_bit 20 (push_bit 12 (0x300 OR of_nat i :: u32) AND L1_BASE_MASK) = drop_bit 20 0x200000" by (rule arg_cong)
    moreover have "drop_bit 20 (push_bit 12 w AND L1_BASE_MASK) = take_bit 12 (drop_bit 8 w)" for w :: u32
      unfolding high_masks by (rule bit_word_eqI) (auto simp: bit_simps)
    ultimately have "take_bit 12 (drop_bit 8 (0x300 OR of_nat i :: u32)) = drop_bit 20 0x200000" by metis
    then show False unfolding d by simp
  qed
qed

lemma demo_mapped_eq: "dmmu_handler demo_config 0 0xC080 0x100000 0x300000 demo_state =
    (0, (bft_adjust (\<lambda>b. of_bool (drop_bit 8 b = 3)) demo_state)\<lparr>mem := (\<lambda>_. 0)(0x200004 := 0x300C0A)\<rparr>)"
proof -
  have d: "CREATE_L1_SEC_DESC 0x300000 0xC08 = 0x300C0A" by (simp add: desc_macros)
  have f: "GET_L1_AP (l1_sec_of 0x300C0A) = 3" "START_PA_OF_SECTION (l1_sec_of 0x300C0A) = 0x300000"
    "sec_addr (l1_sec_of 0x300C0A) = 3" "sec_secIndic (l1_sec_of 0x300C0A) = 0" "sec_c (l1_sec_of 0x300C0A) = 1"
    by (simp_all add: layout desc_macros bitfield_def)
  have "for_loop 256 (sec_block_check demo_state 0x300000 0x200000) e = e" for e
    by (rule for_loop_id)
      (use demo_section_blocks in \<open>simp add: sec_block_check_eq Let_def PA_TO_PH_BLOCK_def demo_rest\<close>)
  then have "l1Sec_checker demo_config demo_state 0x300C0A 0x200000 = 0"
    by (simp add: l1Sec_checker_def Let_def f demo_config_range)
  then show ?thesis
    using section_inc [of "0x300C0A" demo_state]
    by (simp add: dmmu_handler_def Let_def dmmu_command_of_def dmmu_map_L1_section_def demo_rest L1_TYPE_def
      demo_config_range d f VA_TO_L1_IDX_def L1_IDX_TO_PA_def l1_desc_refs_def frame)
qed

lemma demo_mapped_writable: "guest_writable {} demo_mapped 0x300"
proof -
  have a: "l1_addr (active_block 0x200000) 1 = 0x200004"
    by (simp add: l1_addr_def active_block_def L1_IDX_TO_PA_def)
  have "l1_maps demo_mapped 0x300C0A 0x300" by (simp add: l1_maps_def layout desc_macros bitfield_def)
  then show ?thesis
    unfolding guest_writable_def
    by (intro exI [of _ 1]) (simp add: demo_mapped_def demo_mapped_eq frame demo_rest a [simplified])
qed

lemma demo_mapped_reachable: "reachable demo_config {} demo_state demo_mapped"
  unfolding demo_mapped_def
  by (intro reachable.step [OF reachable.start] sys_step.request) (simp add: permitted_def dmmu_command_of_def)

section \<open>An attack on the second-level unmap request\<close>

text \<open>
  The guest of the demonstration system has block \<open>0x310\<close> mapped writable by a section. It writes a
  word there that looks like the descriptor of a writable page \<open>0x220\<close>, maps the second-level
  table at block \<open>0x210\<close>, and through it the page \<open>0x220\<close>: all this is permitted and counted.
  The unmap request then names, by an index far outside the table, the word in block \<open>0x310\<close>.
\<close>

definition attack1 :: hv where
  "attack1 = demo_mapped\<lparr>mem := (mem demo_mapped)(0x310000 := 0x22003A)\<rparr>"

definition attack2 :: hv where
  "attack2 = snd (dmmu_handler demo_config 0 3 0 0x210000 attack1)"

definition attack3 :: hv where
  "attack3 = snd (dmmu_handler demo_config 0 0x220004 0x210000 0x3A attack2)"

definition attack4 :: hv where
  "attack4 = snd (dmmu_handler demo_config 0 5 0x210000 0x40000 attack3)"

definition attack5 :: hv where
  "attack5 = snd (dmmu_handler demo_config 0 2 0x220000 0 attack4)"

text \<open>The state after each step: memory, counts and the parts that never change.\<close>

definition attack_refs :: "u32 \<Rightarrow> 30 word" where
  "attack_refs b = of_bool (drop_bit 8 b = 3)"

definition attack_at :: "(u32 \<Rightarrow> 30 word) \<Rightarrow> (u32 \<Rightarrow> u32) \<Rightarrow> hv" where
  "attack_at f m = (bft_adjust (\<lambda>b. attack_refs b + f b) demo_state)\<lparr>mem := m\<rparr>"

lemma attack_at_sel [frame]:
  "mem (attack_at f m) = m" "flpt (attack_at f m) = (\<lambda>_. 0)" "ttbr0 (attack_at f m) = 0x200000"
  "btype (bft (attack_at f m) b) = btype (bft demo_state b)"
  "refcnt (bft (attack_at f m) b) = attack_refs b + f b"
  by (simp_all add: attack_at_def frame demo_rest)

lemma attack_at_upd:
  "bft_adjust g (attack_at f m) = attack_at (\<lambda>b. f b + g b) m"
  "(attack_at f m)\<lparr>mem := m'\<rparr> = attack_at f m'"
  by (simp_all add: attack_at_def bft_adjust_mem bft_adjust_adjust add.assoc)

abbreviation (input) attack_mem :: "u32 \<Rightarrow> u32 \<Rightarrow> u32 \<Rightarrow> u32 \<Rightarrow> u32" where
  "attack_mem ptr pg w \<equiv> (\<lambda>_. 0)(0x200004 := 0x300C0A, 0x310000 := w, 0x200000 := ptr, 0x210000 := pg)"

lemma attack1_eq: "attack1 = attack_at (\<lambda>b. 0) ((\<lambda>_. 0)(0x200004 := 0x300C0A, 0x310000 := 0x22003A))"
  by (simp add: attack1_def demo_mapped_def demo_mapped_eq attack_at_def attack_refs_def frame)

lemma attack2_eq: "dmmu_handler demo_config 0 3 0 0x210000 attack1 =
    (0, attack_at (\<lambda>b. of_bool (b = 0x210))
      ((\<lambda>_. 0)(0x200004 := 0x300C0A, 0x310000 := 0x22003A, 0x200000 := 0x210001)))"
  by (simp add: attack1_eq dmmu_handler_def Let_def dmmu_command_of_def dmmu_l1_pt_map_def L1_TYPE_def
      demo_config_range get_bft_entry_by_block_idx_def demo_types desc_macros layout bitfield_def update_inc
      frame attack_at_upd attack_refs_def)

lemma attack3_eq: "dmmu_handler demo_config 0 0x220004 0x210000 0x3A attack2 =
    (0, attack_at (\<lambda>b. of_bool (b = 0x210) + of_bool (b = 0x220)) (attack_mem 0x210001 0x22003A 0x22003A))"
  unfolding attack2_def attack2_eq
  by (simp add: dmmu_handler_def Let_def dmmu_command_of_def dmmu_l2_map_entry_def
      demo_config_range get_bft_entry_by_block_idx_def demo_types desc_macros layout bitfield_def update_inc
      l2PT_checker_def l2Pt_desc_ap_def frame attack_at_upd attack_refs_def)

text \<open>The unmap request takes the reference the page table holds, and the table keeps its page.\<close>

lemma attack4_eq: "dmmu_handler demo_config 0 5 0x210000 0x40000 attack3 =
    (0, attack_at (\<lambda>b. of_bool (b = 0x210)) (attack_mem 0x210001 0x22003A 0x220038))"
  unfolding attack3_def attack3_eq
  by (simp add: dmmu_handler_def Let_def dmmu_command_of_def dmmu_l2_unmap_entry_def
      demo_config_range get_bft_entry_by_block_idx_def demo_types desc_macros layout bitfield_def update_dec
      frame attack_at_upd fun_upd_twist)

lemma attack_page_word: "i < 512 \<Longrightarrow> attack_mem 0x210001 0x22003A 0x220038 (l2_addr 0x220 i) = 0"
proof -
  assume "i < 512"
  then have "drop_bit 12 (l2_addr 0x220 i) = 0x220" by (intro block_l2_addr) simp_all
  then show ?thesis by auto
qed

lemma attack5_eq: "dmmu_handler demo_config 0 2 0x220000 0 attack4 =
    (0, entry_update 0x220 (set_type 2) attack4)"
proof -
  have eq: "attack4 = attack_at (\<lambda>b. of_bool (b = 0x210)) (attack_mem 0x210001 0x22003A 0x220038)"
    unfolding attack4_def attack4_eq by simp
  have b: "PA_TO_PH_BLOCK 0x220000 = 0x220" by (simp add: PA_TO_PH_BLOCK_def)
  have z: "mem attack4 (l2_addr 0x220 i) = 0" if "i < 512" for i
    unfolding eq frame by (rule attack_page_word [OF that])
  have "create_L2_refs_update demo_config 0x220000 attack4 =
    bft_adjust (\<lambda>b. of_nat (table_refs l2_addr 512 l2_desc_refs (mem attack4) (PA_TO_PH_BLOCK 0x220000) b)) attack4"
    by (rule create_L2_refs_update_eq) (simp_all add: b z unmapped_ok)
  then have c: "create_L2_refs_update demo_config 0x220000 attack4 = attack4"
    by (simp add: table_refs_def b z unmapped_refs bft_adjust_0)
  have k: "l2_sanity_checker demo_config 0x220000 attack4 = 0"
    by (simp add: l2_sanity_checker_def first_error_0_iff Let_def l2_aligned_addr b z
        l2Desc_validityChecker_dispatcher_def)
  have t: "types attack4 0x220 = 0" "counts attack4 0x220 = 0"
    unfolding eq frame by (simp_all add: demo_types attack_refs_def)
  show ?thesis
    by (simp add: dmmu_handler_def Let_def dmmu_command_of_def dmmu_create_L2_pt_def demo_config_range
      demo_config_cached b get_bft_entry_by_block_idx_def t k c create_L2_pgtype_update_def)
qed

lemma attack_writable: "guest_writable {} attack5 0x220"
proof -
  have m: "mem attack5 = attack_mem 0x210001 0x22003A 0x220038" "ttbr0 attack5 = 0x200000"
    unfolding attack5_def attack5_eq unfolding attack4_def attack4_eq by (simp_all add: frame)
  have a: "l1_addr (active_block 0x200000) 0 = 0x200000"
    by (simp add: l1_addr_def active_block_def L1_IDX_TO_PA_def)
  have w: "walk_l2 0x210001 0 = 0x210000"
    by (simp add: walk_l2_def layout desc_macros bitfield_def)
  have "l2_maps 0x22003A 0x220"
    by (simp add: l2_maps_def layout desc_macros bitfield_def)
  then show ?thesis
    unfolding guest_writable_def m
    by (intro exI [of _ 0]) (simp add: a Let_def, intro disjI2 exI [of _ 0], simp add: w)
qed

lemma attack_type: "types attack5 0x220 = 2"
  unfolding attack5_def attack5_eq by (simp add: entry_update_def)

lemma attack_reachable: "reachable demo_config {} demo_state attack2" "reachable demo_config {} demo_state attack3"
proof -
  have a: "l1_addr (active_block 0x200000) 1 = 0x200004"
    by (simp add: l1_addr_def active_block_def L1_IDX_TO_PA_def)
  have "l1_maps demo_mapped 0x300C0A 0x310" by (simp add: l1_maps_def layout desc_macros bitfield_def)
  then have "guest_writable {} demo_mapped (PA_TO_PH_BLOCK 0x310000)"
    unfolding guest_writable_def PA_TO_PH_BLOCK_def
    by (intro exI [of _ 1]) (simp add: demo_mapped_def demo_mapped_eq frame demo_rest a [simplified])
  then have 1: "sys_step demo_config {} demo_mapped attack1" unfolding attack1_def by (rule sys_step.store)
  have 2: "sys_step demo_config {} attack1 attack2" "sys_step demo_config {} attack2 attack3"
    unfolding attack2_def attack3_def by (rule sys_step.request, simp add: permitted_def dmmu_command_of_def)+
  show r: "reachable demo_config {} demo_state attack2"
    by (rule reachable.step [OF reachable.step [OF demo_mapped_reachable 1] 2(1)])
  show "reachable demo_config {} demo_state attack3" by (rule reachable.step [OF r 2(2)])
qed

section \<open>Properties\<close>

text \<open>C1. Isolation: in every state the guest can reach from a good one, by requests and by its own
  writes, a block it can write is a data block; it never writes a page table.\<close>

theorem guest_writes_data_only:
  assumes "reachable c P s0 s" "dmmu_inv P s0" "pinned_outside c P" "guest_writable P s blk"
  shows "btype (bft s blk) = PAGE_INFO_TYPE_DATA"
  by (rule writable_is_data [OF reachable_inv [OF assms(1,3,2)] assms(4)])

theorem guest_writes_data_only_witness: "btype (bft demo_mapped 0x300) = 0"
  by (rule guest_writes_data_only
    [OF demo_mapped_reachable demo_inv demo_pinned demo_mapped_writable])

text \<open>C2. Every request the dispatcher accepts keeps the invariant of the page tables: types,
  reference counts and table contents stay consistent, on every success and error path.\<close>

theorem dmmu_handler_keeps_inv:
  assumes "dmmu_inv P s" "pinned_outside c P" "permitted ph_block0 p03 p1 p2"
  shows "dmmu_inv P (snd (dmmu_handler c ph_block0 p03 p1 p2 s))"
  by (rule handler_inv [OF assms])

theorem dmmu_handler_keeps_inv_witness:
  "dmmu_inv {} attack3 \<and> refcnt (bft attack3 0x220) = 1
    \<and> mem attack3 0x210000 AND DESC_TYPE_MASK = 2 \<and> GET_L2_AP (l2_small_of (mem attack3 0x210000)) = 3"
proof -
  have "dmmu_inv {} attack2" by (rule reachable_inv [OF attack_reachable(1) demo_pinned demo_inv])
  then have "dmmu_inv {} (snd (dmmu_handler demo_config 0 0x220004 0x210000 0x3A attack2))"
    by (rule dmmu_handler_keeps_inv [OF _ demo_pinned]) (simp add: permitted_def dmmu_command_of_def)
  then show ?thesis
    unfolding attack3_def by (simp add: attack3_eq frame attack_refs_def layout desc_macros bitfield_def)
qed

text \<open>C3. A write of the guest through one of its mappings changes no descriptor of a first-level
  table, nor of a second-level table it controls.\<close>

theorem guest_store_keeps_tables:
  assumes "dmmu_inv P s" "guest_writable P s (PA_TO_PH_BLOCK a)" "table_word P (types s) x"
  shows "mem (s\<lparr>mem := (mem s)(a := v)\<rparr>) x = mem s x"
  using table_word_type [OF assms(1) [unfolded dmmu_inv_def] assms(3)] writable_is_data [OF assms(1,2)]
  by (auto simp: PA_TO_PH_BLOCK_def)

theorem guest_store_keeps_tables_witness:
  "mem (demo_mapped\<lparr>mem := (mem demo_mapped)(0x300010 := 7)\<rparr>) (l1_addr 0x200 1) = mem demo_mapped (l1_addr 0x200 1)"
proof (rule guest_store_keeps_tables)
  show "dmmu_inv {} demo_mapped"
    by (rule reachable_inv [OF demo_mapped_reachable demo_pinned demo_inv])
  show "guest_writable {} demo_mapped (PA_TO_PH_BLOCK 0x300010)"
    using demo_mapped_writable by (simp add: PA_TO_PH_BLOCK_def)
  show "table_word {} (types demo_mapped) (l1_addr 0x200 1)"
    by (rule table_word_l1)
      (simp_all add: is_l1_def l1_base_ok_def demo_mapped_def demo_mapped_eq frame demo_types)
qed

text \<open>C4. Mapping a section and unmapping it again restores the whole state, except that the
  descriptor keeps its attributes with the type bits cleared: types, reference counts and every
  other word of memory are as before.\<close>

theorem map_then_unmap_section:
  assumes "fst (dmmu_map_L1_section c va sec attrs s) = 0"
  shows "dmmu_unmap_L1_pageTable_entry c va (snd (dmmu_map_L1_section c va sec attrs s))
    = (0, s\<lparr>mem := (mem s)(L1_IDX_TO_PA (ttbr0 s) (VA_TO_L1_IDX va) :=
             UNMAP_L1_ENTRY (CREATE_L1_SEC_DESC sec attrs))\<rparr>)"
  by (rule map_unmap_section [OF assms])

lemma demo_map_section:
  "dmmu_map_L1_section demo_config 0x100000 0x300000 0xC08 demo_state = (0, demo_mapped)"
  using demo_mapped_eq by (simp add: demo_mapped_def dmmu_handler_def Let_def dmmu_command_of_def)

theorem map_then_unmap_section_witness:
  "snd (dmmu_unmap_L1_pageTable_entry demo_config 0x100000 demo_mapped) =
    demo_state\<lparr>mem := (mem demo_state)(0x200004 := 0x300C08)\<rparr>"
proof -
  have "fst (dmmu_map_L1_section demo_config 0x100000 0x300000 0xC08 demo_state) = 0"
    by (simp add: demo_map_section)
  from map_then_unmap_section [OF this] show ?thesis
    by (simp add: demo_map_section demo_rest L1_IDX_TO_PA_def VA_TO_L1_IDX_def UNMAP_L1_ENTRY_def CREATE_L1_SEC_DESC_def)
qed

text \<open>C5. Creating a second-level table from a data page and freeing it again succeeds and restores
  the state exactly.\<close>

theorem create_then_free_L2:
  assumes "btype (bft s (PA_TO_PH_BLOCK base)) = PAGE_INFO_TYPE_DATA"
    and "fst (dmmu_create_L2_pt c base s) = 0"
  shows "dmmu_unmap_L2_pt c base (snd (dmmu_create_L2_pt c base s)) = (0, s)"
  by (rule create_free_L2 [OF assms])

lemma demo_create_L2: "fst (dmmu_create_L2_pt demo_config 0x220000 demo_state) = 0"
  by (simp add: dmmu_create_L2_pt_def Let_def demo_config_range demo_config_cached PA_TO_PH_BLOCK_def
      get_bft_entry_by_block_idx_def demo_types demo_rest l2_sanity_checker_def first_error_0_iff
      l2Desc_validityChecker_dispatcher_def)

theorem create_then_free_L2_witness:
  "dmmu_unmap_L2_pt demo_config 0x220000 (snd (dmmu_create_L2_pt demo_config 0x220000 demo_state)) = (0, demo_state)"
  by (rule create_then_free_L2 [OF _ demo_create_L2]) (simp add: demo_types PA_TO_PH_BLOCK_def)

text \<open>C6. What a successful creation of a first-level table does: the reserved entries of the master
  table are copied in, every block gets as many new references as the table makes to it, and the four
  blocks become a first-level table.\<close>

theorem create_L1_effect:
  assumes "fst (dmmu_create_L1_pt c base s) = 0"
  defines "s' \<equiv> snd (dmmu_create_L1_pt c base s)" and "p \<equiv> PA_TO_PH_BLOCK base"
  shows "(\<forall>i<4096. mem s' (l1_addr p i) =
      (if L1_TYPE (flpt s (of_nat i)) \<noteq> 0 then flpt s (of_nat i) else mem s (l1_addr p i)))
    \<and> types s' = group_upd (types s) p PAGE_INFO_TYPE_L1PT
    \<and> (\<forall>blk. refcnt (bft s' blk) = refcnt (bft s blk)
          + of_nat (table_refs l1_addr 4096 l1_desc_refs (mem s') p blk))"
proof -
  let ?s1 = "copy_reserved_entries c base s"
  have a: "base = base AND 0xFFFFC000" and
    r: "s' = set_type4 1 p (create_L1_refs_update c base ?s1)"
    using assms(1) by (auto simp: s'_def p_def dmmu_create_L1_pt_def Let_def split: if_splits)
  note fr = copy_reserved_frame [OF a, folded p_def]
  have ty: "types s' = group_upd (types s) p 1"
    unfolding r p_def set_type4_types [OF l1_aligned_ok [OF a]] create_L1_refs_update_eq [OF a]
    by (simp add: frame fr)
  show ?thesis
    unfolding ty unfolding r create_L1_refs_update_eq [OF a, folded p_def] using fr by (simp add: frame)
qed

lemma demo_create_L1: "fst (dmmu_create_L1_pt demo_config 0x300000 demo_state) = 0"
proof -
  have a: "(0x300000 :: u32) = 0x300000 AND 0xFFFFC000" by simp
  note fr = copy_reserved_frame [OF a, where c = demo_config and s = demo_state]
  have z: "mem (copy_reserved_entries demo_config 0x300000 demo_state) (l1_addr (PA_TO_PH_BLOCK 0x300000) i) = 0"
    if "i < 4096" for i using fr(4) [OF that] by (simp add: demo_rest L1_TYPE_def)
  have "l1_sanity_checker demo_config 0x300000 (copy_reserved_entries demo_config 0x300000 demo_state) = 0"
    by (simp add: l1_sanity_checker_def first_error_0_iff Let_def l1_aligned_addr [OF a] z
        l1Desc_validityChecker_dispatcher_def)
  then show ?thesis
    by (simp add: dmmu_create_L1_pt_def Let_def demo_config_range demo_config_cached
      get_bft_entry_by_block_idx_def demo_types demo_rest PA_TO_PH_BLOCK_def)
qed

theorem create_L1_effect_witness:
  "btype (bft (snd (dmmu_create_L1_pt demo_config 0x300000 demo_state)) 0x303) = PAGE_INFO_TYPE_L1PT"
proof -
  have "types (snd (dmmu_create_L1_pt demo_config 0x300000 demo_state))
    = group_upd (types demo_state) (PA_TO_PH_BLOCK 0x300000) 1"
    using create_L1_effect [OF demo_create_L1] by blast
  then have "types (snd (dmmu_create_L1_pt demo_config 0x300000 demo_state)) 0x303 = group_upd (types demo_state) (PA_TO_PH_BLOCK 0x300000) 1 0x303"
    by (rule fun_cong)
  then show ?thesis by (simp add: group_upd_def PA_TO_PH_BLOCK_def)
qed

text \<open>C7. A request that fails leaves the hypervisor state unchanged, except for the creation of a
  first-level table (which has already copied the reserved entries) and the mapping of a
  second-level table.\<close>

theorem failed_request_changes_nothing:
  assumes "fails_clean (dmmu_command_of (p03 AND 0xF))"
    and "fst (dmmu_handler c ph_block0 p03 p1 p2 s) \<noteq> 0"
  shows "snd (dmmu_handler c ph_block0 p03 p1 p2 s) = s"
  by (rule handler_error [OF assms])

theorem failed_request_changes_nothing_witness:
  "snd (dmmu_handler demo_config 0 2 0x210000 0 demo_state) = demo_state"
  by (rule failed_request_changes_nothing)
    (simp_all add: fails_clean_def dmmu_command_of_def dmmu_handler_def Let_def dmmu_create_L2_pt_def
      demo_config_range demo_config_cached PA_TO_PH_BLOCK_def get_bft_entry_by_block_idx_def demo_types)

text \<open>For addresses that do not wrap, the range check accepts exactly the intervals inside the
  guest's memory (its size plus one section).\<close>

theorem range_check_exact:
  assumes "unat pa + unat sz < 2 ^ 32"
    and "unat (pstart (firmware c)) + unat (psize (firmware c)) + 0x100000 < 2 ^ 32"
  shows "guest_pa_range_checker c pa sz \<longleftrightarrow>
    unat (pstart (firmware c)) \<le> unat pa
    \<and> unat pa + unat sz \<le> unat (pstart (firmware c)) + unat (psize (firmware c)) + 0x100000"
  using assms by (simp add: guest_pa_range_checker_def Let_def word_le_nat_alt unat_word_ariths)

theorem range_check_exact_witness:
  "guest_pa_range_checker demo_config 0x300000 0x1000 \<longleftrightarrow> 0 \<le> (0x300000 :: nat) \<and> 0x301000 \<le> (0x1100000 :: nat)"
  using range_check_exact [of "0x300000" "0x1000" demo_config] by (simp add: demo_config_def minimal_config_def)

section \<open>Findings\<close>

text \<open>The range check computes the end of the region modulo \<open>2^32\<close>: the last page of the address
  space passes it for every guest.\<close>

theorem range_check_wraps:
  assumes "pstart (firmware c) \<le> 0xFFFFF000"
  shows "guest_pa_range_checker c 0xFFFFF000 PAGE_SIZE"
proof -
  have z: "(4294967296 :: u32) = 0" by (simp add: word_unat_eq_iff)
  show ?thesis using assms by (simp add: guest_pa_range_checker_def Let_def z)
qed

theorem range_check_wraps_witness: "guest_pa_range_checker demo_config 0xFFFFF000 PAGE_SIZE"
  by (rule range_check_wraps) (simp add: demo_config_def minimal_config_def)

text \<open>Freeing a first-level table tests blocks named by a variable that is not initialised: with one
  value it frees a block that is no table, with another it refuses to free a table.\<close>

theorem free_L1_uninitialised:
  assumes "guest_pa_range_checker c base 0x4000" "base = base AND 0xFFFFC000"
    and "ttbr0 s AND 0xFFFFC000 \<noteq> base"
    and "\<And>j. j < 4 \<Longrightarrow> btype (bft s (p + j)) = PAGE_INFO_TYPE_L1PT"
    and "btype (bft s q) \<noteq> PAGE_INFO_TYPE_L1PT"
  shows "dmmu_unmap_L1_pt c p base s =
      (0, set_type4 PAGE_INFO_TYPE_DATA (PA_TO_PH_BLOCK base) (unmap_L1_pt_ref_update c base s))
    \<and> dmmu_unmap_L1_pt c q base s = (ERR_MMU_IS_NOT_L1_PT, s)"
proof (rule conjI)
  have b: "base AND 0xFFFFC000 = base" using assms(2) by simp
  have "btype (bft s p) = 1" "btype (bft s (p + 1)) = 1" "btype (bft s (p + 2)) = 1" "btype (bft s (p + 3)) = 1"
    using assms(4) [of 0] assms(4) [of 1] assms(4) [of 2] assms(4) [of 3] by simp_all
  then show "dmmu_unmap_L1_pt c p base s =
      (0, set_type4 PAGE_INFO_TYPE_DATA (PA_TO_PH_BLOCK base) (unmap_L1_pt_ref_update c base s))"
    using assms(1,3) b by (simp add: dmmu_unmap_L1_pt_def Let_def get_bft_entry_by_block_idx_def)
next
  show "dmmu_unmap_L1_pt c q base s = (ERR_MMU_IS_NOT_L1_PT, s)"
    using assms(1,2,5)
    by (simp add: dmmu_unmap_L1_pt_def get_bft_entry_by_block_idx_def)
qed

theorem free_L1_uninitialised_witness:
  "fst (dmmu_unmap_L1_pt demo_config 0x200 0x300000 demo_state) = 0
    \<and> btype (bft demo_state (PA_TO_PH_BLOCK 0x300000)) = PAGE_INFO_TYPE_DATA"
proof -
  have j4: "drop_bit 2 (0x200 + j) = (0x80 :: u32)" if "j < 4" for j
    using drop2_group [of "0x200" j] that by (simp add: l1_base_ok_def)
  have "dmmu_unmap_L1_pt demo_config 0x200 0x300000 demo_state =
      (0, set_type4 0 (PA_TO_PH_BLOCK 0x300000) (unmap_L1_pt_ref_update demo_config 0x300000 demo_state))
    \<and> dmmu_unmap_L1_pt demo_config 0 0x300000 demo_state = (ERR_MMU_IS_NOT_L1_PT, demo_state)"
    by (rule free_L1_uninitialised) (simp_all add: demo_config_range demo_rest demo_types j4)
  then show ?thesis by (simp add: demo_types PA_TO_PH_BLOCK_def)
qed

text \<open>Mapping the second half of a second-level table fails with an error, but the reference count
  has already been incremented: each failed request leaks one reference.\<close>

theorem l1_pt_map_leaks:
  assumes "fst (dmmu_l1_pt_map c va base attrs s) = ERR_MMU_L2_BASE_OUT_OF_RANGE"
  shows "snd (dmmu_l1_pt_map c va base attrs s) = entry_update (PA_TO_PH_BLOCK base) inc_ref s"
  using assms by (auto simp: dmmu_l1_pt_map_def Let_def split: if_splits)

theorem l1_pt_map_leaks_witness:
  "snd (dmmu_l1_pt_map demo_config 0 0x210800 0 demo_state) = entry_update 0x210 inc_ref demo_state"
  by (subst l1_pt_map_leaks)
    (simp_all add: dmmu_l1_pt_map_def Let_def demo_config_range get_bft_entry_by_block_idx_def demo_types
      demo_rest desc_macros layout bitfield_def)

text \<open>C8. The unmap request on a second-level table does not bound its index: from the good
  demonstration state the guest reaches, by permitted requests and a store of its own, a state where
  one accepted unmap request drops the reference of a page that stays mapped writable; the page is
  then accepted as a second-level table, which the guest can write.\<close>

theorem isolation_broken_by_l2_unmap:
  "dmmu_inv {} demo_state \<and> reachable demo_config {} demo_state attack3
    \<and> fst (dmmu_handler demo_config 0 5 0x210000 0x40000 attack3) = 0
    \<and> permitted 0 2 0x220000 0
    \<and> fst (dmmu_handler demo_config 0 2 0x220000 0 attack4) = 0
    \<and> guest_writable {} attack5 0x220 \<and> btype (bft attack5 0x220) = PAGE_INFO_TYPE_L2PT"
  by (simp add: demo_inv attack_reachable attack4_eq attack5_eq attack_writable attack_type
      permitted_def dmmu_command_of_def)

text \<open>With the Linux configuration, which leaves the always-cached region empty, no first-level table
  can be created: every request fails unless its end address wraps.\<close>

theorem linux_config_no_L1:
  assumes "base < 0xFFFFC000"
  shows "fst (dmmu_create_L1_pt (linux_config fw) base s) \<noteq> 0"
proof -
  have "unat base + 0x4000 < 2 ^ 32" using assms by (simp add: word_less_nat_alt)
  then have "\<not> (base \<ge> pstart fw \<and> base + 0x4000 \<le> pstart fw)"
    by (simp add: word_le_nat_alt unat_word_ariths)
  then have "\<not> guest_inside_always_cached_region (linux_config fw) base 0x4000"
    by (simp add: guest_inside_always_cached_region_def linux_config_def Let_def)
  then show ?thesis by (simp add: dmmu_create_L1_pt_def)
qed

theorem linux_config_no_L1_witness:
  "fst (dmmu_create_L1_pt (linux_config \<lparr>pstart = 0x01000000, vstart = 0, psize = 0x07000000, fwsize = 0, offset = 0\<rparr>)
     0x01004000 demo_state) \<noteq> 0"
  by (rule linux_config_no_L1) simp

end
