(* ===== verification/Machine.thy ===== *)
theory Machine
  imports Dmmu "HOL-Library.While_Combinator"
begin

text \<open>
  The virtual machine the hypervisor multiplexes (\<^verbatim>\<open>core/hypervisor/hyper.h\<close>,
  \<^verbatim>\<open>arm_common.h\<close>), the state of the whole hypervisor, the outcomes of its handlers,
  and the loops over an address range.
\<close>

section \<open>Outcomes\<close>

text \<open>
  A handler returns, stops in \<^verbatim>\<open>hyper_panic\<close> (which prints its message and loops for
  ever), stops in another endless loop, or runs into undefined behaviour of C.
\<close>

datatype 'a outcome = Ret 'a | Panic string | Hang | Undefined

primrec and_then :: "'a outcome \<Rightarrow> ('a \<Rightarrow> 'b outcome) \<Rightarrow> 'b outcome" where
  "and_then (Ret x) f = f x"
| "and_then (Panic msg) f = Panic msg"
| "and_then Hang f = Hang"
| "and_then Undefined f = Undefined"

lemma and_then_Ret_iff: "and_then x f = Ret z \<longleftrightarrow> (\<exists>y. x = Ret y \<and> f y = Ret z)"
  by (cases x) auto

lemma and_then_assoc: "and_then (and_then x f) g = and_then x (\<lambda>y. and_then (f y) g)"
  by (cases x) auto

text \<open>A property holds of whatever a handler returns.\<close>

definition returns_ok :: "('a \<Rightarrow> bool) \<Rightarrow> 'a outcome \<Rightarrow> bool" where
  "returns_ok P x = (case x of Ret y \<Rightarrow> P y | _ \<Rightarrow> True)"

lemma returns_ok_simps [simp]:
  "returns_ok P (Ret y) \<longleftrightarrow> P y" "returns_ok P (Panic m)" "returns_ok P Hang" "returns_ok P Undefined"
  by (simp_all add: returns_ok_def)

lemma returns_ok_and_then:
  "returns_ok P x \<Longrightarrow> (\<And>y. P y \<Longrightarrow> returns_ok Q (f y)) \<Longrightarrow> returns_ok Q (and_then x f)"
  by (cases x) auto

lemma returns_okD: "returns_ok P x \<Longrightarrow> x = Ret y \<Longrightarrow> P y"
  by simp

section \<open>Loops over addresses\<close>

text \<open>
  \<open>for(a = start; a < end; a += step) s = body(a, s);\<close> with 32-bit addresses: \<open>None\<close> when the
  address wraps before it reaches the end and the loop does not stop.
\<close>

definition addr_loop :: "u32 \<Rightarrow> u32 \<Rightarrow> u32 \<Rightarrow> (u32 \<Rightarrow> 's \<Rightarrow> 's) \<Rightarrow> 's \<Rightarrow> 's option" where
  "addr_loop start limit step body s =
     map_option snd (while_option (\<lambda>(a, s). a < limit) (\<lambda>(a, s). (a + step, body a s)) (start, s))"

definition outcome_of :: "'a option \<Rightarrow> 'a outcome" where
  "outcome_of r = (case r of Some x \<Rightarrow> Ret x | None \<Rightarrow> Hang)"

lemma addr_loop_step:
  "addr_loop a e st body s = (if a < e then addr_loop (a + st) e st body (body a s) else Some s)"
  unfolding addr_loop_def by (subst while_option_unfold) simp

text \<open>Without a wrap the loop makes the number of iterations one reads off it.\<close>

lemma addr_loop_count:
  assumes "0 < st" "unat e + unat st \<le> 2 ^ 32"
  shows "addr_loop a e st body s =
    Some (fold (\<lambda>i. body (a + of_nat i * st)) [0..<(unat e - unat a + unat st - 1) div unat st] s)"
proof (induction "unat e - unat a" arbitrary: a s rule: less_induct)
  case less
  have st: "0 < unat st" using assms(1) by (simp add: word_less_nat_alt)
  show ?case
  proof (cases "a < e")
    case True
    have a: "unat a < unat e" using True by (simp add: word_less_nat_alt)
    have "unat a + unat st < 2 ^ 32" using a assms(2) by linarith
    then have sum: "unat (a + st) = unat a + unat st" by (simp add: unat_word_ariths)
    then have smaller: "unat e - unat (a + st) < unat e - unat a" using a st by linarith
    let ?n = "(unat e - unat (a + st) + unat st - 1) div unat st"
    have n: "(unat e - unat a + unat st - 1) div unat st = Suc ?n"
    proof (cases "unat a + unat st \<le> unat e")
      case True
      then have "unat e - unat a + unat st - 1 = (unat e - unat (a + st) + unat st - 1) + unat st"
        using sum st by linarith
      then show ?thesis using st by (simp only: div_add_self2)
    next
      case False
      have zero: "?n = 0" using False sum st by (intro div_less) linarith
      have eq: "unat e - unat a + unat st - 1 = (unat e - unat a - 1) + unat st" using a by linarith
      have "(unat e - unat a - 1) div unat st = 0" using False st by (intro div_less) linarith
      then show ?thesis unfolding eq zero using st by (simp only: div_add_self2)
    qed
    have "[0..<Suc ?n] = 0 # map Suc [0..<?n]" by (simp add: map_Suc_upt upt_conv_Cons del: upt_Suc)
    then show ?thesis
      unfolding n using less [OF smaller, of "body a s"] True addr_loop_step [of a e st body s]
      by (simp add: fold_map comp_def algebra_simps del: upt_Suc)
  next
    case False
    then have "unat e - unat a = 0" by (simp add: word_less_nat_alt)
    then show ?thesis using addr_loop_step [of a e st body s] False st by simp
  qed
qed

text \<open>
  A loop never stops while an invariant keeps its address below the end.
\<close>

lemma addr_loop_diverges:
  assumes "I a" "\<And>a. I a \<Longrightarrow> a < e" "\<And>a. I a \<Longrightarrow> I (a + st)"
  shows "addr_loop a e st body s = None"
proof -
  have "False" if "while_option (\<lambda>(a, s). a < e) (\<lambda>(a, s). (a + st, body a s)) (a, s) = Some t" for t
  proof -
    have "case t of (a, s) \<Rightarrow> I a"
      by (rule while_option_rule [OF _ that]) (use assms in auto)
    moreover have "\<not> (case t of (a, s) \<Rightarrow> a < e)" by (rule while_option_stop [OF that])
    ultimately show False using assms(2) by (cases t) auto
  qed
  then have "while_option (\<lambda>(a, s). a < e) (\<lambda>(a, s). (a + st, body a s)) (a, s) = None"
    by (cases "while_option (\<lambda>(a, s). a < e) (\<lambda>(a, s). (a + st, body a s)) (a, s)") blast+
  then show ?thesis by (simp add: addr_loop_def)
qed

corollary addr_loop_terminates:
  assumes "0 < st" "unat e + unat st \<le> 2 ^ 32"
  shows "\<exists>t. addr_loop a e st body s = Some t"
  by (intro exI) (rule addr_loop_count [OF assms])

lemma addr_loop_invariant:
  assumes "addr_loop a e st body s = Some t" "P s" "\<And>a s. a < e \<Longrightarrow> P s \<Longrightarrow> P (body a s)"
  shows "P t"
proof -
  obtain r where r: "while_option (\<lambda>(a, s). a < e) (\<lambda>(a, s). (a + st, body a s)) (a, s) = Some r" "t = snd r"
    using assms(1) by (auto simp: addr_loop_def)
  have "P (snd r)"
    by (rule while_option_rule [where P = "\<lambda>(a, s). P s", OF _ r(1), simplified case_prod_beta])
      (use assms(2,3) in auto)
  then show ?thesis by (simp add: r(2))
qed

section \<open>The processor context (arm_common.h)\<close>

record cpu_context =
  creg :: "nat \<Rightarrow> u32"
  csp :: u32
  clr :: u32
  cpc :: u32
  cpsr :: u32

abbreviation (input) ARM_IRQ_MASK :: u32 where "ARM_IRQ_MASK \<equiv> 0x80"
abbreviation (input) ARM_FIQ_MASK :: u32 where "ARM_FIQ_MASK \<equiv> 0x40"
abbreviation (input) IRQ_MASK :: u32 where "IRQ_MASK \<equiv> 0x80"
abbreviation (input) ARM_MODE_USER :: u32 where "ARM_MODE_USER \<equiv> 0x10"
abbreviation (input) V_SWI :: nat where "V_SWI \<equiv> 2"
abbreviation (input) V_PREFETCH_ABORT :: nat where "V_PREFETCH_ABORT \<equiv> 3"
abbreviation (input) V_DATA_ABORT :: nat where "V_DATA_ABORT \<equiv> 4"
abbreviation (input) V_IRQ :: nat where "V_IRQ \<equiv> 6"
abbreviation (input) V_ARM_SYSCALL :: nat where "V_ARM_SYSCALL \<equiv> 8"
abbreviation (input) V_RET_FAST_SYSCALL :: nat where "V_RET_FAST_SYSCALL \<equiv> 9"
abbreviation (input) V_RET_FROM_EXCEPTION :: nat where "V_RET_FROM_EXCEPTION \<equiv> 10"

text \<open>The struct as 17 consecutive words, which is how the handlers copy it.\<close>

definition ctx_word :: "cpu_context \<Rightarrow> nat \<Rightarrow> u32" where
  "ctx_word c i = (if i < 13 then creg c i else if i = 13 then csp c else if i = 14 then clr c
     else if i = 15 then cpc c else cpsr c)"

definition ctx_put :: "nat \<Rightarrow> u32 \<Rightarrow> cpu_context \<Rightarrow> cpu_context" where
  "ctx_put i v c = (if i < 13 then c\<lparr>creg := (creg c)(i := v)\<rparr> else if i = 13 then c\<lparr>csp := v\<rparr>
     else if i = 14 then c\<lparr>clr := v\<rparr> else if i = 15 then c\<lparr>cpc := v\<rparr> else c\<lparr>cpsr := v\<rparr>)"

lemma ctx_word_put:
  "i < 17 \<Longrightarrow> j < 17 \<Longrightarrow> ctx_word (ctx_put i v c) j = (if j = i then v else ctx_word c j)"
  by (auto simp: ctx_word_def ctx_put_def)

lemma ctx_word_fields:
  "ctx_word c 13 = csp c" "ctx_word c 14 = clr c" "ctx_word c 15 = cpc c" "ctx_word c 16 = cpsr c"
  by (simp_all add: ctx_word_def)

section \<open>The virtual machine (hyper.h)\<close>

record mode_state =
  ctx :: cpu_context
  mode_config :: hc_guest_mode
  rpc_for :: u32
  rpc_to :: u32

record guest_info =
  nr_syscalls :: u32
  page_offset :: u32
  phys_offset :: u32
  vmalloc_end :: u32
  guest_size :: u32

text \<open>
  \<open>current_mode_state\<close> is the index of the element of \<open>mode_states\<close> the pointer points to
  (\<open>MODE_NONE\<close> for the null pointer it holds before the first mode switch);
  \<open>exception_vector\<close> the guest address of the vector table.
\<close>

record virtual_machine =
  vm_id :: u32
  current_guest_mode :: u32
  interrupted_mode :: u32
  ginfo :: guest_info
  exception_vector :: u32
  mode_states :: "u32 \<Rightarrow> mode_state"
  current_mode_state :: u32
  vm_config :: hc_config

section \<open>CP15 maintenance operations\<close>

text \<open>
  Cache, TLB and barrier operations have no result: the state records them in order. The
  \<open>CP15_\<close> ones are the assembly routines of \<^verbatim>\<open>cp15.S\<close>.
\<close>

datatype cp15_op =
    TLB_INVALIDATE_ALL | TLB_INVALIDATE_ALL_INST | TLB_INVALIDATE_ALL_DATA
  | TLB_INVALIDATE_MVA u32 | TLB_INVALIDATE_MVA_INST u32 | TLB_INVALIDATE_MVA_DATA u32
  | TLB_INVALIDATE_ASID u32
  | ICACHE_INVALIDATE_ALL | BRANCH_PRED_INVAL_ALL
  | DCACHE_INVALIDATE_MVA u32 | DCACHE_INVALIDATE_SW u32
  | DCACHE_CLEAN_INVALIDATE_MVA u32 | DCACHE_CLEAN_INVALIDATE_SW u32
  | SYSTEM_CONTROL u32 | AUX_CONTROL_DISABLE u32 | AUX_CONTROL_ENABLE u32
  | CP15_ICacheDisable | CP15_ICacheEnable | CP15_ICacheFlush | CP15_ICacheFlushBuff u32 u32
  | CP15_DCacheDisable | CP15_DCacheEnable | CP15_DCacheFlush | CP15_DCacheClean
  | CP15_DCacheCleanFlush | CP15_DCacheCleanBuff u32 u32 | CP15_DCacheFlushBuff u32 u32
  | CP15_DCacheCleanFlushBuff u32 u32
  | TRANSLATION_TABLE1 u32 | MEMORY_REMAP_PRRR u32 | MEMORY_REMAP_NMRR u32
  | DSB | ISB

section \<open>The state of the hypervisor\<close>

text \<open>
  \<open>hw\<close> is the memory-management state of \<^verbatim>\<open>dmmu.c\<close>; \<open>cpu_ctx\<close> the mode whose context
  \<^verbatim>\<open>cpu_context_current_set\<close> selected; \<open>boot\<close>, \<open>linux_l2_index_p\<close> and \<open>l2_index_p\<close> are
  static variables; \<open>cpu_id\<close>, \<open>cpu_mmf\<close>, \<open>cpu_cr\<close> (the system control register) and \<open>csselr\<close> (the cache
  size selection register) CP15 registers; \<open>maint\<close> the maintenance operations issued so far.
\<close>

record sys =
  hw :: hv
  vm :: virtual_machine
  cpu_ctx :: u32
  boot :: u32
  tls :: u32
  linux_l2_index_p :: u32
  l2_index_p :: u32
  cpu_id :: u32
  cpu_mmf :: u32
  cpu_cr :: u32
  csselr :: u32
  maint :: "cp15_op list"

text \<open>
  What the code relies on and does not define: the MMU, which translates a virtual address
  under the current tables; the cache geometry registers CCSIDR (by the selected cache) and CLIDR; whether
  \<^verbatim>\<open>LINUX\<close> is defined; the physical address of the hypervisor's second-level tables, which the
  linker script sets; the indeterminate value of the variable \<^verbatim>\<open>dmmu_unmap_L1_pt\<close>
  does not initialise.
\<close>

record platform =
  mmu :: "hv \<Rightarrow> u32 \<Rightarrow> u32"
  ccsidr :: "u32 \<Rightarrow> u32"
  clidr :: u32
  linux_build :: bool
  slpt_pa :: u32
  junk :: u32

definition vread :: "platform \<Rightarrow> sys \<Rightarrow> u32 \<Rightarrow> u32" where
  "vread pl s va = mem (hw s) (mmu pl (hw s) va)"

definition vwrite :: "platform \<Rightarrow> u32 \<Rightarrow> u32 \<Rightarrow> sys \<Rightarrow> sys" where
  "vwrite pl va v s = s\<lparr>hw := (hw s)\<lparr>mem := (mem (hw s))(mmu pl (hw s) va := v)\<rparr>\<rparr>"

definition cop :: "cp15_op list \<Rightarrow> sys \<Rightarrow> sys" where
  "cop ops s = s\<lparr>maint := maint s @ ops\<rparr>"

definition mode_update :: "u32 \<Rightarrow> (mode_state \<Rightarrow> mode_state) \<Rightarrow> sys \<Rightarrow> sys" where
  "mode_update m f s = s\<lparr>vm := (vm s)\<lparr>mode_states := (mode_states (vm s))(m := f (mode_states (vm s) m))\<rparr>\<rparr>"

definition ctx_upd :: "u32 \<Rightarrow> (cpu_context \<Rightarrow> cpu_context) \<Rightarrow> sys \<Rightarrow> sys" where
  "ctx_upd m f = mode_update m (\<lambda>ms. ms\<lparr>ctx := f (ctx ms)\<rparr>)"

abbreviation mctx :: "sys \<Rightarrow> u32 \<Rightarrow> cpu_context" where
  "mctx s m \<equiv> ctx (mode_states (vm s) m)"

abbreviation cur :: "sys \<Rightarrow> u32" where
  "cur s \<equiv> current_mode_state (vm s)"

abbreviation cfg :: "sys \<Rightarrow> hc_config" where
  "cfg s \<equiv> vm_config (vm s)"

text \<open>A call of a \<^verbatim>\<open>dmmu.c\<close> operation on the configuration of the current virtual machine.\<close>

definition dmmu_call :: "(hc_config \<Rightarrow> hv \<Rightarrow> u32 \<times> hv) \<Rightarrow> sys \<Rightarrow> u32 \<times> sys" where
  "dmmu_call f s = (let (r, h) = f (cfg s) (hw s) in (r, s\<lparr>hw := h\<rparr>))"

abbreviation dmmu_do :: "(hc_config \<Rightarrow> hv \<Rightarrow> u32 \<times> hv) \<Rightarrow> sys \<Rightarrow> sys" where
  "dmmu_do f s \<equiv> snd (dmmu_call f s)"

lemma sys_frame [frame]:
  "vm (vwrite pl va v s) = vm s" "vm (cop ops s) = vm s" "hw (cop ops s) = hw s"
  "vm (snd (dmmu_call f s)) = vm s" "hw (mode_update m g s) = hw s"
  "hw (snd (dmmu_call f s)) = snd (f (cfg s) (hw s))" "fst (dmmu_call f s) = fst (f (cfg s) (hw s))"
  "cpu_ctx (vwrite pl va v s) = cpu_ctx s" "cpu_ctx (cop ops s) = cpu_ctx s"
  "cpu_ctx (snd (dmmu_call f s)) = cpu_ctx s" "cpu_ctx (mode_update m g s) = cpu_ctx s"
  by (simp_all add: vwrite_def cop_def dmmu_call_def Let_def split_beta mode_update_def)

end
