(* ===== verification/CacheOps.thy ===== *)
theory CacheOps
  imports Machine
begin

text \<open>
  Cache and TLB maintenance: \<^verbatim>\<open>armv7a/cpu_mem.c\<close>, the wrappers of \<^verbatim>\<open>armv7a/cache.c\<close>
  and the hypercalls of \<^verbatim>\<open>hypercalls/hyp_cache.c\<close>. The operations leave the state of the
  guest alone; what counts is which operations they issue, and that they return.
\<close>

section \<open>TLB and system control (cpu_mem.c)\<close>

definition mem_mmu_tlb_invalidate_all :: "bool \<Rightarrow> bool \<Rightarrow> sys \<Rightarrow> sys" where
  "mem_mmu_tlb_invalidate_all inst data s =
     (if inst \<and> data then cop [TLB_INVALIDATE_ALL] s
      else if inst then cop [TLB_INVALIDATE_ALL_INST] s
      else if data then cop [TLB_INVALIDATE_ALL_DATA] s
      else s)"

definition mem_mmu_tlb_invalidate_one :: "bool \<Rightarrow> bool \<Rightarrow> u32 \<Rightarrow> sys \<Rightarrow> sys" where
  "mem_mmu_tlb_invalidate_one inst data virtual_addr s =
     (if inst \<and> data then cop [TLB_INVALIDATE_MVA virtual_addr] s
      else if inst then cop [TLB_INVALIDATE_MVA_INST virtual_addr] s
      else if data then cop [TLB_INVALIDATE_MVA_DATA virtual_addr] s
      else s)"

abbreviation (input) COP_SYSTEM_CONTROL_DCACHE_ENABLE :: u32 where
  "COP_SYSTEM_CONTROL_DCACHE_ENABLE \<equiv> 4"
abbreviation (input) COP_SYSTEM_CONTROL_ICACHE_ENABLE :: u32 where
  "COP_SYSTEM_CONTROL_ICACHE_ENABLE \<equiv> 0x1000"

definition mem_cache_set_enable :: "bool \<Rightarrow> sys \<Rightarrow> sys" where
  "mem_cache_set_enable enable s =
     (let flags = COP_SYSTEM_CONTROL_ICACHE_ENABLE OR COP_SYSTEM_CONTROL_DCACHE_ENABLE;
          tmp = (if enable then cpu_cr s OR flags else cpu_cr s AND NOT flags)
      in cop [SYSTEM_CONTROL tmp] (s\<lparr>cpu_cr := tmp\<rparr>))"

section \<open>Invalidation by set and way (cpu_mem.c)\<close>

function log2_loop :: "u32 \<Rightarrow> int \<Rightarrow> int" where
  "log2_loop temp log2n = (if temp \<noteq> 0 then log2_loop (drop_bit 1 temp) (log2n + 1) else log2n)"
  by pat_completeness auto
termination
proof (relation "measure (\<lambda>(temp, log2n). unat temp)")
  fix temp :: u32 and log2n :: int
  assume "temp \<noteq> 0"
  then have "0 < unat temp" by (simp add: unat_gt_0)
  moreover have "unat (drop_bit 1 temp) = unat temp div 2"
    unfolding unat_drop_bit_eq by (simp add: drop_bit_eq_div)
  ultimately show "((drop_bit 1 temp, log2n + 1), temp, log2n) \<in> measure (\<lambda>(temp, log2n). unat temp)"
    by simp
qed simp

declare log2_loop.simps [simp del]

definition log_2_n_round_up :: "u32 \<Rightarrow> int" where
  "log_2_n_round_up n =
     (let log2n = log2_loop n (-1) in if n AND (n - 1) \<noteq> 0 then log2n + 1 else log2n)"

text \<open>
  The fields of CCSIDR; the two loops run downwards over the ways and the sets. A shift by the
  full width of 32, which the code makes for a direct-mapped cache and way 0, gives 0.
\<close>

definition setway :: "platform \<Rightarrow> u32 \<Rightarrow> bool \<Rightarrow> sys \<Rightarrow> sys" where
  "setway pl level clean_it s =
     (let sel = push_bit 1 level OR 0;
          ccs = ccsidr pl sel;
          log2_line_len = unat ((ccs AND 0x7) + 2) + 2;
          num_ways = unat (drop_bit 3 (ccs AND push_bit 3 0x3FF)) + 1;
          num_sets = unat (drop_bit 13 (ccs AND push_bit 13 0x7FFF)) + 1;
          way_shift = nat (32 - log_2_n_round_up (of_nat num_ways));
          op = (\<lambda>way set. let sw = push_bit 1 level OR push_bit log2_line_len (of_nat set) OR push_bit way_shift (of_nat way)
                in if clean_it then DCACHE_CLEAN_INVALIDATE_SW sw else DCACHE_INVALIDATE_SW sw)
      in cop (concat (map (\<lambda>way. map (op way) (rev [0..<num_sets])) (rev [0..<num_ways])) @ [DSB])
           (s\<lparr>csselr := sel\<rparr>))"

definition mem_icache_invalidate :: "platform \<Rightarrow> bool \<Rightarrow> sys \<Rightarrow> sys" where
  "mem_icache_invalidate pl clean_it s0 =
     for_loop 8 (\<lambda>level s.
       let cache_type = drop_bit (3 * level) (clidr pl) AND 0x7
       in if cache_type = 2 \<or> cache_type = 3 \<or> cache_type = 4
          then setway pl (of_nat level) clean_it s else s) s0"

definition mem_cache_invalidate :: "platform \<Rightarrow> bool \<Rightarrow> bool \<Rightarrow> bool \<Rightarrow> sys \<Rightarrow> sys" where
  "mem_cache_invalidate pl inst_inv data_inv data_writeback s =
     (let s1 = (if data_inv then mem_icache_invalidate pl data_writeback s else s)
      in if inst_inv then cop [ICACHE_INVALIDATE_ALL] s1 else s1)"

section \<open>Maintenance of an address range (cpu_mem.c)\<close>

abbreviation (input) FLUSH :: u32 where "FLUSH \<equiv> 0"
abbreviation (input) CLEAN :: u32 where "CLEAN \<equiv> 1"

definition area_op :: "u32 \<Rightarrow> u32 \<Rightarrow> sys \<Rightarrow> sys" where
  "area_op op adr s =
     (if op = FLUSH then cop [DCACHE_CLEAN_INVALIDATE_MVA adr] s
      else if op = CLEAN then cop [DCACHE_INVALIDATE_MVA adr] s
      else s)"

definition line_size :: "platform \<Rightarrow> sys \<Rightarrow> u32" where
  "line_size pl s = push_bit (unat (ccsidr pl (csselr s) AND 7)) 16"

text \<open>A \<^verbatim>\<open>do ... while(next < end)\<close> loop: one iteration, then the loop proper.\<close>

definition mem_cache_dcache_area :: "platform \<Rightarrow> u32 \<Rightarrow> u32 \<Rightarrow> u32 \<Rightarrow> sys \<Rightarrow> sys outcome" where
  "mem_cache_dcache_area pl va sz op s =
     (let cache_size = line_size pl s
      in and_then (outcome_of (addr_loop (va + cache_size) (va + sz) cache_size (area_op op) (area_op op va s)))
           (\<lambda>s. Ret (cop [DSB] s)))"

section \<open>The wrappers of cache.c\<close>

abbreviation (input) CACHE_ICACHE :: u32 where "CACHE_ICACHE \<equiv> 1"
abbreviation (input) CACHE_DCACHE :: u32 where "CACHE_DCACHE \<equiv> 2"
abbreviation (input) CORTEX_A8_L2EN :: u32 where "CORTEX_A8_L2EN \<equiv> 2"

text \<open>\<open>part\<close> is the primary part number the assembly routine reads; \<open>0xC08\<close> is the Cortex-A8.\<close>

definition CacheDisable :: "u32 \<Rightarrow> u32 \<Rightarrow> sys \<Rightarrow> sys" where
  "CacheDisable part disFlag s =
     (let s1 = (if disFlag AND CACHE_ICACHE \<noteq> 0 then cop [CP15_ICacheDisable, CP15_ICacheFlush] s else s)
      in if disFlag AND CACHE_DCACHE \<noteq> 0
         then cop (CP15_DCacheDisable # (if part = 0xC08 then [AUX_CONTROL_DISABLE CORTEX_A8_L2EN] else [])) s1
         else s1)"

definition CacheEnable :: "u32 \<Rightarrow> u32 \<Rightarrow> sys \<Rightarrow> sys" where
  "CacheEnable part enFlag s =
     (let s1 = (if enFlag AND CACHE_ICACHE \<noteq> 0 then cop [CP15_ICacheFlush, CP15_ICacheEnable] s else s)
      in if enFlag AND CACHE_DCACHE \<noteq> 0
         then cop ((if part = 0xC08 then [AUX_CONTROL_ENABLE CORTEX_A8_L2EN] else [])
                   @ [CP15_DCacheFlush, CP15_DCacheEnable]) s1
         else s1)"

definition CacheInstInvalidateAll :: "sys \<Rightarrow> sys" where
  "CacheInstInvalidateAll = cop [CP15_ICacheFlush]"

definition CacheInstInvalidateBuff :: "u32 \<Rightarrow> u32 \<Rightarrow> sys \<Rightarrow> sys" where
  "CacheInstInvalidateBuff startAddr numBytes = cop [CP15_ICacheFlushBuff startAddr numBytes]"

definition CacheDataCleanInvalidateAll :: "sys \<Rightarrow> sys" where
  "CacheDataCleanInvalidateAll = cop [CP15_DCacheCleanFlush]"

definition CacheDataCleanAll :: "sys \<Rightarrow> sys" where
  "CacheDataCleanAll = cop [CP15_DCacheClean]"

definition CacheDataInvalidateAll :: "sys \<Rightarrow> sys" where
  "CacheDataInvalidateAll = cop [CP15_DCacheFlush]"

definition CacheDataCleanBuff :: "u32 \<Rightarrow> u32 \<Rightarrow> sys \<Rightarrow> sys" where
  "CacheDataCleanBuff startAddr numBytes = cop [CP15_DCacheCleanBuff startAddr numBytes]"

definition CacheDataInvalidateBuff :: "u32 \<Rightarrow> u32 \<Rightarrow> sys \<Rightarrow> sys" where
  "CacheDataInvalidateBuff startAddr numBytes = cop [CP15_DCacheFlushBuff startAddr numBytes]"

definition CacheDataCleanInvalidateBuff :: "u32 \<Rightarrow> u32 \<Rightarrow> sys \<Rightarrow> sys" where
  "CacheDataCleanInvalidateBuff startAddr numBytes = cop [CP15_DCacheCleanFlushBuff startAddr numBytes]"

lemmas cache_wrappers = CacheInstInvalidateAll_def CacheInstInvalidateBuff_def
  CacheDataCleanInvalidateAll_def CacheDataCleanAll_def CacheDataInvalidateAll_def
  CacheDataCleanBuff_def CacheDataInvalidateBuff_def CacheDataCleanInvalidateBuff_def

section \<open>The cache hypercall (hyp_cache.c)\<close>

definition hypercall_dcache_flush_area :: "platform \<Rightarrow> u32 \<Rightarrow> u32 \<Rightarrow> sys \<Rightarrow> sys outcome" where
  "hypercall_dcache_flush_area pl va sz = mem_cache_dcache_area pl va sz FLUSH"

definition hypercall_dcache_clean_area :: "platform \<Rightarrow> u32 \<Rightarrow> u32 \<Rightarrow> sys \<Rightarrow> sys outcome" where
  "hypercall_dcache_clean_area pl va sz = mem_cache_dcache_area pl va sz CLEAN"

definition hypercall_dcache_invalidate_mva :: "u32 \<Rightarrow> sys \<Rightarrow> sys" where
  "hypercall_dcache_invalidate_mva va = cop [DCACHE_INVALIDATE_MVA va, DSB]"

definition hypercall_icache_invalidate_all :: "sys \<Rightarrow> sys" where
  "hypercall_icache_invalidate_all = cop [ICACHE_INVALIDATE_ALL]"

definition hypercall_icache_invalidate_mva :: "u32 \<Rightarrow> sys \<Rightarrow> sys outcome" where
  "hypercall_icache_invalidate_mva va s = Panic ''Not implemented!''"

definition hypercall_branch_invalidate_all :: "sys \<Rightarrow> sys" where
  "hypercall_branch_invalidate_all = cop [BRANCH_PRED_INVAL_ALL]"

definition hypercall_flush_all :: "platform \<Rightarrow> sys \<Rightarrow> sys" where
  "hypercall_flush_all pl s =
     mem_cache_invalidate pl True True True (mem_mmu_tlb_invalidate_all True True s)"

definition hypercall_tlb_invalidate_mva :: "u32 \<Rightarrow> sys \<Rightarrow> sys" where
  "hypercall_tlb_invalidate_mva va = cop [TLB_INVALIDATE_MVA va]"

definition hypercall_tlb_invalidate_asid :: "u32 \<Rightarrow> sys \<Rightarrow> sys" where
  "hypercall_tlb_invalidate_asid asid = cop [TLB_INVALIDATE_ASID asid]"

definition hypercall_cache_op :: "platform \<Rightarrow> u32 \<Rightarrow> u32 \<Rightarrow> u32 \<Rightarrow> sys \<Rightarrow> sys outcome" where
  "hypercall_cache_op pl op va sz s =
     (if op = 0 then Ret (hypercall_flush_all pl s)
      else if op = 1 then hypercall_dcache_flush_area pl va sz s
      else if op = 2 then Ret (CacheDataCleanBuff va sz s)
      else if op = 3 then Ret (CacheDataCleanBuff va 4 s)
      else if op = 4 then Ret (CacheInstInvalidateAll s)
      else if op = 5 then Ret (CacheInstInvalidateBuff va 4 s)
      else if op = 6 then Ret (hypercall_branch_invalidate_all s)
      else if op = 7 then Ret (cop [TLB_INVALIDATE_ALL] s)
      else if op = 8 then Ret (hypercall_tlb_invalidate_mva va s)
      else if op = 9 then Ret (hypercall_tlb_invalidate_asid va s)
      else Ret s)"

section \<open>Rounding to a power of two\<close>

lemma log2_loop_bounds:
  "temp \<noteq> 0 \<Longrightarrow> \<exists>k. log2_loop temp l = l + 1 + int k \<and> 2 ^ k \<le> unat temp \<and> unat temp < 2 ^ Suc k"
proof (induction temp l rule: log2_loop.induct)
  case (1 temp l)
  have half: "unat (drop_bit 1 temp) = unat temp div 2"
    unfolding unat_drop_bit_eq by (simp add: drop_bit_eq_div)
  show ?case
  proof (cases "drop_bit 1 temp = 0")
    case True
    then have "unat temp div 2 = 0" using half by simp
    moreover have "unat temp \<noteq> 0" using 1(2) by (simp add: unat_eq_0)
    ultimately have "unat temp = 1" by linarith
    then show ?thesis using True 1(2) by (intro exI [of _ 0]) (simp add: log2_loop.simps)
  next
    case False
    then obtain k where k: "log2_loop (drop_bit 1 temp) (l + 1) = l + 1 + 1 + int k"
      "2 ^ k \<le> unat temp div 2" "unat temp div 2 < 2 ^ Suc k"
      using 1(1) [OF 1(2) False] half by auto
    then have "2 ^ Suc k \<le> unat temp" "unat temp < 2 ^ Suc (Suc k)" by auto
    then show ?thesis using k(1) 1(2) by (intro exI [of _ "Suc k"]) (simp add: log2_loop.simps)
  qed
qed

lemma and_minus_one_zero_iff:
  assumes "2 ^ k \<le> unat (n :: u32)" "unat n < 2 ^ Suc k"
  shows "n AND (n - 1) = 0 \<longleftrightarrow> unat n = 2 ^ k"
proof -
  have "(2::nat) ^ k < 2 ^ 32" using assms(1) unsigned_less [of n, where ?'a = nat] by simp
  then have k: "k < 32" by (rule power_less_imp_less_exp [rotated]) simp
  have bit: "bit m k" if "2 ^ k \<le> unat m" "unat m < 2 ^ Suc k" for m :: u32
  proof -
    have "unat m div 2 ^ k = 1" using that by (intro div_nat_eqI) auto
    then have "bit (unat m) k" by (simp add: bit_iff_odd)
    then show ?thesis by (simp add: bit_unsigned_iff)
  qed
  show ?thesis
  proof
    assume zero: "n AND (n - 1) = 0"
    show "unat n = 2 ^ k"
    proof (rule ccontr)
      assume "unat n \<noteq> 2 ^ k"
      then have "2 ^ k \<le> unat n - 1" using assms(1) by simp
      moreover have "n \<noteq> 0" using assms(1) by (auto simp: unat_eq_0)
      then have "unat (n - 1) = unat n - 1" by (simp add: unat_minus_one)
      ultimately have "bit (n AND (n - 1)) k" using assms bit by (simp add: bit_and_iff)
      then show False using zero by simp
    qed
  next
    assume "unat n = 2 ^ k"
    then have "n = of_nat (2 ^ k)" by (metis of_nat_unat ucast_id)
    then have n: "n = 2 ^ k" by simp
    show "n AND (n - 1) = 0"
      unfolding n by (simp add: mask_eq_exp_minus_1 [symmetric]) (rule bit_word_eqI, simp add: bit_simps)
  qed
qed

text \<open>The shift that places the way number is right for every geometry: rounding the base-two
logarithm up by the loop and the power-of-two test gives the least exponent whose power reaches
the number of ways.\<close>

theorem log_2_n_round_up_least:
  assumes "n \<noteq> 0"
  shows "log_2_n_round_up n = int (LEAST k. unat n \<le> 2 ^ k)"
proof -
  obtain k where k: "log2_loop n (-1) = int k" "2 ^ k \<le> unat n" "unat n < 2 ^ Suc k"
    using log2_loop_bounds [OF assms, of "-1"] by auto
  have "(LEAST j. unat n \<le> 2 ^ j) = (if unat n = 2 ^ k then k else Suc k)"
  proof (rule Least_equality)
    show "unat n \<le> 2 ^ (if unat n = 2 ^ k then k else Suc k)" using k(3) by auto
    fix j assume j: "unat n \<le> 2 ^ j"
    then have "(2::nat) ^ k \<le> 2 ^ j" "unat n \<noteq> 2 ^ k \<Longrightarrow> (2::nat) ^ k < 2 ^ j" using k(2) by linarith+
    then have "k \<le> j" "unat n \<noteq> 2 ^ k \<Longrightarrow> k < j"
      by (auto dest: power_le_imp_le_exp [rotated] power_less_imp_less_exp [rotated])
    then show "(if unat n = 2 ^ k then k else Suc k) \<le> j" by auto
  qed
  then show ?thesis
    using and_minus_one_zero_iff [OF k(2,3)] k(1) by (simp add: log_2_n_round_up_def)
qed

theorem log_2_n_round_up_least_witness:
  "log_2_n_round_up 5 = int (LEAST k. unat (5 :: u32) \<le> 2 ^ k)"
  by (rule log_2_n_round_up_least) simp

section \<open>Maintenance of an area\<close>

definition area_maint :: "u32 \<Rightarrow> u32 \<Rightarrow> cp15_op list" where
  "area_maint op a = (if op = FLUSH then [DCACHE_CLEAN_INVALIDATE_MVA a]
     else if op = CLEAN then [DCACHE_INVALIDATE_MVA a] else [])"

lemma area_op_cop: "area_op op a s = cop (area_maint op a) s"
  by (simp add: area_op_def area_maint_def cop_def)

lemma cop_cop: "cop ys (cop xs s) = cop (xs @ ys) s"
  by (simp add: cop_def)

lemma fold_area_op: "fold (\<lambda>i. area_op op (f i)) xs s = cop (concat (map (\<lambda>i. area_maint op (f i)) xs)) s"
  by (induction xs arbitrary: s) (simp_all add: area_op_cop cop_cop, simp add: cop_def)

lemma line_size_power: "\<exists>k\<le>7. unat (line_size pl s) = 2 ^ (4 + k)"
proof -
  define k where "k = unat (ccsidr pl (csselr s) AND 7)"
  have "ccsidr pl (csselr s) AND 7 \<le> 7" by (rule word_and_le1)
  then have k7: "k \<le> 7" unfolding k_def by (simp add: word_le_nat_alt)
  then have "k \<in> {0, 1, 2, 3, 4, 5, 6, 7}" by auto
  then have "unat (line_size pl s) = 2 ^ (4 + k)"
    unfolding line_size_def k_def [symmetric] by (auto simp: push_bit_eq_mult)
  with k7 show ?thesis by blast
qed

lemma line_size_pos: "0 < line_size pl s" "16 \<le> unat (line_size pl s)" "unat (line_size pl s) \<le> 2048"
proof -
  obtain k where k: "k \<le> 7" "unat (line_size pl s) = 2 ^ (4 + k)" using line_size_power by blast
  have "(2::nat) ^ 4 \<le> 2 ^ (4 + k)" "(2::nat) ^ (4 + k) \<le> 2 ^ 11" using k(1) by (intro power_increasing; simp)+
  then show "16 \<le> unat (line_size pl s)" "unat (line_size pl s) \<le> 2048" using k(2) by simp_all
  then show "0 < line_size pl s" by (simp add: word_less_nat_alt)
qed

lemma line_size_dvd: "unat (line_size pl s) dvd 2 ^ 32" "unat (line_size pl s) dvd 2048"
proof -
  obtain k where k: "k \<le> 7" "unat (line_size pl s) = 2 ^ (4 + k)" using line_size_power by blast
  have "(2::nat) ^ (4 + k) dvd 2 ^ 32" "(2::nat) ^ (4 + k) dvd 2 ^ 11" using k(1) by (intro le_imp_power_dvd; simp)+
  then show "unat (line_size pl s) dvd 2 ^ 32" "unat (line_size pl s) dvd 2048" using k(2) by simp_all
qed

text \<open>C13. Cleaning an area returns whenever the end of the area, rounded up by one line, does not
wrap around the address space, and it then issues exactly one operation per line from the start
of the area, at least one, followed by a barrier.\<close>

theorem dcache_area_exact:
  assumes "unat va + unat sz + unat (line_size pl s) < 2 ^ 32"
  shows "mem_cache_dcache_area pl va sz op s =
    Ret (cop (concat (map (\<lambda>i. area_maint op (va + of_nat i * line_size pl s))
       [0..<max 1 ((unat sz + unat (line_size pl s) - 1) div unat (line_size pl s))]) @ [DSB]) s)"
proof -
  let ?L = "line_size pl s"
  let ?n = "(unat (va + sz) - unat (va + ?L) + unat ?L - 1) div unat ?L"
  let ?m = "(unat sz + unat ?L - 1) div unat ?L"
  note L = line_size_pos [of pl s]
  have e: "unat (va + sz) = unat va + unat sz" using assms L(2) by (simp add: unat_word_ariths)
  have loop: "addr_loop (va + ?L) (va + sz) ?L (area_op op) (area_op op va s) =
      Some (fold (\<lambda>i. area_op op (va + ?L + of_nat i * ?L)) [0..<?n] (area_op op va s))"
    by (rule addr_loop_count) (use assms e L in auto)
  have n: "max 1 ?m = Suc ?n"
  proof -
    have f: "unat (va + ?L) = unat va + unat ?L" using assms by (simp add: unat_word_ariths)
    show ?thesis
    proof (cases "unat sz \<le> unat ?L")
      case True
      have "?n = 0" using True e f L by (intro div_less) linarith
      moreover have "?m < 2" by (rule less_mult_imp_div_less) (use True L in linarith)
      ultimately show ?thesis by linarith
    next
      case False
      then have eq: "unat sz + unat ?L - 1 = (unat (va + sz) - unat (va + ?L) + unat ?L - 1) + unat ?L"
        using e f L by linarith
      have "0 < unat ?L" using L by simp
      then have "?m = Suc ?n" unfolding eq by (simp only: div_add_self2)
      then show ?thesis by simp
    qed
  qed
  have idx: "[0..<Suc ?n] = 0 # map Suc [0..<?n]" by (simp add: map_Suc_upt upt_conv_Cons del: upt_Suc)
  have "mem_cache_dcache_area pl va sz op s =
      Ret (cop [DSB] (fold (\<lambda>i. area_op op (va + ?L + of_nat i * ?L)) [0..<?n] (area_op op va s)))"
    unfolding mem_cache_dcache_area_def Let_def loop by (simp add: outcome_of_def)
  then show ?thesis
    unfolding n idx by (simp add: fold_area_op area_op_cop cop_cop comp_def algebra_simps)
qed

theorem dcache_area_exact_witness:
  "\<forall>s. mem_cache_dcache_area \<lparr>mmu = \<lambda>h a. a, ccsidr = \<lambda>_. 0, clidr = 0, linux_build = True, slpt_pa = 0, junk = 0\<rparr> 32 48 0 s =
    Ret (cop [DCACHE_CLEAN_INVALIDATE_MVA 32, DCACHE_CLEAN_INVALIDATE_MVA 48, DCACHE_CLEAN_INVALIDATE_MVA 64, DSB] s)"
  by (intro allI, subst dcache_area_exact) (simp_all add: line_size_def area_maint_def upt_rec)

text \<open>The last address a loop with a step that divides the address space can reach.\<close>

lemma last_address:
  assumes "0 < l" "l dvd m" "r = x mod l" "x < (m :: nat)"
  shows "x \<le> m - l + r" "x < m - l + r \<Longrightarrow> x + l \<le> m - l + r"
proof -
  obtain k where k: "m = l * k" using assms(2) by blast
  then have "0 < k" using assms(4) by (cases k) auto
  then obtain j where j: "k = Suc j" by (cases k) auto
  have x: "x = l * (x div l) + r" using assms(3) by simp
  have q: "x div l \<le> j" using assms(4) k j by (metis less_Suc_eq_le less_mult_imp_div_less mult.commute)
  have "m - l + r = l * j + r" using k j by simp
  with x q show "x \<le> m - l + r" by (metis add_le_mono1 mult_le_mono2)
  assume "x < m - l + r"
  then have "x div l < j" using x q \<open>m - l + r = l * j + r\<close> by (metis le_neq_implies_less nat_less_le)
  then have "l * Suc (x div l) \<le> l * j" by (intro mult_le_mono2) simp
  then show "x + l \<le> m - l + r" using x \<open>m - l + r = l * j + r\<close> by simp
qed

lemma addr_loop_stops_iff:
  assumes "0 < st" "unat st dvd 2 ^ 32"
  shows "(\<exists>t. addr_loop a e st body s = Some t) \<longleftrightarrow> unat e \<le> 2 ^ 32 - unat st + unat a mod unat st"
    (is "?stops a s \<longleftrightarrow> unat e \<le> ?last")
proof
  have st: "0 < unat st" using assms(1) by (simp add: word_less_nat_alt)
  have step: "unat (b + st) mod unat st = unat b mod unat st" for b :: u32
    using assms(2) by (simp add: unat_word_ariths mod_mod_cancel)
  show "unat e \<le> ?last" if "?stops a s"
  proof (rule ccontr)
    assume less: "\<not> unat e \<le> ?last"
    have "addr_loop a e st body s = None"
    proof (rule addr_loop_diverges [where I = "\<lambda>b. unat b mod unat st = unat a mod unat st"])
      fix b :: u32 assume b: "unat b mod unat st = unat a mod unat st"
      show "unat (b + st) mod unat st = unat a mod unat st" using step b by simp
      have "unat b \<le> ?last"
        by (rule last_address(1) [OF st assms(2)]) (simp_all add: b, use unsigned_less [where ?'a = nat, of b] in simp)
      then show "b < e" using less by (simp add: word_less_nat_alt)
    qed simp
    with that show False by simp
  qed
  show "?stops a s" if "unat e \<le> ?last"
    using that
  proof (induction "2 ^ 32 - unat a" arbitrary: a s rule: less_induct)
    case less
    have bound: "unat a < 2 ^ 32" using unsigned_less [where ?'a = nat, of a] by simp
    show ?case
    proof (cases "a < e")
      case True
      then have "unat a < 2 ^ 32 - unat st + unat a mod unat st" using less(2) by (simp add: word_less_nat_alt)
      from last_address(2) [OF st assms(2) refl bound this] have "unat a + unat st \<le> 2 ^ 32 - unat st + unat a mod unat st" .
      moreover have "2 ^ 32 - unat st + unat a mod unat st < 2 ^ 32"
        using st mod_less_divisor [OF st, of "unat a"] unsigned_less [where ?'a = nat, of st] by simp
      ultimately have "unat a + unat st < 2 ^ 32" by linarith
      then have sum: "unat (a + st) = unat a + unat st" by (simp add: unat_word_ariths)
      have "?stops (a + st) (body a s)"
        by (rule less(1)) (use sum st bound step [of a] less(2) in auto)
      then show ?thesis using True addr_loop_step [of a e st body s] by simp
    next
      case False
      then show ?thesis using addr_loop_step [of a e st body s] by simp
    qed
  qed
qed

text \<open>Cleaning an area returns exactly when the end of the area is at most the last address
congruent to its start modulo the line size; otherwise the address wraps around for ever.\<close>

theorem dcache_area_returns_iff:
  "(\<exists>t. mem_cache_dcache_area pl va sz op s = Ret t) \<longleftrightarrow>
    unat (va + sz) \<le> 2 ^ 32 - unat (line_size pl s) + unat va mod unat (line_size pl s)"
proof -
  let ?L = "line_size pl s"
  have "(\<exists>t. mem_cache_dcache_area pl va sz op s = Ret t) \<longleftrightarrow>
      (\<exists>t. addr_loop (va + ?L) (va + sz) ?L (area_op op) (area_op op va s) = Some t)"
    unfolding mem_cache_dcache_area_def Let_def
    by (auto simp: outcome_of_def and_then_Ret_iff split: option.split)
  also have "\<dots> \<longleftrightarrow> unat (va + sz) \<le> 2 ^ 32 - unat ?L + unat (va + ?L) mod unat ?L"
    by (rule addr_loop_stops_iff [OF line_size_pos(1) line_size_dvd(1)])
  also have "unat (va + ?L) mod unat ?L = unat va mod unat ?L"
    using line_size_dvd(1) [of pl s] by (simp add: unat_word_ariths mod_mod_cancel)
  finally show ?thesis .
qed

text \<open>One cache hypercall of the guest stops the hypervisor for ever, whatever the geometry of
the cache: flushing the last 2047 bytes of the address space but one.\<close>

theorem cache_hypercall_hangs: "hypercall_cache_op pl 1 0xFFFFF800 0x7FF s = Hang"
proof -
  let ?L = "line_size pl s"
  have L: "16 \<le> unat ?L" by (rule line_size_pos)
  have "(2048::nat) dvd 0xFFFFF800" by (simp add: dvd_eq_mod_eq_0)
  then have "unat ?L dvd 0xFFFFF800" using line_size_dvd(2) dvd_trans by blast
  then have k: "unat (0xFFFFF800 + ?L) mod unat ?L = 0"
    using line_size_dvd(1) [of pl s] by (simp add: unat_word_ariths mod_mod_cancel)
  have "\<not> (\<exists>t. addr_loop (0xFFFFF800 + ?L) (0xFFFFF800 + 0x7FF) ?L (area_op FLUSH) (area_op FLUSH 0xFFFFF800 s) = Some t)"
    unfolding addr_loop_stops_iff [OF line_size_pos(1) line_size_dvd(1)] k using L by simp
  then show ?thesis
    by (simp add: hypercall_cache_op_def hypercall_dcache_flush_area_def mem_cache_dcache_area_def outcome_of_def
        split: option.split)
qed

end
