(* ===== verification/LinuxMmu.thy ===== *)
theory LinuxMmu
  imports CacheOps
begin

text \<open>
  The page-table hypercalls of a para-virtualised Linux (\<^verbatim>\<open>hypercalls/hyp_dmmu.c\<close>) and the
  page tables Linux starts with (\<^verbatim>\<open>linux/linux_init.c\<close>). Both edit page tables through the
  operations of \<^verbatim>\<open>dmmu.c\<close>, and both also write guest memory themselves, through guest
  virtual addresses. Debug output is left out.
\<close>

section \<open>Guest memory\<close>

text \<open>\<^verbatim>\<open>memset\<close> to zero and \<^verbatim>\<open>memcpy\<close>, by words.\<close>

definition clear_words :: "platform \<Rightarrow> u32 \<Rightarrow> nat \<Rightarrow> sys \<Rightarrow> sys" where
  "clear_words pl va n = for_loop n (\<lambda>i. vwrite pl (va + 4 * of_nat i) 0)"

definition copy_words :: "platform \<Rightarrow> u32 \<Rightarrow> u32 \<Rightarrow> nat \<Rightarrow> sys \<Rightarrow> sys" where
  "copy_words pl dst src n =
     for_loop n (\<lambda>i s. vwrite pl (dst + 4 * of_nat i) (vread pl s (src + 4 * of_nat i)) s)"

text \<open>Memory the hypervisor reaches through its window on the guest.\<close>

definition win_read :: "sys \<Rightarrow> u32 \<Rightarrow> u32" where
  "win_read s va = mem_read (cfg s) (hw s) va"

definition win_clear :: "u32 \<Rightarrow> nat \<Rightarrow> sys \<Rightarrow> sys" where
  "win_clear va n s =
     s\<lparr>hw := for_loop n (\<lambda>i. mem_write (cfg s) (va + 4 * of_nat i) 0) (hw s)\<rparr>"

definition set_ttbr0 :: "u32 \<Rightarrow> sys \<Rightarrow> sys" where
  "set_ttbr0 v s = s\<lparr>hw := (hw s)\<lparr>ttbr0 := v\<rparr>\<rparr>"

section \<open>Addresses (hyp_dmmu.c)\<close>

definition LINUX_PA :: "hc_config \<Rightarrow> u32 \<Rightarrow> u32" where
  "LINUX_PA c va = va - vstart (firmware c) + pstart (firmware c)"

definition LINUX_VA :: "hc_config \<Rightarrow> u32 \<Rightarrow> u32" where
  "LINUX_VA c pa = pa - pstart (firmware c) + vstart (firmware c)"

lemma LINUX_PA_VA [simp]: "LINUX_PA c (LINUX_VA c pa) = pa" "LINUX_VA c (LINUX_PA c va) = va"
  by (simp_all add: LINUX_PA_def LINUX_VA_def)

text \<open>The offset in descriptors of an L2 table inside its 4 KiB block, and of a page in its table.\<close>

definition table2_index :: "u32 \<Rightarrow> u32" where
  "table2_index table2_pa = drop_bit MMU_L1_PT_SHIFT (table2_pa - (table2_pa AND L2_BASE_MASK)) * 0x100"

definition page_index :: "u32 \<Rightarrow> u32" where
  "page_index va = drop_bit 24 (push_bit 12 va)"

abbreviation (input) small_rw_attrs :: u32 where
  "small_rw_attrs \<equiv> MMU_L2_TYPE_SMALL OR (MMU_FLAG_B OR MMU_FLAG_C)
     OR push_bit MMU_L2_SMALL_AP_SHIFT MMU_AP_USER_RW"

abbreviation (input) small_ro_attrs :: u32 where
  "small_ro_attrs \<equiv> 0xE OR push_bit MMU_L2_SMALL_AP_SHIFT MMU_AP_USER_RO"

abbreviation (input) pt_attrs :: u32 where
  "pt_attrs \<equiv> MMU_L1_TYPE_PT OR push_bit MMU_L1_DOMAIN_SHIFT (of_nat HC_DOM_KERNEL)"

section \<open>Private second-level tables (linux_init.c)\<close>

definition linux_pt_get_empty_l2 :: "sys \<Rightarrow> (u32 \<times> sys) outcome" where
  "linux_pt_get_empty_l2 s =
     (let pa_l2_pt = pstart (firmware (cfg s)) + pa_initial_l2_offset (cfg s);
          va_l2_pt = mmu_guest_pa_to_va pa_l2_pt (cfg s)
      in if linux_l2_index_p s * 0x400 > SECTION_SIZE then Hang
         else
           (let index = linux_l2_index_p s * 0x400;
                s1 = win_clear (va_l2_pt + index) 256 s;
                l2_base_add = pa_l2_pt + index;
                p = linux_l2_index_p s + 1;
                p' = (if p AND 2 = 2 then (p AND NOT 3) + 4 else p)
            in Ret (l2_base_add, s1\<lparr>linux_l2_index_p := p'\<rparr>)))"

section \<open>Switching, freeing and creating a page directory (hyp_dmmu.c)\<close>

definition hypercall_dyn_switch_mm :: "u32 \<Rightarrow> u32 \<Rightarrow> sys \<Rightarrow> sys" where
  "hypercall_dyn_switch_mm table_base ctx_id s =
     (let (r, s1) = dmmu_call (\<lambda>c. dmmu_switch_mm c (table_base AND L1_BASE_MASK)) s;
          s2 = (if r \<noteq> 0 then dmmu_do (\<lambda>c. dmmu_switch_mm c (table_base AND L1_BASE_MASK)) s1 else s1)
      in cop [ISB] (s2\<lparr>hw := (hw s2)\<lparr>context_id := ctx_id\<rparr>\<rparr>))"

text \<open>The descriptor in the master page directory of the section that holds an address.\<close>

definition master_entry :: "sys \<Rightarrow> u32 \<Rightarrow> u32" where
  "master_entry s va =
     pa_initial_l1_offset (cfg s) + page_offset (ginfo (vm s)) + 4 * drop_bit MMU_L1_SECTION_SHIFT va"

text \<open>The maintenance after an entry of the guest's page directory changed.\<close>

definition flush_page :: "u32 \<Rightarrow> u32 \<Rightarrow> sys \<Rightarrow> sys" where
  "flush_page entry_va clean_va =
     cop [CP15_DCacheFlushBuff entry_va 4, DSB, TLB_INVALIDATE_MVA clean_va, BRANCH_PRED_INVAL_ALL, DSB, ISB]"

definition hypercall_dyn_free_pgd :: "platform \<Rightarrow> u32 \<Rightarrow> sys \<Rightarrow> sys" where
  "hypercall_dyn_free_pgd pl pgd_va s =
     (let l1_desc_entry = vread pl s (master_entry s pgd_va);
          table2_pa = MMU_L1_PT_ADDR l1_desc_entry;
          l2_base = table2_pa AND L2_BASE_MASK;
          l2_entry_idx = page_index pgd_va + table2_index table2_pa;
          l2_page_entry = mmu_guest_pa_to_va l2_base (cfg s);
          page_pa = MMU_L2_SMALL_ADDR (win_read s (l2_page_entry + 4 * l2_entry_idx));
          s1 = for_loop 4 (\<lambda>k. dmmu_do (\<lambda>c. dmmu_l2_unmap_entry c l2_base (l2_entry_idx + of_nat k))) s;
          s2 = dmmu_do (\<lambda>c. dmmu_unmap_L1_pt c (junk pl) (LINUX_PA c pgd_va)) s1
      in for_loop 4 (\<lambda>k t.
           let i = l2_entry_idx + of_nat k;
               t1 = dmmu_do (\<lambda>c. dmmu_l2_map_entry c l2_base i (page_pa + of_nat k * 0x1000) small_rw_attrs) t;
               clean_va = LINUX_VA (cfg t1) (MMU_L2_SMALL_ADDR (win_read t1 (l2_page_entry + 4 * i)))
           in flush_page (l2_page_entry + 4 * i) clean_va t1) s2)"

text \<open>
  Replacing a section of Linux by an L2 table that maps the same 256 pages, those of \<open>ro\<close>
  read-only; \<^verbatim>\<open>hypercall_dyn_new_pgd\<close> and \<^verbatim>\<open>hypercall_dyn_set_pmd\<close> contain the same steps.
\<close>

definition split_section :: "u32 \<Rightarrow> u32 \<Rightarrow> (u32 \<Rightarrow> u32 \<Rightarrow> bool) \<Rightarrow> sys \<Rightarrow> sys outcome" where
  "split_section va l1_desc_entry ro s =
     (let s1 = dmmu_do (\<lambda>c. dmmu_unmap_L1_pageTable_entry c va) s
      in and_then (linux_pt_get_empty_l2 s1) (\<lambda>(table2_pa, s2).
           let s3 = dmmu_do (\<lambda>c. dmmu_l1_pt_map c va table2_pa pt_attrs) s2;
               page_pa = MMU_L1_SECTION_ADDR l1_desc_entry;
               table2_idx = table2_index table2_pa
           in Ret (for_loop 256 (\<lambda>k.
                let i = table2_idx + of_nat k;
                    attrs = (if ro table2_idx i then small_ro_attrs else small_rw_attrs)
                in dmmu_do (\<lambda>c. dmmu_l2_map_entry c table2_pa i (page_pa + of_nat k * 0x1000) attrs)) s3)))"

text \<open>The pages of the new directory, in a section that is already mapped by small pages.\<close>

definition protect_pages :: "u32 \<Rightarrow> u32 \<Rightarrow> sys \<Rightarrow> sys" where
  "protect_pages l1_desc_entry pgd_va s =
     (let table2_pa = MMU_L1_PT_ADDR l1_desc_entry;
          l2_base = table2_pa AND L2_BASE_MASK;
          l2_entry_idx = page_index pgd_va + table2_index table2_pa;
          l2_page_entry = mmu_guest_pa_to_va l2_base (cfg s);
          page_pa = MMU_L2_SMALL_ADDR (win_read s (l2_page_entry + 4 * l2_entry_idx))
      in for_loop 4 (\<lambda>k t.
           let i = l2_entry_idx + of_nat k;
               t1 = dmmu_do (\<lambda>c. dmmu_l2_unmap_entry c l2_base i) t;
               t2 = dmmu_do (\<lambda>c. dmmu_l2_map_entry c l2_base i (page_pa + of_nat k * 0x1000) small_ro_attrs) t1;
               clean_va = LINUX_VA (cfg t2) (MMU_L2_SMALL_ADDR (win_read t2 (l2_page_entry + 4 * i)))
           in flush_page (l2_page_entry + 4 * i) clean_va t2) s)"

definition hypercall_dyn_new_pgd :: "platform \<Rightarrow> u32 \<Rightarrow> sys \<Rightarrow> sys outcome" where
  "hypercall_dyn_new_pgd pl pgd_va s =
     (let phys_start = pstart (firmware (cfg s));
          pg_offset = page_offset (ginfo (vm s));
          master_pgd_va = pa_initial_l1_offset (cfg s) + pg_offset;
          l1_desc_entry = vread pl s (master_entry s pgd_va);
          r = (if l1_desc_entry AND MMU_L1_TYPE_SECTION \<noteq> 0
               then
                 (let linux_va = MMU_L1_SECTION_ADDR l1_desc_entry - phys_start + pg_offset;
                      s1 = cop [TLB_INVALIDATE_MVA linux_va, BRANCH_PRED_INVAL_ALL, DSB, ISB] s
                  in and_then (split_section linux_va l1_desc_entry
                         (\<lambda>table2_idx i. page_index pgd_va + table2_idx \<le> i
                            \<and> i < page_index pgd_va + table2_idx + 4) s1)
                       (\<lambda>s2. Ret (cop [CP15_DCacheFlushBuff (master_entry s pgd_va) 4, DSB] s2)))
               else Ret (protect_pages l1_desc_entry pgd_va s))
      in and_then r (\<lambda>s3.
           let s4 = clear_words pl pgd_va 0xBF0 s3;
               s5 = copy_words pl (pgd_va + 0x2FC0) (master_pgd_va + 0x2FC0) 0x410 s4
           in Ret (dmmu_do (\<lambda>c. dmmu_create_L1_pt c (LINUX_PA c pgd_va)) s5)))"

section \<open>Setting an entry of a page directory (hyp_dmmu.c)\<close>

text \<open>
  The steps of \<^verbatim>\<open>hypercall_dyn_set_pmd\<close> once the directory to edit is the active one: make
  sure the page of the new second-level table is mapped by a small page, make that page
  read-only and turn it into an L2 table, and link or unlink the two halves of the table.
\<close>

definition set_pmd_protect :: "u32 \<Rightarrow> u32 \<Rightarrow> u32 \<Rightarrow> sys \<Rightarrow> sys" where
  "set_pmd_protect desc l2pt_pa l2_idx s =
     (let l2entry_desc = win_read s (mmu_guest_pa_to_va l2pt_pa (cfg s) + 4 * l2_idx);
          i = table2_index l2pt_pa + l2_idx;
          s1 = (if drop_bit 4 l2entry_desc AND 0xFF = 3
                then dmmu_do (\<lambda>c. dmmu_l2_map_entry c (l2pt_pa AND L2_BASE_MASK) i
                         (MMU_L2_SMALL_ADDR desc) small_ro_attrs)
                       (dmmu_do (\<lambda>c. dmmu_l2_unmap_entry c (l2pt_pa AND L2_BASE_MASK) i) s)
                else s)
      in if desc \<noteq> 0 then dmmu_do (\<lambda>c. dmmu_create_L2_pt c (MMU_L2_SMALL_ADDR desc)) s1 else s1)"

definition set_pmd_clear :: "platform \<Rightarrow> u32 \<Rightarrow> u32 \<Rightarrow> u32 \<Rightarrow> u32 \<Rightarrow> sys \<Rightarrow> sys" where
  "set_pmd_clear pl pmd virt l2pt_pa l2_idx s =
     (let i = table2_index l2pt_pa + l2_idx;
          linux_va = vread pl s pmd - pstart (firmware (cfg s)) + page_offset (ginfo (vm s));
          s1 = cop [TLB_INVALIDATE_MVA linux_va, BRANCH_PRED_INVAL_ALL, DSB, ISB] s;
          s2 = dmmu_do (\<lambda>c. dmmu_unmap_L1_pageTable_entry c virt) s1;
          s3 = dmmu_do (\<lambda>c. dmmu_unmap_L1_pageTable_entry c (virt + SECTION_SIZE)) s2;
          s4 = dmmu_do (\<lambda>c. dmmu_l2_unmap_entry c (l2pt_pa AND L2_BASE_MASK) i) s3;
          s5 = dmmu_do (\<lambda>c. dmmu_unmap_L2_pt c (MMU_L2_SMALL_ADDR (vread pl s4 pmd))) s4;
          s6 = dmmu_do (\<lambda>c. dmmu_l2_map_entry c (l2pt_pa AND L2_BASE_MASK) i
                 (MMU_L2_SMALL_ADDR (vread pl s5 pmd)) small_rw_attrs) s5
      in cop [CP15_DCacheFlushBuff (mmu_guest_pa_to_va l2pt_pa (cfg s) + 4 * l2_idx) 4, DSB] s6)"

definition set_pmd_link :: "u32 \<Rightarrow> u32 \<Rightarrow> u32 \<Rightarrow> u32 \<Rightarrow> u32 \<Rightarrow> sys \<Rightarrow> sys" where
  "set_pmd_link pmd desc virt l2pt_pa l2_idx s =
     (let attrs = desc AND 0x3FF;
          linux_va = desc - pstart (firmware (cfg s)) + page_offset (ginfo (vm s));
          s1 = cop [TLB_INVALIDATE_MVA linux_va, BRANCH_PRED_INVAL_ALL, DSB, ISB] s;
          s2 = dmmu_do (\<lambda>c. dmmu_l1_pt_map c virt (MMU_L2_SMALL_ADDR desc) attrs) s1;
          s3 = dmmu_do (\<lambda>c. dmmu_l1_pt_map c (virt + SECTION_SIZE) (MMU_L2_SMALL_ADDR desc + 0x400) attrs) s2
      in cop [CP15_DCacheFlushBuff pmd 4,
              CP15_DCacheFlushBuff (mmu_guest_pa_to_va l2pt_pa (cfg s) + 4 * l2_idx) 4, DSB] s3)"

definition hypercall_dyn_set_pmd :: "platform \<Rightarrow> u32 \<Rightarrow> u32 \<Rightarrow> sys \<Rightarrow> sys outcome" where
  "hypercall_dyn_set_pmd pl pmd desc s =
     (let phys_start = pstart (firmware (cfg s));
          page_offset_idx = drop_bit MMU_L1_SECTION_SHIFT (page_offset (ginfo (vm s))) * 4;
          pgd_va = pmd AND L1_BASE_MASK;
          curr_pgd_pa = ttbr0 (hw s);
          switch_back = (LINUX_PA (cfg s) (pmd AND L1_BASE_MASK) \<noteq> curr_pgd_pa);
          s1 = (if switch_back then cop [ISB] (set_ttbr0 (LINUX_PA (cfg s) pgd_va) s) else s);
          l1_entry = (if desc \<noteq> 0 then desc else vread pl s1 pmd);
          l1_pt_idx = drop_bit MMU_L1_SECTION_SHIFT (l1_entry - phys_start) * 4;
          l1_desc_entry = vread pl s1 (pgd_va + l1_pt_idx + page_offset_idx);
          desc_va = LINUX_VA (cfg s1) (MMU_L2_SMALL_ADDR l1_entry);
          l2_idx = page_index l1_entry;
          r = (if l1_desc_entry AND MMU_L1_TYPE_SECTION \<noteq> 0
               then split_section desc_va l1_desc_entry (\<lambda>table2_idx i. i = l2_idx + table2_idx) s1
               else Ret s1)
      in and_then r (\<lambda>s2.
           let s3 = cop [TLB_INVALIDATE_MVA desc_va, BRANCH_PRED_INVAL_ALL, DSB, ISB] s2;
               l2pt_pa = MMU_L1_PT_ADDR (vread pl s3 (pgd_va + 4 * drop_bit MMU_L1_SECTION_SHIFT desc_va));
               s4 = set_pmd_protect desc l2pt_pa l2_idx s3;
               virt = push_bit MMU_L1_SECTION_SHIFT (drop_bit 2 (pmd - pgd_va));
               s5 = (if desc = 0 then set_pmd_clear pl pmd virt l2pt_pa l2_idx s4
                     else set_pmd_link pmd desc virt l2pt_pa l2_idx s4)
           in Ret (if switch_back then cop [ISB] (set_ttbr0 curr_pgd_pa s5) else s5)))"

section \<open>Setting an entry of a second-level table (hyp_dmmu.c)\<close>

definition hypercall_dyn_set_pte :: "platform \<Rightarrow> u32 \<Rightarrow> u32 \<Rightarrow> u32 \<Rightarrow> sys \<Rightarrow> sys outcome" where
  "hypercall_dyn_set_pte pl l2pt_linux_entry_va linux_pte phys_pte s =
     (let phys_start = pstart (firmware (cfg s));
          pg_offset = page_offset (ginfo (vm s));
          guest_sz = psize (firmware (cfg s));
          l2pt_hw_entry_va = l2pt_linux_entry_va - 0x800;
          l2pt_hw_entry_pa = l2pt_hw_entry_va - pg_offset + phys_start;
          pa = MMU_L2_SMALL_ADDR phys_pte
      in if l2pt_hw_entry_va < pg_offset \<or> l2pt_linux_entry_va > HAL_VIRT_START - 4
         then Panic (''Page table entry reside outside of allowed address space !'' @ [CHR 0x0A])
         else if phys_pte \<noteq> 0 \<and> \<not> (pa \<ge> phys_start \<and> pa < phys_start + guest_sz)
         then Panic ''Guest trying does not own pte physical address''
         else
           (let entry_idx = drop_bit 2 (l2pt_hw_entry_va AND 0xFFF);
                attrs = phys_pte AND 0xFFF;
                l2_base = l2pt_hw_entry_pa AND L2_BASE_MASK;
                map_it = dmmu_call (\<lambda>c. dmmu_l2_map_entry c l2_base entry_idx (MMU_L1_PT_ADDR phys_pte) attrs);
                unmap_it = dmmu_call (\<lambda>c. dmmu_l2_unmap_entry c l2_base entry_idx);
                s1 = (if phys_pte \<noteq> 0
                      then (let (err, t) = map_it s
                            in if err = ERR_MMU_PT_NOT_UNMAPPED then snd (map_it (snd (unmap_it t))) else t)
                      else snd (unmap_it s));
                s2 = vwrite pl l2pt_linux_entry_va linux_pte s1
            in Ret (cop [CP15_DCacheFlushBuff l2pt_hw_entry_va 4] s2)))"

section \<open>Clearing the mappings Linux does not use (linux_init.c)\<close>

text \<open>
  \<open>flpt_va\<close> is the virtual address of the master page table. The loop variable of
  \<^verbatim>\<open>clear_linux_mappings\<close> outlives its first loop, so it is part of the loop's state.
\<close>

definition clear_2mb :: "u32 \<Rightarrow> u32 \<Rightarrow> sys \<Rightarrow> sys" where
  "clear_2mb flpt_va address s =
     (let off = drop_bit 21 address
      in cop [DCACHE_INVALIDATE_MVA flpt_va]
           (s\<lparr>hw := (hw s)\<lparr>flpt := (flpt (hw s))(off := 0, off + 1 := 0)\<rparr>\<rparr>))"

definition clear_linux_mappings :: "u32 \<Rightarrow> sys \<Rightarrow> sys outcome" where
  "clear_linux_mappings flpt_va s =
     (let PAGE_OFFSET = page_offset (ginfo (vm s));
          VMALLOC_END = vmalloc_end (ginfo (vm s));
          MODULES_VADDR = PAGE_OFFSET - 16 * 1024 * 1024;
          body = (\<lambda>address (next_address, t). (address + 0x200000, clear_2mb flpt_va address t))
      in and_then (outcome_of (addr_loop 0 MODULES_VADDR 0x200000 body (0, s))) (\<lambda>(address, s1).
         and_then (outcome_of (addr_loop address PAGE_OFFSET 0x200000 body (address, s1))) (\<lambda>(_, s2).
           if VMALLOC_END > HAL_VIRT_START
           then Panic (''Cannot clear out hypervisor page'' @ [CHR 0x0A])
           else outcome_of (addr_loop (PAGE_OFFSET + guest_size (ginfo (vm s))) VMALLOC_END 0x200000
                  (clear_2mb flpt_va) s2))))"

definition dmmu_clear_linux_mappings :: "sys \<Rightarrow> sys outcome" where
  "dmmu_clear_linux_mappings s =
     (let guest_vstart = vstart (firmware (cfg s));
          guest_psize = psize (firmware (cfg s));
          VMALLOC_END = vmalloc_end (ginfo (vm s));
          body = (\<lambda>address. dmmu_do (\<lambda>c. dmmu_unmap_L1_pageTable_entry c address))
      in and_then (outcome_of (addr_loop 0 guest_vstart SECTION_SIZE body s)) (\<lambda>s1.
           if VMALLOC_END > HAL_VIRT_START
           then Panic (''Cannot clear out hypervisor page'' @ [CHR 0x0A])
           else outcome_of (addr_loop (guest_vstart + guest_psize) VMALLOC_END SECTION_SIZE body s1)))"

section \<open>The page tables Linux starts with (linux_init.c)\<close>

abbreviation (input) sect_attrs :: u32 where
  "sect_attrs \<equiv> MMU_L1_TYPE_SECTION OR push_bit MMU_SECTION_AP_SHIFT MMU_AP_USER_RW
     OR push_bit MMU_L1_DOMAIN_SHIFT (of_nat HC_DOM_KERNEL) OR (MMU_FLAG_B OR MMU_FLAG_C)"
abbreviation (input) sect_attrs_ro :: u32 where
  "sect_attrs_ro \<equiv> MMU_L1_TYPE_SECTION OR push_bit MMU_SECTION_AP_SHIFT MMU_AP_USER_RO
     OR push_bit MMU_L1_DOMAIN_SHIFT (of_nat HC_DOM_KERNEL) OR (MMU_FLAG_B OR MMU_FLAG_C)"

text \<open>
  \<open>for(offset = ...; offset + SECTION_SIZE <= bound; offset += SECTION_SIZE)\<close>, whose bound test
  can wrap: the state of the loop holds the offset.
\<close>

definition section_loop :: "u32 \<Rightarrow> u32 \<Rightarrow> (u32 \<Rightarrow> 's \<Rightarrow> 's) \<Rightarrow> 's \<Rightarrow> (u32 \<times> 's) option" where
  "section_loop start bound body s =
     while_option (\<lambda>(off, s). off + SECTION_SIZE \<le> bound)
       (\<lambda>(off, s). (off + SECTION_SIZE, body off s)) (start, s)"

definition map_boot_section :: "u32 \<Rightarrow> sys \<Rightarrow> sys" where
  "map_boot_section off s =
     (let a = pstart (firmware (cfg s)) + off
      in dmmu_do (\<lambda>c. dmmu_map_L1_section c a a
           (if drop_bit 20 a = 0x879 then sect_attrs_ro else sect_attrs)) s)"

definition map_kernel_section :: "u32 \<Rightarrow> sys \<Rightarrow> sys" where
  "map_kernel_section off s =
     dmmu_do (\<lambda>c. dmmu_map_L1_section c (vstart (firmware c) + off) (pstart (firmware c) + off)
       sect_attrs) s"

text \<open>
  One of the last sections, mapped by small pages. \<open>small_attrs_ro\<close> is the value of an
  uninitialised variable into which the code ORs the attributes.
\<close>

definition map_coarse_section :: "u32 \<Rightarrow> u32 \<Rightarrow> sys \<Rightarrow> sys outcome" where
  "map_coarse_section small_ro off s =
     and_then (linux_pt_get_empty_l2 s) (\<lambda>(table2_pa, s1).
       let (r, s2) = dmmu_call (\<lambda>c. dmmu_l1_pt_map c (vstart (firmware c) + off) table2_pa pt_attrs) s1
       in if r \<noteq> 0 then Hang
          else
            (let table2_idx = table2_index table2_pa;
                 l2_off = pa_initial_l2_offset (cfg s2)
             in Ret (for_loop 256 (\<lambda>k.
                  let i = table2_idx + of_nat k;
                      page_pa = off + of_nat k * 0x1000;
                      attrs = (if \<not> (l2_off \<le> page_pa \<and> page_pa \<le> (l2_off OR 0x0000F000))
                               then small_rw_attrs else small_ro)
                  in dmmu_do (\<lambda>c. dmmu_l2_map_entry c table2_pa i (page_pa + pstart (firmware c)) attrs)) s2)))"

definition map_first_section :: "sys \<Rightarrow> sys outcome" where
  "map_first_section s =
     and_then (linux_pt_get_empty_l2 s) (\<lambda>(table2_pa, s1).
       let s2 = dmmu_do (\<lambda>c. dmmu_create_L2_pt c table2_pa) s1;
           s3 = dmmu_do (\<lambda>c. dmmu_l1_pt_map c (pstart (firmware c)) table2_pa pt_attrs) s2;
           s4 = dmmu_do (\<lambda>c. dmmu_l1_pt_map c (vstart (firmware c)) table2_pa pt_attrs) s3
       in Ret (for_loop 256 (\<lambda>i.
            let attrs = (if 1 \<le> i \<and> i \<le> 7 then small_ro_attrs else small_rw_attrs)
            in dmmu_do (\<lambda>c. dmmu_l2_map_entry c table2_pa (of_nat i)
                 (pstart (firmware c) + of_nat i * 0x1000) attrs)) s4))"

definition linux_init_dmmu :: "platform \<Rightarrow> sys \<Rightarrow> sys outcome" where
  "linux_init_dmmu pl s =
     (let guest_psize = psize (firmware (cfg s));
          small_ro = junk pl OR (MMU_L2_TYPE_SMALL OR (MMU_FLAG_B OR MMU_FLAG_C)
                       OR push_bit MMU_L2_SMALL_AP_SHIFT MMU_AP_USER_RO)
      in and_then (outcome_of (section_loop 0 guest_psize map_boot_section s)) (\<lambda>(_, s1).
         and_then (outcome_of (section_loop 0 (guest_psize - SECTION_SIZE * 16) map_kernel_section s1))
           (\<lambda>(off, s2).
         let reserved_l2_pts_pa = pa_initial_l2_offset (cfg s2) + pstart (firmware (cfg s2));
             s3 = win_clear (mmu_guest_pa_to_va reserved_l2_pts_pa (cfg s2)) 0x4000 s2
         in and_then (outcome_of (addr_loop reserved_l2_pts_pa (reserved_l2_pts_pa + 0x10000) PAGE_SIZE
                (\<lambda>i. dmmu_do (\<lambda>c. dmmu_create_L2_pt c i)) s3)) (\<lambda>s4.
            and_then (and_then (outcome_of (section_loop off guest_psize
                 (\<lambda>off r. and_then r (map_coarse_section small_ro off)) (Ret s4))) snd)
              map_first_section))))"

section \<open>Signal return codes (linux_init.c, linux_signal.h)\<close>

abbreviation (input) NR_SYSCALL_BASE :: u32 where "NR_SYSCALL_BASE \<equiv> 0x900000"
abbreviation (input) NR_sigreturn :: u32 where "NR_sigreturn \<equiv> NR_SYSCALL_BASE + 119"
abbreviation (input) NR_rt_sigreturn :: u32 where "NR_rt_sigreturn \<equiv> NR_SYSCALL_BASE + 173"

definition sigreturn_codes :: "u32 list" where
  "sigreturn_codes =
     [0xe3a07000 OR (NR_sigreturn - NR_SYSCALL_BASE),
      0xef000000 OR NR_sigreturn OR NR_SYSCALL_BASE,
      push_bit 16 0xdf00 OR 0x2700 OR (NR_sigreturn - NR_SYSCALL_BASE),
      0xe3a07000 OR (NR_rt_sigreturn - NR_SYSCALL_BASE),
      0xef000000 OR NR_rt_sigreturn OR NR_SYSCALL_BASE,
      push_bit 16 0xdf00 OR 0x2700 OR (NR_rt_sigreturn - NR_SYSCALL_BASE),
      0]"

definition syscall_restart_code :: "u32 list" where
  "syscall_restart_code = [0xef000000 OR NR_SYSCALL_BASE OR NR_SYSCALL_BASE, 0xe49df004]"

definition write_list :: "platform \<Rightarrow> u32 \<Rightarrow> u32 list \<Rightarrow> sys \<Rightarrow> sys" where
  "write_list pl va xs = for_loop (length xs) (\<lambda>i. vwrite pl (va + 4 * of_nat i) (xs ! i))"

abbreviation (input) KERN_SIGRETURN_CODE :: u32 where "KERN_SIGRETURN_CODE \<equiv> 0xFFFF0000 + 0x500"

definition init_linux_sigcode :: "platform \<Rightarrow> sys \<Rightarrow> sys" where
  "init_linux_sigcode pl s =
     write_list pl (KERN_SIGRETURN_CODE + 28) syscall_restart_code
       (write_list pl KERN_SIGRETURN_CODE sigreturn_codes s)"

end
