(* ===== verification/Hypercalls.thy ===== *)
theory Hypercalls
  imports LinuxMmu
begin

text \<open>
  The hypercalls that switch between the modes of the guest and edit their contexts
  (\<^verbatim>\<open>hypercalls/hypercalls.c\<close>, \<^verbatim>\<open>hyp_rpc.c\<close>, \<^verbatim>\<open>hyp_interrupt.c\<close>, \<^verbatim>\<open>hyp_cpu.c\<close>), on the one
  virtual machine \<^verbatim>\<open>guests_init\<close> sets up.
\<close>

section \<open>The current virtual machine (handlers.c)\<close>

text \<open>
  The index into \<^verbatim>\<open>vms\<close>, from the stack pointer. The symbol the linker puts at the bottom of the
  stacks is declared as an \<^verbatim>\<open>int\<close>, so the code subtracts the word stored there,
  \<open>stack_bottom_word\<close>. The rest of the development takes the result to be the one virtual machine.
\<close>

definition get_curr_vm_index :: "u32 \<Rightarrow> u32 \<Rightarrow> u32" where
  "get_curr_vm_index stack_pointer stack_bottom_word = drop_bit 13 (stack_pointer - stack_bottom_word)"

section \<open>Guest modes (hypercalls.c)\<close>

definition hyper_panic :: "string \<Rightarrow> 'a outcome" where
  "hyper_panic msg = Panic msg"

text \<open>\<^verbatim>\<open>terminate\<close> loops for ever.\<close>

definition terminate :: "'a outcome" where
  "terminate = Hang"

definition change_guest_mode :: "u32 \<Rightarrow> sys \<Rightarrow> sys outcome" where
  "change_guest_mode mode s =
     (if mode \<ge> HC_NGUESTMODES then hyper_panic ''Trying to switch to unknown guest mode''
      else
        (let s1 = s\<lparr>vm := (vm s)\<lparr>current_mode_state := mode, current_guest_mode := mode\<rparr>, cpu_ctx := mode\<rparr>;
             domac = domain_ac (mode_config (mode_states (vm s1) mode))
         in Ret (s1\<lparr>hw := (hw s1)\<lparr>dacr := domac\<rparr>\<rparr>)))"

text \<open>
  The offsets of the fields of \<^verbatim>\<open>boot_info\<close>: the five words of \<^verbatim>\<open>guest_info\<close>, then \<open>cpu_id\<close>,
  \<open>cpu_mmf\<close> and \<open>cpu_cr\<close>.
\<close>

definition boot_info_exchange :: "platform \<Rightarrow> u32 \<Rightarrow> sys \<Rightarrow> sys" where
  "boot_info_exchange pl info s =
     (let s1 = vwrite pl (info + 28) (cpu_cr s) (vwrite pl (info + 24) (cpu_mmf s)
                 (vwrite pl (info + 20) (cpu_id s) s));
          gi = \<lparr>nr_syscalls = vread pl s1 info, page_offset = vread pl s1 (info + 4),
                phys_offset = vread pl s1 (info + 8), vmalloc_end = vread pl s1 (info + 12),
                guest_size = vread pl s1 (info + 16)\<rparr>
      in s1\<lparr>vm := (vm s1)\<lparr>ginfo := gi, exception_vector := page_offset gi\<rparr>\<rparr>)"

definition hypercall_guest_init :: "platform \<Rightarrow> u32 \<Rightarrow> sys \<Rightarrow> sys outcome" where
  "hypercall_guest_init pl info s =
     (if boot s \<noteq> 0 then hyper_panic (''Guest tried to set boot info twice'' @ [CHR 0x0A])
      else if info < 0xC0000000 \<or> info > HAL_VIRT_START - 32
      then hyper_panic (''Pointer given does not reside in kernel space'' @ [CHR 0x0A])
      else
        (let s1 = boot_info_exchange pl info (s\<lparr>boot := boot s + 1\<rparr>)
         in if linux_build pl then dmmu_clear_linux_mappings s1 else Ret s1))"

definition hypercall_restore_regs :: "platform \<Rightarrow> u32 \<Rightarrow> sys \<Rightarrow> sys outcome" where
  "hypercall_restore_regs pl regs s =
     (if regs < 0xC0000000 \<or> regs > HAL_VIRT_START - 68
      then hyper_panic (''Pointer does not reside in kernel space'' @ [CHR 0x0A])
      else
        (let s1 = for_loop 16 (\<lambda>i t. ctx_upd (cur s) (ctx_put i (vread pl t (regs + 4 * of_nat i))) t) s
         in Ret (ctx_upd (cur s) (\<lambda>c. c\<lparr>cpsr := 0xFFFFFFF0 AND vread pl s1 (regs + 64)\<rparr>) s1)))"

text \<open>
  Returning to a context the guest kernel saved on its stack. The two branches copy words of
  the stack into consecutive registers.
\<close>

definition pop_regs :: "platform \<Rightarrow> u32 \<Rightarrow> u32 \<Rightarrow> nat \<Rightarrow> nat \<Rightarrow> sys \<Rightarrow> sys" where
  "pop_regs pl m sp first n =
     for_loop n (\<lambda>i t. ctx_upd m (ctx_put (first + i) (vread pl t (sp + 4 * of_nat i))) t)"

definition hypercall_restore_linux_regs :: "platform \<Rightarrow> u32 \<Rightarrow> bool \<Rightarrow> sys \<Rightarrow> sys outcome" where
  "hypercall_restore_linux_regs pl return_value syscall s =
     (let off = (if syscall then 8 else 0);
          sp = csp (mctx s HC_GM_KERNEL)
      in if sp < 0xC0000000 \<or> sp > HAL_VIRT_START - 68
         then hyper_panic (''Pointer does not reside in kernel space'' @ [CHR 0x0A])
         else
           (let mode = vread pl s (sp + 4 * (16 + off div 4));
                stack_pc = vread pl s (sp + 4 * 15);
                kernel_space = \<not> (stack_pc < 0xC0000000 \<or> (stack_pc < 0xFFFF1000 \<and> stack_pc \<ge> 0xFFFF0FA0))
            in if kernel_space
               then
                 (let s1 = pop_regs pl HC_GM_KERNEL sp 0 13 s;
                      s2 = ctx_upd HC_GM_KERNEL (\<lambda>c. c\<lparr>clr := vread pl s1 (sp + 4 * 14)\<rparr>) s1;
                      s3 = ctx_upd HC_GM_KERNEL (\<lambda>c. c\<lparr>cpsr := 0xFFFFFFF0 AND mode, cpc := stack_pc,
                             csp := csp c + 18 * 4\<rparr>) s2
                  in change_guest_mode HC_GM_KERNEL s3)
               else
                 (let s1 = (if syscall
                            then pop_regs pl HC_GM_TASK (sp + 4 * 3) 1 15
                                   (ctx_upd HC_GM_TASK (ctx_put 0 return_value) s)
                            else pop_regs pl HC_GM_TASK sp 0 16 s);
                      s2 = ctx_upd HC_GM_TASK (\<lambda>c. c\<lparr>cpsr := 0xFFFFFFF0 AND mode\<rparr>) s1;
                      s3 = ctx_upd HC_GM_KERNEL (\<lambda>c. c\<lparr>csp := csp c + (18 * 4 + off)\<rparr>) s2
                  in change_guest_mode HC_GM_TASK s3)))"

definition hypercall_num_error :: "u32 \<Rightarrow> sys \<Rightarrow> sys outcome" where
  "hypercall_num_error hypercall_num s = terminate"

section \<open>Remote procedure calls between modes (hyp_rpc.c)\<close>

text \<open>\<^verbatim>\<open>hyper_panic\<close> does not return, so the checks are branches.\<close>

definition hypercall_rpc :: "u32 \<Rightarrow> u32 \<Rightarrow> sys \<Rightarrow> sys outcome" where
  "hypercall_rpc rpc_op arg s =
     (case rpc_handlers (cfg s) of
        None \<Rightarrow> Undefined
      | Some handler \<Rightarrow>
          (let handling_mode = rpc_mode handler
           in if rpc_to (mode_states (vm s) (cur s)) \<noteq> MODE_NONE
              then hyper_panic ''Guest trying to start RPC while being in one''
              else if current_guest_mode (vm s) = handling_mode
              then hyper_panic ''Guest trying to send RPC to itself''
              else if rpc_for (mode_states (vm s) handling_mode) \<noteq> MODE_NONE
              then hyper_panic ''Guest trying to send RPC to a mode that is already handling a RPC''
              else if rpc_op \<le> 4
              then
                (let s1 = mode_update (cur s) (\<lambda>m. m\<lparr>rpc_to := handling_mode\<rparr>) s;
                     s2 = mode_update handling_mode (\<lambda>m. m\<lparr>rpc_for := current_guest_mode (vm s)\<rparr>) s1
                 in and_then (change_guest_mode HC_GM_TRUSTED s2) (\<lambda>s3.
                      Ret (ctx_upd (cur s3) (\<lambda>c. c\<lparr>creg := (creg c)(0 := rpc_op, 1 := arg),
                             cpc := entry_point handler, cpsr := 0xD0\<rparr>) s3)))
              else hyper_panic (''Unallowed rpc operation'' @ [CHR 0x0A])))"

definition hypercall_end_rpc :: "sys \<Rightarrow> sys outcome" where
  "hypercall_end_rpc s =
     (let calling_mode = rpc_for (mode_states (vm s) (cur s))
      in if calling_mode = MODE_NONE then hyper_panic ''Guest ended rpc without being in one''
         else if rpc_to (mode_states (vm s) calling_mode) \<noteq> current_guest_mode (vm s)
         then hyper_panic ''Guest trying to end rpc but caller did not start one''
         else
           (let s1 = mode_update (cur s) (\<lambda>m. m\<lparr>rpc_for := MODE_NONE\<rparr>) s;
                s2 = mode_update calling_mode (\<lambda>m. m\<lparr>rpc_to := MODE_NONE\<rparr>) s1
            in change_guest_mode calling_mode s2))"

section \<open>Interrupts (hyp_interrupt.c)\<close>

definition hypercall_interrupt_set :: "u32 \<Rightarrow> u32 \<Rightarrow> sys \<Rightarrow> sys outcome" where
  "hypercall_interrupt_set interrupt op s =
     (let mask = interrupt AND (ARM_IRQ_MASK OR ARM_FIQ_MASK)
      in if op = 1 then Ret (ctx_upd (cur s) (\<lambda>c. c\<lparr>cpsr := cpsr c AND NOT mask\<rparr>) s)
         else if op = 0 then Ret (ctx_upd (cur s) (\<lambda>c. c\<lparr>cpsr := cpsr c OR mask\<rparr>) s)
         else if op = 2
         then Ret (ctx_upd (cur s)
                (\<lambda>c. c\<lparr>cpsr := (cpsr c AND NOT (ARM_IRQ_MASK OR ARM_FIQ_MASK)) OR mask\<rparr>) s)
         else hyper_panic ''Unknown interrupt operation'')"

definition hypercall_end_interrupt :: "sys \<Rightarrow> sys outcome" where
  "hypercall_end_interrupt s =
     (if current_guest_mode (vm s) \<noteq> HC_GM_INTERRUPT
      then hyper_panic ''Guest tried to end interrupt but not in interrupt mode.''
      else if interrupted_mode (vm s) \<ge> HC_NGUESTMODES
      then hyper_panic ''Invalid interrupted mode value.''
      else and_then (change_guest_mode (interrupted_mode (vm s)) s) (\<lambda>s1.
             Ret (s1\<lparr>vm := (vm s1)\<lparr>interrupted_mode := MODE_NONE\<rparr>\<rparr>)))"

section \<open>Thread identifier (hyp_cpu.c)\<close>

definition hypercall_set_tls :: "u32 \<Rightarrow> sys \<Rightarrow> sys" where
  "hypercall_set_tls thread_id s = s\<lparr>tls := thread_id\<rparr>"

end
