(* ===== verification/Handlers.thy ===== *)
theory Handlers
  imports Hypercalls
begin

text \<open>
  The exception handlers of \<^verbatim>\<open>core/hypervisor/handlers.c\<close>: supervisor calls of the guest, its
  aborts and its interrupts. Debug output is left out; \<^verbatim>\<open>AGGRESSIVE_FLUSHING_HANDLERS\<close> is not
  defined in the repository.
\<close>

section \<open>Saving a context on the stack of the guest kernel\<close>

definition push_words :: "platform \<Rightarrow> u32 \<Rightarrow> nat \<Rightarrow> (nat \<Rightarrow> u32) \<Rightarrow> sys \<Rightarrow> sys" where
  "push_words pl sp n f = for_loop n (\<lambda>i. vwrite pl (sp + 4 * of_nat i) (f i))"

abbreviation vector_entry :: "platform \<Rightarrow> sys \<Rightarrow> nat \<Rightarrow> u32" where
  "vector_entry pl s i \<equiv> vread pl s (exception_vector (vm s) + 4 * of_nat i)"

section \<open>System calls of a task (swi_handler)\<close>

text \<open>
  The task's call becomes a call of the kernel's handler: the context of the task is pushed
  on the kernel's stack, with registers 4 and 5 in front and the old register 0 behind.
\<close>

definition task_syscall :: "platform \<Rightarrow> sys \<Rightarrow> sys outcome" where
  "task_syscall pl s =
     and_then (change_guest_mode HC_GM_KERNEL s) (\<lambda>s1.
       let s2 = ctx_upd (cur s1) (\<lambda>c. c\<lparr>csp := csp c - (72 + 8)\<rparr>) s1;
           task = mctx s2 HC_GM_TASK;
           sp = csp (mctx s2 HC_GM_KERNEL);
           s3 = vwrite pl sp (creg task 4) s2;
           s4 = vwrite pl (sp + 4) (creg task 5) s3;
           s5 = push_words pl (sp + 8) 17 (ctx_word task) s4;
           s6 = vwrite pl (sp + 76) (creg task 0) s5;
           s7 = ctx_upd (cur s6) (\<lambda>c. c\<lparr>cpsr := cpsr c AND NOT IRQ_MASK,
                  clr := vector_entry pl s6 V_RET_FAST_SYSCALL, creg := (creg c)(7 := creg task 7)\<rparr>) s6
       in if creg task 7 < nr_syscalls (ginfo (vm s7))
          then
            (let s8 = for_loop 6 (\<lambda>i. ctx_upd (cur s7) (ctx_put i (creg task i))) s7;
                 pc = vread pl s8 (vector_entry pl s8 V_SWI + push_bit 2 (creg (mctx s8 (cur s8)) 7))
             in Ret (ctx_upd (cur s8) (\<lambda>c. c\<lparr>cpc := pc\<rparr>) s8))
          else
            Ret (ctx_upd (cur s7) (\<lambda>c. c\<lparr>creg := (creg c)(0 := creg task 7,
                   1 := csp (mctx s7 HC_GM_KERNEL) + 8), cpc := vector_entry pl s7 V_ARM_SYSCALL\<rparr>) s7))"

section \<open>Hypercalls (swi_handler)\<close>

definition dmmu_hypercall :: "platform \<Rightarrow> u32 \<Rightarrow> u32 \<Rightarrow> u32 \<Rightarrow> sys \<Rightarrow> sys" where
  "dmmu_hypercall pl param0 param1 param2 s =
     (let (res, s1) = dmmu_call (\<lambda>c. dmmu_handler c (junk pl) param0 param1 param2) s;
          s2 = ctx_upd (cur s1) (ctx_put 0 res) s1
      in cop [DSB] (CacheDataCleanInvalidateAll (mem_mmu_tlb_invalidate_all True True (cop [ISB] s2))))"

definition kernel_hypercall :: "platform \<Rightarrow> u32 \<Rightarrow> u32 \<Rightarrow> u32 \<Rightarrow> u32 \<Rightarrow> sys \<Rightarrow> sys outcome" where
  "kernel_hypercall pl param0 param1 param2 hypercall_number s =
     (if hypercall_number = 666 then Ret (dmmu_hypercall pl param0 param1 param2 s)
      else if hypercall_number = 1000 then hypercall_guest_init pl param0 s
      else if hypercall_number = 1001 then hypercall_interrupt_set param0 param1 s
      else if hypercall_number = 1002 then hypercall_end_interrupt s
      else if hypercall_number = 1004 then hypercall_cache_op pl param0 param1 param2 s
      else if hypercall_number = 1015 then Ret (hypercall_set_tls param0 s)
      else if hypercall_number = 1014
      then Ret (cop [ISB] (s\<lparr>hw := (hw s)\<lparr>context_id := param0\<rparr>\<rparr>))
      else if hypercall_number = 1012 then hypercall_restore_linux_regs pl param0 (param1 \<noteq> 0) s
      else if hypercall_number = 1013 then hypercall_restore_regs pl param0 s
      else if hypercall_number = 1008 then Ret (hypercall_dyn_switch_mm param0 param1 s)
      else if hypercall_number = 1006 then hypercall_dyn_new_pgd pl param0 s
      else if hypercall_number = 1007 then Ret (hypercall_dyn_free_pgd pl param0 s)
      else if hypercall_number = 1009 then Ret s
      else if hypercall_number = 1010 then hypercall_dyn_set_pmd pl param0 param1 s
      else if hypercall_number = 1011 then hypercall_dyn_set_pte pl param0 param1 param2 s
      else if hypercall_number = 1020 then hypercall_rpc param0 param1 s
      else if hypercall_number = 1021 then hypercall_end_rpc s
      else hypercall_num_error hypercall_number s)"

definition swi_handler :: "platform \<Rightarrow> u32 \<Rightarrow> u32 \<Rightarrow> u32 \<Rightarrow> u32 \<Rightarrow> sys \<Rightarrow> sys outcome" where
  "swi_handler pl param0 param1 param2 hypercall_number s =
     (if current_guest_mode (vm s) = HC_GM_TASK
      then
        (if hypercall_number = 1020 then hypercall_rpc param0 param1 s
         else if hypercall_number = 1021 then hypercall_end_rpc s
         else task_syscall pl s)
      else kernel_hypercall pl param0 param1 param2 hypercall_number s)"

section \<open>Aborts\<close>

text \<open>
  The two handlers differ in the saved stack pointer of an abort in kernel mode and in the
  vector they enter. The context is read while the words are pushed; pushing does not change it.
\<close>

definition abort_entry :: "platform \<Rightarrow> nat \<Rightarrow> u32 \<Rightarrow> u32 \<Rightarrow> sys \<Rightarrow> sys" where
  "abort_entry pl vec addr status s =
     (let k = HC_GM_KERNEL;
          s1 = ctx_upd k (\<lambda>c. c\<lparr>creg := (creg c)(0 := addr, 1 := status, 2 := csp c)\<rparr>) s;
          s2 = (if cpsr (mctx s1 k) AND 0xF = 0
                then ctx_upd k (\<lambda>c. c\<lparr>cpsr := cpsr c OR IRQ_MASK\<rparr>) s1
                else ctx_upd k (\<lambda>c. c\<lparr>cpsr := cpsr c AND NOT IRQ_MASK\<rparr>) s1)
      in ctx_upd k (\<lambda>c. c\<lparr>cpc := vector_entry pl s2 vec,
           clr := vector_entry pl s2 V_RET_FROM_EXCEPTION\<rparr>) s2)"

definition prefetch_abort_handler :: "platform \<Rightarrow> u32 \<Rightarrow> u32 \<Rightarrow> u32 \<Rightarrow> sys \<Rightarrow> sys outcome" where
  "prefetch_abort_handler pl addr status unused s =
     (let interrupted = current_guest_mode (vm s)
      in and_then (change_guest_mode HC_GM_KERNEL s) (\<lambda>s1.
           let s2 = ctx_upd HC_GM_KERNEL (\<lambda>c. c\<lparr>csp := csp c - 72\<rparr>) s1;
               sp = csp (mctx s2 HC_GM_KERNEL);
               s3 = push_words pl sp 17 (\<lambda>i. ctx_word (mctx s2 interrupted) i) s2;
               s4 = vwrite pl (sp + 68) 0xFFFFFFFF s3
           in Ret (abort_entry pl V_PREFETCH_ABORT addr status s4)))"

definition data_abort_handler :: "platform \<Rightarrow> u32 \<Rightarrow> u32 \<Rightarrow> u32 \<Rightarrow> sys \<Rightarrow> sys outcome" where
  "data_abort_handler pl addr status unused s =
     (let interrupted = current_guest_mode (vm s)
      in and_then (change_guest_mode HC_GM_KERNEL s) (\<lambda>s1.
           let s2 = ctx_upd HC_GM_KERNEL (\<lambda>c. c\<lparr>csp := csp c - 72\<rparr>) s1;
               sp = csp (mctx s2 HC_GM_KERNEL);
               s3 = push_words pl sp 17 (\<lambda>i. if i = 13 \<and> interrupted = 1
                      then ctx_word (mctx s2 interrupted) i + 72
                      else ctx_word (mctx s2 interrupted) i) s2;
               s4 = vwrite pl (sp + 68) 0xFFFFFFFF s3
           in Ret (abort_entry pl V_DATA_ABORT addr status s4)))"

section \<open>Interrupts and undefined instructions\<close>

definition irq_handler :: "platform \<Rightarrow> u32 \<Rightarrow> u32 \<Rightarrow> u32 \<Rightarrow> sys \<Rightarrow> sys outcome" where
  "irq_handler pl irq r1 r2 s =
     (if current_guest_mode (vm s) = HC_GM_INTERRUPT
      then Ret (ctx_upd (cur s) (\<lambda>c. c\<lparr>cpsr := cpsr c OR IRQ_MASK\<rparr>) s)
      else
        (let s1 = s\<lparr>vm := (vm s)\<lparr>interrupted_mode := current_guest_mode (vm s)\<rparr>\<rparr>
         in and_then (change_guest_mode HC_GM_INTERRUPT s1) (\<lambda>s2.
              Ret (ctx_upd (cur s2) (\<lambda>c. c\<lparr>creg := (creg c)(0 := irq), cpc := vector_entry pl s2 V_IRQ,
                     cpsr := cpsr c OR IRQ_MASK, csp := csp (mctx s2 HC_GM_KERNEL)\<rparr>) s2))))"

definition undef_handler :: "u32 \<Rightarrow> u32 \<Rightarrow> u32 \<Rightarrow> sys \<Rightarrow> sys outcome" where
  "undef_handler instr unused addr s = Hang"

end
