(* ===== verification/HyperInv.thy ===== *)
theory HyperInv
  imports Handlers
begin

text \<open>
  The control invariant of the hypervisor: which mode of the guest runs, with which context and
  which domain permissions, that no context is privileged, and that remote procedure calls pair
  up. Every operation that edits page tables or guest memory leaves the control state alone;
  every handler that returns keeps the invariant.
\<close>

section \<open>What the operations of dmmu.c leave alone\<close>

lemma for_loop_frame:
  "(\<And>i t. i < n \<Longrightarrow> g (body i t) = g t) \<Longrightarrow> g (for_loop n body s) = g s"
  by (rule for_loop_invariant [where P = "\<lambda>t. g t = g s"]) auto

text \<open>The domain register and the master page table, as one projection.\<close>

definition fixed_hw :: "hv \<Rightarrow> u32 \<times> (u32 \<Rightarrow> u32)" where
  "fixed_hw h = (dacr h, flpt h)"

lemma fixed_hw_basic [frame]:
  "fixed_hw (entry_update b f h) = fixed_hw h" "fixed_hw (mem_write c va v h) = fixed_hw h"
  "fixed_hw (h\<lparr>ttbr0 := x\<rparr>) = fixed_hw h" "fixed_hw (h\<lparr>context_id := x\<rparr>) = fixed_hw h"
  "fixed_hw (h\<lparr>mem := m\<rparr>) = fixed_hw h"
  by (simp_all add: fixed_hw_def entry_update_def mem_write_def)

lemma fixed_hw_loops [frame]:
  "fixed_hw (section_refs f a h) = fixed_hw h"
  "fixed_hw (set_type4 t b h) = fixed_hw h"
  by (simp_all add: section_refs_def set_type4_def frame for_loop_frame)

lemma fixed_hw_tables [frame]:
  "fixed_hw (create_L1_refs_update c b h) = fixed_hw h"
  "fixed_hw (copy_reserved_entries c b h) = fixed_hw h"
  "fixed_hw (unmap_L1_pt_ref_update c b h) = fixed_hw h"
  "fixed_hw (create_L2_refs_update c b h) = fixed_hw h"
  "fixed_hw (unmap_L2_pt_ref_update c b h) = fixed_hw h"
  "fixed_hw (create_L2_pgtype_update b h) = fixed_hw h"
  unfolding create_L1_refs_update_def copy_reserved_entries_def unmap_L1_pt_ref_update_def
    create_L2_refs_update_def unmap_L2_pt_ref_update_def create_L2_pgtype_update_def
  by (rule for_loop_frame | simp add: frame Let_def)+

lemma fixed_hw_L1 [frame]:
  "fixed_hw (snd (dmmu_create_L1_pt c b h)) = fixed_hw h"
  "fixed_hw (snd (dmmu_unmap_L1_pt c j b h)) = fixed_hw h"
  "fixed_hw (snd (dmmu_map_L1_section c va a at h)) = fixed_hw h"
  "fixed_hw (snd (dmmu_l1_pt_map c va a at h)) = fixed_hw h"
  "fixed_hw (snd (dmmu_unmap_L1_pageTable_entry c va h)) = fixed_hw h"
  by (simp_all add: dmmu_create_L1_pt_def dmmu_unmap_L1_pt_def dmmu_map_L1_section_def
    dmmu_l1_pt_map_def dmmu_unmap_L1_pageTable_entry_def Let_def frame)

lemma fixed_hw_L2 [frame]:
  "fixed_hw (snd (dmmu_create_L2_pt c b h)) = fixed_hw h"
  "fixed_hw (snd (dmmu_unmap_L2_pt c b h)) = fixed_hw h"
  "fixed_hw (snd (dmmu_l2_map_entry c b i a at h)) = fixed_hw h"
  "fixed_hw (snd (dmmu_l2_unmap_entry c b i h)) = fixed_hw h"
  "fixed_hw (snd (dmmu_switch_mm c b h)) = fixed_hw h"
  by (simp_all add: dmmu_create_L2_pt_def dmmu_unmap_L2_pt_def dmmu_l2_map_entry_def
    dmmu_l2_unmap_entry_def dmmu_switch_mm_def Let_def frame)

lemma fixed_hw_handler [frame]: "fixed_hw (snd (dmmu_handler c j p0 p1 p2 h)) = fixed_hw h"
  by (simp add: dmmu_handler_def Let_def frame split: option.split dmmu_command.split)

section \<open>What the guest's requests leave alone\<close>

text \<open>The state that governs which mode of the guest runs and how: the control state.\<close>

definition ctl :: "sys \<Rightarrow> virtual_machine \<times> u32 \<times> u32 \<times> (u32 \<Rightarrow> u32)" where
  "ctl s = (vm s, cpu_ctx s, fixed_hw (hw s))"

lemma ctl_basic [frame]:
  "ctl (vwrite pl va v s) = ctl s" "ctl (cop ops s) = ctl s" "ctl (win_clear va n s) = ctl s"
  "ctl (set_ttbr0 v s) = ctl s" "ctl (s\<lparr>linux_l2_index_p := x\<rparr>) = ctl s" "ctl (s\<lparr>cpu_cr := x\<rparr>) = ctl s"
  "ctl (s\<lparr>csselr := x\<rparr>) = ctl s" "ctl (s\<lparr>boot := x\<rparr>) = ctl s" "ctl (s\<lparr>tls := x\<rparr>) = ctl s"
  "ctl (s\<lparr>hw := (hw s)\<lparr>context_id := x\<rparr>\<rparr>) = ctl s"
  by (simp_all add: ctl_def vwrite_def cop_def win_clear_def set_ttbr0_def frame for_loop_frame)

lemma ctl_dmmu_do [frame]:
  "(\<And>c h. fixed_hw (snd (f c h)) = fixed_hw h) \<Longrightarrow> ctl (dmmu_do f s) = ctl s"
  by (simp add: ctl_def dmmu_call_def Let_def split_beta)

lemma ctl_words [frame]:
  "ctl (clear_words pl va n s) = ctl s" "ctl (copy_words pl d src n s) = ctl s"
  "ctl (push_words pl sp n f s) = ctl s" "ctl (write_list pl va xs s) = ctl s"
  unfolding clear_words_def copy_words_def push_words_def write_list_def
  by (rule for_loop_frame, simp add: frame)+

lemma linux_pt_get_empty_l2_ctl: "linux_pt_get_empty_l2 s = Ret (a, t) \<Longrightarrow> ctl t = ctl s"
  by (auto simp: linux_pt_get_empty_l2_def Let_def frame split: if_splits)

lemma split_section_ctl: "split_section va d ro s = Ret t \<Longrightarrow> ctl t = ctl s"
  by (auto simp: split_section_def Let_def and_then_Ret_iff frame for_loop_frame
    dest!: linux_pt_get_empty_l2_ctl)

lemma flush_page_ctl [frame]: "ctl (flush_page e va s) = ctl s"
  by (simp add: flush_page_def frame)

lemma pgd_ctl [frame]:
  "ctl (hypercall_dyn_switch_mm b i s) = ctl s" "ctl (hypercall_dyn_free_pgd pl va s) = ctl s"
  "ctl (protect_pages d va s) = ctl s"
  by (simp_all add: hypercall_dyn_switch_mm_def hypercall_dyn_free_pgd_def protect_pages_def Let_def
    frame for_loop_frame split_beta)

lemma new_pgd_ctl: "hypercall_dyn_new_pgd pl va s = Ret t \<Longrightarrow> ctl t = ctl s"
  by (auto simp: hypercall_dyn_new_pgd_def Let_def and_then_Ret_iff frame
    dest!: split_section_ctl split: if_splits)

lemma set_pmd_parts_ctl [frame]:
  "ctl (set_pmd_protect d p i s) = ctl s" "ctl (set_pmd_clear pl a v p i s) = ctl s"
  "ctl (set_pmd_link a d v p i s) = ctl s"
  by (simp_all add: set_pmd_protect_def set_pmd_clear_def set_pmd_link_def Let_def frame)

lemma set_pmd_ctl: "hypercall_dyn_set_pmd pl a d s = Ret t \<Longrightarrow> ctl t = ctl s"
  by (auto simp: hypercall_dyn_set_pmd_def Let_def and_then_Ret_iff frame
    dest!: split_section_ctl split: if_splits)

lemma set_pte_ctl: "hypercall_dyn_set_pte pl a l p s = Ret t \<Longrightarrow> ctl t = ctl s"
  by (auto simp: hypercall_dyn_set_pte_def Let_def frame split_beta split: if_splits)

lemma addr_loop_ctl:
  assumes "addr_loop a e st body s = Some t" "\<And>a s. ctl (body a s) = ctl s"
  shows "ctl t = ctl s"
  using addr_loop_invariant [OF assms(1), where P = "\<lambda>t. ctl t = ctl s"] assms(2) by auto

lemma outcome_of_Ret_iff: "outcome_of r = Ret t \<longleftrightarrow> r = Some t"
  by (auto simp: outcome_of_def split: option.splits)

lemma clear_linux_ctl: "dmmu_clear_linux_mappings s = Ret t \<Longrightarrow> ctl t = ctl s"
  by (auto simp: dmmu_clear_linux_mappings_def Let_def and_then_Ret_iff outcome_of_Ret_iff frame
    dest!: addr_loop_ctl split: if_splits)

lemma cache_levels_ctl [frame]:
  "ctl (setway pl l c s) = ctl s" "ctl (mem_icache_invalidate pl c s) = ctl s"
  "ctl (mem_cache_invalidate pl i d w s) = ctl s" "ctl (mem_mmu_tlb_invalidate_all i d s) = ctl s"
  by (simp_all add: setway_def mem_icache_invalidate_def mem_cache_invalidate_def
    mem_mmu_tlb_invalidate_all_def Let_def frame for_loop_frame)

lemma dcache_area_ctl: "mem_cache_dcache_area pl va sz op s = Ret t \<Longrightarrow> ctl t = ctl s"
  by (auto simp: mem_cache_dcache_area_def Let_def and_then_Ret_iff outcome_of_Ret_iff area_op_def frame
    dest!: addr_loop_ctl split: if_splits)

lemma cache_ctl: "hypercall_cache_op pl op va sz s = Ret t \<Longrightarrow> ctl t = ctl s"
  by (auto simp: hypercall_cache_op_def hypercall_flush_all_def hypercall_dcache_flush_area_def
    cache_wrappers hypercall_branch_invalidate_all_def hypercall_tlb_invalidate_mva_def
    hypercall_tlb_invalidate_asid_def frame dest: dcache_area_ctl split: if_splits)

section \<open>The control invariant\<close>

text \<open>
  The mode the virtual machine records, the mode whose context is loaded and restored, and the
  permissions of the domains agree; no context enters a privileged processor mode; the
  remote procedure calls of the modes pair up.
\<close>

definition mode_ok :: "sys \<Rightarrow> bool" where
  "mode_ok s \<longleftrightarrow> current_guest_mode (vm s) < HC_NGUESTMODES
     \<and> cur s = current_guest_mode (vm s) \<and> cpu_ctx s = current_guest_mode (vm s)
     \<and> dacr (hw s) = domain_ac (mode_config (mode_states (vm s) (current_guest_mode (vm s))))"

text \<open>The low four bits of the status register are those of user mode.\<close>

definition unpriv :: "u32 \<Rightarrow> bool" where
  "unpriv w \<longleftrightarrow> w AND 0xF = 0"

definition user_ok :: "sys \<Rightarrow> bool" where
  "user_ok s \<longleftrightarrow> (\<forall>m. unpriv (cpsr (mctx s m)))"

abbreviation rpc_target :: "sys \<Rightarrow> u32 \<Rightarrow> u32" where
  "rpc_target s m \<equiv> rpc_to (mode_states (vm s) m)"

abbreviation rpc_source :: "sys \<Rightarrow> u32 \<Rightarrow> u32" where
  "rpc_source s m \<equiv> rpc_for (mode_states (vm s) m)"

definition rpc_ok :: "sys \<Rightarrow> bool" where
  "rpc_ok s \<longleftrightarrow> (\<forall>h. rpc_handlers (cfg s) = Some h \<longrightarrow> rpc_mode h = HC_GM_TRUSTED)
     \<and> (\<forall>m<HC_NGUESTMODES. rpc_target s m = MODE_NONE \<or> rpc_target s m = HC_GM_TRUSTED \<and> rpc_source s HC_GM_TRUSTED = m)
     \<and> (\<forall>m<HC_NGUESTMODES. m \<noteq> HC_GM_TRUSTED \<longrightarrow> rpc_source s m = MODE_NONE)
     \<and> (rpc_source s HC_GM_TRUSTED \<noteq> MODE_NONE \<longrightarrow>
          rpc_source s HC_GM_TRUSTED < HC_NGUESTMODES \<and> rpc_source s HC_GM_TRUSTED \<noteq> HC_GM_TRUSTED
          \<and> rpc_target s (rpc_source s HC_GM_TRUSTED) = HC_GM_TRUSTED)"

text \<open>The configuration, and the configuration of each mode, are those of the start.\<close>

definition static_ok :: "hc_config \<Rightarrow> sys \<Rightarrow> bool" where
  "static_ok C s \<longleftrightarrow> cfg s = C
     \<and> (\<forall>m<HC_NGUESTMODES. mode_config (mode_states (vm s) m) = guest_modes C m)"

definition ctl_ok :: "hc_config \<Rightarrow> sys \<Rightarrow> bool" where
  "ctl_ok C s \<longleftrightarrow> static_ok C s \<and> mode_ok s \<and> user_ok s \<and> rpc_ok s"

lemma ctl_ok_cong: "ctl t = ctl s \<Longrightarrow> ctl_ok C t = ctl_ok C s"
  by (simp add: ctl_def ctl_ok_def static_ok_def mode_ok_def user_ok_def rpc_ok_def fixed_hw_def)

text \<open>What edits of a context keep: nothing the invariant speaks of, but the status register.\<close>

lemma ctx_upd_vm [frame]:
  "current_guest_mode (vm (ctx_upd m f s)) = current_guest_mode (vm s)"
  "cur (ctx_upd m f s) = cur s" "cpu_ctx (ctx_upd m f s) = cpu_ctx s" "hw (ctx_upd m f s) = hw s"
  "cfg (ctx_upd m f s) = cfg s" "interrupted_mode (vm (ctx_upd m f s)) = interrupted_mode (vm s)"
  "rpc_target (ctx_upd m f s) k = rpc_target s k" "rpc_source (ctx_upd m f s) k = rpc_source s k"
  "mode_config (mode_states (vm (ctx_upd m f s)) k) = mode_config (mode_states (vm s) k)"
  "mctx (ctx_upd m f s) k = (if k = m then f (mctx s m) else mctx s k)"
  "ginfo (vm (ctx_upd m f s)) = ginfo (vm s)" "exception_vector (vm (ctx_upd m f s)) = exception_vector (vm s)"
  by (simp_all add: ctx_upd_def mode_update_def)

lemma ctx_upd_ok:
  assumes "ctl_ok C s" "unpriv (cpsr (f (mctx s m)))"
  shows "ctl_ok C (ctx_upd m f s)"
  using assms by (auto simp: ctl_ok_def static_ok_def mode_ok_def user_ok_def rpc_ok_def frame)

lemma change_guest_mode_ok:
  assumes "static_ok C s" "user_ok s" "rpc_ok s" "change_guest_mode m s = Ret t"
  shows "ctl_ok C t"
  using assms by (auto simp: change_guest_mode_def Let_def hyper_panic_def ctl_ok_def static_ok_def mode_ok_def
    user_ok_def rpc_ok_def split: if_splits)

lemma cpsr_ctx_put [simp]: "i < 16 \<Longrightarrow> cpsr (ctx_put i v c) = cpsr c"
  by (simp add: ctx_put_def)

lemma unpriv_and [intro]: "unpriv w \<Longrightarrow> unpriv (w AND m)" "unpriv m \<Longrightarrow> unpriv (w AND m)"
  unfolding unpriv_def by (metis and.assoc and.commute and_zero_eq)+

lemma unpriv_or [simp]: "unpriv (w OR m) \<longleftrightarrow> unpriv w \<and> unpriv m"
  unfolding unpriv_def bit.conj_disj_distrib2 by (simp add: or_eq_0_iff)

lemma unpriv_masks [simp]: "unpriv 0xFFFFFFF0" "unpriv 0x80" "unpriv 0xC0" "unpriv 0xD0"
  "unpriv (0xFFFFFFF0 AND w)" "unpriv (w AND 0xC0)"
  by (rule unpriv_and | simp add: unpriv_def)+

lemma ctl_ok_user [intro]: "ctl_ok C s \<Longrightarrow> unpriv (cpsr (mctx s m))"
  by (simp add: ctl_ok_def user_ok_def)

lemma ctl_ok_split: "ctl_ok C s \<Longrightarrow> static_ok C s" "ctl_ok C s \<Longrightarrow> user_ok s" "ctl_ok C s \<Longrightarrow> rpc_ok s"
  by (simp_all add: ctl_ok_def)

lemma restore_regs_ok: "ctl_ok C s \<Longrightarrow> hypercall_restore_regs pl r s = Ret t \<Longrightarrow> ctl_ok C t"
proof -
  assume ok: "ctl_ok C s" and ret: "hypercall_restore_regs pl r s = Ret t"
  have "ctl_ok C (for_loop 16 (\<lambda>i t. ctx_upd (cur s) (ctx_put i (vread pl t (r + 4 * of_nat i))) t) s)"
    by (rule for_loop_invariant [where P = "ctl_ok C", OF ok]) (auto intro!: ctx_upd_ok)
  with ret show "ctl_ok C t"
    by (auto simp: hypercall_restore_regs_def Let_def hyper_panic_def split: if_splits intro!: ctx_upd_ok)
qed

lemma pop_regs_ok:
  assumes "ctl_ok C s" "first + n \<le> 16"
  shows "ctl_ok C (pop_regs pl m sp first n s)"
  unfolding pop_regs_def
  by (rule for_loop_invariant [where P = "ctl_ok C", OF assms(1)])
    (use assms(2) in \<open>auto intro!: ctx_upd_ok\<close>)

lemma restore_linux_regs_ok:
  "ctl_ok C s \<Longrightarrow> hypercall_restore_linux_regs pl r sc s = Ret t \<Longrightarrow> ctl_ok C t"
  by (auto simp: hypercall_restore_linux_regs_def Let_def hyper_panic_def
    split: if_splits elim!: change_guest_mode_ok [rotated 3]
    intro!: ctl_ok_split ctx_upd_ok pop_regs_ok ctl_ok_user)

lemma ctl_ok_vm [simp]:
  "ctl_ok C (s\<lparr>vm := (vm s)\<lparr>interrupted_mode := x\<rparr>\<rparr>) = ctl_ok C s"
  "ctl_ok C (s\<lparr>vm := (vm s)\<lparr>ginfo := g, exception_vector := y\<rparr>\<rparr>) = ctl_ok C s"
  by (simp_all add: ctl_ok_def static_ok_def mode_ok_def user_ok_def rpc_ok_def)

lemma boot_info_exchange_ok: "ctl_ok C (boot_info_exchange pl a s) = ctl_ok C s"
  unfolding boot_info_exchange_def Let_def ctl_ok_vm by (rule ctl_ok_cong) (simp add: frame)

lemma guest_init_ok: "ctl_ok C s \<Longrightarrow> hypercall_guest_init pl a s = Ret t \<Longrightarrow> ctl_ok C t"
  using ctl_ok_cong [OF clear_linux_ctl] ctl_ok_cong [OF ctl_basic(8)]
  by (auto simp: hypercall_guest_init_def hyper_panic_def Let_def boot_info_exchange_ok split: if_splits)

lemma interrupt_set_ok: "ctl_ok C s \<Longrightarrow> hypercall_interrupt_set i op s = Ret t \<Longrightarrow> ctl_ok C t"
  by (auto simp: hypercall_interrupt_set_def Let_def hyper_panic_def split: if_splits
    intro!: ctx_upd_ok unpriv_and(1) ctl_ok_user)

lemma end_interrupt_ok: "ctl_ok C s \<Longrightarrow> hypercall_end_interrupt s = Ret t \<Longrightarrow> ctl_ok C t"
  by (auto simp: hypercall_end_interrupt_def hyper_panic_def and_then_Ret_iff split: if_splits
    elim!: change_guest_mode_ok [rotated 3] intro!: ctl_ok_split)

text \<open>The links of a remote procedure call that starts or ends.\<close>

lemma mode_update_vm [frame]:
  "cur (mode_update m f s) = cur s" "cfg (mode_update m f s) = cfg s"
  "current_guest_mode (vm (mode_update m f s)) = current_guest_mode (vm s)"
  "mode_states (vm (mode_update m f s)) = (mode_states (vm s))(m := f (mode_states (vm s) m))"
  by (simp_all add: mode_update_def)

lemma user_ok_mode_update:
  "user_ok s \<Longrightarrow> (\<And>m. ctx (f m) = ctx m) \<Longrightarrow> user_ok (mode_update k f s)"
  by (simp add: user_ok_def frame)

lemma static_ok_mode_update:
  "static_ok C s \<Longrightarrow> (\<And>m. mode_config (f m) = mode_config m) \<Longrightarrow> static_ok C (mode_update k f s)"
  by (simp add: static_ok_def frame)

lemma rpc_ok_at:
  "rpc_ok s \<Longrightarrow> m < HC_NGUESTMODES \<Longrightarrow>
    rpc_target s m = MODE_NONE \<or> rpc_target s m = HC_GM_TRUSTED \<and> rpc_source s HC_GM_TRUSTED = m"
  by (simp add: rpc_ok_def)

lemma rpc_ok_start:
  assumes "rpc_ok s" "k < HC_NGUESTMODES" "k \<noteq> HC_GM_TRUSTED" "rpc_source s HC_GM_TRUSTED = MODE_NONE"
  shows "rpc_ok (mode_update HC_GM_TRUSTED (\<lambda>m. m\<lparr>rpc_for := k\<rparr>)
    (mode_update k (\<lambda>m. m\<lparr>rpc_to := HC_GM_TRUSTED\<rparr>) s))"
  using assms rpc_ok_at [OF assms(1), of HC_GM_TRUSTED] by (auto simp: rpc_ok_def frame)

lemma rpc_ok_stop:
  assumes "rpc_ok s" "rpc_source s HC_GM_TRUSTED = k" "k \<noteq> MODE_NONE"
  shows "rpc_ok (mode_update k (\<lambda>m. m\<lparr>rpc_to := MODE_NONE\<rparr>)
    (mode_update HC_GM_TRUSTED (\<lambda>m. m\<lparr>rpc_for := MODE_NONE\<rparr>) s))"
  using assms rpc_ok_at [OF assms(1), of HC_GM_TRUSTED] by (auto simp: rpc_ok_def frame)

lemma ctl_ok_cur: "ctl_ok C s \<Longrightarrow> cur s = current_guest_mode (vm s)"
  "ctl_ok C s \<Longrightarrow> current_guest_mode (vm s) < HC_NGUESTMODES"
  by (simp_all add: ctl_ok_def mode_ok_def)

lemma rpc_keeps_ok: "ctl_ok C s \<Longrightarrow> hypercall_rpc op a s = Ret t \<Longrightarrow> ctl_ok C t"
proof -
  assume ok: "ctl_ok C s" and ret: "hypercall_rpc op a s = Ret t"
  define s2 where "s2 = mode_update HC_GM_TRUSTED (\<lambda>m. m\<lparr>rpc_for := cur s\<rparr>)
    (mode_update (cur s) (\<lambda>m. m\<lparr>rpc_to := HC_GM_TRUSTED\<rparr>) s)"
  have trusted: "rpc_mode h = HC_GM_TRUSTED" if "rpc_handlers (cfg s) = Some h" for h
    using ok that by (simp add: ctl_ok_def rpc_ok_def)
  note cur = ctl_ok_cur [OF ok]
  obtain h where h: "rpc_handlers (cfg s) = Some h" "rpc_mode h = HC_GM_TRUSTED"
    using ret trusted by (cases "rpc_handlers (cfg s)") (auto simp: hypercall_rpc_def)
  have free: "cur s \<noteq> HC_GM_TRUSTED" "rpc_source s HC_GM_TRUSTED = MODE_NONE"
    and run: "and_then (change_guest_mode HC_GM_TRUSTED s2) (\<lambda>s3. Ret (ctx_upd (cur s3)
      (\<lambda>c. c\<lparr>creg := (creg c)(0 := op, 1 := a), cpc := entry_point h, cpsr := 0xD0\<rparr>) s3)) = Ret t"
    using ret h cur unfolding hypercall_rpc_def s2_def
    by (simp_all add: Let_def hyper_panic_def split: if_splits)
  obtain s3 where s3: "change_guest_mode HC_GM_TRUSTED s2 = Ret s3" and t: "t = ctx_upd (cur s3)
      (\<lambda>c. c\<lparr>creg := (creg c)(0 := op, 1 := a), cpc := entry_point h, cpsr := 0xD0\<rparr>) s3"
    using run by (auto simp: and_then_Ret_iff)
  have "rpc_ok s2" unfolding s2_def
    by (rule rpc_ok_start) (use ok free cur in \<open>auto intro: ctl_ok_split\<close>)
  moreover have "user_ok s2" unfolding s2_def
    using ok by (intro user_ok_mode_update) (auto intro: ctl_ok_split)
  moreover have "static_ok C s2" unfolding s2_def
    using ok by (intro static_ok_mode_update) (auto intro: ctl_ok_split)
  ultimately have "ctl_ok C s3" using change_guest_mode_ok [OF _ _ _ s3] by blast
  then show "ctl_ok C t" unfolding t by (intro ctx_upd_ok) simp_all
qed

lemma end_rpc_ok: "ctl_ok C s \<Longrightarrow> hypercall_end_rpc s = Ret t \<Longrightarrow> ctl_ok C t"
proof -
  assume ok: "ctl_ok C s" and ret: "hypercall_end_rpc s = Ret t"
  define k where "k = rpc_source s (cur s)"
  define s2 where "s2 = mode_update k (\<lambda>m. m\<lparr>rpc_to := MODE_NONE\<rparr>)
    (mode_update (cur s) (\<lambda>m. m\<lparr>rpc_for := MODE_NONE\<rparr>) s)"
  have k: "k \<noteq> MODE_NONE" and t: "change_guest_mode k s2 = Ret t"
    using ret by (auto simp: hypercall_end_rpc_def Let_def hyper_panic_def s2_def k_def split: if_splits)
  have cur: "cur s = HC_GM_TRUSTED"
    using ok k ctl_ok_cur [OF ok] unfolding k_def ctl_ok_def rpc_ok_def by metis
  have "rpc_ok s2" unfolding s2_def cur
    by (rule rpc_ok_stop) (use ok k cur in \<open>auto simp: k_def intro: ctl_ok_split\<close>)
  moreover have "user_ok s2" unfolding s2_def
    using ok by (intro user_ok_mode_update) (auto intro: ctl_ok_split)
  moreover have "static_ok C s2" unfolding s2_def
    using ok by (intro static_ok_mode_update) (auto intro: ctl_ok_split)
  ultimately show "ctl_ok C t" using change_guest_mode_ok [OF _ _ _ t] by blast
qed

text \<open>In a state that satisfies the invariant, a mode that serves a call can always end it.\<close>

lemma end_rpc_returns:
  assumes "ctl_ok C s" "rpc_source s (cur s) \<noteq> MODE_NONE"
  shows "\<exists>t. hypercall_end_rpc s = Ret t"
proof -
  have ok: "rpc_ok s" "cur s = current_guest_mode (vm s)" using assms(1) by (auto simp: ctl_ok_def mode_ok_def)
  then have cur: "cur s = HC_GM_TRUSTED"
    using assms(2) ctl_ok_cur [OF assms(1)] unfolding rpc_ok_def by metis
  then show ?thesis using ok assms(2)
    by (auto simp: rpc_ok_def hypercall_end_rpc_def change_guest_mode_def Let_def not_le)
qed

section \<open>The handlers keep the invariant\<close>

lemma memory_ctl_ok [simp]:
  "ctl_ok C (push_words pl sp n f s) = ctl_ok C s" "ctl_ok C (vwrite pl a v s) = ctl_ok C s"
  "ctl_ok C (cop ops s) = ctl_ok C s" "ctl_ok C (s\<lparr>hw := (hw s)\<lparr>context_id := x\<rparr>\<rparr>) = ctl_ok C s"
  "ctl_ok C (s\<lparr>tls := x\<rparr>) = ctl_ok C s" "ctl_ok C (s\<lparr>boot := y\<rparr>) = ctl_ok C s"
  by (rule ctl_ok_cong, simp add: frame)+

lemma change_mode_ok: "ctl_ok C s \<Longrightarrow> change_guest_mode m s = Ret t \<Longrightarrow> ctl_ok C t"
  by (rule change_guest_mode_ok) (auto intro: ctl_ok_split)

lemma task_syscall_ok:
  assumes ok: "ctl_ok C s" and ret: "task_syscall pl s = Ret t"
  shows "ctl_ok C t"
proof -
  obtain s1 where s1: "change_guest_mode HC_GM_KERNEL s = Ret s1"
    using ret by (auto simp: task_syscall_def and_then_Ret_iff)
  define s2 where "s2 = ctx_upd (cur s1) (\<lambda>c. c\<lparr>csp := csp c - (72 + 8)\<rparr>) s1"
  define sp where "sp = csp (mctx s2 HC_GM_KERNEL)"
  define task where "task = mctx s2 HC_GM_TASK"
  define s6 where "s6 = vwrite pl (sp + 76) (creg task 0) (push_words pl (sp + 8) 17 (ctx_word task)
    (vwrite pl (sp + 4) (creg task 5) (vwrite pl sp (creg task 4) s2)))"
  define s7 where "s7 = ctx_upd (cur s6) (\<lambda>c. c\<lparr>cpsr := cpsr c AND NOT IRQ_MASK,
    clr := vector_entry pl s6 V_RET_FAST_SYSCALL, creg := (creg c)(7 := creg task 7)\<rparr>) s6"
  have ok1: "ctl_ok C s1" using change_mode_ok [OF ok s1] .
  have "ctl_ok C s2" unfolding s2_def using ok1 by (intro ctx_upd_ok) auto
  then have "ctl_ok C s6" unfolding s6_def by simp
  then have ok7: "ctl_ok C s7" unfolding s7_def by (intro ctx_upd_ok) auto
  have ok8: "ctl_ok C (for_loop 6 (\<lambda>i. ctx_upd (cur s7) (ctx_put i (creg task i))) s7)"
    by (rule for_loop_invariant [where P = "ctl_ok C", OF ok7]) (auto intro!: ctx_upd_ok)
  have "(if creg task 7 < nr_syscalls (ginfo (vm s7))
      then (let s8 = for_loop 6 (\<lambda>i. ctx_upd (cur s7) (ctx_put i (creg task i))) s7;
              pc = vread pl s8 (vector_entry pl s8 V_SWI + push_bit 2 (creg (mctx s8 (cur s8)) 7))
            in Ret (ctx_upd (cur s8) (\<lambda>c. c\<lparr>cpc := pc\<rparr>) s8))
      else Ret (ctx_upd (cur s7) (\<lambda>c. c\<lparr>creg := (creg c)(0 := creg task 7,
             1 := csp (mctx s7 HC_GM_KERNEL) + 8), cpc := vector_entry pl s7 V_ARM_SYSCALL\<rparr>) s7)) = Ret t"
    using ret unfolding task_syscall_def s1 and_then.simps
    by (simp only: Let_def s7_def s6_def sp_def task_def s2_def)
  then show ?thesis using ok7 ok8
    by (auto simp: Let_def split: if_splits intro!: ctx_upd_ok)
qed

lemma dmmu_hypercall_ok: "ctl_ok C s \<Longrightarrow> ctl_ok C (dmmu_hypercall pl a b c s)"
proof -
  assume "ctl_ok C s"
  moreover have "ctl (snd (dmmu_call (\<lambda>cf. dmmu_handler cf (junk pl) a b c) s)) = ctl s"
    by (simp add: frame)
  ultimately have "ctl_ok C (snd (dmmu_call (\<lambda>cf. dmmu_handler cf (junk pl) a b c) s))"
    using ctl_ok_cong by blast
  then have "ctl_ok C (ctx_upd m (ctx_put 0 r) (snd (dmmu_call (\<lambda>cf. dmmu_handler cf (junk pl) a b c) s)))" for m r
    by (intro ctx_upd_ok) auto
  moreover have "ctl_ok C (mem_mmu_tlb_invalidate_all x y t) = ctl_ok C t" for x y t
    by (rule ctl_ok_cong) (simp add: frame)
  ultimately show ?thesis
    by (simp add: dmmu_hypercall_def Let_def split_beta CacheDataCleanInvalidateAll_def)
qed

text \<open>The hypercalls by number.\<close>

lemma kernel_hypercall_ok:
  assumes ok: "ctl_ok C s" and ret: "kernel_hypercall pl a b c n s = Ret t"
  shows "ctl_ok C t"
proof -
  note same = cache_ctl new_pgd_ctl set_pmd_ctl set_pte_ctl
  have keep: "ctl u = ctl s \<Longrightarrow> ctl_ok C u" for u using ok ctl_ok_cong by blast
  consider "n = 666" | "n = 1000" | "n = 1001" | "n = 1002" | "n = 1012" | "n = 1013" | "n = 1020" | "n = 1021"
    | "n \<notin> {666, 1000, 1001, 1002, 1012, 1013, 1020, 1021}" by auto
  then show ?thesis
  proof cases
    case 1
    then show ?thesis using ret dmmu_hypercall_ok [OF ok] by (auto simp: kernel_hypercall_def)
  next
    case 9
    then have "ctl t = ctl s" using ret
      by (auto simp: kernel_hypercall_def hypercall_num_error_def terminate_def hypercall_set_tls_def frame
          dest: same split: if_splits)
    then show ?thesis by (rule keep)
  qed (use ret ok in \<open>auto simp: kernel_hypercall_def intro: guest_init_ok interrupt_set_ok
        end_interrupt_ok restore_linux_regs_ok restore_regs_ok rpc_keeps_ok end_rpc_ok\<close>)
qed

lemma swi_handler_ok: "ctl_ok C s \<Longrightarrow> swi_handler pl a b c n s = Ret t \<Longrightarrow> ctl_ok C t"
  by (auto simp: swi_handler_def split: if_splits intro: rpc_keeps_ok end_rpc_ok task_syscall_ok kernel_hypercall_ok)

lemma abort_entry_ok: "ctl_ok C s \<Longrightarrow> ctl_ok C (abort_entry pl v a st s)"
  by (auto simp: abort_entry_def Let_def intro!: ctx_upd_ok unpriv_and(1) ctl_ok_user)

lemma abort_frame_ok:
  "ctl_ok C s \<Longrightarrow> ctl_ok C (abort_entry pl v a st (vwrite pl x y (push_words pl sp n f
    (ctx_upd m (\<lambda>c. c\<lparr>csp := csp c - k\<rparr>) s))))"
  by (rule abort_entry_ok, simp only: memory_ctl_ok) (rule ctx_upd_ok, auto)

lemma abort_handlers_ok:
  assumes ok: "ctl_ok C s"
  shows "prefetch_abort_handler pl a st u s = Ret t \<Longrightarrow> ctl_ok C t"
    and "data_abort_handler pl a st u s = Ret t \<Longrightarrow> ctl_ok C t"
proof -
  assume "prefetch_abort_handler pl a st u s = Ret t"
  then obtain s1 where s1: "change_guest_mode HC_GM_KERNEL s = Ret s1"
    unfolding prefetch_abort_handler_def Let_def and_then_Ret_iff by blast
  show "ctl_ok C t"
    using \<open>prefetch_abort_handler pl a st u s = Ret t\<close>
    unfolding prefetch_abort_handler_def s1 Let_def and_then.simps outcome.inject
    by (elim subst) (rule abort_frame_ok [OF change_mode_ok [OF ok s1]])
next
  assume "data_abort_handler pl a st u s = Ret t"
  then obtain s1 where s1: "change_guest_mode HC_GM_KERNEL s = Ret s1"
    unfolding data_abort_handler_def Let_def and_then_Ret_iff by blast
  show "ctl_ok C t"
    using \<open>data_abort_handler pl a st u s = Ret t\<close>
    unfolding data_abort_handler_def s1 Let_def and_then.simps outcome.inject
    by (elim subst) (rule abort_frame_ok [OF change_mode_ok [OF ok s1]])
qed

lemma irq_handler_ok: "ctl_ok C s \<Longrightarrow> irq_handler pl i r1 r2 s = Ret t \<Longrightarrow> ctl_ok C t"
  by (auto simp: irq_handler_def Let_def and_then_Ret_iff split: if_splits
    elim!: change_mode_ok [rotated] intro!: ctx_upd_ok ctl_ok_user)

end
