(* ===== verification/HyperSystem.thy ===== *)
theory HyperSystem
  imports HyperInv
begin

text \<open>
  The hypervisor and its guest as a state machine: steps of the guest and entries into the
  handlers, the invariant of the reachable states, and what system calls and remote procedure
  calls do from entry to return.
\<close>

section \<open>The system as a state machine\<close>

text \<open>
  The guest runs in its current mode, which may change its own context and, within what the MMU
  lets it, memory (here: any memory), but not the processor mode; or it enters one of the
  handlers, with any arguments. A handler that does not return is no step.
\<close>

inductive guest_step :: "platform \<Rightarrow> sys \<Rightarrow> sys \<Rightarrow> bool" for pl where
  run: "unpriv (cpsr c) \<Longrightarrow> guest_step pl s (ctx_upd (cur s) (\<lambda>_. c) (s\<lparr>hw := (hw s)\<lparr>mem := m\<rparr>\<rparr>))"
| swi: "swi_handler pl p0 p1 p2 n s = Ret t \<Longrightarrow> guest_step pl s t"
| prefetch: "prefetch_abort_handler pl adr st u s = Ret t \<Longrightarrow> guest_step pl s t"
| data: "data_abort_handler pl adr st u s = Ret t \<Longrightarrow> guest_step pl s t"
| irq: "irq_handler pl i r1 r2 s = Ret t \<Longrightarrow> guest_step pl s t"
| undefined_instruction: "undef_handler i u adr s = Ret t \<Longrightarrow> guest_step pl s t"

inductive_cases guest_stepE: "guest_step pl s t"

abbreviation guest_reachable :: "platform \<Rightarrow> sys \<Rightarrow> sys \<Rightarrow> bool" where
  "guest_reachable pl \<equiv> (guest_step pl)\<^sup>*\<^sup>*"

lemma ctl_ok_mem [simp]: "ctl_ok C (s\<lparr>hw := (hw s)\<lparr>mem := m\<rparr>\<rparr>) = ctl_ok C s"
  by (rule ctl_ok_cong) (simp add: ctl_def frame)

lemma guest_step_ok: "guest_step pl s t \<Longrightarrow> ctl_ok C s \<Longrightarrow> ctl_ok C t"
  by (induction rule: guest_step.induct)
    (auto intro: swi_handler_ok abort_handlers_ok irq_handler_ok ctx_upd_ok simp: undef_handler_def)

lemma guest_reachable_ok: "guest_reachable pl s t \<Longrightarrow> ctl_ok C s \<Longrightarrow> ctl_ok C t"
  by (induction rule: rtranclp_induct) (auto intro: guest_step_ok)

section \<open>Words on the stack\<close>

lemma word4_inj:
  assumes "i < 2 ^ 30" "j < 2 ^ 30"
  shows "(p :: u32) + 4 * of_nat i = p + 4 * of_nat j \<longleftrightarrow> i = j"
proof -
  have "(p :: u32) + 4 * of_nat i = p + 4 * of_nat j \<longleftrightarrow> (of_nat (4 * i) :: u32) = of_nat (4 * j)" by simp
  also have "\<dots> \<longleftrightarrow> 4 * i = 4 * j"
    unfolding word_of_nat_eq_iff using assms by (simp add: take_bit_nat_eq_self)
  finally show ?thesis by simp
qed

definition words_at :: "platform \<Rightarrow> u32 \<Rightarrow> nat \<Rightarrow> u32 \<Rightarrow> bool" where
  "words_at pl va n p \<longleftrightarrow> n < 2 ^ 30 \<and> (\<forall>h. \<forall>i<n. mmu pl h (va + 4 * of_nat i) = p + 4 * of_nat i)"

lemma words_at_read: "words_at pl va n p \<Longrightarrow> i < n \<Longrightarrow> vread pl s (va + 4 * of_nat i) = mem (hw s) (p + 4 * of_nat i)"
  by (simp add: words_at_def vread_def)

lemma words_at_write:
  "words_at pl va n p \<Longrightarrow> i < n \<Longrightarrow>
    mem (hw (vwrite pl (va + 4 * of_nat i) v s)) = (mem (hw s))(p + 4 * of_nat i := v)"
  by (simp add: words_at_def vwrite_def)

lemma words_at_shift:
  assumes "words_at pl va n p" "k \<le> n"
  shows "words_at pl (va + 4 * of_nat k) (n - k) (p + 4 * of_nat k)"
proof -
  have "mmu pl h (va + 4 * of_nat k + 4 * of_nat i) = p + 4 * of_nat k + 4 * of_nat i" if "i < n - k" for h i
  proof -
    have "k + i < n" using that by simp
    then have "mmu pl h (va + 4 * of_nat (k + i)) = p + 4 * of_nat (k + i)"
      using assms(1) unfolding words_at_def by blast
    then show ?thesis by (simp add: algebra_simps)
  qed
  then show ?thesis using assms(1) unfolding words_at_def by (simp add: less_imp_diff_less)
qed

lemma push_words_mem:
  assumes "words_at pl va n p" "k \<le> n" "j < n"
  shows "mem (hw (push_words pl va k f s)) (p + 4 * of_nat j) = (if j < k then f j else mem (hw s) (p + 4 * of_nat j))"
  using assms(2)
proof (induction k)
  case (Suc k)
  then have "(p + 4 * of_nat j = p + 4 * of_nat k) = (j = k)"
    using assms(1,3) by (intro word4_inj) (auto simp: words_at_def)
  then show ?case using Suc words_at_write [OF assms(1), of k]
    by (auto simp: push_words_def less_Suc_eq)
qed (simp add: push_words_def)

section \<open>The frame of a system call\<close>

text \<open>What \<^verbatim>\<open>swi_handler\<close> leaves on the stack of the kernel, by word.\<close>

definition syscall_frame :: "cpu_context \<Rightarrow> nat \<Rightarrow> u32" where
  "syscall_frame c i = (if i = 0 then creg c 4 else if i = 1 then creg c 5
     else if i = 19 then creg c 0 else ctx_word c (i - 2))"

lemma for_loop_cong: "(\<And>i t. i < n \<Longrightarrow> f i t = g i t) \<Longrightarrow> for_loop n f s = for_loop n g s"
  by (induction n) simp_all

lemma for_loop_shift: "for_loop (n + k) body s = for_loop n (\<lambda>i. body (i + k)) (for_loop k body s)"
  by (induction n) simp_all

lemma syscall_frame_push:
  "vwrite pl (sp + 76) (creg c 0) (push_words pl (sp + 8) 17 (ctx_word c)
     (vwrite pl (sp + 4) (creg c 5) (vwrite pl sp (creg c 4) s))) = push_words pl sp 20 (syscall_frame c) s"
proof -
  have two: "for_loop 2 body t = body 1 (body 0 t)" for body :: "nat \<Rightarrow> sys \<Rightarrow> sys" and t
    by (simp add: numeral_2_eq_2)
  have twenty: "for_loop 20 body t = body 19 (for_loop 19 body t)" for body :: "nat \<Rightarrow> sys \<Rightarrow> sys" and t
    using for_loop_Suc [of 19 body t] by simp
  have "push_words pl sp 20 (syscall_frame c) s =
      vwrite pl (sp + 4 * of_nat 19) (syscall_frame c 19) (for_loop (17 + 2)
        (\<lambda>i. vwrite pl (sp + 4 * of_nat i) (syscall_frame c i)) s)"
    unfolding push_words_def twenty by simp
  also have "for_loop (17 + 2) (\<lambda>i. vwrite pl (sp + 4 * of_nat i) (syscall_frame c i)) s =
      push_words pl (sp + 8) 17 (ctx_word c) (vwrite pl (sp + 4) (creg c 5) (vwrite pl sp (creg c 4) s))"
    unfolding for_loop_shift two push_words_def
    by (rule trans [OF for_loop_cong [where g = "\<lambda>i. vwrite pl (sp + 8 + 4 * of_nat i) (ctx_word c i)"]])
      (simp_all add: syscall_frame_def algebra_simps)
  finally have "push_words pl sp 20 (syscall_frame c) s = vwrite pl (sp + 4 * of_nat 19) (syscall_frame c 19)
      (push_words pl (sp + 8) 17 (ctx_word c) (vwrite pl (sp + 4) (creg c 5) (vwrite pl sp (creg c 4) s)))" .
  moreover have "syscall_frame c 19 = creg c 0" by (simp add: syscall_frame_def)
  ultimately show ?thesis by simp
qed

lemma syscall_frame_words:
  "syscall_frame c 15 = csp c" "syscall_frame c 18 = cpsr c"
  "i < 17 \<Longrightarrow> syscall_frame c (i + 2) = ctx_word c i"
  by (simp_all add: syscall_frame_def ctx_word_def)

text \<open>Popping words restores the registers they hold.\<close>

lemma ctx_upd_mem [frame]: "vread pl (ctx_upd m f s) va = vread pl s va"
  by (simp add: vread_def frame)

lemma pop_regs_state:
  "hw (pop_regs pl m va first k s) = hw s"
  "n \<noteq> m \<Longrightarrow> mctx (pop_regs pl m va first k s) n = mctx s n"
  by (induction k) (simp_all add: pop_regs_def frame)

lemma pop_regs_word:
  assumes "words_at pl va n p" "k \<le> n" "first + k \<le> 17" "i < 17"
  shows "ctx_word (mctx (pop_regs pl m va first k s) m) i =
    (if first \<le> i \<and> i < first + k then mem (hw s) (p + 4 * of_nat (i - first)) else ctx_word (mctx s m) i)"
  using assms(2,3)
proof (induction k)
  case (Suc k)
  have "vread pl (pop_regs pl m va first k s) (va + 4 * of_nat k) = mem (hw s) (p + 4 * of_nat k)"
    using words_at_read [OF assms(1), of k] Suc.prems by (simp add: pop_regs_state)
  then have "ctx_word (mctx (pop_regs pl m va first (Suc k) s) m) i =
      (if i = first + k then mem (hw s) (p + 4 * of_nat k) else ctx_word (mctx (pop_regs pl m va first k s) m) i)"
    using Suc.prems assms(4) by (simp add: pop_regs_def frame ctx_word_put)
  then show ?case using Suc by auto
qed (auto simp: pop_regs_def)

lemma ctx_eqI:
  assumes "\<And>i. i < 17 \<Longrightarrow> ctx_word c i = ctx_word d i" "\<And>i. 13 \<le> i \<Longrightarrow> creg c i = creg d i"
  shows "c = (d :: cpu_context)"
proof (rule cpu_context.equality)
  show "creg c = creg d"
  proof
    fix i show "creg c i = creg d i"
      using assms(1) [of i] assms(2) [of i] by (cases "i < 13") (auto simp: ctx_word_def)
  qed
  show "csp c = csp d" "clr c = clr d" "cpc c = cpc d" "cpsr c = cpsr d"
    using assms(1) [of 13] assms(1) [of 14] assms(1) [of 15] assms(1) [of 16] by (simp_all add: ctx_word_def)
qed simp

section \<open>Entering and leaving a system call\<close>

lemma change_mode_frame:
  "change_guest_mode m s = Ret t \<Longrightarrow> mode_states (vm t) = mode_states (vm s) \<and> mem (hw t) = mem (hw s)
    \<and> cur t = m \<and> ginfo (vm t) = ginfo (vm s) \<and> cfg t = cfg s \<and> current_guest_mode (vm t) = m"
  by (auto simp: change_guest_mode_def hyper_panic_def Let_def split: if_splits)

lemma change_mode_returns: "m < HC_NGUESTMODES \<Longrightarrow> \<exists>t. change_guest_mode m s = Ret t"
  by (auto simp: change_guest_mode_def Let_def simp flip: linorder_not_le)

lemma push_words_frame [frame]: "vm (push_words pl sp n f s) = vm s"
  by (induction n) (simp_all add: push_words_def frame)

text \<open>
  The state in which the kernel of the guest starts to serve a system call: the frame is on its
  stack, twenty words below the old stack pointer, and the context of the task is unchanged.
\<close>

lemma task_syscall_state:
  assumes words: "words_at pl (csp (mctx s HC_GM_KERNEL) - 80) 20 p"
  shows "\<exists>t. task_syscall pl s = Ret t \<and> cur t = HC_GM_KERNEL \<and> current_guest_mode (vm t) = HC_GM_KERNEL
    \<and> csp (mctx t HC_GM_KERNEL) = csp (mctx s HC_GM_KERNEL) - 80
    \<and> mctx t HC_GM_TASK = mctx s HC_GM_TASK
    \<and> (\<forall>i<20. mem (hw t) (p + 4 * of_nat i) = syscall_frame (mctx s HC_GM_TASK) i)"
proof -
  obtain s1 where s1: "change_guest_mode HC_GM_KERNEL s = Ret s1" using change_mode_returns [of HC_GM_KERNEL] by auto
  note f1 = change_mode_frame [OF s1]
  define s2 where "s2 = ctx_upd (cur s1) (\<lambda>c. c\<lparr>csp := csp c - (72 + 8)\<rparr>) s1"
  define sp where "sp = csp (mctx s2 HC_GM_KERNEL)"
  define task where "task = mctx s2 HC_GM_TASK"
  define s6 where "s6 = vwrite pl (sp + 76) (creg task 0) (push_words pl (sp + 8) 17 (ctx_word task)
    (vwrite pl (sp + 4) (creg task 5) (vwrite pl sp (creg task 4) s2)))"
  define s7 where "s7 = ctx_upd (cur s6) (\<lambda>c. c\<lparr>cpsr := cpsr c AND NOT IRQ_MASK,
    clr := vector_entry pl s6 V_RET_FAST_SYSCALL, creg := (creg c)(7 := creg task 7)\<rparr>) s6"
  define s8 where "s8 = for_loop 6 (\<lambda>i. ctx_upd (cur s7) (ctx_put i (creg task i))) s7"
  have sp: "sp = csp (mctx s HC_GM_KERNEL) - 80" and task: "task = mctx s HC_GM_TASK"
    using f1 by (simp_all add: sp_def task_def s2_def frame)
  have s6: "s6 = push_words pl sp 20 (syscall_frame task) s2"
    unfolding s6_def by (rule syscall_frame_push)
  have vm6: "vm s6 = vm s2" unfolding s6 by (simp add: frame)
  have frame6: "mem (hw s6) (p + 4 * of_nat i) = syscall_frame task i" if "i < 20" for i
    unfolding s6 using push_words_mem [OF words [folded sp], of 20 i] that by simp
  have ok7: "hw s7 = hw s6" "cur s7 = HC_GM_KERNEL" "current_guest_mode (vm s7) = HC_GM_KERNEL"
    "csp (mctx s7 HC_GM_KERNEL) = sp" "mctx s7 HC_GM_TASK = task"
    using f1 by (simp_all add: s7_def vm6 frame s2_def sp_def task_def)
  have csp_put: "csp (ctx_put i v c) = csp c" if "i < 6" for i v c using that by (simp add: ctx_put_def)
  define copied where "copied = (\<lambda>u. hw u = hw s7 \<and> cur u = HC_GM_KERNEL \<and> current_guest_mode (vm u) = HC_GM_KERNEL
    \<and> csp (mctx u HC_GM_KERNEL) = sp \<and> mctx u HC_GM_TASK = task)"
  have "copied s8"
    unfolding s8_def ok7(2)
    by (rule for_loop_invariant [where P = copied]) (use ok7 in \<open>auto simp: copied_def frame csp_put\<close>)
  then have ok8: "hw s8 = hw s7" "cur s8 = HC_GM_KERNEL" "current_guest_mode (vm s8) = HC_GM_KERNEL"
    "csp (mctx s8 HC_GM_KERNEL) = sp" "mctx s8 HC_GM_TASK = task"
    by (simp_all add: copied_def)
  have "task_syscall pl s = (if creg task 7 < nr_syscalls (ginfo (vm s7))
      then (let pc = vread pl s8 (vector_entry pl s8 V_SWI + push_bit 2 (creg (mctx s8 (cur s8)) 7))
            in Ret (ctx_upd (cur s8) (\<lambda>c. c\<lparr>cpc := pc\<rparr>) s8))
      else Ret (ctx_upd (cur s7) (\<lambda>c. c\<lparr>creg := (creg c)(0 := creg task 7,
             1 := csp (mctx s7 HC_GM_KERNEL) + 8), cpc := vector_entry pl s7 V_ARM_SYSCALL\<rparr>) s7))"
    unfolding task_syscall_def s1 and_then.simps
    by (simp only: Let_def s8_def s7_def s6_def sp_def task_def s2_def)
  then show ?thesis
    using ok7 ok8 frame6 sp task by (auto simp: Let_def frame)
qed

text \<open>
  The kernel serves the call, and asks the hypervisor to return: its stack pointer is back at the
  frame and it has left the frame and the context of the task alone.
\<close>

definition served :: "u32 \<Rightarrow> sys \<Rightarrow> sys \<Rightarrow> bool" where
  "served p t t' \<longleftrightarrow> csp (mctx t' HC_GM_KERNEL) = csp (mctx t HC_GM_KERNEL)
     \<and> mctx t' HC_GM_TASK = mctx t HC_GM_TASK
     \<and> (\<forall>i<20. mem (hw t') (p + 4 * of_nat i) = mem (hw t) (p + 4 * of_nat i))"

abbreviation kernel_stack_ok :: "platform \<Rightarrow> sys \<Rightarrow> u32 \<Rightarrow> bool" where
  "kernel_stack_ok pl s p \<equiv> words_at pl (csp (mctx s HC_GM_KERNEL) - 80) 20 p
     \<and> 0xC0000000 \<le> csp (mctx s HC_GM_KERNEL) - 80 \<and> csp (mctx s HC_GM_KERNEL) - 80 \<le> HAL_VIRT_START - 68"

text \<open>The words the return reads: the status register and what it takes for the program counter.\<close>

lemma return_reads:
  assumes words: "words_at pl sp 20 p" and saved: "\<forall>i<20. mem (hw t) (p + 4 * of_nat i) = syscall_frame c i"
  shows "vread pl t (sp + 60) = csp c" "vread pl t (sp + 72) = cpsr c"
    and "words_at pl (sp + 12) 17 (p + 12)"
    and "i < 15 \<Longrightarrow> mem (hw t) (p + 12 + 4 * of_nat i) = ctx_word c (i + 1)"
proof -
  show "vread pl t (sp + 60) = csp c" "vread pl t (sp + 72) = cpsr c"
    using words_at_read [OF words, of 15 t] words_at_read [OF words, of 18 t]
      saved [rule_format, of 15] saved [rule_format, of 18]
    by (simp_all add: syscall_frame_words)
  show "words_at pl (sp + 12) 17 (p + 12)" using words_at_shift [OF words, of 3] by simp
  assume i: "i < 15"
  have "p + 12 + 4 * of_nat i = p + 4 * of_nat (i + 3)" by (simp add: algebra_simps)
  moreover have "syscall_frame c (i + 3) = ctx_word c (i + 1)"
    using i by (simp add: syscall_frame_def)
  moreover have "i + 3 < 20" using i by simp
  ultimately show "mem (hw t) (p + 12 + 4 * of_nat i) = ctx_word c (i + 1)" using saved by metis
qed

lemma restore_range: "0xC0000000 \<le> sp \<Longrightarrow> sp \<le> HAL_VIRT_START - 68 \<Longrightarrow>
    (sp < 0xC0000000 \<or> sp > HAL_VIRT_START - 68) = False"
  by (auto simp: not_less)

lemma return_to_task:
  assumes sp: "csp (mctx t HC_GM_KERNEL) = sp" "0xC0000000 \<le> sp" "sp \<le> HAL_VIRT_START - 68"
    and words: "words_at pl sp 20 p" and saved: "\<forall>i<20. mem (hw t) (p + 4 * of_nat i) = syscall_frame c i"
    and user: "csp c < 0xC0000000"
  shows "\<exists>u. hypercall_restore_linux_regs pl r True t = Ret u \<and> cur u = HC_GM_TASK
    \<and> (\<forall>i<17. ctx_word (mctx u HC_GM_TASK) i =
          (if i = 0 then r else if i = 16 then 0xFFFFFFF0 AND cpsr c else ctx_word c i))
    \<and> csp (mctx u HC_GM_KERNEL) = sp + 80"
proof -
  note reads = return_reads [OF words saved]
  define s0 where "s0 = ctx_upd HC_GM_TASK (ctx_put 0 r) t"
  define s1 where "s1 = pop_regs pl HC_GM_TASK (sp + 12) 1 15 s0"
  define s2 where "s2 = ctx_upd HC_GM_TASK (\<lambda>c'. c'\<lparr>cpsr := 0xFFFFFFF0 AND cpsr c\<rparr>) s1"
  define s3 where "s3 = ctx_upd HC_GM_KERNEL (\<lambda>c'. c'\<lparr>csp := csp c' + (18 * 4 + 8)\<rparr>) s2"
  have run: "hypercall_restore_linux_regs pl r True t = change_guest_mode HC_GM_TASK s3"
    unfolding hypercall_restore_linux_regs_def Let_def sp(1) restore_range [OF sp(2,3)] s3_def s2_def s1_def s0_def
    using reads(1,2) user by simp
  obtain u where u: "change_guest_mode HC_GM_TASK s3 = Ret u" using change_mode_returns [of HC_GM_TASK] by auto
  note f = change_mode_frame [OF u]
  have pop: "ctx_word (mctx s1 HC_GM_TASK) i =
      (if 1 \<le> i \<and> i < 16 then ctx_word c i else ctx_word (mctx s0 HC_GM_TASK) i)" if "i < 17" for i
  proof -
    have "ctx_word (mctx s1 HC_GM_TASK) i = (if 1 \<le> i \<and> i < 1 + 15 then mem (hw s0) (p + 12 + 4 * of_nat (i - 1))
        else ctx_word (mctx s0 HC_GM_TASK) i)"
      unfolding s1_def by (rule pop_regs_word [OF reads(3)]) (use that in simp_all)
    moreover have "hw s0 = hw t" by (simp add: s0_def frame)
    moreover have "mem (hw t) (p + 12 + 4 * of_nat (i - 1)) = ctx_word c i" if "1 \<le> i" "i < 16"
      using reads(4) [of "i - 1"] that by auto
    ultimately show ?thesis by simp
  qed
  have "ctx_word (mctx u HC_GM_TASK) i =
      (if i = 0 then r else if i = 16 then 0xFFFFFFF0 AND cpsr c else ctx_word c i)" if "i < 17" for i
  proof -
    have "mctx u HC_GM_TASK = (mctx s1 HC_GM_TASK)\<lparr>cpsr := 0xFFFFFFF0 AND cpsr c\<rparr>"
      using f by (simp add: s3_def s2_def frame)
    moreover have "ctx_word (c'\<lparr>cpsr := v\<rparr>) i = (if i = 16 then v else ctx_word c' i)" for c' v
      using that by (auto simp: ctx_word_def)
    moreover have "ctx_word (mctx s0 HC_GM_TASK) 0 = r" by (simp add: s0_def frame ctx_word_put)
    ultimately show ?thesis using pop [OF that] that by auto
  qed
  moreover have "csp (mctx u HC_GM_KERNEL) = sp + 80"
    using f sp(1) by (simp add: s3_def s2_def s1_def s0_def frame pop_regs_state)
  ultimately show ?thesis using u f unfolding run by blast
qed

lemma return_to_kernel:
  assumes sp: "csp (mctx t HC_GM_KERNEL) = sp" "0xC0000000 \<le> sp" "sp \<le> HAL_VIRT_START - 68"
    and words: "words_at pl sp 20 p" and saved: "\<forall>i<20. mem (hw t) (p + 4 * of_nat i) = syscall_frame c i"
    and evil: "0xC0000000 \<le> csp c" "csp c < 0xFFFF0FA0"
  shows "\<exists>u. hypercall_restore_linux_regs pl r True t = Ret u \<and> cur u = HC_GM_KERNEL
    \<and> cpc (mctx u HC_GM_KERNEL) = csp c"
proof -
  note reads = return_reads [OF words saved]
  define s1 where "s1 = pop_regs pl HC_GM_KERNEL sp 0 13 t"
  define s2 where "s2 = ctx_upd HC_GM_KERNEL (\<lambda>c'. c'\<lparr>clr := vread pl s1 (sp + 56)\<rparr>) s1"
  define s3 where "s3 = ctx_upd HC_GM_KERNEL (\<lambda>c'. c'\<lparr>cpsr := 0xFFFFFFF0 AND cpsr c, cpc := csp c,
    csp := csp c' + 18 * 4\<rparr>) s2"
  have space: "\<not> (csp c < 0xC0000000 \<or> (csp c < 0xFFFF1000 \<and> csp c \<ge> 0xFFFF0FA0))"
    using evil by auto
  have run: "hypercall_restore_linux_regs pl r True t = change_guest_mode HC_GM_KERNEL s3"
    unfolding hypercall_restore_linux_regs_def Let_def sp(1) restore_range [OF sp(2,3)] s3_def s2_def s1_def
    using reads(1,2) space by simp
  obtain u where u: "change_guest_mode HC_GM_KERNEL s3 = Ret u" using change_mode_returns [of HC_GM_KERNEL] by auto
  note f = change_mode_frame [OF u]
  then have "cpc (mctx u HC_GM_KERNEL) = csp c" by (simp add: s3_def frame)
  then show ?thesis using u f unfolding run by blast
qed

section \<open>A concrete system\<close>

text \<open>
  The Linux configuration in mode \<open>m\<close>, with untranslated addresses; the kernel's stack is at
  \<open>0xC8000000\<close>, the task's at \<open>usp\<close>.
\<close>

definition flat_platform :: platform where
  "flat_platform = \<lparr>mmu = \<lambda>h a. a, ccsidr = \<lambda>_. 0, clidr = 0, linux_build = False, slpt_pa = 0, junk = 0\<rparr>"

definition demo_mode :: "u32 \<Rightarrow> u32 \<Rightarrow> mode_state" where
  "demo_mode usp m = \<lparr>ctx = \<lparr>creg = \<lambda>_. 7, csp = (if m = 1 then 0xC8000000 else if m = 2 then usp else 0),
     clr = 0, cpc = 0x8000, cpsr = 0x10\<rparr>, mode_config = linux_guest_modes m, rpc_for = MODE_NONE, rpc_to = MODE_NONE\<rparr>"

definition demo_linux :: hc_config where
  "demo_linux = linux_config \<lparr>pstart = 0x1000000, vstart = 0xC0000000, psize = 0x7000000,
     fwsize = 0x100000, offset = 0\<rparr>"

definition demo_sys :: "u32 \<Rightarrow> u32 \<Rightarrow> sys" where
  "demo_sys usp m =
     \<lparr>hw = \<lparr>bft = \<lambda>_. \<lparr>refcnt = 0, btype = 0\<rparr>, mem = \<lambda>_. 0, flpt = \<lambda>_. 0, ttbr0 = 0, context_id = 0,
        dacr = domain_ac (linux_guest_modes m)\<rparr>,
      vm = \<lparr>vm_id = 0, current_guest_mode = m, interrupted_mode = MODE_NONE,
        ginfo = \<lparr>nr_syscalls = 378, page_offset = 0xC0000000, phys_offset = 0x1000000,
          vmalloc_end = 0xE0000000, guest_size = 0x6000000\<rparr>,
        exception_vector = 0xC0000000, mode_states = demo_mode usp, current_mode_state = m,
        vm_config = demo_linux\<rparr>,
      cpu_ctx = m, boot = 1, tls = 0, linux_l2_index_p = 0, l2_index_p = 0, cpu_id = 0, cpu_mmf = 0,
      cpu_cr = 0, csselr = 0, maint = []\<rparr>"

lemma demo_sys_simps:
  "vm (demo_sys usp m) = \<lparr>vm_id = 0, current_guest_mode = m, interrupted_mode = MODE_NONE,
        ginfo = \<lparr>nr_syscalls = 378, page_offset = 0xC0000000, phys_offset = 0x1000000,
          vmalloc_end = 0xE0000000, guest_size = 0x6000000\<rparr>,
        exception_vector = 0xC0000000, mode_states = demo_mode usp, current_mode_state = m,
        vm_config = demo_linux\<rparr>"
  "cpu_ctx (demo_sys usp m) = m" "dacr (hw (demo_sys usp m)) = domain_ac (linux_guest_modes m)"
  by (simp_all add: demo_sys_def)

lemma demo_sys_ok: "m < 4 \<Longrightarrow> ctl_ok demo_linux (demo_sys usp m)"
  by (simp add: ctl_ok_def static_ok_def mode_ok_def user_ok_def rpc_ok_def unpriv_def demo_sys_simps demo_mode_def
    demo_linux_def linux_config_def rpc_handler_trusted_def)

section \<open>Properties of the control state\<close>

text \<open>C9. Whatever a guest does, from a state in which the modes are set up consistently it reaches
only states in which the mode the hypervisor records, the context it restores and the domain
permissions agree, the permissions are those the configuration gives that mode, and no context
of the guest has a privileged processor mode.\<close>

theorem guest_stays_in_its_mode:
  assumes "ctl_ok C s" "guest_reachable pl s t"
  shows "current_guest_mode (vm t) < HC_NGUESTMODES \<and> cur t = current_guest_mode (vm t)
    \<and> cpu_ctx t = current_guest_mode (vm t)
    \<and> dacr (hw t) = domain_ac (guest_modes C (current_guest_mode (vm t)))
    \<and> (\<forall>m. cpsr (mctx t m) AND 0xF = 0)"
  using guest_reachable_ok [OF assms(2,1)] by (simp add: ctl_ok_def static_ok_def mode_ok_def user_ok_def unpriv_def)

lemma demo_irq: "\<exists>t. irq_handler flat_platform 5 0 0 (demo_sys 0x9000 1) = Ret t"
  by (simp add: irq_handler_def change_guest_mode_def demo_sys_simps Let_def)

theorem guest_stays_in_its_mode_witness:
  "\<exists>t. irq_handler flat_platform 5 0 0 (demo_sys 0x9000 1) = Ret t \<and> cur t = current_guest_mode (vm t)"
proof -
  obtain t where t: "irq_handler flat_platform 5 0 0 (demo_sys 0x9000 1) = Ret t" using demo_irq by blast
  then have "guest_reachable flat_platform (demo_sys 0x9000 1) t" by (intro r_into_rtranclp guest_step.irq)
  then have "cur t = current_guest_mode (vm t)"
    using guest_stays_in_its_mode [OF demo_sys_ok, of 1 flat_platform "0x9000" t] by simp
  with t show ?thesis by blast
qed

text \<open>C10. A system call returns to the task: after the hypervisor pushed the task's context and the
kernel served the call without touching the frame, the return hypercall resumes the task with
all its registers but the result, its program counter and status included, provided the
task's stack pointer is below the kernel's half of the address space.\<close>

theorem syscall_round_trip:
  assumes "kernel_stack_ok pl s p" "csp (mctx s HC_GM_TASK) < 0xC0000000"
  shows "\<exists>t. task_syscall pl s = Ret t \<and> cur t = HC_GM_KERNEL
    \<and> (\<forall>t'. served p t t' \<longrightarrow> (\<exists>u. hypercall_restore_linux_regs pl r True t' = Ret u \<and> cur u = HC_GM_TASK
        \<and> csp (mctx u HC_GM_KERNEL) = csp (mctx s HC_GM_KERNEL)
        \<and> (\<forall>i<17. ctx_word (mctx u HC_GM_TASK) i =
              (if i = 0 then r else if i = 16 then 0xFFFFFFF0 AND cpsr (mctx s HC_GM_TASK)
               else ctx_word (mctx s HC_GM_TASK) i))))"
proof -
  obtain t where t: "task_syscall pl s = Ret t" "cur t = HC_GM_KERNEL"
    "csp (mctx t HC_GM_KERNEL) = csp (mctx s HC_GM_KERNEL) - 80" "mctx t HC_GM_TASK = mctx s HC_GM_TASK"
    "\<forall>i<20. mem (hw t) (p + 4 * of_nat i) = syscall_frame (mctx s HC_GM_TASK) i"
    using task_syscall_state assms(1) by blast
  have "\<exists>u. hypercall_restore_linux_regs pl r True t' = Ret u \<and> cur u = HC_GM_TASK
      \<and> csp (mctx u HC_GM_KERNEL) = csp (mctx s HC_GM_KERNEL)
      \<and> (\<forall>i<17. ctx_word (mctx u HC_GM_TASK) i =
            (if i = 0 then r else if i = 16 then 0xFFFFFFF0 AND cpsr (mctx s HC_GM_TASK)
             else ctx_word (mctx s HC_GM_TASK) i))" if "served p t t'" for t'
    using return_to_task [of t' "csp (mctx s HC_GM_KERNEL) - 80" pl p "mctx s HC_GM_TASK" r]
      assms t(3,5) that unfolding served_def by auto
  with t(1,2) show ?thesis by blast
qed

lemma demo_stack: "kernel_stack_ok flat_platform (demo_sys usp 2) 0xC7FFFFB0"
  by (simp add: words_at_def flat_platform_def demo_sys_simps demo_mode_def)

theorem syscall_round_trip_witness:
  "\<exists>t. task_syscall flat_platform (demo_sys 0x9000 2) = Ret t \<and> cur t = HC_GM_KERNEL"
  using syscall_round_trip [OF demo_stack, of "0x9000" 0] by (auto simp: demo_sys_simps demo_mode_def)

text \<open>The return hypercall takes the word of the frame that holds the task's stack pointer for its
program counter: a task that makes a system call with a stack pointer in the kernel's half of
the address space is resumed in kernel mode, at the address its stack pointer holds.\<close>

theorem syscall_enters_kernel_at_task_sp:
  assumes "kernel_stack_ok pl s p" "0xC0000000 \<le> csp (mctx s HC_GM_TASK)" "csp (mctx s HC_GM_TASK) < 0xFFFF0FA0"
  shows "\<exists>t. task_syscall pl s = Ret t
    \<and> (\<forall>t'. served p t t' \<longrightarrow> (\<exists>u. hypercall_restore_linux_regs pl r True t' = Ret u
        \<and> cur u = HC_GM_KERNEL \<and> cpc (mctx u HC_GM_KERNEL) = csp (mctx s HC_GM_TASK)))"
proof -
  obtain t where t: "task_syscall pl s = Ret t"
    "csp (mctx t HC_GM_KERNEL) = csp (mctx s HC_GM_KERNEL) - 80"
    "\<forall>i<20. mem (hw t) (p + 4 * of_nat i) = syscall_frame (mctx s HC_GM_TASK) i"
    using task_syscall_state assms(1) by blast
  have "\<exists>u. hypercall_restore_linux_regs pl r True t' = Ret u
      \<and> cur u = HC_GM_KERNEL \<and> cpc (mctx u HC_GM_KERNEL) = csp (mctx s HC_GM_TASK)" if "served p t t'" for t'
    using return_to_kernel [of t' "csp (mctx s HC_GM_KERNEL) - 80" pl p "mctx s HC_GM_TASK" r]
      assms t(2,3) that unfolding served_def by auto
  with t(1) show ?thesis by blast
qed

theorem syscall_enters_kernel_at_task_sp_witness:
  "\<exists>t. task_syscall flat_platform (demo_sys 0xD0000000 2) = Ret t
    \<and> (\<forall>t'. served 0xC7FFFFB0 t t' \<longrightarrow> (\<exists>u. hypercall_restore_linux_regs flat_platform 0 True t' = Ret u
        \<and> cur u = HC_GM_KERNEL \<and> cpc (mctx u HC_GM_KERNEL) = 0xD0000000))"
  using syscall_enters_kernel_at_task_sp [OF demo_stack, of "0xD0000000" 0]
  by (simp add: demo_sys_simps demo_mode_def)

text \<open>C11. A remote procedure call returns exactly when the configuration names a handler, the caller
has no call in progress, does not call itself, the handler serves no other call and the
operation is one of the five allowed; without a handler the code dereferences a null pointer.\<close>

theorem rpc_returns_iff:
  "((\<exists>t. hypercall_rpc op a s = Ret t) \<longleftrightarrow>
      (\<exists>h. rpc_handlers (cfg s) = Some h \<and> rpc_target s (cur s) = MODE_NONE
         \<and> current_guest_mode (vm s) \<noteq> rpc_mode h \<and> rpc_source s (rpc_mode h) = MODE_NONE \<and> op \<le> 4))
    \<and> (hypercall_rpc op a s = Undefined \<longleftrightarrow> rpc_handlers (cfg s) = None)"
proof (cases "rpc_handlers (cfg s)")
  case (Some h)
  obtain t where "change_guest_mode HC_GM_TRUSTED (mode_update (rpc_mode h) (\<lambda>m. m\<lparr>rpc_for := current_guest_mode (vm s)\<rparr>)
      (mode_update (cur s) (\<lambda>m. m\<lparr>rpc_to := rpc_mode h\<rparr>) s)) = Ret t"
    using change_mode_returns [of HC_GM_TRUSTED] by auto
  then show ?thesis using Some by (auto simp: hypercall_rpc_def Let_def hyper_panic_def)
next
  case None
  then show ?thesis by (simp add: hypercall_rpc_def)
qed

text \<open>Starting a call links the two modes; ending it, whatever the trusted mode's context, removes the links.\<close>

lemma rpc_starts:
  assumes "ctl_ok C s" "rpc_handlers (cfg s) = Some h" "cur s \<noteq> HC_GM_TRUSTED"
    "rpc_target s (cur s) = MODE_NONE" "rpc_source s HC_GM_TRUSTED = MODE_NONE" "op \<le> 4"
  shows "\<exists>t x. hypercall_rpc op a s = Ret t \<and> cur t = HC_GM_TRUSTED \<and> current_guest_mode (vm t) = HC_GM_TRUSTED \<and> mode_states (vm t) = (mode_states (vm s))
      (cur s := (mode_states (vm s) (cur s))\<lparr>rpc_to := HC_GM_TRUSTED\<rparr>, HC_GM_TRUSTED := (mode_states (vm s) HC_GM_TRUSTED)\<lparr>rpc_for := cur s, ctx := x\<rparr>)
    \<and> creg x 0 = op \<and> creg x 1 = a \<and> cpc x = entry_point h"
proof -
  define k where "k = cur s"
  note cur = ctl_ok_cur [OF assms(1)]
  have trusted: "rpc_mode h = HC_GM_TRUSTED" using assms(1,2) by (simp add: ctl_ok_def rpc_ok_def)
  define s2 where "s2 = mode_update HC_GM_TRUSTED (\<lambda>m. m\<lparr>rpc_for := k\<rparr>) (mode_update k (\<lambda>m. m\<lparr>rpc_to := HC_GM_TRUSTED\<rparr>) s)"
  obtain s3 where s3: "change_guest_mode HC_GM_TRUSTED s2 = Ret s3" using change_mode_returns [of HC_GM_TRUSTED] by auto
  note f3 = change_mode_frame [OF s3]
  define t where "t = ctx_upd HC_GM_TRUSTED (\<lambda>c. c\<lparr>creg := (creg c)(0 := op, 1 := a), cpc := entry_point h, cpsr := 0xD0\<rparr>) s3"
  have ret: "hypercall_rpc op a s = Ret t"
    using assms(2-6) trusted cur s3 f3 unfolding hypercall_rpc_def t_def s2_def k_def by (simp add: Let_def)
  have states: "mode_states (vm s3) = (mode_states (vm s))(k := (mode_states (vm s) k)\<lparr>rpc_to := HC_GM_TRUSTED\<rparr>,
      HC_GM_TRUSTED := (mode_states (vm s) HC_GM_TRUSTED)\<lparr>rpc_for := k\<rparr>)"
    using f3 assms(3) by (auto simp: s2_def frame k_def)
  define x where "x = ctx (mode_states (vm t) HC_GM_TRUSTED)"
  have "mode_states (vm t) = (mode_states (vm s))(k := (mode_states (vm s) k)\<lparr>rpc_to := HC_GM_TRUSTED\<rparr>,
      HC_GM_TRUSTED := (mode_states (vm s) HC_GM_TRUSTED)\<lparr>rpc_for := k, ctx := x\<rparr>)"
    by (simp add: x_def t_def ctx_upd_def mode_update_def states)
  moreover have "cur t = HC_GM_TRUSTED" "current_guest_mode (vm t) = HC_GM_TRUSTED" "creg x 0 = op" "creg x 1 = a" "cpc x = entry_point h"
    using f3 by (simp_all add: x_def t_def frame)
  ultimately show ?thesis using ret unfolding k_def by blast
qed

lemma rpc_ends:
  assumes "ctl_ok C s" "cur s \<noteq> HC_GM_TRUSTED" "rpc_target s (cur s) = MODE_NONE" "cur t = HC_GM_TRUSTED \<and> current_guest_mode (vm t) = HC_GM_TRUSTED"
    and t: "mode_states (vm t) = (mode_states (vm s))(cur s := (mode_states (vm s) (cur s))\<lparr>rpc_to := HC_GM_TRUSTED\<rparr>,
      HC_GM_TRUSTED := (mode_states (vm s) HC_GM_TRUSTED)\<lparr>rpc_for := cur s, ctx := c\<rparr>)"
  shows "\<exists>u. hypercall_end_rpc t = Ret u \<and> cur u = cur s \<and> dacr (hw u) = dacr (hw s)
    \<and> (\<forall>k. k \<noteq> HC_GM_TRUSTED \<longrightarrow> mode_states (vm u) k = mode_states (vm s) k)
    \<and> rpc_source u HC_GM_TRUSTED = MODE_NONE \<and> rpc_target u HC_GM_TRUSTED = rpc_target s HC_GM_TRUSTED"
proof -
  define k where "k = cur s"
  define s4 where "s4 = mode_update k (\<lambda>m. m\<lparr>rpc_to := MODE_NONE\<rparr>) (mode_update HC_GM_TRUSTED (\<lambda>m. m\<lparr>rpc_for := MODE_NONE\<rparr>) t)"
  note t = t [folded k_def]
  have kne: "k \<noteq> MODE_NONE" "k \<noteq> HC_GM_TRUSTED" "k < HC_NGUESTMODES" using ctl_ok_cur [OF assms(1)] assms(2) by (auto simp: k_def)
  obtain u where u: "change_guest_mode k s4 = Ret u" using change_mode_returns [OF kne(3)] by blast
  note fu = change_mode_frame [OF u]
  have "hypercall_end_rpc t = Ret u"
    using assms(4) t kne u unfolding hypercall_end_rpc_def s4_def by (simp add: Let_def)
  moreover have "dacr (hw u) = dacr (hw s)"
  proof -
    have "dacr (hw u) = domain_ac (mode_config (mode_states (vm s4) k))"
      using u kne by (auto simp: change_guest_mode_def Let_def hyper_panic_def split: if_splits)
    moreover have "dacr (hw s) = domain_ac (mode_config (mode_states (vm s) k))"
      using assms(1) by (auto simp: ctl_ok_def static_ok_def mode_ok_def k_def)
    ultimately show ?thesis using t kne by (simp add: s4_def frame)
  qed
  moreover have "mode_states (vm s) k = (mode_states (vm s) k)\<lparr>rpc_to := MODE_NONE\<rparr>"
    using assms(3) by (intro mode_state.equality) (simp_all add: k_def)
  ultimately show ?thesis using fu t kne by (intro exI [of _ u]) (auto simp: s4_def frame k_def)
qed

text \<open>C12. A remote procedure call and its end are a round trip: the caller starts the trusted mode at
the handler's entry point with the operation and the argument in its registers; whatever the
trusted mode does to its context and to memory, ending the call resumes the caller's mode with
its context and domain permissions as they were, and no call is left in progress.\<close>

theorem rpc_round_trip:
  assumes "ctl_ok C s" "rpc_handlers (cfg s) = Some h" "cur s \<noteq> HC_GM_TRUSTED"
    "rpc_target s (cur s) = MODE_NONE" "rpc_source s HC_GM_TRUSTED = MODE_NONE" "op \<le> 4"
  shows "\<exists>t. hypercall_rpc op a s = Ret t \<and> cur t = HC_GM_TRUSTED
    \<and> creg (mctx t HC_GM_TRUSTED) 0 = op \<and> creg (mctx t HC_GM_TRUSTED) 1 = a
    \<and> cpc (mctx t HC_GM_TRUSTED) = entry_point h
    \<and> (\<forall>c m. \<exists>u. hypercall_end_rpc (ctx_upd HC_GM_TRUSTED (\<lambda>_. c) (t\<lparr>hw := (hw t)\<lparr>mem := m\<rparr>\<rparr>)) = Ret u
         \<and> cur u = cur s \<and> dacr (hw u) = dacr (hw s)
         \<and> (\<forall>k. k \<noteq> HC_GM_TRUSTED \<longrightarrow> mode_states (vm u) k = mode_states (vm s) k)
         \<and> rpc_source u HC_GM_TRUSTED = MODE_NONE \<and> rpc_target u HC_GM_TRUSTED = rpc_target s HC_GM_TRUSTED)"
proof -
  obtain t x where t: "hypercall_rpc op a s = Ret t" "cur t = HC_GM_TRUSTED" "current_guest_mode (vm t) = HC_GM_TRUSTED" "mode_states (vm t) = (mode_states (vm s))
      (cur s := (mode_states (vm s) (cur s))\<lparr>rpc_to := HC_GM_TRUSTED\<rparr>, HC_GM_TRUSTED := (mode_states (vm s) HC_GM_TRUSTED)\<lparr>rpc_for := cur s, ctx := x\<rparr>)"
    and x: "creg x 0 = op" "creg x 1 = a" "cpc x = entry_point h"
    using rpc_starts [OF assms] by blast
  have "\<exists>u. hypercall_end_rpc t' = Ret u \<and> cur u = cur s \<and> dacr (hw u) = dacr (hw s)
       \<and> (\<forall>k. k \<noteq> HC_GM_TRUSTED \<longrightarrow> mode_states (vm u) k = mode_states (vm s) k)
       \<and> rpc_source u HC_GM_TRUSTED = MODE_NONE \<and> rpc_target u HC_GM_TRUSTED = rpc_target s HC_GM_TRUSTED"
    if "t' = ctx_upd HC_GM_TRUSTED (\<lambda>_. c) (t\<lparr>hw := (hw t)\<lparr>mem := m\<rparr>\<rparr>)" for c m t'
    by (rule rpc_ends [OF assms(1,3,4), of _ c]) (use t in \<open>simp_all add: that ctx_upd_def mode_update_def\<close>)
  then show ?thesis using t x by (intro exI [of _ t]) simp
qed

theorem rpc_round_trip_witness:
  "\<exists>t. hypercall_rpc 3 42 (demo_sys 0x9000 1) = Ret t \<and> cpc (mctx t HC_GM_TRUSTED) = 0xF0500004"
  using rpc_round_trip [OF demo_sys_ok, of 1 "0x9000" rpc_handler_trusted 3 42]
  by (simp add: demo_sys_simps demo_mode_def demo_linux_def linux_config_def) (auto simp: rpc_handler_trusted_def)

end
