(* ===== verification/PtBuild.thy ===== *)
theory PtBuild
  imports HyperSystem
begin

text \<open>
  Building the master page tables of the hypervisor (\<^verbatim>\<open>arm_common/arm_mmu_pt.c\<close>) from the
  description of the physical memory (\<^verbatim>\<open>types.h\<close>, \<^verbatim>\<open>hypervisor/mem.c\<close>, the layout of the
  Raspberry Pi 2 in \<^verbatim>\<open>board_mem.c\<close>). The first-level table is \<open>flpt\<close>, by index; the
  second-level tables lie in physical memory at \<open>slpt_pa\<close>.
\<close>

section \<open>Memory layout (types.h, mem.c)\<close>

datatype memory_layout_type = MLT_NONE | MLT_HYPER_RAM | MLT_HYPER_ROM | MLT_USER_RAM | MLT_USER_ROM
  | MLT_TRUSTED_RAM | MLT_IO_RW_REG | MLT_IO_RO_REG | MLT_IO_HYP_REG

abbreviation (input) MLF_LAST :: u32 where "MLF_LAST \<equiv> 1"
abbreviation (input) MLF_READABLE :: u32 where "MLF_READABLE \<equiv> 4"
abbreviation (input) MLF_WRITEABLE :: u32 where "MLF_WRITEABLE \<equiv> 8"

text \<open>\<open>page_count\<close> is the page after the last one, as the comment in \<^verbatim>\<open>types.h\<close> admits.\<close>

record memory_layout_entry =
  page_start :: u32
  page_count :: u32
  ml_type :: memory_layout_type
  ml_flags :: u32

definition ADDR_TO_PAGE :: "u32 \<Rightarrow> u32" where
  "ADDR_TO_PAGE adr = drop_bit 12 adr"

definition PAGE_TO_ADDR :: "u32 \<Rightarrow> u32" where
  "PAGE_TO_ADDR page = push_bit 12 page"

text \<open>
  The search through the array stops at the entry flagged as the last; a list that ends without
  it is an array the code reads beyond.
\<close>

fun mem_padr_search :: "u32 \<Rightarrow> memory_layout_entry list \<Rightarrow> memory_layout_entry option outcome" where
  "mem_padr_search page [] = Undefined"
| "mem_padr_search page (tmp # rest) =
     (if page \<ge> (page_start tmp AND 0xFFF00) \<and> page \<le> page_count tmp then Ret (Some tmp)
      else if ml_flags tmp AND MLF_LAST \<noteq> 0 then Ret None
      else mem_padr_search page rest)"

definition mem_padr_lookup :: "memory_layout_entry list \<Rightarrow> u32 \<Rightarrow> memory_layout_entry option outcome" where
  "mem_padr_lookup layout padr = mem_padr_search (ADDR_TO_PAGE padr) layout"

section \<open>The layout of the Raspberry Pi 2 (board_mem.c, soc_defs.h, raspberrypi2.cfg)\<close>

abbreviation (input) PERI_BASE :: u32 where "PERI_BASE \<equiv> 0x3F000000"
abbreviation (input) rpi2_HAL_PHYS_START :: u32 where "rpi2_HAL_PHYS_START \<equiv> 0x1000000"
abbreviation (input) BASE_RAM_ADDRESS :: u32 where "BASE_RAM_ADDRESS \<equiv> rpi2_HAL_PHYS_START + 0x100000"
abbreviation (input) AMOUNT_OF_HYPERVISOR_RAM :: u32 where "AMOUNT_OF_HYPERVISOR_RAM \<equiv> 0x400000"
abbreviation (input) AMOUNT_OF_TRUSTED_RAM :: u32 where "AMOUNT_OF_TRUSTED_RAM \<equiv> 0x100000"
abbreviation (input) AMOUNT_OF_USER_RAM :: u32 where "AMOUNT_OF_USER_RAM \<equiv> 0x500000"

definition layout_entry :: "u32 \<Rightarrow> u32 \<Rightarrow> memory_layout_type \<Rightarrow> u32 \<Rightarrow> memory_layout_entry" where
  "layout_entry start stop t f =
     \<lparr>page_start = ADDR_TO_PAGE start, page_count = ADDR_TO_PAGE stop, ml_type = t, ml_flags = f\<rparr>"

definition rpi2_padr_layout :: "memory_layout_entry list" where
  "rpi2_padr_layout =
     [layout_entry (PERI_BASE + 0x3000) (PERI_BASE + 0x3000 + 0x1000) MLT_IO_RO_REG (MLF_READABLE OR MLF_WRITEABLE),
      layout_entry 0x3F00B000 0x3F00C000 MLT_IO_HYP_REG (MLF_READABLE OR MLF_WRITEABLE),
      layout_entry (PERI_BASE + 0x200000) (PERI_BASE + 0x200000 + 0x1000) MLT_IO_RW_REG (MLF_READABLE OR MLF_WRITEABLE),
      layout_entry (PERI_BASE + 0x200000 + 0x1000) (PERI_BASE + 0x200000 + 0x1000 + 0x1000) MLT_IO_RW_REG
        (MLF_READABLE OR MLF_WRITEABLE),
      layout_entry 0x40000000 (0x40000000 + 0x1000) MLT_IO_RW_REG (MLF_READABLE OR MLF_WRITEABLE),
      layout_entry BASE_RAM_ADDRESS (BASE_RAM_ADDRESS + AMOUNT_OF_HYPERVISOR_RAM) MLT_HYPER_RAM
        (MLF_READABLE OR MLF_WRITEABLE),
      layout_entry (BASE_RAM_ADDRESS + AMOUNT_OF_HYPERVISOR_RAM)
        (BASE_RAM_ADDRESS + AMOUNT_OF_HYPERVISOR_RAM + AMOUNT_OF_TRUSTED_RAM) MLT_TRUSTED_RAM
        (MLF_READABLE OR MLF_WRITEABLE),
      layout_entry (BASE_RAM_ADDRESS + AMOUNT_OF_HYPERVISOR_RAM + AMOUNT_OF_TRUSTED_RAM)
        (BASE_RAM_ADDRESS + AMOUNT_OF_HYPERVISOR_RAM + AMOUNT_OF_TRUSTED_RAM + AMOUNT_OF_USER_RAM) MLT_USER_RAM
        (MLF_READABLE OR MLF_WRITEABLE OR MLF_LAST)]"

section \<open>First-level entries (arm_mmu_pt.c)\<close>

definition set_flpt :: "u32 \<Rightarrow> u32 \<Rightarrow> sys \<Rightarrow> sys" where
  "set_flpt index v s = s\<lparr>hw := (hw s)\<lparr>flpt := (flpt (hw s))(index := v)\<rparr>\<rparr>"

definition map_section :: "u32 \<Rightarrow> u32 \<Rightarrow> bool \<Rightarrow> sys \<Rightarrow> sys" where
  "map_section va pa cache =
     (let page_attr = (if cache
            then push_bit MMU_SECTION_AP_SHIFT MMU_AP_SUP_RW OR MMU_FLAG_C OR MMU_FLAG_B OR MMU_L1_TYPE_SECTION
            else push_bit MMU_SECTION_AP_SHIFT 3 OR MMU_L1_TYPE_SECTION)
      in set_flpt (drop_bit 20 va) ((pa AND 0xFFF00000) OR page_attr))"

definition section_val :: "u32 \<Rightarrow> u32 \<Rightarrow> nat \<Rightarrow> u32" where
  "section_val pa ap domn =
     (((pa OR 0x12) OR push_bit MMU_SECTION_AP_SHIFT ap) AND NOT 0x10) OR 0xC
       OR push_bit MMU_L1_DOMAIN_SHIFT (of_nat domn)"

definition pt_create_section :: "u32 \<Rightarrow> u32 \<Rightarrow> memory_layout_type \<Rightarrow> sys \<Rightarrow> bool \<times> sys" where
  "pt_create_section va pa mem_type s =
     (let index = drop_bit 20 va;
          t = MMU_L1_TYPE (flpt (hw s) index)
      in if va AND NOT (NOT (SECTION_SIZE - 1)) = 0 \<and> t = MMU_L1_TYPE_FAULT
         then
           (case mem_type of
              MLT_USER_RAM \<Rightarrow> (True, set_flpt index (section_val pa MMU_AP_USER_RW HC_DOM_KERNEL) s)
            | MLT_TRUSTED_RAM \<Rightarrow> (True, set_flpt index (section_val pa MMU_AP_USER_RW HC_DOM_TRUSTED) s)
            | MLT_HYPER_RAM \<Rightarrow> (True, set_flpt index (section_val pa MMU_AP_SUP_RW HC_DOM_DEFAULT) s)
            | _ \<Rightarrow> (False, s))
         else (False, s))"

section \<open>Second-level tables (arm_mmu_pt.c)\<close>

definition pa_write :: "u32 \<Rightarrow> u32 \<Rightarrow> sys \<Rightarrow> sys" where
  "pa_write pa v s = s\<lparr>hw := (hw s)\<lparr>mem := (mem (hw s))(pa := v)\<rparr>\<rparr>"

definition pt_get_empty_l2 :: "platform \<Rightarrow> sys \<Rightarrow> u32 \<times> sys" where
  "pt_get_empty_l2 pl s =
     (if l2_index_p s * 0x400 > 0x8000 then (0, s)
      else
        (let index = l2_index_p s * 0x400;
             s1 = for_loop 256 (\<lambda>i. pa_write (slpt_pa pl + index + 4 * of_nat i) 0) s;
             l2_base_add = slpt_pa pl + index;
             p = l2_index_p s + 1;
             p' = (if p AND 2 = 2 then (p AND NOT 3) + 4 else p)
         in (l2_base_add, s1\<lparr>l2_index_p := p'\<rparr>)))"

text \<open>The access permission, domain and flags of a page; other types leave two variables uninitialised.\<close>

definition coarse_attrs :: "platform \<Rightarrow> memory_layout_type \<Rightarrow> u32 \<times> u32 \<times> u32" where
  "coarse_attrs pl mem_type =
     (case mem_type of
        MLT_TRUSTED_RAM \<Rightarrow> (of_nat HC_DOM_TRUSTED, MMU_AP_USER_RW, MMU_FLAG_B OR MMU_FLAG_C)
      | MLT_IO_HYP_REG \<Rightarrow> (of_nat HC_DOM_DEFAULT, MMU_AP_SUP_RW, 1)
      | MLT_IO_RW_REG \<Rightarrow> (of_nat HC_DOM_DEFAULT, MMU_AP_USER_RW, 1)
      | MLT_IO_RO_REG \<Rightarrow> (of_nat HC_DOM_DEFAULT, MMU_AP_USER_RO, 1)
      | MLT_USER_RAM \<Rightarrow> (of_nat HC_DOM_KERNEL, MMU_AP_USER_RW, MMU_FLAG_B OR MMU_FLAG_C)
      | MLT_USER_ROM \<Rightarrow> (of_nat HC_DOM_DEFAULT, MMU_AP_USER_RO, MMU_FLAG_B OR MMU_FLAG_C)
      | _ \<Rightarrow> (junk pl, junk pl, MMU_FLAG_B OR MMU_FLAG_C))"

definition pt_create_coarse :: "platform \<Rightarrow> u32 \<Rightarrow> u32 \<Rightarrow> u32 \<Rightarrow> memory_layout_type \<Rightarrow> sys \<Rightarrow> u32 \<times> sys" where
  "pt_create_coarse pl va pa sz mem_type s =
     (let index = MMU_L1_INDEX va;
          type_old = MMU_L1_TYPE (flpt (hw s) index);
          (domain, ap, flags) = coarse_attrs pl mem_type;
          (table2_pa, s1) =
            (if type_old = MMU_L1_TYPE_FAULT
             then (let (t, u) = pt_get_empty_l2 pl s
                   in if t = 0 then (0, u)
                      else (t, set_flpt index (t OR push_bit MMU_L1_DOMAIN_SHIFT domain OR MMU_L1_TYPE_COARSE) u))
             else (MMU_L1_PT_ADDR (flpt (hw s) index), s))
      in if type_old = MMU_L1_TYPE_FAULT \<and> table2_pa = 0 then (0, s1)
         else
           (let count = unat (drop_bit 12 sz);
                slpt_index = drop_bit 12 (va AND 0x000FF000)
            in (table2_pa, for_loop count (\<lambda>k. pa_write (table2_pa + 4 * (slpt_index + of_nat k))
                 ((pa + of_nat k * 0x1000) OR push_bit 4 ap OR flags OR MMU_COARSE_TYPE_SMALL)) s1)))"

definition pt_map :: "platform \<Rightarrow> u32 \<Rightarrow> u32 \<Rightarrow> u32 \<Rightarrow> memory_layout_type \<Rightarrow> sys \<Rightarrow> bool \<times> sys" where
  "pt_map pl va pa sz mem_type s =
     (let (t, s1) = pt_create_coarse pl va pa sz mem_type s in (t \<noteq> 0, s1))"

section \<open>The first pages of Linux (linux_init.c)\<close>

text \<open>
  \<^verbatim>\<open>init_linux_page\<close> edits the entries 4 to 7 of the table allocated last; \<open>PAGE_MASK\<close> is
  \<open>0xFFF\<close> in this repository, so the address of each entry is dropped before the new one
  is added. \<open>flpt_pa\<close> is the physical address of the master page table.
\<close>

definition init_linux_page :: "platform \<Rightarrow> u32 \<Rightarrow> u32 \<Rightarrow> sys \<Rightarrow> sys" where
  "init_linux_page pl hal_phys_start flpt_pa s =
     (let linux_phys_ram = hal_phys_start + 0x1000000;
          s1 = snd (pt_create_coarse pl 0xC0000000 linux_phys_ram 0x100000 MLT_USER_RAM s);
          s2 = for_loop 0x4F (\<lambda>k t. let i = of_nat k + 1 in
                 snd (pt_create_section (0xC0000000 + i * 0x100000) (linux_phys_ram + i * 0x100000) MLT_USER_RAM t)) s1;
          p = slpt_pa pl + (l2_index_p s2 - 1) * 0x400
      in for_loop 4 (\<lambda>k t.
           let a = p + 4 * (4 + of_nat k);
               v1 = mem (hw t) a AND 0xFFF;
               v2 = v1 OR (flpt_pa + of_nat k * 0x1000);
               v3 = v2 AND NOT (push_bit MMU_L2_SMALL_AP_SHIFT MMU_L2_SMALL_AP_MASK)
           in pa_write a (v3 OR push_bit MMU_L2_SMALL_AP_SHIFT MMU_AP_USER_RO) t) s2)"

end
