(* ===== verification/Init.thy ===== *)
theory Init
  imports PtBuild DmmuSystem
begin

text \<open>
  Starting the hypervisor: \<^verbatim>\<open>hypervisor/init.c\<close>, \<^verbatim>\<open>armv7a/cpu_init.c\<close> and the guest
  database of \<^verbatim>\<open>hw_core_guest.c\<close>. Peripheral drivers (\<^verbatim>\<open>soc_init\<close>, \<^verbatim>\<open>board_init\<close>, the timer
  \<^verbatim>\<open>setup_handlers\<close> starts) and the heap have no part in this state: the first are a parameter,
  the heap has a theory of its own.
\<close>

section \<open>The guest database (hw_core_guest.c)\<close>

abbreviation (input) MAX_GUESTS :: nat where "MAX_GUESTS \<equiv> 8"

record guests_database =
  db_count :: u32
  db_pstart :: u32
  db_pend :: u32
  db_guests :: "nat \<Rightarrow> guest_binary"

text \<open>\<open>None\<close> is the null pointer. The index is compared as an unsigned number.\<close>

definition get_guest :: "guests_database \<Rightarrow> nat \<Rightarrow> guest_binary option" where
  "get_guest db index =
     (if of_nat index \<ge> db_count db then None
      else if psize (db_guests db index) = 0 then None
      else Some (db_guests db index))"

section \<open>The processor (cpu_init.c)\<close>

text \<open>\<open>pt\<close> is the physical address of the master page table.\<close>

definition cpu_init :: "u32 \<Rightarrow> u32 \<Rightarrow> sys \<Rightarrow> sys" where
  "cpu_init part pt s =
     (let s1 = CacheEnable part (CACHE_ICACHE OR CACHE_DCACHE)
                 (CacheInstInvalidateAll (CacheDataCleanInvalidateAll s));
          ttb_flags = pt OR ((1 OR push_bit 6 1) OR push_bit 3 3);
          s2 = cop [TRANSLATION_TABLE1 ttb_flags, MEMORY_REMAP_PRRR 0xFF0a81A8, MEMORY_REMAP_NMRR 0x40E040e0] s1;
          mmu_config = (cpu_cr s2 AND NOT 0x0120c302) OR 0x10c03c7d;
          s3 = cop [SYSTEM_CONTROL mmu_config] (s2\<lparr>cpu_cr := mmu_config\<rparr>)
      in CacheEnable part (CACHE_ICACHE OR CACHE_DCACHE) s3)"

section \<open>Memory (init.c)\<close>

text \<open>
  What the board and the linker decide: the memory layout, the offset of the virtual addresses of
  the peripherals, \<open>HAL_OFFSET\<close>, the physical address of the vector table, the addresses of
  the master page table, the primary part number of the processor, and whether \<^verbatim>\<open>TRUSTED\<close> is
  defined.
\<close>

record board =
  padr_layout :: "memory_layout_entry list"
  io_offset :: u32
  hal_offset :: u32
  vector_pa :: u32
  flpt_va :: u32
  flpt_pa :: u32
  cpu_part :: u32
  trusted_build :: bool

definition memory_commit :: "platform \<Rightarrow> sys \<Rightarrow> sys" where
  "memory_commit pl s = mem_cache_invalidate pl True True True (mem_mmu_tlb_invalidate_all True True s)"

definition memory_init_entry :: "platform \<Rightarrow> board \<Rightarrow> memory_layout_entry \<Rightarrow> sys \<Rightarrow> sys" where
  "memory_init_entry pl b e s =
     (let j = drop_bit 8 (page_start e);
          own_memory = for_loop (unat (drop_bit 8 (page_count e)) - unat j) (\<lambda>k t.
            let i = j + of_nat k
            in snd (pt_create_section (push_bit 20 i - hal_offset b) (push_bit 20 i) (ml_type e) t)) s;
          io_pages = snd (pt_create_coarse pl (PAGE_TO_ADDR (page_start e) + io_offset b)
            (PAGE_TO_ADDR (page_start e)) (push_bit 12 (page_count e - page_start e)) (ml_type e) s)
      in case ml_type e of
           MLT_IO_RW_REG \<Rightarrow> io_pages | MLT_IO_RO_REG \<Rightarrow> io_pages | MLT_IO_HYP_REG \<Rightarrow> io_pages
         | MLT_USER_RAM \<Rightarrow> s
         | MLT_HYPER_RAM \<Rightarrow> own_memory | MLT_TRUSTED_RAM \<Rightarrow> own_memory
         | _ \<Rightarrow> s)"

fun memory_init_list :: "platform \<Rightarrow> board \<Rightarrow> memory_layout_entry list \<Rightarrow> sys \<Rightarrow> sys outcome" where
  "memory_init_list pl b [] s = Undefined"
| "memory_init_list pl b (e # es) s =
     (let s1 = memory_init_entry pl b e s
      in if ml_flags e AND MLF_LAST \<noteq> 0 then Ret s1 else memory_init_list pl b es s1)"

definition memory_init :: "platform \<Rightarrow> board \<Rightarrow> sys \<Rightarrow> sys outcome" where
  "memory_init pl b s =
     (let s1 = for_loop 0x2000 (\<lambda>i. pa_write (slpt_pa pl + 4 * of_nat i) 0) s
      in and_then (memory_init_list pl b (padr_layout b) s1) (\<lambda>s2.
           let s3 = snd (pt_map pl 0xFFFF0000 (vector_pa b) 0x1000 MLT_USER_ROM s2);
               s4 = mem_cache_set_enable True (memory_commit pl s3)
           in Ret (s4\<lparr>hw := (hw s4)\<lparr>dacr := 0x55555555\<rparr>\<rparr>)))"

section \<open>Guests (init.c)\<close>

text \<open>The configuration, with the guest's image filled in.\<close>

definition guest_config :: "platform \<Rightarrow> guests_database \<Rightarrow> hc_config option" where
  "guest_config pl db =
     (if linux_build pl
      then map_option (\<lambda>fw. (linux_config fw)\<lparr>pa_initial_l2_offset :=
             pa_initial_l2_offset (linux_config fw) + (psize fw - 0x700000)\<rparr>) (get_guest db 0)
      else map_option minimal_config (get_guest db 1))"

text \<open>The window on the guest's memory, one megabyte longer than the guest.\<close>

definition map_window :: "board \<Rightarrow> u32 \<Rightarrow> sys \<Rightarrow> sys" where
  "map_window b va_off s =
     (let va = reserved_va_for_pt_access_start (cfg s) + va_off;
          pa = pstart (firmware (cfg s)) + va_off
      in cop [DCACHE_INVALIDATE_MVA (flpt_va b + drop_bit MMU_L1_SECTION_SHIFT va * 4)]
           (snd (pt_create_section va pa MLT_HYPER_RAM s)))"

text \<open>The eight blocks of the hypervisor's own second-level tables become pinned L2 tables.\<close>

definition pin_slpt :: "platform \<Rightarrow> sys \<Rightarrow> sys" where
  "pin_slpt pl s =
     s\<lparr>hw := for_loop 8 (\<lambda>i. entry_update (PA_TO_PH_BLOCK (slpt_pa pl + of_nat i * 4096))
        (\<lambda>e. \<lparr>refcnt = 1, btype = PAGE_INFO_TYPE_L2PT\<rparr>)) (hw s)\<rparr>"

text \<open>A copy of the master page table becomes the guest's first page table and the active one.\<close>

definition copy_master :: "platform \<Rightarrow> sys \<Rightarrow> sys" where
  "copy_master pl s =
     (let guest_pt_pa = pstart (firmware (cfg s)) + pa_initial_l1_offset (cfg s);
          guest_pt_va = mmu_guest_pa_to_va guest_pt_pa (cfg s);
          s1 = s\<lparr>hw := for_loop 4096 (\<lambda>i h. mem_write (cfg s) (guest_pt_va + 4 * of_nat i) (flpt h (of_nat i)) h) (hw s)\<rparr>;
          s2 = memory_commit pl s1
      in memory_commit pl (cop [ISB] (set_ttbr0 guest_pt_pa s2)))"

definition minimal_attrs :: u32 where
  "minimal_attrs = (((0x12 OR push_bit MMU_SECTION_AP_SHIFT MMU_AP_USER_RW) AND NOT 0x10) OR 0xC)
     OR push_bit MMU_L1_DOMAIN_SHIFT (of_nat HC_DOM_KERNEL)"

definition map_guest :: "platform \<Rightarrow> sys \<Rightarrow> sys outcome" where
  "map_guest pl s =
     (if linux_build pl then linux_init_dmmu pl s
      else map_outcome snd (outcome_of (section_loop 0 (psize (firmware (cfg s)))
             (\<lambda>off. dmmu_do (\<lambda>c. dmmu_map_L1_section c (vstart (firmware c) + off)
                (pstart (firmware c) + off) minimal_attrs)) s)))"

definition trusted_context :: "board \<Rightarrow> sys \<Rightarrow> sys outcome" where
  "trusted_context b s =
     (if trusted_build b
      then
        (case rpc_handlers (cfg s) of
           None \<Rightarrow> Undefined
         | Some h \<Rightarrow> Ret (ctx_upd HC_GM_TRUSTED
             (\<lambda>c. c\<lparr>csp := rpc_sp h, cpsr := (ARM_IRQ_MASK OR ARM_FIQ_MASK) OR ARM_MODE_USER\<rparr>) s))
      else Ret s)"

text \<open>The loop over the virtual machines, of which there is one. \<open>MODE_NONE\<close> is the null pointer.\<close>

definition guest_contexts :: "sys \<Rightarrow> sys" where
  "guest_contexts s =
     (let s1 = for_loop 4 (\<lambda>i t. mode_update (of_nat i)
            (\<lambda>m. m\<lparr>mode_config := guest_modes (cfg t) (of_nat i), rpc_for := MODE_NONE, rpc_to := MODE_NONE\<rparr>) t) s;
          s2 = s1\<lparr>vm := (vm s1)\<lparr>current_guest_mode := MODE_NONE, interrupted_mode := MODE_NONE,
                 current_mode_state := MODE_NONE\<rparr>\<rparr>;
          s3 = ctx_upd HC_GM_INTERRUPT (\<lambda>c. c\<lparr>cpsr := ARM_MODE_USER\<rparr>) s2
      in ctx_upd HC_GM_KERNEL (\<lambda>c. c\<lparr>creg := (creg c)(3 := pstart (firmware (cfg s3)),
           4 := vstart (firmware (cfg s3)))\<rparr>) s3)"

definition guests_init :: "platform \<Rightarrow> board \<Rightarrow> guests_database \<Rightarrow> sys \<Rightarrow> sys outcome" where
  "guests_init pl b db s =
     (case guest_config pl db of
        None \<Rightarrow> Undefined
      | Some config \<Rightarrow>
          (let s1 = s\<lparr>vm := (vm s)\<lparr>vm_id := 0, vm_config := config\<rparr>\<rparr>
           in and_then (outcome_of (section_loop 0 (psize (firmware config) + SECTION_SIZE) (map_window b) s1)) (\<lambda>(_, s2).
              let s3 = copy_master pl (pin_slpt pl (memory_commit pl s2));
                  (res, s4) = dmmu_call (\<lambda>c. dmmu_create_L1_pt c (pstart (firmware c) + pa_initial_l1_offset c)) s3
              in if res \<noteq> SUCCESS_MMU then Hang
                 else and_then (map_guest pl s4) (\<lambda>s5.
                   let s6 = mem_cache_set_enable True (memory_commit pl s5)
                   in and_then (trusted_context b s6) (\<lambda>s7.
                      Ret ((memory_commit pl (guest_contexts s7))\<lparr>cpu_ctx := HC_GM_KERNEL\<rparr>))))))"

definition start_guest :: "sys \<Rightarrow> sys outcome" where
  "start_guest s = change_guest_mode HC_GM_KERNEL s"

text \<open>\<open>drivers\<close> stands for \<^verbatim>\<open>soc_init\<close>, \<^verbatim>\<open>board_init\<close> and \<^verbatim>\<open>setup_handlers\<close>.\<close>

definition start_hypervisor :: "platform \<Rightarrow> board \<Rightarrow> guests_database \<Rightarrow> (sys \<Rightarrow> sys) \<Rightarrow> sys \<Rightarrow> sys outcome" where
  "start_hypervisor pl b db drivers s =
     and_then (memory_init pl b (cpu_init (cpu_part b) (flpt_pa b) s)) (\<lambda>s1.
       let s2 = drivers s1;
           s3 = s2\<lparr>hw := dmmu_init (hw s2)\<rparr>
       in and_then (guests_init pl b db s3) start_guest)"

section \<open>The first control state\<close>

lemma memory_commit_ctl [frame]: "ctl (memory_commit pl s) = ctl s"
  by (simp add: memory_commit_def frame)

lemma less_4_cases: "(m :: u32) < 4 \<Longrightarrow> m = 0 \<or> m = 1 \<or> m = 2 \<or> m = 3"
proof -
  assume "m < 4"
  then have "unat m < 4" by (simp add: word_less_nat_alt)
  then have "unat m \<in> {0, 1, 2, 3}" by auto
  then show ?thesis by (auto simp: unat_eq_0 dest!: arg_cong [where f = of_nat and 'b = u32])
qed

lemma for_loop_4: "for_loop 4 body s = body 3 (body 2 (body 1 (body 0 s)))"
  by (simp add: eval_nat_numeral)

lemma guest_contexts_modes:
  "cpsr (mctx (guest_contexts s) HC_GM_INTERRUPT) = 0x10"
  "m \<noteq> HC_GM_INTERRUPT \<Longrightarrow> cpsr (mctx (guest_contexts s) m) = cpsr (mctx s m)"
  "m < HC_NGUESTMODES \<Longrightarrow> mode_config (mode_states (vm (guest_contexts s)) m) = guest_modes (cfg s) m"
  "m < HC_NGUESTMODES \<Longrightarrow> rpc_source (guest_contexts s) m = MODE_NONE \<and> rpc_target (guest_contexts s) m = MODE_NONE"
  "cfg (guest_contexts s) = cfg s"
  "creg (mctx (guest_contexts s) HC_GM_KERNEL) 3 = pstart (firmware (cfg s))
    \<and> creg (mctx (guest_contexts s) HC_GM_KERNEL) 4 = vstart (firmware (cfg s))"
  unfolding guest_contexts_def for_loop_4 Let_def
  by (auto simp: frame dest!: less_4_cases)

text \<open>C14. Whatever the boot left in memory, setting up the contexts and starting the guest always
succeeds and establishes the control invariant, in kernel mode, provided no context was given
a privileged status before and a remote procedure call handler, if any, is the trusted mode's.\<close>

theorem start_guest_establishes_control:
  assumes "user_ok s" "\<And>h. rpc_handlers (cfg s) = Some h \<Longrightarrow> rpc_mode h = HC_GM_TRUSTED"
  shows "\<exists>t. start_guest (guest_contexts s) = Ret t \<and> ctl_ok (cfg s) t \<and> cur t = HC_GM_KERNEL
    \<and> creg (mctx t HC_GM_KERNEL) 3 = pstart (firmware (cfg s))
    \<and> creg (mctx t HC_GM_KERNEL) 4 = vstart (firmware (cfg s))"
proof -
  define t where "t = guest_contexts s"
  note f = guest_contexts_modes [where s = s, folded t_def]
  have "cpsr (mctx t m) AND 15 = 0" for m
    using assms(1) f(1) f(2) [of m] by (cases "m = HC_GM_INTERRUPT") (auto simp: user_ok_def unpriv_def)
  then have "user_ok t" by (simp add: user_ok_def unpriv_def)
  moreover have "static_ok (cfg s) t" using f(3,5) by (simp add: static_ok_def)
  moreover have "rpc_ok t" using f(4,5) assms(2) by (auto simp: rpc_ok_def)
  moreover obtain u where u: "start_guest t = Ret u"
    using change_mode_returns [of HC_GM_KERNEL] by (auto simp: start_guest_def)
  ultimately have "ctl_ok (cfg s) u" by (intro change_guest_mode_ok) (simp_all add: start_guest_def)
  moreover have "cur u = HC_GM_KERNEL" "mode_states (vm u) = mode_states (vm t)"
    using change_mode_frame [OF u [unfolded start_guest_def]] by simp_all
  ultimately show ?thesis using u f(6) unfolding t_def by auto
qed

section \<open>The master table never changes once the guest runs\<close>

lemma flpt_ctl: "ctl t = ctl s \<Longrightarrow> flpt (hw t) = flpt (hw s)"
  by (simp add: ctl_def fixed_hw_def)

abbreviation master :: "sys \<Rightarrow> u32 \<Rightarrow> u32" where
  "master s \<equiv> flpt (hw s)"

lemma master_basic [frame]:
  "master (ctx_upd m f s) = master s" "master (vwrite pl a v s) = master s"
  "master (push_words pl sp n g s) = master s" "master (mode_update m h s) = master s"
  using flpt_ctl [OF ctl_basic(1)] flpt_ctl [OF ctl_words(3)] by (simp_all add: frame mode_update_def)

lemma change_mode_master: "change_guest_mode m s = Ret t \<Longrightarrow> master t = master s"
  by (auto simp: change_guest_mode_def Let_def hyper_panic_def split: if_splits)

lemma ctx_loop_master [frame]: "master (for_loop n (\<lambda>i t. ctx_upd (m t) (f i t) t) s) = master s"
  by (rule for_loop_invariant [where P = "\<lambda>t. master t = master s"]) (simp_all add: frame)

lemma restore_master:
  "hypercall_restore_regs pl r s = Ret t \<Longrightarrow> master t = master s"
  "hypercall_restore_linux_regs pl r sc s = Ret t \<Longrightarrow> master t = master s"
  by (auto simp: hypercall_restore_regs_def hypercall_restore_linux_regs_def pop_regs_def Let_def hyper_panic_def frame
    split: if_splits dest!: change_mode_master)

lemma mode_calls_master:
  "hypercall_rpc op a s = Ret t \<Longrightarrow> master t = master s"
  "hypercall_end_rpc s = Ret t \<Longrightarrow> master t = master s"
  "hypercall_interrupt_set i op s = Ret t \<Longrightarrow> master t = master s"
  "hypercall_end_interrupt s = Ret t \<Longrightarrow> master t = master s"
  "task_syscall pl s = Ret t \<Longrightarrow> master t = master s"
  "irq_handler pl i r1 r2 s = Ret t \<Longrightarrow> master t = master s"
  by (auto simp: hypercall_rpc_def hypercall_end_rpc_def hypercall_interrupt_set_def hypercall_end_interrupt_def
    task_syscall_def irq_handler_def Let_def hyper_panic_def and_then_Ret_iff frame
    split: if_splits option.splits dest!: change_mode_master)

lemma abort_master:
  "prefetch_abort_handler pl a st u s = Ret t \<Longrightarrow> master t = master s"
  "data_abort_handler pl a st u s = Ret t \<Longrightarrow> master t = master s"
  by (auto simp: prefetch_abort_handler_def data_abort_handler_def abort_entry_def Let_def and_then_Ret_iff frame
    dest!: change_mode_master)

lemma kernel_hypercall_master:
  assumes ret: "kernel_hypercall pl a b c n s = Ret t"
  shows "master t = master s"
proof -
  have vm: "master (boot_info_exchange pl d u) = master u" for d u
    unfolding boot_info_exchange_def by (simp add: Let_def) (rule flpt_ctl, simp add: frame)
  have init: "master t = master s" if "hypercall_guest_init pl a s = Ret t"
    using that vm flpt_ctl [OF clear_linux_ctl] flpt_ctl [OF ctl_basic(8)]
    by (auto simp: hypercall_guest_init_def hyper_panic_def Let_def split: if_splits)
  have dm: "master (dmmu_hypercall pl a b c s) = master s"
  proof -
    have "master (CacheDataCleanInvalidateAll (mem_mmu_tlb_invalidate_all True True (cop [ISB] u))) = master u" for u
      by (rule flpt_ctl) (simp add: frame CacheDataCleanInvalidateAll_def)
    moreover have "master (dmmu_do (\<lambda>ca. dmmu_handler ca (junk pl) a b c) s) = master s"
      by (rule flpt_ctl) (simp add: frame)
    ultimately show ?thesis by (simp add: dmmu_hypercall_def Let_def split_beta frame)
  qed
  consider "n = 666" | "n = 1000" | "n = 1001" | "n = 1002" | "n = 1012" | "n = 1013" | "n = 1020" | "n = 1021"
    | "n \<notin> {666, 1000, 1001, 1002, 1012, 1013, 1020, 1021}" by auto
  then show ?thesis
  proof cases
    case 1
    then show ?thesis using ret dm by (auto simp: kernel_hypercall_def)
  next
    case 9
    then have "ctl t = ctl s" using ret
      by (auto simp: kernel_hypercall_def hypercall_num_error_def terminate_def hypercall_set_tls_def frame
          dest: cache_ctl new_pgd_ctl set_pmd_ctl set_pte_ctl split: if_splits)
    then show ?thesis by (rule flpt_ctl)
  qed (use ret in \<open>auto simp: kernel_hypercall_def intro: init mode_calls_master restore_master\<close>)
qed

lemma guest_step_master: "guest_step pl s t \<Longrightarrow> master t = master s"
  by (induction rule: guest_step.induct)
    (auto simp: swi_handler_def undef_handler_def frame split: if_splits
      dest: abort_master mode_calls_master kernel_hypercall_master)

lemma guest_reachable_master: "guest_reachable pl s t \<Longrightarrow> master t = master s"
  by (induction rule: rtranclp_induct) (auto dest: guest_step_master)

section \<open>The sections boot maps\<close>

text \<open>
  Access of user mode to a section, by its domain's field of the access control register: none
  (\<open>0\<close>), by the access permissions (\<open>1\<close>, of which \<open>AP = 2\<close> and \<open>AP = 3\<close> give user mode
  access), or any (\<open>3\<close>).
\<close>

definition user_access :: "u32 \<Rightarrow> u32 \<Rightarrow> bool" where
  "user_access dac d \<longleftrightarrow>
     (let f = bitfield (2 * unat (sec_dom (l1_sec_of d))) 2 dac
      in f = 3 \<or> f = 1 \<and> (GET_L1_AP (l1_sec_of d) = 2 \<or> GET_L1_AP (l1_sec_of d) = 3))"

text \<open>A section of the hypervisor, or of a megabyte of trusted memory in the trusted domain.\<close>

definition hyper_section :: "u32 \<Rightarrow> bool" where
  "hyper_section d \<longleftrightarrow> sec_dom (l1_sec_of d) = of_nat HC_DOM_DEFAULT \<and> GET_L1_AP (l1_sec_of d) = MMU_AP_SUP_RW"

definition trusted_section :: "memory_layout_entry list \<Rightarrow> u32 \<Rightarrow> bool" where
  "trusted_section layout d \<longleftrightarrow> sec_dom (l1_sec_of d) = of_nat HC_DOM_TRUSTED
     \<and> (\<exists>e\<in>set layout. ml_type e = MLT_TRUSTED_RAM
          \<and> (\<exists>mb. drop_bit 8 (page_start e) \<le> mb \<and> mb < drop_bit 8 (page_count e)
               \<and> START_PA_OF_SECTION (l1_sec_of d) = push_bit 20 mb))"

definition boot_entries :: "memory_layout_entry list \<Rightarrow> sys \<Rightarrow> sys \<Rightarrow> bool" where
  "boot_entries layout s t \<longleftrightarrow> (\<forall>x. master t x \<noteq> master s x \<longrightarrow> master t x AND DESC_TYPE_MASK = 2 \<longrightarrow>
     hyper_section (master t x) \<or> trusted_section layout (master t x))"

lemma boot_entries_set:
  assumes "boot_entries L s t" "v AND 3 = 2 \<Longrightarrow> hyper_section v \<or> trusted_section L v"
  shows "boot_entries L s (set_flpt i v t)"
  using assms by (auto simp: boot_entries_def set_flpt_def)

lemma boot_entries_master: "boot_entries L s t \<Longrightarrow> master u = master t \<Longrightarrow> boot_entries L s u"
  by (simp add: boot_entries_def)
text \<open>The fields of a section's descriptor below its address do not depend on the address.\<close>

lemma low_field:
  assumes "pa AND 0xFFFFF = 0" "pos + width \<le> 20"
  shows "bitfield pos width (pa OR k) = bitfield pos width k" "bitfield pos width (pa AND m OR k) = bitfield pos width k"
proof -
  have low: "\<not> bit pa i" if "i < 20" for i
  proof -
    have "bit (pa AND mask 20) i = False" using assms(1) by (simp add: low_masks)
    then show ?thesis using that by (simp add: bit_simps)
  qed
  show "bitfield pos width (pa OR k) = bitfield pos width k" "bitfield pos width (pa AND m OR k) = bitfield pos width k"
    by (rule bit_word_eqI, use low assms(2) in \<open>auto simp: bit_bitfield_iff bit_or_iff bit_and_iff\<close>)+
qed

lemma section_val_split:
  "section_val pa ap n = (pa AND NOT 0x10) OR section_val 0 ap n"
  by (simp add: section_val_def bit.conj_disj_distrib2 or.assoc)

lemma section_val_fields:
  assumes "pa AND 0xFFFFF = 0"
  shows "sec_dom (l1_sec_of (section_val pa ap n)) = sec_dom (l1_sec_of (section_val 0 ap n))"
    "GET_L1_AP (l1_sec_of (section_val pa ap n)) = GET_L1_AP (l1_sec_of (section_val 0 ap n))"
  unfolding section_val_split [of pa] GET_L1_AP_def l1_sec_of_fields
  by (simp_all add: low_field [OF assms])

lemma section_val_kinds:
  "sec_dom (l1_sec_of (section_val 0 3 1)) = 1" "sec_dom (l1_sec_of (section_val 0 3 3)) = 3"
  "sec_dom (l1_sec_of (section_val 0 1 0)) = 0" "GET_L1_AP (l1_sec_of (section_val 0 1 0)) = 1"
  by (simp_all add: section_val_def l1_sec_of_fields GET_L1_AP_def bitfield_def drop_bit_eq_div take_bit_eq_mod
    push_bit_eq_mult)


lemma section_val_start:
  assumes "pa AND 0xFFFFF = 0"
  shows "START_PA_OF_SECTION (l1_sec_of (section_val pa MMU_AP_USER_RW HC_DOM_TRUSTED)) = pa"
proof -
  have low: "\<not> bit pa i" if "i < 20" for i
  proof -
    have "bit (pa AND mask 20) i = False" using assms by (simp add: low_masks)
    then show ?thesis using that by (simp add: bit_simps)
  qed
  have high: "\<not> bit (0xC6E :: u32) (20 + i)" for i
  proof -
    have "bit (0xC6E :: u32) (20 + i) = bit (drop_bit 20 (0xC6E :: u32)) i"
      by (simp only: bit_drop_bit_eq o_apply)
    also have "drop_bit 20 (0xC6E :: u32) = 0" by simp
    finally show ?thesis by simp
  qed
  have v: "section_val 0 3 3 = 0xC6E" by (simp add: section_val_def)
  have n: "NOT 0x10 = (NOT (push_bit 4 1) :: u32)" by simp
  have b: "bit (section_val pa 3 3) (20 + i) = bit pa (20 + i)" if "i < 12" for i
  proof -
    have "bit (NOT (push_bit 4 1) :: u32) (20 + i)"
      unfolding bit_not_iff bit_push_bit_iff using that by (simp add: bit_1_iff)
    then show ?thesis
      unfolding section_val_split [of pa] v n bit_or_iff bit_and_iff using high [of i] by blast
  qed
  show ?thesis
    unfolding START_PA_OF_SECTION_def l1_sec_of_fields
  proof (rule bit_word_eqI)
    fix i assume i: "i < LENGTH(32)"
    show "bit (push_bit 20 (bitfield 20 12 (section_val pa 3 3))) i = bit pa i"
      using low [of i] b [of "i - 20"] i by (cases "i < 20") (auto simp: bit_push_bit_iff bit_bitfield_iff)
  qed
qed

lemma made_hyper:
  assumes "pa AND 0xFFFFF = 0"
  shows "hyper_section (section_val pa MMU_AP_SUP_RW HC_DOM_DEFAULT)"
  using section_val_fields [OF assms] section_val_kinds by (simp add: hyper_section_def)

lemma create_section_entries:
  assumes "boot_entries L s t" "pa AND 0xFFFFF = 0"
    and "mt = MLT_HYPER_RAM \<or> mt = MLT_TRUSTED_RAM \<and> trusted_section L (section_val pa MMU_AP_USER_RW HC_DOM_TRUSTED)"
  shows "boot_entries L s (snd (pt_create_section va pa mt t))"
  using assms(1) boot_entries_set [OF assms(1), where i = "drop_bit 20 va"] made_hyper [OF assms(2)] assms(3)
  by (auto simp: pt_create_section_def Let_def)

text \<open>Pages make no section.\<close>

lemma pa_write_master [frame]: "master (pa_write a v s) = master s"
  by (simp add: pa_write_def)

lemma pa_loop_master [frame]: "master (for_loop n (\<lambda>i. pa_write (f i) (g i)) s) = master s"
  by (rule for_loop_frame) (simp add: frame)

lemma pa_loop_entries [simp]: "boot_entries L s (for_loop n (\<lambda>i. pa_write (f i) (g i)) t) = boot_entries L s t"
  by (simp add: boot_entries_def frame)

lemma create_coarse_entries:
  assumes "boot_entries L s t"
  shows "boot_entries L s (snd (pt_create_coarse pl va pa sz mt t))"
proof -
  have e: "master (snd (pt_get_empty_l2 pl u)) = master u" for u
    by (simp add: pt_get_empty_l2_def Let_def frame)
  have odd: "(x OR y OR MMU_L1_TYPE_COARSE) AND 3 \<noteq> 2" for x y :: u32
  proof
    assume "(x OR y OR MMU_L1_TYPE_COARSE) AND 3 = 2"
    then have "bit ((x OR y OR 1) AND 3) 0 = bit (2 :: u32) 0" by simp
    then show False by (simp add: bit_simps)
  qed
  obtain dom ap fl where a: "coarse_attrs pl mt = (dom, ap, fl)" by (cases "coarse_attrs pl mt")
  obtain t2 u where g: "pt_get_empty_l2 pl t = (t2, u)" by (cases "pt_get_empty_l2 pl t")
  have u: "boot_entries L s u" using boot_entries_master [OF assms] e [of t] g by simp
  have "boot_entries L s (set_flpt i (t2 OR push_bit MMU_L1_DOMAIN_SHIFT dom OR MMU_L1_TYPE_COARSE) u)" for i
    by (rule boot_entries_set [OF u]) (use odd in auto)
  then show ?thesis using assms u
    by (auto simp: pt_create_coarse_def Let_def a g)
qed

lemma megabyte_low: "push_bit 20 (j :: u32) AND 0xFFFFF = 0"
  unfolding low_masks by (rule bit_word_eqI) (auto simp: bit_simps)

lemma memory_init_entry_entries:
  assumes "boot_entries L s t" "e \<in> set L"
  shows "boot_entries L s (memory_init_entry pl b e t)"
proof -
  let ?j = "drop_bit 8 (page_start e)" and ?k = "drop_bit 8 (page_count e)"
  have own: "boot_entries L s (for_loop (unat ?k - unat ?j) (\<lambda>k t. let i = ?j + of_nat k
      in snd (pt_create_section (push_bit 20 i - hal_offset b) (push_bit 20 i) (ml_type e) t)) t)"
    if mt: "ml_type e = MLT_HYPER_RAM \<or> ml_type e = MLT_TRUSTED_RAM"
  proof (rule for_loop_invariant [where P = "boot_entries L s", OF assms(1)])
    fix k u assume k: "k < unat ?k - unat ?j" and u: "boot_entries L s u"
    let ?i = "?j + of_nat k"
    have "unat ?k < 2 ^ LENGTH(32)" by (rule unsigned_less)
    then have "unat (of_nat k :: u32) = k" and "unat ?i = unat ?j + k"
      using k by (simp_all add: unat_word_ariths unsigned_of_nat take_bit_nat_eq_self)
    then have "?j \<le> ?i" "?i < ?k" using k by (simp_all add: word_le_nat_alt word_less_nat_alt)
    then have "trusted_section L (section_val (push_bit 20 ?i) 3 3)" if "ml_type e = MLT_TRUSTED_RAM"
      unfolding trusted_section_def section_val_start [OF megabyte_low]
      using section_val_fields(1) [OF megabyte_low] section_val_kinds assms(2) that by auto
    then show "boot_entries L s (let i = ?i
        in snd (pt_create_section (push_bit 20 i - hal_offset b) (push_bit 20 i) (ml_type e) u))"
      unfolding Let_def using mt by (intro create_section_entries [OF u megabyte_low]) auto
  qed
  show ?thesis
    using own assms(1) create_coarse_entries [OF assms(1)]
    by (cases "ml_type e") (simp_all add: memory_init_entry_def Let_def)
qed

lemma memory_init_list_entries:
  "memory_init_list pl b es t = Ret u \<Longrightarrow> set es \<subseteq> set L \<Longrightarrow> boot_entries L s t \<Longrightarrow> boot_entries L s u"
proof (induction es arbitrary: t)
  case (Cons e es)
  have "boot_entries L s (memory_init_entry pl b e t)"
    by (rule memory_init_entry_entries) (use Cons.prems in auto)
  then show ?case using Cons by (auto simp: Let_def split: if_splits)
qed simp

lemma memory_init_entries:
  assumes "memory_init pl b s = Ret t"
  shows "boot_entries (padr_layout b) s t"
proof -
  let ?s = "for_loop 0x2000 (\<lambda>i. pa_write (slpt_pa pl + 4 * of_nat i) 0) s"
  obtain u where u: "memory_init_list pl b (padr_layout b) ?s = Ret u"
    and t: "master t = master (snd (pt_map pl 0xFFFF0000 (vector_pa b) 0x1000 MLT_USER_ROM u))"
  proof -
    have same: "master (mem_cache_set_enable c (memory_commit pl v)) = master v" for c v
      by (rule flpt_ctl) (simp add: frame memory_commit_def mem_cache_set_enable_def Let_def)
    show thesis using assms that
      by (auto simp: memory_init_def Let_def and_then_Ret_iff same)
  qed
  have "boot_entries (padr_layout b) s s" by (simp add: boot_entries_def)
  then have "boot_entries (padr_layout b) s ?s" by simp
  then have "boot_entries (padr_layout b) s u" by (rule memory_init_list_entries [OF u subset_refl])
  then have "boot_entries (padr_layout b) s (snd (pt_create_coarse pl 0xFFFF0000 (vector_pa b) 0x1000 MLT_USER_ROM u))"
    by (rule create_coarse_entries)
  then show ?thesis by (rule boot_entries_master) (simp add: t pt_map_def split_beta)
qed

lemma low_iff: "(a :: u32) AND 0xFFFFF = 0 \<longleftrightarrow> unat a mod 2 ^ 20 = 0"
proof -
  have "unat (a AND 0xFFFFF) = unat a mod 2 ^ 20"
    unfolding low_masks take_bit_eq_mask [symmetric] unsigned_take_bit_eq by (simp add: take_bit_eq_mod)
  then show ?thesis by (simp add: word_unat_eq_iff)
qed

lemma low_add: "(a :: u32) AND 0xFFFFF = 0 \<Longrightarrow> b AND 0xFFFFF = 0 \<Longrightarrow> (a + b) AND 0xFFFFF = 0"
proof -
  assume "a AND 0xFFFFF = 0" "b AND 0xFFFFF = 0"
  then have "(unat a + unat b) mod 2 ^ 20 = 0" unfolding low_iff by (simp add: mod_0_imp_dvd)
  moreover have "(unat a + unat b) mod 2 ^ LENGTH(32) mod 2 ^ 20 = (unat a + unat b) mod 2 ^ 20"
    by (rule mod_mod_cancel) simp
  ultimately show ?thesis unfolding low_iff unat_word_ariths by simp
qed

lemma map_window_entries:
  assumes w: "section_loop 0 n (map_window b) s1 = Some (off, t)"
    and "boot_entries L s s1" "pstart (firmware (cfg s1)) AND 0xFFFFF = 0"
  shows "boot_entries L s t"
proof -
  have cfg: "cfg (map_window b x u) = cfg u" for x :: u32 and u
    by (simp add: map_window_def Let_def pt_create_section_def set_flpt_def cop_def split: memory_layout_type.split)
  let ?I = "\<lambda>(x :: u32, u). x AND 0xFFFFF = 0 \<and> cfg u = cfg s1 \<and> boot_entries L s u"
  have "?I (off, t)"
  proof (rule while_option_rule [where P = ?I, OF _ w [unfolded section_loop_def]])
    fix p assume I: "?I p"
    obtain x u where p: "p = (x, u)" by (cases p)
    have "boot_entries L s (map_window b x u)"
      unfolding map_window_def Let_def
      by (rule boot_entries_master [OF create_section_entries [where t = u]])
        (use I p assms(3) in \<open>simp_all add: low_add cop_def\<close>)
    then show "?I (case p of (off, s) \<Rightarrow> (off + SECTION_SIZE, map_window b off s))"
      using I p low_add [of x SECTION_SIZE] by (simp add: cfg)
  qed (use assms(2) in simp)
  then show ?thesis by simp
qed

text \<open>The modes whose domain register opens the trusted domain, in either configuration.\<close>

lemma domain_fields:
  assumes "guest_config pl db = Some c" "ctl_ok c t"
  defines "m \<equiv> current_guest_mode (vm t)"
  shows "bitfield 0 2 (dacr (hw t)) = 1"
    and "m \<noteq> HC_GM_TRUSTED \<and> (linux_build pl \<or> m \<noteq> HC_GM_INTERRUPT) \<longrightarrow> bitfield 6 2 (dacr (hw t)) = 0"
proof -
  have dac: "dacr (hw t) = domain_ac (guest_modes c m)" and m: "m < 4"
    using assms(2) by (simp_all add: ctl_ok_def static_ok_def mode_ok_def m_def)
  have g: "guest_modes c = (if linux_build pl then linux_guest_modes else minimal_guest_modes)"
    using assms(1) by (auto simp: guest_config_def linux_config_def minimal_config_def split: if_splits)
  note masks = linux_guest_modes_def minimal_guest_modes_def HC_DOMAC_KERNEL_def HC_DOMAC_TASK_def HC_DOMAC_INTERRUPT_def
    HC_DOMAC_TRUSTED_def minimal_HC_DOMAC_ALL_def minimal_HC_DOMAC_KERNEL_def minimal_HC_DOMAC_TASK_def
    minimal_HC_DOMAC_TRUSTED_def bitfield_def drop_bit_eq_div take_bit_eq_mod push_bit_eq_mult
  show "bitfield 0 2 (dacr (hw t)) = 1" using less_4_cases [OF m] unfolding dac g by (auto simp: masks)
  show "m \<noteq> HC_GM_TRUSTED \<and> (linux_build pl \<or> m \<noteq> HC_GM_INTERRUPT) \<longrightarrow> bitfield 6 2 (dacr (hw t)) = 0"
    using less_4_cases [OF m] unfolding dac g by (auto simp: masks)
qed

section \<open>A small boot\<close>

text \<open>
  One megabyte of trusted memory at \<open>0x1500000\<close>, at its virtual address \<open>0xF0500000\<close>, and a Linux
  guest.
\<close>

definition demo_board :: board where
  "demo_board = \<lparr>padr_layout = [layout_entry 0x1500000 0x1600000 MLT_TRUSTED_RAM MLF_LAST], io_offset = 0,
     hal_offset = 0x11000000, vector_pa = 0x1100000, flpt_va = 0xF0104000, flpt_pa = 0x1104000, cpu_part = 0,
     trusted_build = True\<rparr>"

definition demo_guests :: guests_database where
  "demo_guests = \<lparr>db_count = 1, db_pstart = 0, db_pend = 0,
     db_guests = \<lambda>_. \<lparr>pstart = 0x1000000, vstart = 0xC0000000, psize = 1, fwsize = 1, offset = 0\<rparr>\<rparr>"

abbreviation (input) demo_linux_platform :: platform where
  "demo_linux_platform \<equiv> flat_platform\<lparr>linux_build := True, slpt_pa := 0x1108000\<rparr>"

definition demo_cfg :: hc_config where
  "demo_cfg = (linux_config (db_guests demo_guests 0))\<lparr>pa_initial_l2_offset := 0 - 0x6FFFFF\<rparr>"

lemma demo_cfg_eq: "guest_config demo_linux_platform demo_guests = Some demo_cfg"
  "pstart (firmware demo_cfg) = 0x1000000" "psize (firmware demo_cfg) = 1"
  by (simp_all add: guest_config_def get_guest_def demo_guests_def demo_cfg_def linux_config_def)

lemma create_coarse_other: "x \<noteq> MMU_L1_INDEX va \<Longrightarrow> master (snd (pt_create_coarse pl va pa sz mt t)) x = master t x"
proof -
  assume x: "x \<noteq> MMU_L1_INDEX va"
  have e: "master (snd (pt_get_empty_l2 pl u)) = master u" for u
    by (simp add: pt_get_empty_l2_def Let_def frame)
  obtain dom ap fl where a: "coarse_attrs pl mt = (dom, ap, fl)" by (cases "coarse_attrs pl mt")
  obtain t2 u where g: "pt_get_empty_l2 pl t = (t2, u)" by (cases "pt_get_empty_l2 pl t")
  have "master u = master t" using e [of t] g by simp
  then show ?thesis using x by (simp add: pt_create_coarse_def Let_def a g frame set_flpt_def)
qed

lemma demo_memory_init:
  "\<exists>s1. memory_init demo_linux_platform demo_board (demo_sys 0x9000 1) = Ret s1 \<and> master s1 0xF05 = 0x1500C6E"
proof -
  let ?s = "for_loop 0x2000 (\<lambda>i. pa_write (0x1108000 + 4 * of_nat i) 0) (demo_sys 0x9000 1)"
  have z: "master ?s = (\<lambda>_. 0)" by (simp add: frame) (simp add: demo_sys_def)
  define u where "u = memory_init_entry demo_linux_platform demo_board (hd (padr_layout demo_board)) ?s"
  have u: "master u 0xF05 = 0x1500C6E"
    unfolding u_def by (simp add: memory_init_entry_def demo_board_def layout_entry_def ADDR_TO_PAGE_def Let_def
      pt_create_section_def set_flpt_def z MMU_L1_TYPE_def section_val_def)
  have same: "master (mem_cache_set_enable c (memory_commit pl v)) = master v" for c pl v
    by (rule flpt_ctl) (simp add: frame memory_commit_def mem_cache_set_enable_def Let_def)
  have "memory_init_list demo_linux_platform demo_board (padr_layout demo_board) ?s = Ret u"
    by (simp add: u_def demo_board_def layout_entry_def)
  then show ?thesis using u
    by (simp add: memory_init_def Let_def same pt_map_def split_beta create_coarse_other MMU_L1_INDEX_def)
qed

lemma demo_window:
  assumes "cfg s = demo_cfg"
  shows "\<exists>s2. section_loop 0 (psize (firmware demo_cfg) + SECTION_SIZE) (map_window demo_board) s = Some (SECTION_SIZE, s2)
    \<and> master s2 0xF05 = master s 0xF05"
proof -
  have "master (map_window demo_board 0 s) 0xF05 = master s 0xF05"
    using assms by (simp add: map_window_def Let_def pt_create_section_def set_flpt_def cop_def demo_cfg_def linux_config_def)
  then show ?thesis
    by (simp add: section_loop_def while_option_unfold demo_cfg_eq)
qed

text \<open>A state of the running guest in mode \<open>m\<close> with a given master table.\<close>

definition demo_running :: "(u32 \<Rightarrow> u32) \<Rightarrow> u32 \<Rightarrow> sys" where
  "demo_running f m = (demo_sys 0x9000 m)\<lparr>hw := (hw (demo_sys 0x9000 m))\<lparr>flpt := f\<rparr>,
     vm := (vm (demo_sys 0x9000 m))\<lparr>vm_config := demo_cfg\<rparr>\<rparr>"

lemma demo_running_ok: "m < 4 \<Longrightarrow> ctl_ok demo_cfg (demo_running f m)"
  and demo_running_simps: "master (demo_running f m) = f" "current_guest_mode (vm (demo_running f m)) = m"
    "dacr (hw (demo_running f m)) = domain_ac (linux_guest_modes m)"
  by (simp_all add: demo_running_def ctl_ok_def static_ok_def mode_ok_def user_ok_def rpc_ok_def unpriv_def
    demo_sys_simps demo_mode_def demo_cfg_def linux_config_def rpc_handler_trusted_def)

section \<open>Protection of the memory boot maps\<close>

text \<open>C15. The memory of the hypervisor and of the trusted mode is out of reach: an entry of the master
table that \<^verbatim>\<open>memory_init\<close> or the window loop of \<^verbatim>\<open>guests_init\<close> made, that is a section, and that user mode
can access in a state the running guest reaches, is a section of a megabyte of trusted memory of
the layout, and the mode is the trusted one (or, in the minimal configuration only, the
interrupt mode).\<close>

theorem trusted_memory_out_of_reach:
  assumes "guest_config pl db = Some c" "pstart (firmware c) AND 0xFFFFF = 0"
    and "memory_init pl b s0 = Ret s1"
    and "cfg s2 = c" "master s2 = master s1"
    and "section_loop 0 (psize (firmware c) + SECTION_SIZE) (map_window b) s2 = Some (off, s3)"
    and "master s = master s3" "ctl_ok c s" "guest_reachable pl s t"
    and "master t x \<noteq> master s0 x" "master t x AND DESC_TYPE_MASK = 2" "user_access (dacr (hw t)) (master t x)"
  shows "trusted_section (padr_layout b) (master t x)
    \<and> (current_guest_mode (vm t) = HC_GM_TRUSTED
        \<or> \<not> linux_build pl \<and> current_guest_mode (vm t) = HC_GM_INTERRUPT)"
proof -
  have "boot_entries (padr_layout b) s0 s2"
    by (rule boot_entries_master [OF memory_init_entries [OF assms(3)] assms(5)])
  then have "boot_entries (padr_layout b) s0 s3"
    by (rule map_window_entries [OF assms(6)]) (simp add: assms(2,4))
  then have "boot_entries (padr_layout b) s0 t"
    by (rule boot_entries_master) (simp add: assms(7) guest_reachable_master [OF assms(9)])
  then have d: "hyper_section (master t x) \<or> trusted_section (padr_layout b) (master t x)"
    using assms(10,11) by (simp add: boot_entries_def)
  note f = domain_fields [OF assms(1) guest_reachable_ok [OF assms(9,8)]]
  show ?thesis
    using d assms(12) f by (auto simp: user_access_def hyper_section_def trusted_section_def Let_def)
qed

theorem trusted_memory_out_of_reach_witness:
  "\<exists>f. f 0xF05 = 0x1500C6E \<and> trusted_section (padr_layout demo_board) (f 0xF05)
    \<and> user_access (dacr (hw (demo_running f HC_GM_TRUSTED))) (f 0xF05)
    \<and> \<not> user_access (dacr (hw (demo_running f HC_GM_KERNEL))) (f 0xF05)"
proof -
  obtain s1 where s1: "memory_init demo_linux_platform demo_board (demo_sys 0x9000 1) = Ret s1" "master s1 0xF05 = 0x1500C6E"
    using demo_memory_init by blast
  define s2 where "s2 = s1\<lparr>vm := (vm s1)\<lparr>vm_config := demo_cfg\<rparr>\<rparr>"
  have cfg: "cfg s2 = demo_cfg" "master s2 = master s1" by (simp_all add: s2_def)
  obtain s3 where s3: "section_loop 0 (psize (firmware demo_cfg) + SECTION_SIZE) (map_window demo_board) s2 = Some (SECTION_SIZE, s3)"
    "master s3 0xF05 = 0x1500C6E" using demo_window [OF cfg(1)] s1(2) cfg(2) by auto
  define f where "f = master s3"
  have d: "f 0xF05 = 0x1500C6E" using s3(2) by (simp add: f_def)
  have run: "trusted_section (padr_layout demo_board) (f 0xF05) \<and> (m = 0 \<or> \<not> True \<and> m = 3)"
    if "m < 4" "user_access (dacr (hw (demo_running f m))) (f 0xF05)" for m
    using trusted_memory_out_of_reach [OF demo_cfg_eq(1) _ s1(1) cfg s3(1), where s = "demo_running f m"
      and t = "demo_running f m" and x = "0xF05"] that demo_running_ok [OF that(1)] d
    by (simp add: demo_cfg_eq demo_running_simps f_def demo_sys_def)
  have acc: "user_access (dacr (hw (demo_running f 0))) (f 0xF05)"
    unfolding d demo_running_simps by (simp add: user_access_def Let_def linux_guest_modes_def HC_DOMAC_TRUSTED_def
      layout desc_macros bitfield_def)
  show ?thesis using d acc run [of 0] run [of 1] by auto
qed

section \<open>Booting Linux\<close>

lemma linux_create_fails:
  assumes "pstart fw < 0xFFFF8000"
  shows "fst (dmmu_create_L1_pt ((linux_config fw)\<lparr>pa_initial_l2_offset := x\<rparr>) (pstart fw + 0x4000) h) \<noteq> 0"
proof -
  let ?c = "(linux_config fw)\<lparr>pa_initial_l2_offset := x\<rparr>"
  have "unat (pstart fw) < 2 ^ 32 - 0x8000" using assms by (simp add: word_less_nat_alt)
  then have "\<not> (pstart fw + 0x4000 + 0x4000 \<le> pstart fw)"
    by (simp add: word_le_nat_alt unat_word_ariths)
  then have "\<not> guest_inside_always_cached_region ?c (pstart fw + 0x4000) 0x4000"
    by (simp add: guest_inside_always_cached_region_def linux_config_def Let_def)
  then show ?thesis by (simp add: dmmu_create_L1_pt_def)
qed

lemma section_loop_frame:
  assumes "section_loop start bound body s = Some (a, t)" "\<And>x s. g (body x s) = g s"
  shows "g t = g s"
proof -
  have "case (a, t) of (_, t) \<Rightarrow> g t = g s"
    by (rule while_option_rule [OF _ assms(1) [unfolded section_loop_def]]) (use assms(2) in auto)
  then show ?thesis by simp
qed

lemma boot_vm [frame]:
  "vm (snd (pt_create_section va pa mt s)) = vm s" "vm (memory_commit pl s) = vm s"
  "vm (pin_slpt pl s) = vm s" "vm (copy_master pl s) = vm s" "vm (map_window b x s) = vm s"
proof -
  have commit: "vm (memory_commit pl s) = vm s" for s
    using memory_commit_ctl [of pl s] by (simp add: ctl_def)
  have sect: "vm (snd (pt_create_section va pa mt s)) = vm s" for va s
    by (simp add: pt_create_section_def Let_def set_flpt_def split: memory_layout_type.split)
  show "vm (snd (pt_create_section va pa mt s)) = vm s" "vm (memory_commit pl s) = vm s"
    "vm (pin_slpt pl s) = vm s" "vm (copy_master pl s) = vm s" "vm (map_window b x s) = vm s"
    using sect by (simp_all add: commit pin_slpt_def copy_master_def map_window_def Let_def set_ttbr0_def frame)
      (simp add: pt_create_section_def Let_def set_flpt_def split: memory_layout_type.split)
qed

text \<open>C16. A hypervisor built for Linux never starts its guest: the Linux configuration leaves the region
for page tables empty, so the first page table is rejected and \<^verbatim>\<open>guests_init\<close> loops.\<close>

theorem linux_boot_hangs:
  assumes "linux_build pl" "get_guest db 0 = Some fw" "pstart fw < 0xFFFF8000"
  shows "guests_init pl b db s = Hang"
proof -
  define C where "C = (linux_config fw)\<lparr>pa_initial_l2_offset := pa_initial_l2_offset (linux_config fw) + (psize fw - 0x700000)\<rparr>"
  have config: "guest_config pl db = Some C" using assms(1,2) by (simp add: guest_config_def C_def)
  define s1 where "s1 = s\<lparr>vm := (vm s)\<lparr>vm_id := 0, vm_config := C\<rparr>\<rparr>"
  show ?thesis
  proof (cases "section_loop 0 (psize (firmware C) + SECTION_SIZE) (map_window b) s1")
    case None
    then show ?thesis by (simp add: guests_init_def config s1_def outcome_of_def)
  next
    case (Some r)
    obtain off s2 where r: "r = (off, s2)" by (cases r)
    have "cfg s2 = cfg s1"
      by (rule section_loop_frame [OF Some [unfolded r]]) (simp add: frame)
    then have "cfg (copy_master pl (pin_slpt pl (memory_commit pl s2))) = C"
      by (simp add: frame s1_def)
    moreover have "pa_initial_l1_offset C = 0x4000" "firmware C = fw" by (simp_all add: C_def linux_config_def)
    ultimately have "fst (dmmu_call (\<lambda>c. dmmu_create_L1_pt c (pstart (firmware c) + pa_initial_l1_offset c))
        (copy_master pl (pin_slpt pl (memory_commit pl s2)))) \<noteq> 0"
      using linux_create_fails [OF assms(3)] by (simp add: frame C_def)
    then show ?thesis
      unfolding guests_init_def config Let_def option.case s1_def [symmetric] Some r
      by (simp add: outcome_of_def split_beta)
  qed
qed

theorem linux_boot_hangs_witness:
  "\<forall>b s. guests_init (flat_platform\<lparr>linux_build := True\<rparr>) b \<lparr>db_count = 1, db_pstart = 0, db_pend = 0,
     db_guests = \<lambda>_. \<lparr>pstart = 0x1000000, vstart = 0xC0000000, psize = 0x7000000, fwsize = 0x100000, offset = 0\<rparr>\<rparr> s = Hang"
  by (intro allI, rule linux_boot_hangs [where fw = "\<lparr>pstart = 0x1000000, vstart = 0xC0000000, psize = 0x7000000,
      fwsize = 0x100000, offset = 0\<rparr>"]) (simp_all add: get_guest_def)

theorem start_guest_establishes_control_witness:
  "\<exists>t. start_guest (guest_contexts (demo_sys 0x9000 2)) = Ret t \<and> ctl_ok demo_linux t \<and> cur t = HC_GM_KERNEL"
  using start_guest_establishes_control [of "demo_sys 0x9000 2"] demo_sys_ok [of 2 "0x9000"]
  by (auto simp: ctl_ok_def rpc_ok_def demo_sys_simps)

end
