(* ===== verification/L2Pool.thy ===== *)
theory L2Pool
  imports Init
begin

text \<open>
  The two pools of second-level page tables: the one of the boot page tables
  (\<^verbatim>\<open>pt_get_empty_l2\<close>, arm_mmu_pt.c) and the one the hypervisor splits the sections of Linux
  with (\<^verbatim>\<open>linux_pt_get_empty_l2\<close>, linux_init.c). Both share a contract, the locale \<open>l2_pool\<close>, from which follows
  which tables they hand out, that none is handed out twice and when they are exhausted.
\<close>

section \<open>The index sequence\<close>

text \<open>
  Both allocators advance their index past the second half of each 4 KiB block, so that a
  table always is one the hypervisor's page-table checks accept: 0, 1, 4, 5, 8, 9, ...
\<close>

definition next_index :: "u32 \<Rightarrow> u32" where
  "next_index i = (let p = i + 1 in if p AND 2 = 2 then (p AND NOT 3) + 4 else p)"

definition first_half :: "u32 \<Rightarrow> bool" where
  "first_half i \<longleftrightarrow> unat i mod 4 < 2"

lemma and_2_iff: "(w :: u32) AND 2 = 2 \<longleftrightarrow> 2 \<le> unat w mod 4"
proof -
  have two: "bit (2 :: u32) 1" by (simp add: bit_iff_odd)
  have "bit (w AND 2) 1 = bit w 1" using two by (simp add: bit_and_iff)
  then have "w AND 2 = 2 \<longleftrightarrow> bit w 1" using two and_2_cases [of w] by (metis bit_0_eq bot_apply bot_bool_def)
  also have "bit w 1 \<longleftrightarrow> bit (unat w) 1" by (simp add: bit_unsigned_iff)
  also have "\<dots> \<longleftrightarrow> odd (unat w div 2)" by (simp add: bit_iff_odd)
  also have "\<dots> \<longleftrightarrow> 2 \<le> unat w mod 4" by presburger
  finally show ?thesis .
qed

lemma unat_and_not_3: "unat ((w :: u32) AND NOT 3) = unat w - unat w mod 4"
proof -
  have "w AND NOT 3 = push_bit 2 (drop_bit 2 w)" by (simp add: shl_drop_eq_and_not_mask low_masks)
  moreover have "unat (push_bit 2 (drop_bit 2 w)) = unat w div 4 * 4"
    using unsigned_less [where ?'a = nat, of w]
    by (simp add: push_bit_eq_mult drop_bit_eq_div unat_word_ariths unat_div)
  ultimately show ?thesis by (simp add: minus_mod_eq_div_mult)
qed

lemma next_index_unat:
  assumes "unat i < 2 ^ 31" "first_half i"
  shows "unat (next_index i) = (if unat i mod 4 = 0 then unat i + 1 else unat i + 3)"
proof -
  have p: "unat (i + 1) = unat i + 1" using assms(1) by (simp add: unat_word_ariths)
  have le: "unat i + 1 - (unat i + 1) mod 4 + 4 < 2 ^ 32"
    using assms(1) diff_le_self [of "unat i + 1" "(unat i + 1) mod 4"] by simp
  have step: "unat ((i + 1 AND NOT 3) + 4) = unat i + 1 - (unat i + 1) mod 4 + 4"
    using le unfolding unat_word_ariths(1) [of "i + 1 AND NOT 3"] unat_and_not_3 p by simp
  show ?thesis
    unfolding next_index_def Let_def and_2_iff if_distrib [of unat] p step
    using assms(2) unfolding first_half_def by presburger
qed

lemma next_index_props:
  assumes "unat i < 2 ^ 31" "first_half i"
  shows "first_half (next_index i)" "unat i < unat (next_index i)" "unat (next_index i) \<le> unat i + 3"
  using next_index_unat [OF assms] assms(2) unfolding first_half_def by presburger+

lemma filter_upt_skip: "\<not> P k \<Longrightarrow> filter P [k..<n] = filter P [Suc k..<n]"
  by (cases "k < n") (simp_all add: upt_conv_Cons)

lemma first_halves_step:
  assumes "unat i < n" "unat i < 2 ^ 31" "first_half i"
  shows "filter (\<lambda>k. k mod 4 < 2) [unat i..<n] = unat i # filter (\<lambda>k. k mod 4 < 2) [unat (next_index i)..<n]"
proof -
  let ?P = "\<lambda>k :: nat. k mod 4 < 2"
  have eq: "filter ?P [unat i..<n] = unat i # filter ?P [Suc (unat i)..<n]"
    using assms(1,3) by (simp add: upt_conv_Cons first_half_def)
  show ?thesis
  proof (cases "unat i mod 4 = 0")
    case True
    then show ?thesis using eq next_index_unat [OF assms(2,3)] by simp
  next
    case False
    then have m: "unat i mod 4 = 1" using assms(3) unfolding first_half_def by linarith
    then have "\<not> ?P (Suc (unat i))" "\<not> ?P (Suc (Suc (unat i)))" by presburger+
    then have "filter ?P [Suc (unat i)..<n] = filter ?P [unat i + 3..<n]"
      using filter_upt_skip [of ?P] by (metis add_Suc_right add_2_eq_Suc' numeral_3_eq_3 add.right_neutral)
    then show ?thesis using eq next_index_unat [OF assms(2,3)] False by simp
  qed
qed

lemma first_halves_length: "length (filter (\<lambda>k. k mod 4 < 2) [0..<4 * m]) = 2 * m"
proof (induction m)
  case (Suc m)
  have "[0..<4 * Suc m] = [0..<4 * m] @ [4 * m..<4 * Suc m]"
    using upt_add_eq_append [of 0 "4 * m" 4] by (simp add: add.commute)
  moreover have "filter (\<lambda>k. k mod 4 < 2) [4 * m..<4 * Suc m] = [4 * m, Suc (4 * m)]"
    using mod_Suc [of "4 * m" 4] mod_Suc [of "Suc (4 * m)" 4] mod_Suc [of "Suc (Suc (4 * m))" 4]
    by (simp add: upt_conv_Cons)
  ultimately show ?case using Suc.IH by simp
qed simp

section \<open>Pools of second-level tables\<close>

text \<open>
  What the code relies on in an allocator of second-level tables: \<open>alloc\<close> returns the table at the
  current index while that index is within the limit, advances the index, and leaves the
  pool's base alone; beyond the limit it returns nothing.
\<close>

locale l2_pool =
  fixes alloc :: "'s \<Rightarrow> (u32 \<times> 's) option"
    and index :: "'s \<Rightarrow> u32"
    and base :: "'s \<Rightarrow> u32"
    and limit :: u32
  assumes limit_small: "unat limit \<le> 2 ^ 20"
    and alloc_some: "index s * 0x400 \<le> limit \<Longrightarrow>
      \<exists>t. alloc s = Some (base s + index s * 0x400, t) \<and> base t = base s \<and> index t = next_index (index s)"
    and alloc_none: "\<not> index s * 0x400 \<le> limit \<Longrightarrow> alloc s = None"
begin

text \<open>Allocating as often as possible, at most \<open>n\<close> times.\<close>

primrec allocs :: "nat \<Rightarrow> 's \<Rightarrow> u32 list" where
  "allocs 0 s = []"
| "allocs (Suc n) s = (case alloc s of None \<Rightarrow> [] | Some (a, t) \<Rightarrow> a # allocs n t)"

lemma index_within:
  assumes "unat (index s) < 2 ^ 21"
  shows "index s * 0x400 \<le> limit \<longleftrightarrow> unat (index s) < Suc (unat limit div 1024)"
proof -
  have "unat (index s * 0x400) = unat (index s) * 1024" using assms by (simp add: unat_word_ariths)
  then show ?thesis unfolding word_le_nat_alt by (simp add: less_Suc_eq_le less_eq_div_iff_mult_less_eq)
qed

text \<open>
  A pool hands out, in order, the tables whose index is a first half, from the current index to the
  limit included, and then nothing more, however often it is called.
\<close>

lemma allocs_all:
  assumes "unat (index s) < 2 ^ 21" "first_half (index s)" "Suc (unat limit div 1024) \<le> unat (index s) + n"
  shows "allocs n s = map (\<lambda>k. base s + of_nat k * 0x400)
           (filter (\<lambda>k. k mod 4 < 2) [unat (index s)..<Suc (unat limit div 1024)])"
  using assms
proof (induction n arbitrary: s)
  case (Suc n)
  show ?case
  proof (cases "index s * 0x400 \<le> limit")
    case True
    then obtain t where t: "alloc s = Some (base s + index s * 0x400, t)" "base t = base s" "index t = next_index (index s)"
      using alloc_some by blast
    have lt: "unat (index s) < Suc (unat limit div 1024)" using True index_within [OF Suc.prems(1)] by simp
    moreover have "unat limit div 1024 \<le> 2 ^ 10" using div_le_mono [OF limit_small, of 1024] by simp
    ultimately have small: "unat (index s) \<le> 2 ^ 10" by linarith
    then have i31: "unat (index s) < 2 ^ 31" by simp
    note nx = next_index_props [OF i31 Suc.prems(2)]
    have "unat (index t) < 2 ^ 21" using nx(3) small unfolding t(3) by simp
    moreover have "Suc (unat limit div 1024) \<le> unat (index t) + n" using Suc.prems(3) nx(2) unfolding t(3) by linarith
    ultimately have "allocs n t = map (\<lambda>k. base t + of_nat k * 0x400)
        (filter (\<lambda>k. k mod 4 < 2) [unat (index t)..<Suc (unat limit div 1024)])"
      using Suc.IH [of t] nx(1) t(3) by simp
    then show ?thesis
      unfolding first_halves_step [OF lt i31 Suc.prems(2)] using t by simp
  next
    case False
    then have "\<not> unat (index s) < Suc (unat limit div 1024)" using index_within [OF Suc.prems(1)] by simp
    then show ?thesis using alloc_none [OF False] by simp
  qed
qed simp

text \<open>The tables are distinct: none is handed out twice.\<close>

lemma allocs_distinct:
  assumes "unat (index s) < 2 ^ 21" "first_half (index s)"
  shows "distinct (allocs (Suc (unat limit div 1024)) s)"
proof -
  have lim: "unat limit div 1024 \<le> 2 ^ 10" using div_le_mono [OF limit_small, of 1024] by simp
  have "inj_on (\<lambda>k. base s + of_nat k * 0x400) {..<Suc (unat limit div 1024)}"
  proof (rule inj_onI)
    fix a b assume ab: "a \<in> {..<Suc (unat limit div 1024)}" "b \<in> {..<Suc (unat limit div 1024)}"
      and eq: "base s + of_nat a * 0x400 = base s + of_nat b * 0x400"
    have "unat (of_nat c * 0x400 :: u32) = c * 1024" if "c \<le> 2 ^ 10" for c
      using that by (simp add: unat_word_ariths unat_of_nat)
    moreover have "a \<le> 2 ^ 10" "b \<le> 2 ^ 10" using ab lim by simp_all
    ultimately show "a = b" using eq by (metis add_left_cancel mult_right_cancel zero_neq_numeral)
  qed
  then have "inj_on (\<lambda>k. base s + of_nat k * 0x400)
      (set (filter (\<lambda>k. k mod 4 < 2) [unat (index s)..<Suc (unat limit div 1024)]))"
    by (rule inj_on_subset) auto
  then show ?thesis
    unfolding allocs_all [OF assms le_add2] distinct_map by simp
qed

end

section \<open>The two allocators\<close>

text \<open>
  \<^verbatim>\<open>pt_get_empty_l2\<close> reports an exhausted pool by the table address 0, \<^verbatim>\<open>linux_pt_get_empty_l2\<close> by
  not returning.
\<close>

definition boot_alloc :: "platform \<Rightarrow> sys \<Rightarrow> (u32 \<times> sys) option" where
  "boot_alloc pl s = (if l2_index_p s * 0x400 > 0x8000 then None else Some (pt_get_empty_l2 pl s))"

definition linux_alloc :: "sys \<Rightarrow> (u32 \<times> sys) option" where
  "linux_alloc s = (case linux_pt_get_empty_l2 s of Ret r \<Rightarrow> Some r | Hang \<Rightarrow> None)"

definition linux_pool_base :: "sys \<Rightarrow> u32" where
  "linux_pool_base s = pstart (firmware (cfg s)) + pa_initial_l2_offset (cfg s)"

lemma boot_alloc_0: "slpt_pa pl + l2_index_p s * 0x400 \<noteq> 0 \<Longrightarrow>
    boot_alloc pl s = (if fst (pt_get_empty_l2 pl s) = 0 then None else Some (pt_get_empty_l2 pl s))"
  by (simp add: boot_alloc_def pt_get_empty_l2_def Let_def)

lemma cfg_win_clear [frame]: "cfg (win_clear a n s) = cfg s"
  by (simp add: win_clear_def)

interpretation boot_pool: l2_pool "boot_alloc pl" l2_index_p "\<lambda>_. slpt_pa pl" "0x8000" for pl
  by unfold_locales (auto simp: boot_alloc_def pt_get_empty_l2_def next_index_def Let_def simp flip: linorder_not_le)

interpretation linux_pool: l2_pool linux_alloc linux_l2_index_p linux_pool_base SECTION_SIZE
  by unfold_locales (auto simp: linux_alloc_def linux_pt_get_empty_l2_def next_index_def Let_def
      linux_pool_base_def frame simp flip: linorder_not_le)

text \<open>C17.
  From a fresh index the second-level tables the hypervisor hands to Linux are, in order, the tables
  whose index is 0 or 1 modulo 4, up to index 1024 included: 514 calls yield exactly
  513 distinct tables, and the last of them starts 1 MiB after the start of the pool, just past the section the
  pool is meant to stay in, because the check compares with \<open>>\<close>.
\<close>

theorem linux_tables_handed_out:
  assumes "linux_l2_index_p s = 0" "1025 \<le> n"
  shows "linux_pool.allocs n s = map (\<lambda>k. linux_pool_base s + of_nat k * 0x400) (filter (\<lambda>k. k mod 4 < 2) [0..<1025])
    \<and> distinct (linux_pool.allocs n s) \<and> length (linux_pool.allocs n s) = 513
    \<and> last (linux_pool.allocs n s) = linux_pool_base s + SECTION_SIZE"
proof -
  have i0: "unat (linux_l2_index_p s) < 2 ^ 21" "first_half (linux_l2_index_p s)"
    using assms(1) by (simp_all add: first_half_def)
  have lim: "unat SECTION_SIZE div 1024 = 1024" by simp
  have all: "linux_pool.allocs m s = map (\<lambda>k. linux_pool_base s + of_nat k * 0x400) (filter (\<lambda>k. k mod 4 < 2) [0..<1025])"
    if "1025 \<le> m" for m
    using linux_pool.allocs_all [OF i0, of m] that assms(1) lim by simp
  have "distinct (linux_pool.allocs 1025 s)"
    using linux_pool.allocs_distinct [OF i0] lim by simp
  moreover have "linux_pool.allocs n s = linux_pool.allocs 1025 s" using all assms(2) by simp
  moreover have "filter (\<lambda>k. k mod 4 < 2) [0..<1025] = filter (\<lambda>k. k mod 4 < 2) [0..<1024] @ [1024 :: nat]"
    using upt_Suc_append [of 0 1024] by simp
  moreover have "length (filter (\<lambda>k. k mod 4 < 2) [0..<1024 :: nat]) = 512"
    using first_halves_length [of 256] by simp
  ultimately show ?thesis using all [of 1025] by auto
qed

theorem linux_tables_handed_out_witness:
  "length (linux_pool.allocs 1025 (demo_sys 0x9000 1)) = 513"
proof -
  have "linux_l2_index_p (demo_sys 0x9000 1) = 0" by (simp add: demo_sys_def)
  from linux_tables_handed_out [OF this, of 1025] show ?thesis by blast
qed

end
