(* ===== verification/SetPte.thy ===== *)
theory SetPte
  imports DmmuSystem HyperSystem
begin

text \<open>
  The hypercall with which Linux sets a page-table entry (\<^verbatim>\<open>hypercall_dyn_set_pte\<close> in
  \<^verbatim>\<open>hypercalls/hyp_dmmu.c\<close>), against the isolation of the guest that \<^verbatim>\<open>dmmu.c\<close> keeps.
\<close>

section \<open>What setting a page-table entry of Linux writes\<close>

lemma base_block: "PA_TO_PH_BLOCK (pa AND 0xFFFFF000) = PA_TO_PH_BLOCK pa"
  unfolding PA_TO_PH_BLOCK_def high_masks by (rule bit_word_eqI) (auto simp: bit_simps dest: bit_imp_le_length)

lemma l2_unmap_refused:
  assumes "btype (bft h (PA_TO_PH_BLOCK pa)) \<noteq> PAGE_INFO_TYPE_L2PT"
  shows "snd (dmmu_l2_unmap_entry c (pa AND 0xFFFFF000) idx h) = h"
  using assms by (simp add: dmmu_l2_unmap_entry_def get_bft_entry_by_block_idx_def base_block)

lemma set_pte_zero:
  assumes "page_offset (ginfo (vm s)) \<le> va - 0x800" "va \<le> HAL_VIRT_START - 4"
    "btype (bft (hw s) (PA_TO_PH_BLOCK (va - 0x800 - page_offset (ginfo (vm s)) + pstart (firmware (cfg s))))) \<noteq> PAGE_INFO_TYPE_L2PT"
  shows "\<exists>t. hypercall_dyn_set_pte pl va v 0 s = Ret t \<and> hw t = (hw s)\<lparr>mem := (mem (hw s))(mmu pl (hw s) va := v)\<rparr>"
proof -
  have "\<not> va - 0x800 < page_offset (ginfo (vm s))" "\<not> va > HAL_VIRT_START - 4" using assms(1,2) by (simp_all add: not_less)
  then show ?thesis
    using l2_unmap_refused [OF assms(3), of "cfg s"]
    by (simp add: hypercall_dyn_set_pte_def Let_def dmmu_call_def split_beta vwrite_def cop_def)
qed

lemma sec_desc_maps:
  assumes "(blk :: u32) < 2 ^ 20"
  shows "l1_maps h (push_bit 20 (drop_bit 8 blk) OR 0xC02) blk"
proof -
  define d :: u32 where "d = push_bit 20 (drop_bit 8 blk) OR 0xC02"
  have low: "take_bit 20 d = 0xC02"
    by (simp add: d_def take_bit_or take_bit_push_bit)
  have fields: "bitfield k w d = bitfield k w 0xC02" if "k + w \<le> 20" for k w
  proof -
    have "bitfield k w d = bitfield k w (take_bit 20 d)"
      using that by (intro bit_word_eqI) (auto simp: bit_bitfield_iff bit_take_bit_iff)
    then show ?thesis unfolding low .
  qed
  have "unat blk < 2 ^ 20" using assms by (simp add: word_less_nat_alt)
  then have top: "drop_bit 20 blk = 0" by (simp add: word_unat_eq_iff unat_drop_bit_eq drop_bit_eq_div [where 'a = nat])
  have hi: "\<not> bit blk n" if "20 \<le> n" for n
  proof -
    have "bit blk n = bit (drop_bit 20 blk) (n - 20)" using that by (simp add: bit_drop_bit_eq)
    then show ?thesis unfolding top by simp
  qed
  have "bitfield 20 12 d = drop_bit 8 blk"
  proof (rule bit_word_eqI)
    fix n assume "n < LENGTH(32)"
    have "\<not> bit (0xC02 :: u32) (20 + n)"
    proof
      assume "bit (0xC02 :: u32) (20 + n)"
      then have "bit (drop_bit 20 (0xC02 :: u32)) n" by (simp only: bit_drop_bit_eq o_def)
      moreover have "drop_bit 20 (0xC02 :: u32) = 0" by simp
      ultimately show False by simp
    qed
    moreover have "bit blk (8 + n) \<Longrightarrow> n < 12" using hi [of "8 + n"] by (cases "n < 12") simp_all
    ultimately show "bit (bitfield 20 12 d) n = bit (drop_bit 8 blk) n"
      unfolding d_def by (auto simp: bit_bitfield_iff bit_or_iff bit_push_bit_iff bit_drop_bit_eq simp del: bit_numeral_word_iff bit_neg_numeral_word_iff)
  qed
  moreover have "d AND 3 = 2"
  proof -
    have "d AND 3 = take_bit 2 (take_bit 20 d)" by (simp add: low_masks and_mask_low)
    then show ?thesis unfolding low by simp
  qed
  ultimately show ?thesis
    using fields [of 10 2] fields [of 15 1] unfolding d_def [symmetric]
    by (simp add: l1_maps_def layout desc_macros) (simp add: bitfield_def)
qed

text \<open>C23.
  From a state in which the page tables are consistent, one hypercall defeats the isolation of the guest: asked to clear an
  entry, \<^verbatim>\<open>hypercall_dyn_set_pte\<close> writes the word of Linux's copy of the entry without a check that the address is
  in a page table it manages, and that word may be a descriptor of the active first-level table. For every block of memory there
  is such a request that makes the block writable for the guest; types and reference counts stay as they were.
\<close>

theorem set_pte_defeats_isolation:
  assumes "dmmu_inv P (hw s)" "512 \<le> i" "i < 4096" "(blk :: u32) < 2 ^ 20"
    and "va = l1_addr (active_block (ttbr0 (hw s))) i - pstart (firmware (cfg s)) + page_offset (ginfo (vm s))"
    and "mmu pl (hw s) va = l1_addr (active_block (ttbr0 (hw s))) i"
    and "page_offset (ginfo (vm s)) \<le> va - 0x800" "va \<le> HAL_VIRT_START - 4"
  shows "\<exists>v t. hypercall_dyn_set_pte pl va v 0 s = Ret t \<and> guest_writable P (hw t) blk \<and> bft (hw t) = bft (hw s)"
proof -
  let ?p = "active_block (ttbr0 (hw s))"
  let ?v = "push_bit 20 (drop_bit 8 blk) OR 0xC02 :: u32"
  have l1: "is_l1 (types (hw s)) ?p" and ok: "l1_base_ok ?p"
    using active_is_l1 [OF assms(1)] by (simp_all add: is_l1_def)
  have "unat (l1_addr ?p i - 0x800) = unat (l1_addr ?p (i - 512))"
    using unat_l1_addr [OF ok assms(3)] unat_l1_addr [OF ok, of "i - 512"] assms(2,3)
    by (simp add: unat_sub word_le_nat_alt)
  then have shifted: "l1_addr ?p i - 0x800 = l1_addr ?p (i - 512)" by (simp add: word_unat_eq_iff)
  have "va - 0x800 - page_offset (ginfo (vm s)) + pstart (firmware (cfg s)) = l1_addr ?p (i - 512)"
    unfolding shifted [symmetric] assms(5) by simp
  then have "btype (bft (hw s) (PA_TO_PH_BLOCK (va - 0x800 - page_offset (ginfo (vm s)) + pstart (firmware (cfg s))))) = 1"
    using l1_addr_type [OF assms(1) [unfolded dmmu_inv_def] l1, of "i - 512"] assms(3) by (simp add: PA_TO_PH_BLOCK_def)
  then obtain t where t: "hypercall_dyn_set_pte pl va ?v 0 s = Ret t"
    "hw t = (hw s)\<lparr>mem := (mem (hw s))(l1_addr ?p i := ?v)\<rparr>"
    using set_pte_zero [OF assms(7,8), of pl ?v] assms(6) by auto
  have "guest_writable P (hw t) blk"
    unfolding guest_writable_def using assms(3) sec_desc_maps [OF assms(4)] by (intro exI [of _ i]) (simp add: t(2))
  then show ?thesis using t by (intro exI [of _ ?v] exI [of _ t]) simp
qed

theorem set_pte_defeats_isolation_witness:
  "\<exists>s v t. dmmu_inv {} (hw s) \<and> btype (bft (hw s) 0x200) = PAGE_INFO_TYPE_L1PT
     \<and> hypercall_dyn_set_pte (flat_platform\<lparr>mmu := \<lambda>h a. a - 0xC0000000\<rparr>) 0xC0201000 v 0 s = Ret t \<and> guest_writable {} (hw t) 0x200"
proof -
  define s where "s = (demo_sys 0x9000 1)\<lparr>hw := demo_state, vm := (vm (demo_sys 0x9000 1))\<lparr>vm_config := demo_config\<rparr>\<rparr>"
  have "l1_addr (active_block (ttbr0 (hw s))) 1024 = 0x201000"
    by (simp add: s_def demo_rest l1_addr_def active_block_def L1_IDX_TO_PA_def)
  then have "\<exists>v t. hypercall_dyn_set_pte (flat_platform\<lparr>mmu := \<lambda>h a. a - 0xC0000000\<rparr>) 0xC0201000 v 0 s = Ret t
      \<and> guest_writable {} (hw t) 0x200 \<and> bft (hw t) = bft (hw s)"
    by (intro set_pte_defeats_isolation [where i = 1024])
       (simp_all add: s_def demo_inv demo_sys_simps demo_config_def minimal_config_def)
  moreover have "dmmu_inv {} (hw s)" "btype (bft (hw s) 0x200) = PAGE_INFO_TYPE_L1PT"
    by (simp_all add: s_def demo_inv demo_types)
  ultimately show ?thesis by blast
qed

end
