(* ===== verification/Heap.thy ===== *)
theory Heap
  imports Machine
begin

text \<open>
  The heap of the hypervisor (\<^verbatim>\<open>library/mem/src/heap.c\<close>, \<^verbatim>\<open>hw/common/hw_core_mem.c\<close>): blocks with
  boundary markers in one region of memory, best-fit allocation with splitting, and freeing
  with coalescing. \<open>heap_rep h bs\<close> says that the memory of \<open>h\<close> holds exactly the
  blocks \<open>bs\<close>; allocation and freeing are shown to implement operations on such lists.
\<close>

section \<open>Markers (memlib.h)\<close>

text \<open>
  A pointer is an address, 0 the null pointer. A block is preceded by a marker of two words,
  \<open>size\<close> and \<open>size_prev\<close>; the two low bits of \<open>size\<close> are flags. The fields \<open>end\<close> and
  \<open>user\<close> of the struct are not used by the code.
\<close>

record heap_ctxt =
  h_size :: u32
  h_memory :: u32
  h_mem :: "u32 \<Rightarrow> u32"

abbreviation (input) HEAP_MASK_TAKEN :: u32 where "HEAP_MASK_TAKEN \<equiv> 1"
abbreviation (input) HEAP_MASK_LAST :: u32 where "HEAP_MASK_LAST \<equiv> 2"
abbreviation (input) HEAP_MASK_FLAGS :: u32 where "HEAP_MASK_FLAGS \<equiv> 3"
abbreviation (input) HEAP_MASK_SIZE :: u32 where "HEAP_MASK_SIZE \<equiv> NOT 3"
abbreviation (input) marker_bytes :: u32 where "marker_bytes \<equiv> 8"
abbreviation (input) SIZE_MIN :: u32 where "SIZE_MIN \<equiv> 8"

definition msize :: "heap_ctxt \<Rightarrow> u32 \<Rightarrow> u32" where
  "msize h m = h_mem h m"

definition msize_prev :: "heap_ctxt \<Rightarrow> u32 \<Rightarrow> u32" where
  "msize_prev h m = h_mem h (m + 4)"

definition set_msize :: "u32 \<Rightarrow> u32 \<Rightarrow> heap_ctxt \<Rightarrow> heap_ctxt" where
  "set_msize m v h = h\<lparr>h_mem := (h_mem h)(m := v)\<rparr>"

definition set_msize_prev :: "u32 \<Rightarrow> u32 \<Rightarrow> heap_ctxt \<Rightarrow> heap_ctxt" where
  "set_msize_prev m v h = h\<lparr>h_mem := (h_mem h)(m + 4 := v)\<rparr>"

section \<open>Walking, joining and splitting (heap.c)\<close>

definition heap_marker_prev :: "heap_ctxt \<Rightarrow> u32 \<Rightarrow> u32" where
  "heap_marker_prev h mark =
     (let ret = mark - marker_bytes - marker_bytes * (msize_prev h mark div marker_bytes)
      in if ret < h_memory h then 0 else ret)"

definition heap_marker_next :: "heap_ctxt \<Rightarrow> u32 \<Rightarrow> u32" where
  "heap_marker_next h mark =
     (if msize h mark AND HEAP_MASK_LAST \<noteq> 0 then 0
      else mark + marker_bytes + marker_bytes * ((msize h mark AND HEAP_MASK_SIZE) div marker_bytes))"

definition heap_marker_join :: "u32 \<Rightarrow> u32 \<Rightarrow> heap_ctxt \<Rightarrow> heap_ctxt" where
  "heap_marker_join m1 m2 h =
     (if m2 \<noteq> heap_marker_next h m1 then h
      else if (msize h m1 OR msize h m2) AND HEAP_MASK_TAKEN \<noteq> 0 then h
      else
        (let h1 = set_msize m1 (msize h m1 + ((msize h m2 AND HEAP_MASK_SIZE) + marker_bytes)) h;
             h2 = set_msize m1 (msize h1 m1 OR (msize h1 m2 AND HEAP_MASK_LAST)) h1;
             nxt = heap_marker_next h2 m1;
             h3 = (if nxt \<noteq> 0 then set_msize_prev nxt (msize h2 m1 AND HEAP_MASK_SIZE) h2 else h2)
         in set_msize m2 (- 1) (set_msize_prev m2 (- 1) h3)))"

definition heap_marker_split :: "u32 \<Rightarrow> u32 \<Rightarrow> heap_ctxt \<Rightarrow> u32 \<times> heap_ctxt" where
  "heap_marker_split mark sz h =
     (let tmp = sz + marker_bytes + mark;
          remain = (msize h mark AND HEAP_MASK_SIZE) - sz
      in if remain > SIZE_MIN
         then
           (let h1 = set_msize tmp ((remain - marker_bytes) OR (msize h mark AND HEAP_MASK_FLAGS)) h;
                h2 = set_msize mark (sz OR (msize h1 mark AND HEAP_MASK_TAKEN)) h1;
                h3 = set_msize_prev tmp sz h2;
                nxt = heap_marker_next h3 tmp
            in (tmp, if nxt \<noteq> 0 then set_msize_prev nxt (msize h3 tmp AND HEAP_MASK_SIZE) h3 else h3))
         else (0, h))"

section \<open>Creating a heap, allocating and freeing (heap.c)\<close>

definition heap_init :: "u32 \<Rightarrow> u32 \<Rightarrow> heap_ctxt \<Rightarrow> heap_ctxt" where
  "heap_init sz memory h =
     (let sz' = sz AND NOT 7;
          h1 = h\<lparr>h_size := sz', h_memory := memory\<rparr>
      in set_msize_prev memory 0 (set_msize memory ((sz' - marker_bytes) OR HEAP_MASK_LAST) h1))"

text \<open>
  The search follows the markers until the last one, so it need not end; \<open>None\<close> is a search that
  does not.
\<close>

partial_function (option) heap_search :: "heap_ctxt \<Rightarrow> u32 \<Rightarrow> u32 \<Rightarrow> u32 \<Rightarrow> u32 option" where
  "heap_search h sz tmp best =
     (if tmp = 0 then Some best
      else
        (let me = msize h tmp;
             best' = (if me AND HEAP_MASK_TAKEN = 0 \<and> (me AND HEAP_MASK_SIZE) \<ge> sz
                         \<and> (best = 0 \<or> (me AND HEAP_MASK_SIZE) < (msize h best AND HEAP_MASK_SIZE))
                      then tmp else best)
         in heap_search h sz (heap_marker_next h tmp) best'))"

text \<open>The size is an \<open>int\<close>: rounding it up overflows, which C leaves undefined, for the seven largest.\<close>

definition heap_alloc :: "u32 \<Rightarrow> heap_ctxt \<Rightarrow> (u32 \<times> heap_ctxt) outcome" where
  "heap_alloc n h =
     (if sint n < 1 then Ret (0, h)
      else if sint n + 7 \<ge> 2 ^ 31 then Undefined
      else
        (let sz = (n + 7) AND NOT 7
         in and_then (outcome_of (heap_search h sz (h_memory h) 0)) (\<lambda>best.
              if best = 0 then Ret (0, h)
              else
                (let h1 = snd (heap_marker_split best sz h);
                     h2 = set_msize best (msize h1 best OR HEAP_MASK_TAKEN) h1
                 in Ret (best + marker_bytes, h2)))))"

text \<open>\<open>heap->memory + heap->size\<close> is pointer arithmetic: the size counts markers there.\<close>

definition heap_free :: "u32 \<Rightarrow> heap_ctxt \<Rightarrow> bool \<times> heap_ctxt" where
  "heap_free adr h =
     (let tmp = adr - marker_bytes
      in if tmp < h_memory h \<or> tmp \<ge> h_memory h + marker_bytes * h_size h then (False, h)
         else
           (let prv = heap_marker_prev h tmp;
                nxt = heap_marker_next h tmp
            in if (prv \<noteq> 0 \<and> msize_prev h tmp \<noteq> (msize h prv AND HEAP_MASK_SIZE))
                  \<or> (nxt \<noteq> 0 \<and> msize_prev h nxt \<noteq> (msize h tmp AND HEAP_MASK_SIZE)) then (False, h)
               else if msize h tmp AND HEAP_MASK_TAKEN = 0 then (False, h)
               else
                 (let h1 = set_msize tmp (msize h tmp AND NOT HEAP_MASK_TAKEN) h;
                      join_prev = (prv \<noteq> 0 \<and> msize h1 prv AND HEAP_MASK_TAKEN = 0);
                      h2 = (if join_prev then heap_marker_join prv tmp h1 else h1);
                      m = (if join_prev then prv else tmp);
                      h3 = (if nxt \<noteq> 0 \<and> msize h2 nxt AND HEAP_MASK_TAKEN = 0 then heap_marker_join m nxt h2 else h2)
                  in (True, h3))))"

section \<open>The heap of the hypervisor (hw_core_mem.c)\<close>

definition malloc :: "u32 \<Rightarrow> heap_ctxt \<Rightarrow> (u32 \<times> heap_ctxt) outcome" where
  "malloc sz h = heap_alloc sz h"

definition free :: "u32 \<Rightarrow> heap_ctxt \<Rightarrow> heap_ctxt" where
  "free ptr h = (if ptr \<noteq> 0 then snd (heap_free ptr h) else h)"

definition core_mem_init :: "u32 \<Rightarrow> u32 \<Rightarrow> heap_ctxt \<Rightarrow> heap_ctxt" where
  "core_mem_init start stop h = heap_init (stop - start - 1) start h"

section \<open>The size word of a marker\<close>

definition enc :: "nat \<Rightarrow> bool \<Rightarrow> bool \<Rightarrow> u32" where
  "enc n t l = of_nat n OR (if t then 1 else 0) OR (if l then 2 else 0)"

lemma flag_bits:
  "bit (2 :: u32) i \<longleftrightarrow> i = 1" "bit (3 :: u32) i \<longleftrightarrow> i = 0 \<or> i = 1"
  "bit (- 4 :: u32) i \<longleftrightarrow> i < 32 \<and> i \<noteq> 0 \<and> i \<noteq> 1" "bit (- 2 :: u32) i \<longleftrightarrow> i < 32 \<and> i \<noteq> 0"
proof -
  show "bit (2 :: u32) i \<longleftrightarrow> i = 1"
    using bit_push_bit_iff [of 1 "1 :: u32" i] by (auto simp: push_bit_eq_mult bit_1_iff)
  have "(3 :: u32) = mask 2" by (simp add: low_masks)
  then show b3: "bit (3 :: u32) i \<longleftrightarrow> i = 0 \<or> i = 1"
    unfolding \<open>3 = mask 2\<close> bit_mask_word_iff by auto
  have "(- 4 :: u32) = NOT 3" "(- 2 :: u32) = NOT 1" by simp_all
  then show "bit (- 4 :: u32) i \<longleftrightarrow> i < 32 \<and> i \<noteq> 0 \<and> i \<noteq> 1" "bit (- 2 :: u32) i \<longleftrightarrow> i < 32 \<and> i \<noteq> 0"
    by (auto simp only: bit_not_iff b3 bit_1_iff possible_bit_word) auto
qed

lemma of_nat_no_flags:
  assumes "n mod 8 = 0" "bit (of_nat n :: u32) i"
  shows "i \<noteq> 0 \<and> i \<noteq> 1"
proof -
  have "bit n i" using assms(2) by (simp add: bit_of_nat_iff_bit bit_simps)
  moreover have "\<not> odd n" "\<not> odd (n div 2)" using assms(1) by presburger+
  ultimately show ?thesis by (auto simp: bit_iff_odd intro: ccontr)
qed

lemma enc_simps:
  assumes "n mod 8 = 0"
  shows "enc n t l AND NOT 3 = of_nat n" "enc n t l AND 1 = (if t then 1 else 0)"
    "enc n t l AND 2 = (if l then 2 else 0)" "enc n t l AND 3 = (if t then 1 else 0) OR (if l then 2 else 0)"
    "enc n t l OR 1 = enc n True l" "enc n t l AND NOT 1 = enc n False l" "enc n t l OR 2 = enc n t True"
  unfolding enc_def
  by (rule bit_word_eqI; auto dest: of_nat_no_flags [OF assms] simp: bit_and_iff bit_or_iff flag_bits bit_1_iff simp del: bit_numeral_word_iff bit_neg_numeral_word_iff)+

lemma enc_taken_iff: "n mod 8 = 0 \<Longrightarrow> enc n t l AND 1 = 0 \<longleftrightarrow> \<not> t"
  by (simp add: enc_simps)

lemma enc_plain: "enc n False False = of_nat n"
  by (simp add: enc_def)

lemma enc_or: "m mod 8 = 0 \<Longrightarrow> n mod 8 = 0 \<Longrightarrow> of_nat n OR (enc m t l AND 3) = enc n t l"
  by (simp add: enc_simps) (simp add: enc_def or.assoc)

section \<open>Blocks\<close>

text \<open>
  The blocks of a heap, in the order of their addresses: the size of each without its marker and
  whether it is taken.
\<close>

type_synonym blocks = "(nat \<times> bool) list"

primrec total :: "blocks \<Rightarrow> nat" where
  "total [] = 0"
| "total (b # bs) = 8 + fst b + total bs"

primrec last_size :: "nat \<Rightarrow> blocks \<Rightarrow> nat" where
  "last_size p [] = p"
| "last_size p (b # bs) = last_size (fst b) bs"

lemma total_append [simp]: "total (xs @ ys) = total xs + total ys"
  by (induction xs) auto

lemma last_size_append [simp]: "last_size p (xs @ ys) = last_size (last_size p xs) ys"
  by (induction xs arbitrary: p) auto

text \<open>The markers of the blocks \<open>bs\<close> from address \<open>a\<close> on; \<open>l\<close> says whether the last one carries the flag.\<close>

primrec layout_at :: "(u32 \<Rightarrow> u32) \<Rightarrow> nat \<Rightarrow> nat \<Rightarrow> bool \<Rightarrow> blocks \<Rightarrow> bool" where
  "layout_at M a p l [] = True"
| "layout_at M a p l (b # bs) =
     (M (of_nat a) = enc (fst b) (snd b) (bs = [] \<and> l) \<and> M (of_nat (a + 4)) = of_nat p
      \<and> layout_at M (a + 8 + fst b) (fst b) l bs)"

definition heap_rep :: "heap_ctxt \<Rightarrow> blocks \<Rightarrow> bool" where
  "heap_rep h bs \<longleftrightarrow> bs \<noteq> [] \<and> (\<forall>b\<in>set bs. fst b mod 8 = 0 \<and> 8 \<le> fst b)
     \<and> layout_at (h_mem h) (unat (h_memory h)) 0 True bs \<and> unat (h_size h) = total bs
     \<and> 8 \<le> unat (h_memory h) \<and> unat (h_memory h) + total bs < 2 ^ 32"

lemma layout_append:
  "layout_at M a p l (xs @ ys) \<longleftrightarrow> layout_at M a p (ys = [] \<and> l) xs \<and> layout_at M (a + total xs) (last_size p xs) l ys"
  by (induction xs arbitrary: a p) (auto simp: add.assoc)

lemma layout_frame:
  assumes "layout_at M a p l bs" "\<And>x. a \<le> x \<Longrightarrow> x < a + total bs \<Longrightarrow> M' (of_nat x) = M (of_nat x)"
  shows "layout_at M' a p l bs"
  using assms
proof (induction bs arbitrary: a p)
  case (Cons b bs)
  have "layout_at M' (a + 8 + fst b) (fst b) l bs"
    using Cons.prems by (intro Cons.IH) auto
  moreover have "M' (of_nat a) = M (of_nat a)" "M' (of_nat (a + 4)) = M (of_nat (a + 4))"
    using Cons.prems(2) [of a] Cons.prems(2) [of "a + 4"] by simp_all
  ultimately show ?case using Cons.prems(1) by simp
qed simp

lemma unat_addr: "x < 2 ^ 32 \<Longrightarrow> unat (of_nat x :: u32) = x"
  by (simp add: unat_of_nat)

lemma addr_eq_iff: "x < 2 ^ 32 \<Longrightarrow> y < 2 ^ 32 \<Longrightarrow> (of_nat x :: u32) = of_nat y \<longleftrightarrow> x = y"
  using unat_addr by metis

lemma div_8_times: "n < 2 ^ 32 \<Longrightarrow> n mod 8 = 0 \<Longrightarrow> 8 * ((of_nat n :: u32) div 8) = of_nat n"
proof -
  assume n: "n < 2 ^ 32" "n mod 8 = 0"
  have "unat (8 * ((of_nat n :: u32) div 8)) = 8 * (n div 8)"
    using n(1) by (simp add: unat_word_ariths unat_div unat_addr)
  also have "\<dots> = unat (of_nat n :: u32)" using n by (simp add: unat_addr mod_0_imp_dvd)
  finally show "8 * ((of_nat n :: u32) div 8) = of_nat n" by (simp only: word_unat_eq_iff)
qed

section \<open>The block at an address\<close>

text \<open>A block \<open>b\<close> of the heap, the blocks \<open>xs\<close> before it and the address \<open>A\<close> of its marker.\<close>

definition block_at :: "heap_ctxt \<Rightarrow> blocks \<Rightarrow> nat \<times> bool \<Rightarrow> blocks \<Rightarrow> nat \<Rightarrow> bool" where
  "block_at h xs b ys A \<longleftrightarrow> heap_rep h (xs @ b # ys) \<and> A = unat (h_memory h) + total xs"

lemma block_bounds:
  assumes "block_at h xs b ys A"
  shows "8 \<le> A" "A + 8 + fst b + total ys < 2 ^ 32" "fst b mod 8 = 0" "8 \<le> fst b" "fst b < 2 ^ 32"
  using assms by (auto simp: block_at_def heap_rep_def)

lemma block_words:
  assumes "block_at h xs b ys A"
  shows "msize h (of_nat A) = enc (fst b) (snd b) (ys = [])" "msize_prev h (of_nat A) = of_nat (last_size 0 xs)"
  using assms by (auto simp: block_at_def heap_rep_def layout_append msize_def msize_prev_def)

lemma block_next:
  assumes "block_at h xs b ys A"
  shows "heap_marker_next h (of_nat A) = (if ys = [] then 0 else of_nat (A + 8 + fst b))"
proof -
  note b = block_bounds [OF assms]
  show ?thesis
    unfolding heap_marker_next_def block_words [OF assms]
    using enc_simps [OF b(3)] div_8_times [OF b(5,3)] by simp
qed

lemma block_prev:
  assumes "block_at h xs b ys A"
  shows "heap_marker_prev h (of_nat A) = (if xs = [] then 0 else of_nat (A - 8 - last_size 0 xs))"
proof (cases xs rule: rev_cases)
  case Nil
  have "(of_nat A :: u32) - 8 = of_nat (A - 8)" using block_bounds(1) [OF assms] by (simp add: of_nat_diff)
  moreover have "of_nat (A - 8) < h_memory h"
    using assms Nil block_bounds(1,2) [OF assms] unfolding word_less_nat_alt
    by (simp only: unat_addr) (simp add: block_at_def)
  ultimately show ?thesis using Nil block_words [OF assms] by (simp add: heap_marker_prev_def)
next
  case (snoc xs' c)
  have c: "fst c mod 8 = 0" "fst c < 2 ^ 32" and A: "A = unat (h_memory h) + total xs' + (8 + fst c)" "A < 2 ^ 32"
    using assms snoc by (auto simp: block_at_def heap_rep_def)
  have eq: "(of_nat A :: u32) - 8 - of_nat (fst c) = of_nat (A - 8 - fst c)" using A by (simp add: of_nat_diff)
  moreover have "\<not> of_nat (A - 8 - fst c) < h_memory h"
    using A unfolding word_less_nat_alt by (simp only: unat_addr)
  moreover have "last_size 0 xs = fst c" using snoc by simp
  ultimately show ?thesis
    using snoc div_8_times [OF c(2,1)] block_words [OF assms] unfolding heap_marker_prev_def Let_def
    by (simp add: eq)
qed

text \<open>The next and the previous block.\<close>

lemma block_at_next: "block_at h xs b (c # ys) A \<Longrightarrow> block_at h (xs @ [b]) c ys (A + 8 + fst b)"
  by (simp add: block_at_def)

lemma block_at_prev: "block_at h (xs @ [c]) b ys A \<Longrightarrow> block_at h xs c (b # ys) (A - 8 - fst c)"
  by (simp add: block_at_def)

section \<open>Changing a range of blocks\<close>

lemma rep_replace:
  assumes rep: "heap_rep h (xs @ bs @ ys)" and A: "A = unat (h_memory h) + total xs"
    and new: "bs' \<noteq> []" "total bs' = total bs" "\<forall>b\<in>set bs'. fst b mod 8 = 0 \<and> 8 \<le> fst b"
      "layout_at (h_mem h') A (last_size 0 xs) (ys = []) bs'"
    and next_marker: "ys \<noteq> [] \<Longrightarrow> msize_prev h' (of_nat (A + total bs)) = of_nat (last_size 0 bs')"
    and same: "h_size h' = h_size h" "h_memory h' = h_memory h"
      "\<And>x. x < 2 ^ 32 \<Longrightarrow> x < A \<or> A + total bs \<le> x \<Longrightarrow> x \<noteq> A + total bs + 4 \<Longrightarrow> h_mem h' (of_nat x) = h_mem h (of_nat x)"
  shows "heap_rep h' (xs @ bs' @ ys)"
proof -
  let ?M = "h_mem h" and ?M' = "h_mem h'" and ?m = "unat (h_memory h)" and ?E = "A + total bs"
  have lay: "layout_at ?M ?m 0 (bs @ ys = []) xs" "layout_at ?M ?E (last_size (last_size 0 xs) bs) True ys"
    and bounds: "?m + total (xs @ bs @ ys) < 2 ^ 32"
    using rep A by (auto simp: heap_rep_def layout_append add.assoc)
  have "layout_at ?M' ?m 0 (bs' @ ys = []) xs"
  proof (rule layout_frame)
    show "layout_at ?M ?m 0 (bs' @ ys = []) xs"
    proof (cases "xs = []")
      case False
      have "total bs' \<noteq> 0" using new(1) by (cases bs') auto
      then have "bs \<noteq> []" using new(2) by auto
      then show ?thesis using lay(1) new(1) by simp
    qed simp
  qed (use bounds A same(3) in auto)
  moreover have "layout_at ?M' (A + total bs') (last_size (last_size 0 xs) bs') True ys"
  proof (cases ys)
    case (Cons y zs)
    have ls: "last_size (last_size 0 xs) bs' = last_size 0 bs'" using new(1) by (cases bs') auto
    have "layout_at ?M' (?E + 8 + fst y) (fst y) True zs"
      by (rule layout_frame [where M = ?M]) (use lay(2) bounds A same(3) Cons in auto)
    moreover have "?M' (of_nat ?E) = ?M (of_nat ?E)" using bounds A Cons same(3) [of ?E] by simp
    moreover have "?M' (of_nat (?E + 4)) = of_nat (last_size 0 bs')"
      using next_marker Cons by (simp add: msize_prev_def)
    ultimately show ?thesis unfolding Cons new(2) ls using lay(2) Cons by simp
  qed simp
  ultimately have "layout_at ?M' ?m 0 True (xs @ bs' @ ys)"
    using new(4) A by (simp add: layout_append add.assoc)
  then show ?thesis using rep new(1,2,3) same(1,2) by (auto simp: heap_rep_def)
qed

section \<open>Best fit\<close>

definition fits :: "nat \<Rightarrow> nat \<times> bool \<Rightarrow> bool" where
  "fits k b \<longleftrightarrow> \<not> snd b \<and> k \<le> fst b"

text \<open>\<open>b\<close>, between \<open>xs\<close> and \<open>ys\<close>, is the first of the smallest free blocks of at least \<open>k\<close> bytes.\<close>

definition best_fit :: "nat \<Rightarrow> blocks \<Rightarrow> nat \<times> bool \<Rightarrow> blocks \<Rightarrow> bool" where
  "best_fit k xs b ys \<longleftrightarrow> fits k b \<and> (\<forall>c\<in>set xs. fits k c \<longrightarrow> fst b < fst c) \<and> (\<forall>c\<in>set ys. fits k c \<longrightarrow> fst b \<le> fst c)"

text \<open>The search of \<^verbatim>\<open>heap_alloc\<close> over the blocks from address \<open>a\<close> on, with the address and size of the best so far.\<close>

fun scan :: "nat \<Rightarrow> nat \<Rightarrow> (nat \<times> nat) option \<Rightarrow> blocks \<Rightarrow> (nat \<times> nat) option" where
  "scan k a best [] = best"
| "scan k a best (b # bs) =
     scan k (a + 8 + fst b)
       (if fits k b \<and> (case best of None \<Rightarrow> True | Some (_, n) \<Rightarrow> fst b < n) then Some (a, fst b) else best) bs"

lemma scan_None: "scan k a None bs = None \<longleftrightarrow> (\<forall>b\<in>set bs. \<not> fits k b)"
proof -
  have some: "scan k a (Some x) bs \<noteq> None" for a x bs
    by (induction bs arbitrary: a x) (simp_all split: prod.split)
  show ?thesis by (induction bs arbitrary: a) (simp_all add: some del: not_None_eq)
qed

lemma scan_Some:
  assumes "scan k a (Some (a0, n0)) bs = Some (a', n)"
  shows "(a' = a0 \<and> n = n0 \<and> (\<forall>c\<in>set bs. fits k c \<longrightarrow> n0 \<le> fst c))
    \<or> (n < n0 \<and> (\<exists>xs b ys. bs = xs @ b # ys \<and> a' = a + total xs \<and> n = fst b \<and> best_fit k xs b ys))"
  using assms
proof (induction bs arbitrary: a a0 n0)
  case (Cons b bs)
  show ?case
  proof (cases "fits k b \<and> fst b < n0")
    case True
    then have "scan k (a + 8 + fst b) (Some (a, fst b)) bs = Some (a', n)" using Cons.prems by simp
    from Cons.IH [OF this] show ?thesis
    proof (elim disjE conjE exE)
      assume "a' = a" "n = fst b" "\<forall>c\<in>set bs. fits k c \<longrightarrow> fst b \<le> fst c"
      then show ?thesis using True by (intro disjI2 conjI exI [of _ "[]"]) (auto simp: best_fit_def)
    next
      fix xs c ys
      assume "n < fst b" "bs = xs @ c # ys" "a' = a + 8 + fst b + total xs" "n = fst c" "best_fit k xs c ys"
      then show ?thesis using True
        by (intro disjI2 conjI exI [of _ "b # xs"] exI [of _ c] exI [of _ ys]) (auto simp: best_fit_def)
    qed
  next
    case False
    then have "scan k (a + 8 + fst b) (Some (a0, n0)) bs = Some (a', n)" using Cons.prems by auto
    from Cons.IH [OF this] show ?thesis
    proof (elim disjE conjE exE)
      fix xs c ys
      assume "n < n0" "bs = xs @ c # ys" "a' = a + 8 + fst b + total xs" "n = fst c" "best_fit k xs c ys"
      then show ?thesis using False
        by (intro disjI2 conjI exI [of _ "b # xs"] exI [of _ c] exI [of _ ys]) (auto simp: best_fit_def)
    qed (use False in auto)
  qed
qed simp

lemma scan_best_fit:
  assumes "scan k a None bs = Some (a', n)"
  shows "\<exists>xs b ys. bs = xs @ b # ys \<and> a' = a + total xs \<and> n = fst b \<and> best_fit k xs b ys"
  using assms
proof (induction bs arbitrary: a)
  case (Cons b bs)
  show ?case
  proof (cases "fits k b")
    case True
    then have "scan k (a + 8 + fst b) (Some (a, fst b)) bs = Some (a', n)" using Cons.prems by simp
    from scan_Some [OF this] show ?thesis
    proof (elim disjE conjE exE)
      assume "a' = a" "n = fst b" "\<forall>c\<in>set bs. fits k c \<longrightarrow> fst b \<le> fst c"
      then show ?thesis using True by (intro conjI exI [of _ "[]"]) (auto simp: best_fit_def)
    next
      fix xs c ys
      assume "n < fst b" "bs = xs @ c # ys" "a' = a + 8 + fst b + total xs" "n = fst c" "best_fit k xs c ys"
      then show ?thesis using True
        by (intro conjI exI [of _ "b # xs"] exI [of _ c] exI [of _ ys]) (auto simp: best_fit_def)
    qed
  next
    case False
    then have "scan k (a + 8 + fst b) None bs = Some (a', n)" using Cons.prems by simp
    from Cons.IH [OF this] obtain xs c ys where
      "bs = xs @ c # ys" "a' = a + 8 + fst b + total xs" "n = fst c" "best_fit k xs c ys" by blast
    then show ?thesis using False
      by (intro conjI exI [of _ "b # xs"] exI [of _ c] exI [of _ ys]) (auto simp: best_fit_def)
  qed
qed simp

text \<open>On a heap, the search of the code ends, and is that search.\<close>

definition best_rep :: "heap_ctxt \<Rightarrow> u32 \<Rightarrow> (nat \<times> nat) option \<Rightarrow> bool" where
  "best_rep h best bo \<longleftrightarrow> (case bo of None \<Rightarrow> best = 0
     | Some (a, n) \<Rightarrow> best = of_nat a \<and> 0 < a \<and> a < 2 ^ 32 \<and> n < 2 ^ 32 \<and> msize h best AND NOT 3 = of_nat n)"

lemma heap_search_scan:
  assumes "heap_rep h (xs @ ys)" "ys \<noteq> []" "best_rep h best bo"
  shows "\<exists>r. heap_search h sz (of_nat (unat (h_memory h) + total xs)) best = Some r
    \<and> best_rep h r (scan (unat sz) (unat (h_memory h) + total xs) bo ys)"
  using assms
proof (induction ys arbitrary: xs best bo)
  case (Cons b ys)
  define A where "A = unat (h_memory h) + total xs"
  have blk: "block_at h xs b ys A" using Cons.prems(1) by (simp add: block_at_def A_def)
  note bd = block_bounds [OF blk]
  have A: "A < 2 ^ 32" "(of_nat A :: u32) \<noteq> 0" using bd addr_eq_iff [of A 0] by auto
  note w = block_words(1) [OF blk]
  define bo' where "bo' = (if fits (unat sz) b \<and> (case bo of None \<Rightarrow> True | Some (_, n) \<Rightarrow> fst b < n) then Some (A, fst b) else bo)"
  define best' where "best' = (if msize h (of_nat A) AND 1 = 0 \<and> (msize h (of_nat A) AND NOT 3) \<ge> sz
      \<and> (best = 0 \<or> (msize h (of_nat A) AND NOT 3) < (msize h best AND NOT 3)) then of_nat A else best)"
  have m: "msize h (of_nat A) AND NOT 3 = of_nat (fst b)" "msize h (of_nat A) AND 1 = 0 \<longleftrightarrow> \<not> snd b"
    unfolding w using enc_simps(1) [OF bd(3)] enc_taken_iff [OF bd(3)] by simp_all
  have "best' = (if fits (unat sz) b \<and> (best = 0 \<or> of_nat (fst b) < (msize h best AND NOT 3)) then of_nat A else best)"
    unfolding best'_def m fits_def word_le_nat_alt unat_addr [OF bd(5)] by simp
  moreover have cmp: "best = 0 \<or> of_nat (fst b) < (msize h best AND NOT 3) \<longleftrightarrow> (case bo of None \<Rightarrow> True | Some (_, n) \<Rightarrow> fst b < n)"
    using Cons.prems(3) bd(5) addr_eq_iff [of _ 0]
    by (auto simp: best_rep_def word_less_nat_alt unat_addr split: option.splits)
  ultimately have "best' = (if bo' = bo \<and> best' = best then best else of_nat A)
      \<and> (bo' = bo \<and> best' = best \<or> bo' = Some (A, fst b) \<and> best' = of_nat A)"
    unfolding bo'_def by simp
  then have rep': "best_rep h best' bo'"
    using Cons.prems(3) m(1) bd A by (auto simp: best_rep_def)
  have step: "heap_search h sz (of_nat A) best = heap_search h sz (heap_marker_next h (of_nat A)) best'"
    unfolding heap_search.simps [of h sz "of_nat A" best] using A(2) by (simp add: best'_def Let_def)
  show ?case
  proof (cases "ys = []")
    case True
    then have "heap_search h sz (of_nat A) best = Some best'"
      unfolding step block_next [OF blk] by (simp add: heap_search.simps)
    then show ?thesis using rep' True unfolding A_def [symmetric] by (simp add: bo'_def)
  next
    case False
    have nxt: "unat (h_memory h) + total (xs @ [b]) = A + 8 + fst b" by (simp add: A_def)
    have "heap_rep h ((xs @ [b]) @ ys)" using Cons.prems(1) by simp
    from Cons.IH [OF this False rep', unfolded nxt] show ?thesis
      unfolding A_def [symmetric] step block_next [OF blk] scan.simps bo'_def [symmetric]
      using False by simp
  qed
qed simp

section \<open>Allocating\<close>

definition round8 :: "nat \<Rightarrow> nat" where
  "round8 n = (n + 7) div 8 * 8"

lemma round_up_8:
  assumes "1 \<le> sint (n :: u32)" "sint n + 7 < 2 ^ 31"
  shows "(n + 7) AND NOT 7 = of_nat (round8 (unat n))" "round8 (unat n) mod 8 = 0" "8 \<le> round8 (unat n)"
    "unat n \<le> round8 (unat n)" "round8 (unat n) < 2 ^ 31" "unat n = nat (sint n)"
proof -
  have "0 \<le> sint n" "sint n < 2 ^ 32" using assms by simp_all
  then have "uint n = sint n" using uint_sint [of n] by (simp add: take_bit_int_eq_self)
  then show n: "unat n = nat (sint n)" by (simp add: unat_eq_nat_uint)
  have "sint n < 2147483641" using assms(2) by simp
  then have small: "unat n + 7 < 2147483648" "1 \<le> unat n" using assms(1) unfolding n by linarith+
  then have "unat (n + 7) = unat n + 7" by (simp add: unat_word_ariths)
  moreover have "(n + 7) AND NOT 7 = push_bit 3 (drop_bit 3 (n + 7))" by (simp add: shl_drop_eq_and_not_mask low_masks)
  ultimately have "unat ((n + 7) AND NOT 7) = round8 (unat n)"
    using small by (simp add: push_bit_eq_mult drop_bit_eq_div unat_word_ariths unat_div round8_def)
  moreover show "round8 (unat n) < 2 ^ 31"
    using small div_times_less_eq_dividend [of "unat n + 7" 8] unfolding round8_def by simp
  moreover show "round8 (unat n) mod 8 = 0" "8 \<le> round8 (unat n)" "unat n \<le> round8 (unat n)"
    using small unfolding round8_def by presburger+
  ultimately show "(n + 7) AND NOT 7 = of_nat (round8 (unat n))"
    unfolding word_unat_eq_iff by (simp add: unat_addr)
qed

text \<open>What allocating \<open>k\<close> bytes makes of a free block of \<open>n\<close>: a rest too small for a block is not split off.\<close>

definition alloc_blocks :: "nat \<Rightarrow> nat \<Rightarrow> blocks" where
  "alloc_blocks k n = (if n - k > 8 then [(k, True), (n - k - 8, False)] else [(n, True)])"

lemma alloc_blocks_total: "k \<le> n \<Longrightarrow> total (alloc_blocks k n) = 8 + n"
  by (auto simp: alloc_blocks_def)

lemma h_mem_set [simp]:
  "h_mem (set_msize m v h) = (h_mem h)(m := v)" "h_mem (set_msize_prev m v h) = (h_mem h)(m + 4 := v)"
  "h_size (set_msize m v h) = h_size h" "h_size (set_msize_prev m v h) = h_size h"
  "h_memory (set_msize m v h) = h_memory h" "h_memory (set_msize_prev m v h) = h_memory h"
  by (simp_all add: set_msize_def set_msize_prev_def)

lemma upd_at:
  "x < 2 ^ 32 \<Longrightarrow> y < 2 ^ 32 \<Longrightarrow> (f(of_nat y := v)) (of_nat x :: u32) = (if x = y then v else f (of_nat x))"
  by (simp add: addr_eq_iff)

text \<open>The word of the next marker that records the size of a block, before and after a block changed.\<close>

lemma next_size_prev:
  assumes "block_at h xs b (y # zs) A"
  shows "msize_prev h (of_nat (A + 8 + fst b)) = of_nat (fst b)"
  using block_words(2) [OF block_at_next [OF assms]] by simp

text \<open>\<^verbatim>\<open>heap_marker_split\<close> on a free block that is large enough to leave a block over.\<close>

lemma split_block:
  assumes blk: "block_at h xs (n, False) ys A" and k: "k mod 8 = 0" "k + 8 < n"
    and h': "h' = snd (heap_marker_split (of_nat A) (of_nat k) h)" and x: "x < 2 ^ 32"
  shows "h_mem h' (of_nat x) = (if ys \<noteq> [] \<and> x = A + 8 + n + 4 then of_nat (n - k - 8)
      else if x = A + 8 + k + 4 then of_nat k else if x = A then of_nat k
      else if x = A + 8 + k then enc (n - k - 8) False (ys = []) else h_mem h (of_nat x))"
    and "h_memory h' = h_memory h" "h_size h' = h_size h"
proof -
  note bd = block_bounds [OF blk, simplified]
  note w = block_words(1) [OF blk, simplified]
  define T where "T = A + 8 + k"
  have T: "(of_nat k :: u32) + 8 + of_nat A = of_nat T" "T + 8 < A + 8 + n" "T < 2 ^ 32" "A < 2 ^ 32" "T \<noteq> A"
    by (simp_all add: T_def) (use bd k in linarith)+
  have size: "msize h (of_nat A) AND NOT 3 = of_nat n" "msize h (of_nat A) AND 1 = 0"
    unfolding w using enc_simps(1) [OF bd(3)] enc_taken_iff [OF bd(3)] by simp_all
  have rem: "(of_nat n :: u32) - of_nat k = of_nat (n - k)" "of_nat (n - k) - (8 :: u32) = of_nat (n - k - 8)"
    using k(2) by (simp_all add: of_nat_diff)
  have gt: "(of_nat (n - k) :: u32) > 8" 
  proof -
    have u: "unat (of_nat (n - k) :: u32) = n - k" using bd(5) by (intro unat_addr) simp
    show ?thesis unfolding word_less_nat_alt u using k(2) by simp
  qed
  have m: "(n - k - 8) mod 8 = 0" using bd(3) k by presburger
  have e1: "of_nat (n - k - 8) OR (msize h (of_nat A) AND 3) = enc (n - k - 8) False (ys = [])"
    unfolding w by (rule enc_or [OF bd(3) m])
  define h1 where "h1 = set_msize (of_nat T) (enc (n - k - 8) False (ys = [])) h"
  have a1: "msize h1 (of_nat A) = msize h (of_nat A)"
    unfolding h1_def msize_def h_mem_set by (simp only: upd_at [OF T(4,3)] T(5) [symmetric] if_False)
  define h3 where "h3 = set_msize_prev (of_nat T) (of_nat k) (set_msize (of_nat A) (of_nat k) h1)"
  have T4: "(of_nat T :: u32) + 4 = of_nat (T + 4)" "T + 4 < 2 ^ 32" using T(2) bd(2) by simp_all
  have t3: "msize h3 (of_nat T) = enc (n - k - 8) False (ys = [])"
    unfolding h3_def h1_def msize_def h_mem_set T4(1) using T T4(2) by (simp only: upd_at) simp
  define E where "E = A + 8 + n"
  have E: "of_nat T + 8 + 8 * ((of_nat (n - k - 8) :: u32) div 8) = of_nat E" "of_nat E + (4 :: u32) = of_nat (E + 4)" "E < 2 ^ 32"
    using div_8_times [OF _ m] bd(5) bd(2) k(2) by (simp_all add: E_def T_def of_nat_diff)
  have nxt: "heap_marker_next h3 (of_nat T) = (if ys = [] then 0 else of_nat E)"
    unfolding heap_marker_next_def t3 enc_simps(1) [OF m] enc_simps(3) [OF m] E(1) by simp
  have E0: "(of_nat E :: u32) \<noteq> 0" using addr_eq_iff [OF E(3), of 0] by (simp add: E_def)
  have h'': "h' = (if ys = [] then h3 else set_msize_prev (of_nat E) (of_nat (n - k - 8)) h3)"
    unfolding h' heap_marker_split_def Let_def T(1) size rem if_P [OF gt] e1 h1_def [symmetric] a1
    unfolding size or.right_neutral h3_def [symmetric] nxt t3 enc_simps(1) [OF m] using E0 by simp
  show "h_memory h' = h_memory h" "h_size h' = h_size h" by (simp_all add: h'' h3_def h1_def)
  have E4: "E + 4 < 2 ^ 32" if "ys \<noteq> []" using that bd(2) by (cases ys) (auto simp: E_def)
  show "h_mem h' (of_nat x) = (if ys \<noteq> [] \<and> x = A + 8 + n + 4 then of_nat (n - k - 8)
      else if x = A + 8 + k + 4 then of_nat k else if x = A then of_nat k
      else if x = A + 8 + k then enc (n - k - 8) False (ys = []) else h_mem h (of_nat x))"
  proof (cases "ys = []")
    case True
    then show ?thesis
      unfolding h'' if_P [OF True] h3_def h1_def h_mem_set T4(1)
      by (simp only: upd_at [OF x T(4)] upd_at [OF x T(3)] upd_at [OF x T4(2)]) (simp only: T_def not_True_eq_False simp_thms if_False)
  next
    case False
    then show ?thesis
      unfolding h'' if_not_P [OF False] h3_def h1_def h_mem_set T4(1) E(2)
      by (simp only: upd_at [OF x T(4)] upd_at [OF x T(3)] upd_at [OF x T4(2)] upd_at [OF x E4 [OF False]])
        (simp only: T_def E_def not_False_eq_True simp_thms)
  qed
qed

text \<open>
  What changes when the hypervisor edits \<open>n\<close> bytes of blocks at \<open>A\<close>: nothing before them, nothing in the first
  \<open>k\<close> bytes of the first block, and behind them only the next marker.
\<close>

definition only_block :: "nat \<Rightarrow> nat \<Rightarrow> nat \<Rightarrow> heap_ctxt \<Rightarrow> heap_ctxt \<Rightarrow> bool" where
  "only_block A k n h h' \<longleftrightarrow> h_size h' = h_size h \<and> h_memory h' = h_memory h
     \<and> (\<forall>x < 2 ^ 32. x < A \<or> (A + 8 \<le> x \<and> x < A + 8 + k) \<or> A + n \<le> x \<longrightarrow> x \<noteq> A + n + 4
           \<longrightarrow> h_mem h' (of_nat x) = h_mem h (of_nat x))"

text \<open>The addresses of the contents of the taken blocks.\<close>

primrec contents :: "nat \<Rightarrow> blocks \<Rightarrow> nat set" where
  "contents a [] = {}"
| "contents a (b # bs) = (if snd b then {a + 8..<a + 8 + fst b} else {}) \<union> contents (a + 8 + fst b) bs"

lemma contents_append [simp]: "contents a (xs @ ys) = contents a xs \<union> contents (a + total xs) ys"
  by (induction xs arbitrary: a) (auto simp: add.assoc)

lemma contents_bounds: "x \<in> contents a bs \<Longrightarrow> a + 8 \<le> x \<and> x < a + total bs"
  by (induction bs arbitrary: a) (fastforce split: if_splits)+

definition keeps_contents :: "blocks \<Rightarrow> heap_ctxt \<Rightarrow> heap_ctxt \<Rightarrow> bool" where
  "keeps_contents bs h h' \<longleftrightarrow> h_size h' = h_size h \<and> h_memory h' = h_memory h
     \<and> (\<forall>x\<in>contents (unat (h_memory h)) bs. h_mem h' (of_nat x) = h_mem h (of_nat x))"

lemma keeps_contents_intro:
  assumes "only_block A k n h h'" "A = unat (h_memory h) + total xs" "total bs = n"
    "contents A bs \<subseteq> {A + 8..<A + 8 + k}" "A + n + total ys < 2 ^ 32" "8 + k \<le> n"
  shows "keeps_contents (xs @ bs @ ys) h h'"
proof -
  have "h_mem h' (of_nat x) = h_mem h (of_nat x)" if "x \<in> contents (unat (h_memory h)) (xs @ bs @ ys)" for x
  proof -
    have "x \<in> contents (unat (h_memory h)) xs \<or> x \<in> contents A bs \<or> x \<in> contents (A + n) ys"
      using that assms(2,3) by (auto simp: add.assoc)
    then have "x < A \<or> (A + 8 \<le> x \<and> x < A + 8 + k) \<or> A + n + 8 \<le> x" and "x < 2 ^ 32"
      using contents_bounds [of x "unat (h_memory h)" xs] contents_bounds [of x "A + n" ys] assms(2,4,5,6) by auto
    then show ?thesis using assms(1,6) by (auto simp: only_block_def)
  qed
  then show ?thesis using assms(1) by (simp add: keeps_contents_def only_block_def)
qed

lemma set_flag:
  assumes blk: "block_at h xs (n, t) ys A" and h': "h' = set_msize (of_nat A) (enc n t' (ys = [])) h"
  shows "heap_rep h' (xs @ (n, t') # ys) \<and> only_block A n (8 + n) h h'"
proof -
  note bd = block_bounds [OF blk, simplified]
  note w = block_words [OF blk, simplified]
  have rep: "heap_rep h (xs @ [(n, t)] @ ys)" "A = unat (h_memory h) + total xs"
    using blk by (simp_all add: block_at_def)
  have A: "A < 2 ^ 32" using bd(2) by simp
  have mem: "h_mem h' (of_nat x) = (if x = A then enc n t' (ys = []) else h_mem h (of_nat x))" if "x < 2 ^ 32" for x
    unfolding h' h_mem_set upd_at [OF that A] by simp
  have same: "h_size h' = h_size h" "h_memory h' = h_memory h" by (simp_all add: h')
  then have ob: "only_block A n (8 + n) h h'" unfolding only_block_def by (simp add: mem)
  have "heap_rep h' (xs @ [(n, t')] @ ys)"
  proof (rule rep_replace [OF rep])
    have b: "A + 4 < 2 ^ 32" using bd(2) by simp
    show "layout_at (h_mem h') A (last_size 0 xs) (ys = []) [(n, t')]"
      using w(2) mem [OF A] mem [OF b] by (simp add: msize_prev_def)
    show "msize_prev h' (of_nat (A + total [(n, t)])) = of_nat (last_size 0 [(n, t')])" if "ys \<noteq> []"
    proof -
      obtain y zs where ys: "ys = y # zs" using \<open>ys \<noteq> []\<close> by (cases ys) auto
      have "A + 8 + n + 4 < 2 ^ 32" using bd(2) that by (cases ys) auto
      from mem [OF this] next_size_prev [OF blk [unfolded ys]] show ?thesis by (simp add: msize_prev_def add.assoc)
    qed
    show "\<And>x. x < 2 ^ 32 \<Longrightarrow> x < A \<or> A + total [(n, t)] \<le> x \<Longrightarrow> x \<noteq> A + total [(n, t)] + 4
        \<Longrightarrow> h_mem h' (of_nat x) = h_mem h (of_nat x)"
      using ob by (auto simp: only_block_def)
  qed (use bd in \<open>simp_all add: h'\<close>)
  with ob show ?thesis by simp
qed

lemma take_block:
  assumes blk: "block_at h xs (n, False) ys A" and k: "k mod 8 = 0" "8 \<le> k" "k \<le> n"
    and h1: "h1 = snd (heap_marker_split (of_nat A) (of_nat k) h)"
    and h': "h' = set_msize (of_nat A) (msize h1 (of_nat A) OR 1) h1"
  shows "heap_rep h' (xs @ alloc_blocks k n @ ys) \<and> only_block A (if k + 8 < n then k else n) (8 + n) h h'"
proof -
  note bd = block_bounds [OF blk, simplified]
  note w = block_words [OF blk, simplified]
  have rep: "heap_rep h (xs @ [(n, False)] @ ys)" "A = unat (h_memory h) + total xs"
    using blk by (simp_all add: block_at_def)
  show ?thesis
  proof (cases "k + 8 < n")
    case True
    note sp = split_block [OF blk k(1) True h1]
    have A: "A < 2 ^ 32" using bd(2) by simp
    have "msize h1 (of_nat A) = of_nat k" unfolding msize_def sp(1) [OF A] using True by simp
    then have sz: "msize h1 (of_nat A) OR 1 = enc k True False" by (simp add: enc_def)
    have mem: "h_mem h' (of_nat x) = (if x = A then enc k True False
        else if ys \<noteq> [] \<and> x = A + 8 + n + 4 then of_nat (n - k - 8)
        else if x = A + 8 + k + 4 then of_nat k
        else if x = A + 8 + k then enc (n - k - 8) False (ys = []) else h_mem h (of_nat x))" if "x < 2 ^ 32" for x
      unfolding h' h_mem_set upd_at [OF that A] sz sp(1) [OF that] by simp
    have same: "h_size h' = h_size h" "h_memory h' = h_memory h" using sp(2,3) [OF A] by (simp_all add: h')
    have "only_block A k (8 + n) h h'"
      unfolding only_block_def using same True by (simp add: mem)
    moreover have "heap_rep h' (xs @ [(k, True), (n - k - 8, False)] @ ys)"
    proof (rule rep_replace [OF rep(1,2)])
      have l: "of_nat A + (4 :: u32) = of_nat (A + 4)" "of_nat A + 8 + (of_nat k :: u32) = of_nat (A + 8 + k)" by simp_all
      have b: "A + 4 < 2 ^ 32" "A + 8 + k < 2 ^ 32" "A + 8 + k + 4 < 2 ^ 32" using bd(2) True by simp_all
      show "layout_at (h_mem h') A (last_size 0 xs) (ys = []) [(k, True), (n - k - 8, False)]"
        using w(2) True bd(4) k(2) mem [OF A] mem [OF b(1)] mem [OF b(2)] mem [OF b(3)]
        by (simp add: msize_prev_def)
      show "msize_prev h' (of_nat (A + total [(n, False)])) = of_nat (last_size 0 [(k, True), (n - k - 8, False)])"
        if "ys \<noteq> []"
      proof -
        have "A + 8 + n + 4 < 2 ^ 32" using bd(2) that by (cases ys) auto
        from mem [OF this] that True show ?thesis by (simp add: msize_prev_def add.assoc)
      qed
      show "\<And>x. x < 2 ^ 32 \<Longrightarrow> x < A \<or> A + total [(n, False)] \<le> x \<Longrightarrow> x \<noteq> A + total [(n, False)] + 4
          \<Longrightarrow> h_mem h' (of_nat x) = h_mem h (of_nat x)"
        using \<open>only_block A k (8 + n) h h'\<close> by (auto simp: only_block_def)
      show "\<forall>b\<in>set [(k, True), (n - k - 8, False)]. fst b mod 8 = 0 \<and> 8 \<le> fst b"
      proof -
        have "(n - k - 8) mod 8 = 0" "8 \<le> n - k - 8" using bd(3) k(1) True by presburger+
        then show ?thesis using k by simp
      qed
    qed (use same True in simp_all)
    moreover have "alloc_blocks k n = [(k, True), (n - k - 8, False)]" using True by (simp add: alloc_blocks_def)
    ultimately show ?thesis using True by simp
  next
    case False
    have size: "msize h (of_nat A) AND NOT 3 = of_nat n" unfolding w using enc_simps(1) [OF bd(3)] by simp
    have rem: "(of_nat n :: u32) - of_nat k = of_nat (n - k)" using k(3) by (simp add: of_nat_diff)
    have "unat (of_nat (n - k) :: u32) = n - k" using bd(5) by (intro unat_addr) simp
    then have gt: "\<not> (of_nat (n - k) :: u32) > 8" unfolding word_less_nat_alt using False by simp
    have "h1 = h" unfolding h1 heap_marker_split_def Let_def size rem using gt by simp
    then have h'': "h' = set_msize (of_nat A) (enc n True (ys = [])) h"
      unfolding h' using enc_simps(5) [OF bd(3)] w by simp
    from set_flag [OF blk this]
    show ?thesis using False by (auto simp: alloc_blocks_def)
  qed
qed

text \<open>\<^verbatim>\<open>heap_alloc\<close> takes the best fit, or reports that nothing fits.\<close>

lemma heap_alloc_rep:
  assumes rep: "heap_rep h bs" and n: "1 \<le> sint n" "sint n + 7 < 2 ^ 31"
  shows "(heap_alloc n h = Ret (0, h) \<and> (\<forall>b\<in>set bs. \<not> fits (round8 (unat n)) b))
    \<or> (\<exists>xs b ys A h'. bs = xs @ b # ys \<and> best_fit (round8 (unat n)) xs b ys \<and> A = unat (h_memory h) + total xs
        \<and> heap_alloc n h = Ret (of_nat (A + 8), h') \<and> heap_rep h' (xs @ alloc_blocks (round8 (unat n)) (fst b) @ ys)
        \<and> keeps_contents (xs @ alloc_blocks (round8 (unat n)) (fst b) @ ys) h h')"
proof -
  define k where "k = round8 (unat n)"
  note r = round_up_8 [OF n, folded k_def]
  have k: "unat (of_nat k :: u32) = k" using r(5) by (intro unat_addr) simp
  have "bs \<noteq> []" using rep by (simp add: heap_rep_def)
  from heap_search_scan [of h "[]" bs 0 None "of_nat k"] rep this obtain best where
    best: "heap_search h (of_nat k) (h_memory h) 0 = Some best"
      "best_rep h best (scan k (unat (h_memory h)) None bs)"
    by (auto simp: best_rep_def k)
  have alloc: "heap_alloc n h = (if best = 0 then Ret (0, h)
      else (let h1 = snd (heap_marker_split best (of_nat k) h)
            in Ret (best + 8, set_msize best (msize h1 best OR 1) h1)))"
    unfolding heap_alloc_def r(1) Let_def best(1) using n by (simp add: outcome_of_def)
  show ?thesis
  proof (cases "scan k (unat (h_memory h)) None bs")
    case None
    then have "best = 0" using best(2) by (simp add: best_rep_def)
    then show ?thesis using alloc None by (simp add: scan_None k_def)
  next
    case (Some an)
    then obtain a sz where an: "scan k (unat (h_memory h)) None bs = Some (a, sz)" by (cases an) auto
    then have b: "best = of_nat a" "best \<noteq> 0" using best(2) addr_eq_iff [of a 0] by (auto simp: best_rep_def)
    from scan_best_fit [OF an] obtain xs b ys where bf: "bs = xs @ b # ys" "a = unat (h_memory h) + total xs"
      "best_fit k xs b ys" by blast
    have free: "b = (fst b, False)" "k \<le> fst b" using bf(3) by (auto simp: best_fit_def fits_def prod_eq_iff)
    have blk: "block_at h xs (fst b, False) ys a" using rep bf(1,2) free(1) by (simp add: block_at_def)
    define h1 where "h1 = snd (heap_marker_split (of_nat a) (of_nat k) h)"
    define h' where "h' = set_msize (of_nat a) (msize h1 (of_nat a) OR 1) h1"
    have "heap_alloc n h = Ret (of_nat (a + 8), h')"
      unfolding alloc using b by (simp add: h'_def h1_def Let_def)
    moreover have tb: "heap_rep h' (xs @ alloc_blocks k (fst b) @ ys)
        \<and> only_block a (if k + 8 < fst b then k else fst b) (8 + fst b) h h'"
      by (rule take_block [OF blk r(2,3) free(2) h1_def h'_def])
    moreover have "keeps_contents (xs @ alloc_blocks k (fst b) @ ys) h h'"
      using tb block_bounds [OF blk] bf(2) free(2) alloc_blocks_total [OF free(2)]
      by (intro keeps_contents_intro [where A = a and n = "8 + fst b"
            and k = "if k + 8 < fst b then k else fst b"]) (auto simp: alloc_blocks_def split: if_split_asm)
    ultimately show ?thesis unfolding k_def [symmetric] using bf by blast
  qed
qed

section \<open>Freeing\<close>

lemma enc_sum:
  "n mod 8 = 0 \<Longrightarrow> m mod 8 = 0 \<Longrightarrow>
   (enc n False False + ((enc m t l AND NOT 3) + 8)) OR (enc m t l AND 2) = enc (n + 8 + m) False l"
  unfolding enc_simps(1) enc_simps(3) enc_plain by (simp add: enc_def algebra_simps)

lemma join_mem:
  assumes blk: "block_at h xs (n, False) ((m, False) # ys) A"
    and h': "h' = heap_marker_join (of_nat A) (of_nat (A + 8 + n)) h" and x: "x < 2 ^ 32"
  shows "h_mem h' (of_nat x) = (if x = A + 8 + n then - 1 else if x = A + 8 + n + 4 then - 1
      else if ys \<noteq> [] \<and> x = A + 8 + (n + 8 + m) + 4 then of_nat (n + 8 + m)
      else if x = A then enc (n + 8 + m) False (ys = []) else h_mem h (of_nat x))"
    and "h_memory h' = h_memory h" "h_size h' = h_size h"
proof -
  note bd = block_bounds [OF blk, simplified]
  note w = block_words(1) [OF blk, simplified]
  have blk2: "block_at h (xs @ [(n, False)]) (m, False) ys (A + 8 + n)" using block_at_next [OF blk] by simp
  note bd2 = block_bounds [OF blk2, simplified]
  note w2 = block_words(1) [OF blk2, simplified]
  define T where "T = A + 8 + n"
  define N where "N = n + 8 + m"
  have T: "T < 2 ^ 32" "T + 4 < 2 ^ 32" "A < 2 ^ 32" "T \<noteq> A" "A \<noteq> T" "A \<noteq> T + 4"
    "(of_nat T :: u32) + 4 = of_nat (T + 4)"
    unfolding T_def using bd bd2 by simp_all
  have w2': "msize h (of_nat T) = enc m False (ys = [])" using w2 by (simp add: T_def)
  have N: "N mod 8 = 0" "N < 2 ^ 32" unfolding N_def using bd(2,3) bd2(2,3) by (presburger, simp)
  have nxt: "of_nat T = heap_marker_next h (of_nat A)" using block_next [OF blk] by (simp add: T_def)
  have free: "(msize h (of_nat A) OR msize h (of_nat T)) AND 1 = 0"
    unfolding w w2' using enc_taken_iff [OF bd(3), of False] enc_taken_iff [OF bd2(3), of False] by (simp add: bit.conj_disj_distrib2)
  define h1 where "h1 = set_msize (of_nat A) (msize h (of_nat A) + ((msize h (of_nat T) AND NOT 3) + 8)) h"
  have t1: "msize h1 (of_nat T) = msize h (of_nat T)"
    unfolding h1_def msize_def h_mem_set by (simp only: upd_at [OF T(1,3)] T(4) if_False)
  have a1: "msize h1 (of_nat A) = msize h (of_nat A) + ((msize h (of_nat T) AND NOT 3) + 8)"
    unfolding h1_def by (simp add: msize_def)
  have val: "msize h1 (of_nat A) OR (msize h1 (of_nat T) AND 2) = enc N False (ys = [])"
    unfolding a1 t1 w w2' N_def by (rule enc_sum [OF bd(3) bd2(3)])
  define h2 where "h2 = set_msize (of_nat A) (enc N False (ys = [])) h1"
  have a2: "msize h2 (of_nat A) = enc N False (ys = [])" by (simp add: h2_def msize_def)
  define E where "E = A + 8 + N"
  have E: "E < 2 ^ 32" "(of_nat E :: u32) + 4 = of_nat (E + 4)" "of_nat A + 8 + (of_nat N :: u32) = of_nat E"
    using bd2(2) by (simp_all add: E_def N_def)
  have E0: "(of_nat E :: u32) \<noteq> 0" using addr_eq_iff [OF E(1), of 0] by (simp add: E_def)
  have nxt2: "heap_marker_next h2 (of_nat A) = (if ys = [] then 0 else of_nat E)"
    unfolding heap_marker_next_def a2 enc_simps(1) [OF N(1)] enc_simps(3) [OF N(1)] div_8_times [OF N(2,1)] E(3) by simp
  define h3 where "h3 = (if ys = [] then h2 else set_msize_prev (of_nat E) (of_nat N) h2)"
  have h'': "h' = set_msize (of_nat T) (- 1) (set_msize_prev (of_nat T) (- 1) h3)"
    unfolding h' T_def [symmetric] heap_marker_join_def Let_def nxt [symmetric] h1_def [symmetric] val h2_def [symmetric]
      nxt2 a2 enc_simps(1) [OF N(1)] using free E0 by (simp add: h3_def)
  show "h_memory h' = h_memory h" "h_size h' = h_size h" by (simp_all add: h'' h3_def h2_def h1_def)
  have E4: "E + 4 < 2 ^ 32" if "ys \<noteq> []" using that bd2(2) by (cases ys) (auto simp: E_def N_def)
  show "h_mem h' (of_nat x) = (if x = A + 8 + n then - 1 else if x = A + 8 + n + 4 then - 1
      else if ys \<noteq> [] \<and> x = A + 8 + (n + 8 + m) + 4 then of_nat (n + 8 + m)
      else if x = A then enc (n + 8 + m) False (ys = []) else h_mem h (of_nat x))"
  proof (cases "ys = []")
    case True
    then show ?thesis
      unfolding h'' h3_def if_P [OF True] h2_def h1_def h_mem_set T(7) fun_upd_upd
      by (simp only: upd_at [OF x T(1)] upd_at [OF x T(2)] upd_at [OF x T(3)])
        (simp only: T_def N_def not_True_eq_False simp_thms if_False)
  next
    case False
    then show ?thesis
      unfolding h'' h3_def if_not_P [OF False] h2_def h1_def h_mem_set T(7) fun_upd_upd E(2)
      by (simp only: upd_at [OF x T(1)] upd_at [OF x T(2)] upd_at [OF x T(3)] upd_at [OF x E4 [OF False]])
        (simp only: T_def N_def E_def not_False_eq_True simp_thms)
  qed
qed

lemma join_block:
  assumes blk: "block_at h xs (n, False) ((m, False) # ys) A"
    and h': "h' = heap_marker_join (of_nat A) (of_nat (A + 8 + n)) h"
  shows "heap_rep h' (xs @ (n + 8 + m, False) # ys) \<and> only_block A 0 (8 + (n + 8 + m)) h h'"
proof -
  note bd = block_bounds [OF blk, simplified]
  note w = block_words [OF blk, simplified]
  note mem = join_mem(1) [OF blk h']
  have rep: "heap_rep h (xs @ [(n, False), (m, False)] @ ys)" "A = unat (h_memory h) + total xs"
    using blk by (simp_all add: block_at_def)
  have m8: "m mod 8 = 0" using rep(1) by (simp add: heap_rep_def)
  have A: "A < 2 ^ 32" "A + 4 < 2 ^ 32" using bd(2) by simp_all
  have same: "h_size h' = h_size h" "h_memory h' = h_memory h" using join_mem(2,3) [OF blk h' A(1)] by simp_all
  then have ob: "only_block A 0 (8 + (n + 8 + m)) h h'" unfolding only_block_def by (auto simp: mem)
  have "heap_rep h' (xs @ [(n + 8 + m, False)] @ ys)"
  proof (rule rep_replace [OF rep])
    show "layout_at (h_mem h') A (last_size 0 xs) (ys = []) [(n + 8 + m, False)]"
      using w(2) mem [OF A(1)] mem [OF A(2)] bd(4) by (simp add: msize_prev_def)
    show "msize_prev h' (of_nat (A + total [(n, False), (m, False)])) = of_nat (last_size 0 [(n + 8 + m, False)])"
      if "ys \<noteq> []"
    proof -
      have "A + 8 + (n + 8 + m) + 4 < 2 ^ 32" using bd(2) that by (cases ys) auto
      from mem [OF this] that show ?thesis by (simp add: msize_prev_def add.assoc)
    qed
    show "\<And>x. x < 2 ^ 32 \<Longrightarrow> x < A \<or> A + total [(n, False), (m, False)] \<le> x
        \<Longrightarrow> x \<noteq> A + total [(n, False), (m, False)] + 4 \<Longrightarrow> h_mem h' (of_nat x) = h_mem h (of_nat x)"
      using ob by (auto simp: only_block_def)
    show "\<forall>b\<in>set [(n + 8 + m, False)]. fst b mod 8 = 0 \<and> 8 \<le> fst b"
    proof -
      have "(n + 8 + m) mod 8 = 0" using bd(3) m8 by presburger
      then show ?thesis by simp
    qed
  qed (use same in simp_all)
  with ob show ?thesis by simp
qed

lemma keeps_contents_trans:
  assumes "keeps_contents bs h h1" "keeps_contents bs' h1 h2"
    "contents (unat (h_memory h)) bs' \<subseteq> contents (unat (h_memory h)) bs"
  shows "keeps_contents bs' h h2"
  using assms by (auto simp: keeps_contents_def)

text \<open>A block that becomes free is merged with the free blocks beside it.\<close>

definition merge_prev :: "blocks \<Rightarrow> nat \<Rightarrow> blocks \<times> nat" where
  "merge_prev xs n = (if xs \<noteq> [] \<and> \<not> snd (last xs) then (butlast xs, fst (last xs) + 8 + n) else (xs, n))"

definition merge_next :: "nat \<Rightarrow> blocks \<Rightarrow> blocks" where
  "merge_next n ys = (if ys \<noteq> [] \<and> \<not> snd (hd ys) then (n + 8 + fst (hd ys), False) # tl ys else (n, False) # ys)"

definition free_at :: "blocks \<Rightarrow> nat \<Rightarrow> blocks \<Rightarrow> blocks" where
  "free_at xs n ys = (case merge_prev xs n of (zs, m) \<Rightarrow> zs @ merge_next m ys)"

text \<open>What the code leaves in the marker of a block it freed: a free block, or two words of ones.\<close>

definition freed_marker :: "heap_ctxt \<Rightarrow> nat \<Rightarrow> bool" where
  "freed_marker h A \<longleftrightarrow> msize h (of_nat A) AND 1 = 0 \<or> (msize h (of_nat A) = - 1 \<and> msize_prev h (of_nat A) = - 1)"

lemma freed_marker_free: "block_at h xs (n, False) ys A \<Longrightarrow> freed_marker h A"
  using block_words(1) [of h xs "(n, False)" ys A] block_bounds(3) [of h xs "(n, False)" ys A] enc_taken_iff [of n False]
  by (simp add: freed_marker_def)

lemma join_keeps:
  assumes blk: "block_at h xs (n, False) ((m, False) # ys) A"
    and h': "h' = heap_marker_join (of_nat A) (of_nat (A + 8 + n)) h"
  shows "block_at h' xs (n + 8 + m, False) ys A \<and> keeps_contents (xs @ (n + 8 + m, False) # ys) h h'"
proof -
  note j = join_block [OF assms]
  have "keeps_contents (xs @ [(n + 8 + m, False)] @ ys) h h'"
    using j block_bounds(2) [OF blk] blk
    by (intro keeps_contents_intro [where A = A and n = "8 + (n + 8 + m)" and k = 0]) (auto simp: block_at_def)
  moreover have "block_at h' xs (n + 8 + m, False) ys A"
    using j blk by (simp add: block_at_def only_block_def)
  ultimately show ?thesis by simp
qed

lemma heap_free_rep:
  assumes blk: "block_at h xs (n, True) ys A" and fit: "unat (h_memory h) + 8 * unat (h_size h) < 2 ^ 32"
  shows "\<exists>h'. heap_free (of_nat (A + 8)) h = (True, h') \<and> heap_rep h' (free_at xs n ys)
    \<and> keeps_contents (free_at xs n ys) h h' \<and> freed_marker h' A"
proof -
  note bd = block_bounds [OF blk, simplified]
  note w = block_words [OF blk, simplified]
  have tmp: "(of_nat (A + 8) :: u32) - 8 = of_nat A" by simp
  have uA: "unat (of_nat A :: u32) = A" using bd(2) by (intro unat_addr) simp
  have A: "unat (h_memory h) \<le> A" "A < unat (h_memory h) + unat (h_size h)"
    using blk by (auto simp: block_at_def heap_rep_def)
  have "unat (h_memory h + 8 * h_size h) = unat (h_memory h) + 8 * unat (h_size h)"
    using fit by (simp add: unat_word_ariths)
  then have range: "\<not> (of_nat A < h_memory h \<or> of_nat A \<ge> h_memory h + 8 * h_size h)"
    unfolding word_less_nat_alt word_le_nat_alt uA using A by simp
  define prv where "prv = heap_marker_prev h (of_nat A)"
  define nxt where "nxt = heap_marker_next h (of_nat A)"
  define h1 where "h1 = set_msize (of_nat A) (enc n False (ys = [])) h"
  have f1: "block_at h1 xs (n, False) ys A" "keeps_contents (xs @ (n, False) # ys) h h1"
  proof -
    have sf: "heap_rep h1 (xs @ (n, False) # ys) \<and> only_block A n (8 + n) h h1" by (rule set_flag [OF blk h1_def])
    then show "block_at h1 xs (n, False) ys A" using blk by (simp add: block_at_def only_block_def)
    have "keeps_contents (xs @ [(n, False)] @ ys) h h1"
      using sf bd(2) blk by (intro keeps_contents_intro [where A = A and n = "8 + n" and k = n]) (auto simp: block_at_def)
    then show "keeps_contents (xs @ (n, False) # ys) h h1" by simp
  qed
  have size: "msize h (of_nat A) AND NOT 3 = of_nat n" "msize h (of_nat A) AND 1 \<noteq> 0"
      "msize h (of_nat A) AND NOT 1 = enc n False (ys = [])"
    unfolding w using enc_simps(1,6) [OF bd(3)] enc_taken_iff [OF bd(3), of True] by simp_all
  have prev_ok: "prv = 0 \<or> msize_prev h (of_nat A) = (msize h prv AND NOT 3)"
  proof (cases xs rule: rev_cases)
    case (snoc xs' c)
    note pb = block_at_prev [OF blk [unfolded snoc]]
    have "prv = of_nat (A - 8 - fst c)" unfolding prv_def block_prev [OF blk] using snoc by simp
    then show ?thesis using w(2) snoc enc_simps(1) [OF block_bounds(3) [OF pb]] block_words(1) [OF pb] by simp
  qed (simp add: prv_def block_prev [OF blk])
  have next_ok: "nxt = 0 \<or> msize_prev h nxt = (msize h (of_nat A) AND NOT 3)"
  proof (cases ys)
    case (Cons y zs)
    then show ?thesis unfolding nxt_def block_next [OF blk] size(1) using next_size_prev [OF blk [unfolded Cons]] by simp
  qed (simp add: nxt_def block_next [OF blk])
  define jp where "jp = (prv \<noteq> 0 \<and> msize h1 prv AND 1 = 0)"
  define h2 where "h2 = (if jp then heap_marker_join prv (of_nat A) h1 else h1)"
  define mk where "mk = (if jp then prv else of_nat A)"
  define h3 where "h3 = (if nxt \<noteq> 0 \<and> msize h2 nxt AND 1 = 0 then heap_marker_join mk nxt h2 else h2)"
  have code: "heap_free (of_nat (A + 8)) h = (True, h3)"
    unfolding heap_free_def Let_def tmp if_not_P [OF range] prv_def [symmetric] nxt_def [symmetric] size(3)
      h1_def [symmetric] jp_def [symmetric] h2_def [symmetric] mk_def [symmetric] h3_def [symmetric]
    using prev_ok next_ok size(2) by auto
  obtain zs m where mp: "merge_prev xs n = (zs, m)" by fastforce
  have "\<exists>A'. block_at h2 zs (m, False) ys A' \<and> keeps_contents (zs @ (m, False) # ys) h h2 \<and> mk = of_nat A'
      \<and> A' + 8 + m = A + 8 + n \<and> (A' = A \<or> A' < A \<and> msize h2 (of_nat A) = - 1 \<and> msize_prev h2 (of_nat A) = - 1)"
  proof (cases xs rule: rev_cases)
    case Nil
    then have "\<not> jp" "zs = xs" "m = n"
      using mp by (simp_all add: jp_def prv_def block_prev [OF blk] merge_prev_def)
    then show ?thesis using f1 by (simp add: h2_def mk_def)
  next
    case (snoc xs' c)
    note pb = block_at_prev [OF f1(1) [unfolded snoc]]
    note pbd = block_bounds [OF pb]
    have prv: "prv = of_nat (A - 8 - fst c)" unfolding prv_def block_prev [OF blk] using snoc by simp
    have "A - 8 - fst c < 2 ^ 32" using bd(2) by simp
    then have "prv \<noteq> 0" unfolding prv using addr_eq_iff [of "A - 8 - fst c" 0] pbd(1) by auto
    then have jp: "jp \<longleftrightarrow> \<not> snd c"
      unfolding jp_def prv block_words(1) [OF pb] using enc_taken_iff [OF pbd(3)] by simp
    have A': "A - 8 - fst c + 8 + fst c = A" using pbd(1) bd(1) blk snoc by (auto simp: block_at_def heap_rep_def)
    show ?thesis
    proof (cases "snd c")
      case True
      then have "zs = xs" "m = n" using mp snoc by (simp_all add: merge_prev_def)
      then show ?thesis using True jp f1 by (simp add: h2_def mk_def)
    next
      case False
      then have c: "c = (fst c, False)" by (simp add: prod_eq_iff)
      have pb': "block_at h1 xs' (fst c, False) ((n, False) # ys) (A - 8 - fst c)" using pb c by simp
      have "h2 = heap_marker_join (of_nat (A - 8 - fst c)) (of_nat (A - 8 - fst c + 8 + fst c)) h1"
        unfolding h2_def A' using jp False prv by simp
      note jk = join_keeps [OF pb' this] and jm = join_mem(1) [OF pb' this]
      have "msize h2 (of_nat A) = - 1" "msize_prev h2 (of_nat A) = - 1"
        using jm [of A] jm [of "A + 4"] A' bd(2) by (simp_all add: msize_def msize_prev_def)
      moreover have "zs = xs'" "m = fst c + 8 + n" using mp snoc False by (simp_all add: merge_prev_def)
      moreover have "keeps_contents (xs' @ (fst c + 8 + n, False) # ys) h h2"
        using jk by (intro keeps_contents_trans [OF f1(2)]) (auto simp: snoc False add.assoc)
      ultimately show ?thesis using jk jp False prv A' by (intro exI [of _ "A - 8 - fst c"]) (simp add: mk_def)
    qed
  qed
  then obtain A' where s2: "block_at h2 zs (m, False) ys A'" "keeps_contents (zs @ (m, False) # ys) h h2"
    "mk = of_nat A'" "A' + 8 + m = A + 8 + n"
    "A' = A \<or> A' < A \<and> msize h2 (of_nat A) = - 1 \<and> msize_prev h2 (of_nat A) = - 1" by blast
  have fm2: "freed_marker h2 A" using freed_marker_free [OF s2(1)] s2(5) by (auto simp: freed_marker_def)
  have "heap_rep h3 (zs @ merge_next m ys) \<and> keeps_contents (zs @ merge_next m ys) h h3 \<and> freed_marker h3 A"
  proof (cases ys)
    case Nil
    then have "h3 = h2" by (simp add: h3_def nxt_def block_next [OF blk])
    then show ?thesis using s2(1,2) fm2 Nil by (simp add: merge_next_def block_at_def)
  next
    case (Cons d ds)
    note nb = block_at_next [OF s2(1) [unfolded Cons]]
    note nbd = block_bounds [OF nb]
    have nxt: "nxt = of_nat (A' + 8 + m)" unfolding nxt_def block_next [OF blk] s2(4) using Cons by simp
    have "A' + 8 + m < 2 ^ 32" using nbd(2) by simp
    then have "nxt \<noteq> 0" unfolding nxt using addr_eq_iff [of "A' + 8 + m" 0] by simp
    then have jn: "nxt \<noteq> 0 \<and> msize h2 nxt AND 1 = 0 \<longleftrightarrow> \<not> snd d"
      using block_words(1) [OF nb] enc_taken_iff [OF nbd(3)] unfolding nxt by simp
    show ?thesis
    proof (cases "snd d")
      case True
      then have "h3 = h2" unfolding h3_def using jn by auto
      then show ?thesis using s2(1,2) fm2 Cons True by (simp add: merge_next_def block_at_def)
    next
      case False
      then have d: "d = (fst d, False)" by (simp add: prod_eq_iff)
      have nb': "block_at h2 zs (m, False) ((fst d, False) # ds) A'" using s2(1) Cons d by simp
      have "h3 = heap_marker_join (of_nat A') (of_nat (A' + 8 + m)) h2"
        using jn False s2(3) nxt by (simp add: h3_def)
      note jk = join_keeps [OF nb' this] and jm = join_mem(1) [OF nb' this]
      have "freed_marker h3 A"
      proof (cases "A' = A")
        case True
        then show ?thesis using freed_marker_free jk by blast
      next
        case False
        then have "h_mem h3 (of_nat A) = h_mem h2 (of_nat A)" "h_mem h3 (of_nat (A + 4)) = h_mem h2 (of_nat (A + 4))"
          using jm [of A] jm [of "A + 4"] s2(4,5) bd by auto
        then show ?thesis using s2(5) False by (simp add: freed_marker_def msize_def msize_prev_def)
      qed
      moreover have "keeps_contents (zs @ (m + 8 + fst d, False) # ds) h h3"
        using jk by (intro keeps_contents_trans [OF s2(2)]) (auto simp: Cons False add.assoc)
      ultimately show ?thesis using jk Cons False by (simp add: merge_next_def block_at_def)
    qed
  qed
  then show ?thesis using code mp by (simp add: free_at_def)
qed

end
