(* ===== verification/HeapSpec.thy ===== *)
theory HeapSpec
  imports Heap
begin

text \<open>
  What the heap promises: the contract of an allocator (the locale \<open>allocator\<close>), its interpretation on
  \<^verbatim>\<open>malloc\<close> and \<^verbatim>\<open>free\<close> of the hypervisor, and the properties of the heap: what allocation and
  freeing do to the list of blocks, that they undo each other, what happens to a block freed twice
  and to an address outside the heap.
\<close>

section \<open>The invariant\<close>

text \<open>No two free blocks are neighbours.\<close>

primrec coalesced :: "blocks \<Rightarrow> bool" where
  "coalesced [] = True"
| "coalesced (b # bs) = ((bs = [] \<or> snd b \<or> snd (hd bs)) \<and> coalesced bs)"

lemma coalesced_append:
  "coalesced (xs @ ys) \<longleftrightarrow> coalesced xs \<and> coalesced ys \<and> (xs = [] \<or> ys = [] \<or> snd (last xs) \<or> snd (hd ys))"
  by (induction xs) (auto simp: hd_append)

definition heap_inv :: "heap_ctxt \<Rightarrow> blocks \<Rightarrow> bool" where
  "heap_inv h bs \<longleftrightarrow> heap_rep h bs \<and> coalesced bs \<and> unat (h_memory h) + 8 * unat (h_size h) < 2 ^ 32"

lemma alloc_coalesced:
  assumes "coalesced (xs @ (n, False) # ys)"
  shows "coalesced (xs @ alloc_blocks k n @ ys)"
  using assms by (auto simp: coalesced_append alloc_blocks_def)

lemma free_coalesced:
  assumes "coalesced (xs @ (n, True) # ys)"
  shows "coalesced (free_at xs n ys)"
proof -
  obtain zs m where zm: "merge_prev xs n = (zs, m)" by fastforce
  have "coalesced zs \<and> (zs = [] \<or> snd (last zs))"
  proof (cases xs rule: rev_cases)
    case (snoc us c)
    then have "zs = (if snd c then us @ [c] else us)" using zm by (auto simp: merge_prev_def split: if_splits)
    moreover have "coalesced us" "us = [] \<or> snd (last us) \<or> snd c" using assms snoc by (auto simp: coalesced_append)
    ultimately show ?thesis by (auto simp: coalesced_append)
  qed (use zm in \<open>simp add: merge_prev_def\<close>)
  moreover have "coalesced (merge_next m ys)"
    using assms by (cases ys) (auto simp: merge_next_def coalesced_append)
  ultimately show ?thesis unfolding free_at_def zm by (auto simp: coalesced_append)
qed

lemma free_after_alloc:
  assumes "coalesced (xs @ (n, False) # ys)" "k mod 8 = 0" "n mod 8 = 0" "k \<le> n"
  shows "alloc_blocks k n @ ys = (fst (hd (alloc_blocks k n)), True) # tl (alloc_blocks k n) @ ys"
    and "free_at xs (fst (hd (alloc_blocks k n))) (tl (alloc_blocks k n) @ ys) = xs @ (n, False) # ys"
proof -
  have "\<not> (xs \<noteq> [] \<and> \<not> snd (last xs))" "\<not> (ys \<noteq> [] \<and> \<not> snd (hd ys))"
    using assms(1) by (auto simp: coalesced_append)
  then show "free_at xs (fst (hd (alloc_blocks k n))) (tl (alloc_blocks k n) @ ys) = xs @ (n, False) # ys"
    using assms(4) by (auto simp: free_at_def merge_prev_def merge_next_def alloc_blocks_def)
  show "alloc_blocks k n @ ys = (fst (hd (alloc_blocks k n)), True) # tl (alloc_blocks k n) @ ys"
    by (simp add: alloc_blocks_def)
qed

text \<open>A heap holds one list of blocks only.\<close>

lemma layout_unique:
  assumes "layout_at M a p True bs" "layout_at M a p True cs" "bs \<noteq> []" "cs \<noteq> []"
    "\<forall>b\<in>set bs. fst b mod 8 = 0 \<and> fst b < 2 ^ 32" "\<forall>b\<in>set cs. fst b mod 8 = 0 \<and> fst b < 2 ^ 32"
  shows "bs = cs"
  using assms
proof (induction bs arbitrary: a p cs)
  case (Cons b bs)
  obtain c cs' where cs: "cs = c # cs'" using Cons.prems(4) by (cases cs) auto
  have eq: "enc (fst b) (snd b) (bs = []) = enc (fst c) (snd c) (cs' = [])"
    using Cons.prems(1,2) unfolding cs by simp
  have m: "fst b mod 8 = 0" "fst c mod 8 = 0" "fst b < 2 ^ 32" "fst c < 2 ^ 32" using Cons.prems(5,6) cs by simp_all
  have "(of_nat (fst b) :: u32) = of_nat (fst c)" using arg_cong [OF eq, of "\<lambda>w. w AND NOT 3"] enc_simps(1) m by simp
  then have "fst b = fst c" using m addr_eq_iff by blast
  moreover have "snd b = snd c" using arg_cong [OF eq, of "\<lambda>w. w AND 1 = 0"] enc_taken_iff m by simp
  moreover have "(bs = []) = (cs' = [])"
    using arg_cong [OF eq, of "\<lambda>w. w AND 2"] enc_simps(3) m by (auto split: if_splits)
  moreover have "bs = cs'" if "bs \<noteq> []" "cs' \<noteq> []"
    using Cons.IH [of "a + 8 + fst b" "fst b" cs'] Cons.prems cs that \<open>fst b = fst c\<close> by simp
  ultimately show ?case using cs by (auto simp: prod_eq_iff)
qed simp

lemma heap_rep_unique: "heap_rep h bs \<Longrightarrow> heap_rep h cs \<Longrightarrow> bs = cs"
proof -
  assume r: "heap_rep h bs" "heap_rep h cs"
  have sz: "fst b \<le> total ds" if "b \<in> set ds" for b and ds :: blocks using that by (induction ds) auto
  have ok: "\<forall>b\<in>set ds. fst b mod 8 = 0 \<and> fst b < 2 ^ 32" if "heap_rep h ds" for ds
  proof
    fix b assume "b \<in> set ds"
    from sz [OF this] show "fst b mod 8 = 0 \<and> fst b < 2 ^ 32" using \<open>heap_rep h ds\<close> \<open>b \<in> set ds\<close>
      by (auto simp: heap_rep_def)
  qed
  have lay: "layout_at (h_mem h) (unat (h_memory h)) 0 True ds" "ds \<noteq> []" if "heap_rep h ds" for ds
    using that by (simp_all add: heap_rep_def)
  show "bs = cs" by (rule layout_unique [OF lay(1) lay(1) lay(2) lay(2) ok ok]) (rule r)+
qed

section \<open>Creating the heap\<close>

lemma heap_init_rep:
  assumes "16 \<le> unat sz" "8 \<le> unat memory" "unat memory + unat sz < 2 ^ 32"
  shows "heap_rep (heap_init sz memory h) [(unat sz div 8 * 8 - 8, False)]"
    and "unat (h_size (heap_init sz memory h)) = unat sz div 8 * 8" "h_memory (heap_init sz memory h) = memory"
proof -
  let ?S = "unat sz div 8 * 8"
  have u: "unat (sz AND NOT 7) = ?S"
  proof -
    have "sz AND NOT 7 = push_bit 3 (drop_bit 3 sz)" by (simp add: shl_drop_eq_and_not_mask low_masks)
    moreover have "?S < 2 ^ 32" using assms(3) div_times_less_eq_dividend [of "unat sz" 8] by simp
    ultimately show ?thesis by (simp add: push_bit_eq_mult drop_bit_eq_div unat_word_ariths unat_div)
  qed
  have S: "16 \<le> ?S" "?S mod 8 = 0" "(?S - 8) mod 8 = 0" "?S \<le> unat sz" using assms(1) by presburger+
  have "(sz AND NOT 7) - 8 = of_nat (?S - 8)"
  proof -
    have "(of_nat ?S :: u32) = sz AND NOT 7" unfolding u [symmetric] by simp
    then show ?thesis using S(1) by (simp add: of_nat_diff)
  qed
  then have w: "(sz AND NOT 7) - 8 OR 2 = enc (?S - 8) False True" by (simp add: enc_def)
  have m4: "memory + 4 \<noteq> memory" by simp
  show sz: "unat (h_size (heap_init sz memory h)) = ?S" "h_memory (heap_init sz memory h) = memory"
    using u by (simp_all add: heap_init_def Let_def)
  show "heap_rep (heap_init sz memory h) [(?S - 8, False)]"
  proof -
    have "?S - 8 + 8 = ?S" "8 \<le> ?S - 8" "unat memory + ?S < 2 ^ 32" using S(1,4) assms(3) by linarith+
    then show ?thesis
      unfolding heap_rep_def using sz S(3) assms(2) w by (simp add: heap_init_def Let_def)
  qed
qed

section \<open>The regions in use\<close>

text \<open>Address and size of the contents of the taken blocks.\<close>

primrec regions :: "nat \<Rightarrow> blocks \<Rightarrow> (nat \<times> nat) set" where
  "regions a [] = {}"
| "regions a (b # bs) = (if snd b then {(a + 8, fst b)} else {}) \<union> regions (a + 8 + fst b) bs"

lemma regions_append [simp]: "regions a (xs @ ys) = regions a xs \<union> regions (a + total xs) ys"
  by (induction xs arbitrary: a) (auto simp: add.assoc)

lemma regions_bounds: "(x, m) \<in> regions a bs \<Longrightarrow> a + 8 \<le> x \<and> x + m \<le> a + total bs"
  by (induction bs arbitrary: a) (fastforce split: if_splits)+

lemma regions_block: "(x, m) \<in> regions a bs \<Longrightarrow> \<exists>xs ys. bs = xs @ (m, True) # ys \<and> x = a + total xs + 8"
proof (induction bs arbitrary: a)
  case (Cons b bs)
  show ?case
  proof (cases "(x, m) \<in> regions (a + 8 + fst b) bs")
    case True
    then obtain xs ys where "bs = xs @ (m, True) # ys" "x = a + 8 + fst b + total xs + 8" using Cons.IH by blast
    then show ?thesis by (intro exI [of _ "b # xs"] exI [of _ ys]) simp
  next
    case False
    then have "snd b" "x = a + 8" "m = fst b" using Cons.prems by (auto split: if_splits)
    then show ?thesis by (intro exI [of _ "[]"] exI [of _ bs]) (simp add: prod_eq_iff)
  qed
qed simp

lemma regions_disjoint:
  "r \<in> regions a bs \<Longrightarrow> q \<in> regions a bs \<Longrightarrow> r \<noteq> q \<Longrightarrow> fst r + snd r \<le> fst q \<or> fst q + snd q \<le> fst r"
proof (induction bs arbitrary: a)
  case (Cons b bs)
  have far: "a + 8 + fst b \<le> fst z" if "z \<in> regions (a + 8 + fst b) bs" for z
    using regions_bounds [of "fst z" "snd z"] that by fastforce
  show ?case using Cons.prems Cons.IH [of "a + 8 + fst b"] far [of r] far [of q] by (auto split: if_splits)
qed simp

lemma regions_contents: "(x, m) \<in> regions a bs \<Longrightarrow> x \<le> y \<Longrightarrow> y < x + m \<Longrightarrow> y \<in> contents a bs"
  by (induction bs arbitrary: a) (auto split: if_splits)

lemma regions_alloc:
  "regions a (xs @ alloc_blocks k n @ ys) = insert (a + total xs + 8, fst (hd (alloc_blocks k n))) (regions a (xs @ (n, False) # ys))"
  if "k \<le> n"
proof (cases "n - k > 8")
  case True
  then have "a + total xs + 8 + k + 8 + (n - k - 8) = a + total xs + 8 + n" by simp
  with True show ?thesis by (simp add: alloc_blocks_def Un_insert_right algebra_simps)
qed (simp add: alloc_blocks_def Un_insert_right)

lemma regions_free:
  "regions a (free_at xs n ys) = regions a (xs @ (n, False) # ys)"
proof -
  obtain zs m where zm: "merge_prev xs n = (zs, m)" by fastforce
  have "regions a (zs @ (m, False) # ys) = regions a (xs @ (n, False) # ys)"
    using zm by (cases xs rule: rev_cases) (auto simp: merge_prev_def add.assoc split: if_splits)
  moreover have "regions b (merge_next m ys) = regions b ((m, False) # ys)" for b
    by (cases ys) (auto simp: merge_next_def add.assoc)
  ultimately show ?thesis unfolding free_at_def zm by simp
qed

definition heap_ok :: "heap_ctxt \<Rightarrow> bool" where
  "heap_ok h \<longleftrightarrow> (\<exists>bs. heap_inv h bs)"

definition in_use :: "heap_ctxt \<Rightarrow> (nat \<times> nat) set" where
  "in_use h = {r. \<exists>bs. heap_inv h bs \<and> r \<in> regions (unat (h_memory h)) bs}"

lemma in_use_eq: "heap_inv h bs \<Longrightarrow> in_use h = regions (unat (h_memory h)) bs"
  using heap_rep_unique by (auto simp: in_use_def heap_inv_def)

section \<open>The contract of an allocator\<close>

text \<open>
  \<open>regs\<close> are the regions handed out and not released yet. Allocating adds a region of at least
  the size asked for or returns the null pointer, releasing removes one; both leave the
  contents of the other regions alone, and regions never overlap.
\<close>

locale allocator =
  fixes alloc :: "u32 \<Rightarrow> 's \<Rightarrow> (u32 \<times> 's) outcome"
    and release :: "u32 \<Rightarrow> 's \<Rightarrow> 's"
    and ok :: "'s \<Rightarrow> bool"
    and regs :: "'s \<Rightarrow> (nat \<times> nat) set"
    and word_at :: "'s \<Rightarrow> u32 \<Rightarrow> u32"
  assumes alloc_works: "ok s \<Longrightarrow> 1 \<le> sint n \<Longrightarrow> sint n + 7 < 2 ^ 31 \<Longrightarrow>
      \<exists>p t. alloc n s = Ret (p, t) \<and> ok t
        \<and> (if p = 0 then t = s else \<exists>m\<ge>unat n. (unat p, m) \<notin> regs s \<and> regs t = insert (unat p, m) (regs s))"
    and alloc_keeps: "ok s \<Longrightarrow> alloc n s = Ret (p, t) \<Longrightarrow> (a, m) \<in> regs s \<Longrightarrow> a \<le> x \<Longrightarrow> x < a + m \<Longrightarrow>
      word_at t (of_nat x) = word_at s (of_nat x)"
    and release_works: "ok s \<Longrightarrow> (unat p, m) \<in> regs s \<Longrightarrow> ok (release p s) \<and> regs (release p s) = regs s - {(unat p, m)}"
    and release_keeps: "ok s \<Longrightarrow> (unat p, k) \<in> regs s \<Longrightarrow> (a, m) \<in> regs (release p s) \<Longrightarrow> a \<le> x \<Longrightarrow> x < a + m \<Longrightarrow>
      word_at (release p s) (of_nat x) = word_at s (of_nat x)"
    and regs_disjoint: "ok s \<Longrightarrow> r \<in> regs s \<Longrightarrow> q \<in> regs s \<Longrightarrow> r \<noteq> q \<Longrightarrow>
      fst r + snd r \<le> fst q \<or> fst q + snd q \<le> fst r"
begin

text \<open>Allocating for each size of a list until one allocation fails, and releasing a list of regions.\<close>

primrec alloc_all :: "u32 list \<Rightarrow> 's \<Rightarrow> (u32 list \<times> 's) outcome" where
  "alloc_all [] s = Ret ([], s)"
| "alloc_all (n # ns) s = and_then (alloc n s) (\<lambda>(p, t).
     if p = 0 then Ret ([], t) else and_then (alloc_all ns t) (\<lambda>(ps, u). Ret (p # ps, u)))"

lemma alloc_all_regions:
  assumes "ok s" "\<forall>n\<in>set ns. 1 \<le> sint n \<and> sint n + 7 < 2 ^ 31"
  shows "\<exists>ps ms t. alloc_all ns s = Ret (ps, t) \<and> ok t \<and> length ps \<le> length ns \<and> length ms = length ps
    \<and> (\<forall>i<length ps. unat (ns ! i) \<le> ms ! i) \<and> distinct (zip (map unat ps) ms)
    \<and> set (zip (map unat ps) ms) \<inter> regs s = {} \<and> regs t = regs s \<union> set (zip (map unat ps) ms)"
  using assms
proof (induction ns arbitrary: s)
  case (Cons n ns)
  obtain p t where pt: "alloc n s = Ret (p, t)" "ok t"
    "if p = 0 then t = s else \<exists>m\<ge>unat n. (unat p, m) \<notin> regs s \<and> regs t = insert (unat p, m) (regs s)"
    using alloc_works [of s n] Cons.prems by auto
  show ?case
  proof (cases "p = 0")
    case True
    then show ?thesis using pt Cons.prems(1) by (intro exI [of _ "[]"] exI [of _ s]) simp
  next
    case False
    then obtain m where m: "unat n \<le> m" "(unat p, m) \<notin> regs s" "regs t = insert (unat p, m) (regs s)" using pt(3) by auto
    obtain ps ms u where ih: "alloc_all ns t = Ret (ps, u)" "ok u" "length ps \<le> length ns" "length ms = length ps"
      "\<forall>i<length ps. unat (ns ! i) \<le> ms ! i" "distinct (zip (map unat ps) ms)"
      "set (zip (map unat ps) ms) \<inter> regs t = {}" "regs u = regs t \<union> set (zip (map unat ps) ms)"
      using Cons.IH [OF pt(2)] Cons.prems(2) by auto
    have "\<forall>i<length (p # ps). unat ((n # ns) ! i) \<le> (m # ms) ! i"
      using m(1) ih(5) by (auto simp: nth_Cons split: nat.split)
    then show ?thesis using pt(1) False m ih
      by (intro exI [of _ "p # ps"] exI [of _ "m # ms"] exI [of _ u]) auto
  qed
qed simp

lemma release_all_regions:
  assumes "ok s" "set rs \<subseteq> regs s" "distinct rs" "\<forall>r\<in>set rs. fst r < 2 ^ 32"
  shows "ok (fold (\<lambda>r. release (of_nat (fst r))) rs s)
    \<and> regs (fold (\<lambda>r. release (of_nat (fst r))) rs s) = regs s - set rs"
  using assms
proof (induction rs arbitrary: s)
  case (Cons r rs)
  have "unat (of_nat (fst r) :: u32) = fst r" using Cons.prems(4) by (simp add: unat_addr)
  then have w: "ok (release (of_nat (fst r)) s)" "regs (release (of_nat (fst r)) s) = regs s - {r}"
    using release_works [of s "of_nat (fst r)" "snd r"] Cons.prems by auto
  have "set rs \<subseteq> regs (release (of_nat (fst r)) s)" unfolding w(2) using Cons.prems(2,3) by auto
  from Cons.IH [OF w(1) this] Cons.prems(3,4) show ?case unfolding w(2) by auto
qed simp

end

section \<open>The heap is an allocator\<close>

lemma malloc_inv:
  assumes "heap_inv h bs" "1 \<le> sint n" "sint n + 7 < 2 ^ 31"
  shows "(malloc n h = Ret (0, h) \<and> (\<forall>b\<in>set bs. \<not> fits (round8 (unat n)) b))
    \<or> (\<exists>xs b ys A h'. bs = xs @ b # ys \<and> best_fit (round8 (unat n)) xs b ys \<and> A = unat (h_memory h) + total xs
        \<and> malloc n h = Ret (of_nat (A + 8), h') \<and> heap_inv h' (xs @ alloc_blocks (round8 (unat n)) (fst b) @ ys)
        \<and> keeps_contents (xs @ alloc_blocks (round8 (unat n)) (fst b) @ ys) h h')"
proof -
  have rep: "heap_rep h bs" using assms(1) by (simp add: heap_inv_def)
  from heap_alloc_rep [OF rep assms(2,3)] show ?thesis
  proof (elim disjE exE conjE)
    fix xs b ys A h'
    assume r: "bs = xs @ b # ys" "best_fit (round8 (unat n)) xs b ys" "A = unat (h_memory h) + total xs"
      "heap_alloc n h = Ret (of_nat (A + 8), h')" "heap_rep h' (xs @ alloc_blocks (round8 (unat n)) (fst b) @ ys)"
      "keeps_contents (xs @ alloc_blocks (round8 (unat n)) (fst b) @ ys) h h'"
    have "b = (fst b, False)" using r(2) by (simp add: best_fit_def fits_def prod_eq_iff)
    then have "coalesced (xs @ alloc_blocks (round8 (unat n)) (fst b) @ ys)"
      using alloc_coalesced [of xs "fst b" ys] assms(1) r(1) by (simp add: heap_inv_def)
    then have "heap_inv h' (xs @ alloc_blocks (round8 (unat n)) (fst b) @ ys)"
      using r(5,6) assms(1) by (simp add: heap_inv_def keeps_contents_def)
    then show ?thesis using r unfolding malloc_def by blast
  qed (simp add: malloc_def)
qed

lemma free_inv:
  assumes "heap_inv h (xs @ (n, True) # ys)" "A = unat (h_memory h) + total xs"
  shows "\<exists>h'. free (of_nat (A + 8)) h = h' \<and> heap_free (of_nat (A + 8)) h = (True, h') \<and> heap_inv h' (free_at xs n ys)
    \<and> keeps_contents (free_at xs n ys) h h' \<and> freed_marker h' A"
proof -
  have blk: "block_at h xs (n, True) ys A" and fit: "unat (h_memory h) + 8 * unat (h_size h) < 2 ^ 32"
    and co: "coalesced (xs @ (n, True) # ys)"
    using assms by (simp_all add: heap_inv_def block_at_def)
  from heap_free_rep [OF blk fit] obtain h' where h': "heap_free (of_nat (A + 8)) h = (True, h')"
    "heap_rep h' (free_at xs n ys)" "keeps_contents (free_at xs n ys) h h'" "freed_marker h' A" by blast
  have "A + 8 < 2 ^ 32" using block_bounds(2) [OF blk] by simp
  then have "(of_nat (A + 8) :: u32) \<noteq> 0" using addr_eq_iff [of "A + 8" 0] by simp
  moreover have "heap_inv h' (free_at xs n ys)"
    using h'(2,3) fit free_coalesced [OF co] by (simp add: heap_inv_def keeps_contents_def)
  ultimately show ?thesis using h' by (simp add: free_def)
qed

lemma in_use_block:
  assumes "heap_ok h" "(x, m) \<in> in_use h"
  obtains xs ys A where "heap_inv h (xs @ (m, True) # ys)" "A = unat (h_memory h) + total xs" "x = A + 8"
  using assms regions_block unfolding heap_ok_def in_use_def by fastforce

lemma malloc_regions:
  assumes "heap_ok h" "1 \<le> sint n" "sint n + 7 < 2 ^ 31"
  shows "\<exists>p h'. malloc n h = Ret (p, h') \<and> heap_ok h'
    \<and> (if p = 0 then h' = h
       else \<exists>m\<ge>unat n. m \<le> unat n + 15 \<and> (unat p, m) \<notin> in_use h \<and> in_use h' = insert (unat p, m) (in_use h))"
proof -
  obtain bs where inv: "heap_inv h bs" using assms(1) by (auto simp: heap_ok_def)
  from malloc_inv [OF inv assms(2,3)] show ?thesis
  proof (elim disjE exE conjE)
    fix xs ys A h' and b :: "nat \<times> bool"
    let ?k = "round8 (unat n)" and ?bs = "xs @ alloc_blocks (round8 (unat n)) (fst b) @ ys"
    assume r: "bs = xs @ b # ys" "best_fit ?k xs b ys" "A = unat (h_memory h) + total xs"
      "malloc n h = Ret (of_nat (A + 8), h')" "heap_inv h' ?bs" "keeps_contents ?bs h h'"
    have b: "b = (fst b, False)" "?k \<le> fst b" using r(2) by (auto simp: best_fit_def fits_def prod_eq_iff)
    have blk: "block_at h xs (fst b, False) ys A" using inv r(1,3) b(1) by (simp add: heap_inv_def block_at_def)
    have A: "A + 8 < 2 ^ 32" using block_bounds(2) [OF blk] by simp
    then have p: "(of_nat (A + 8) :: u32) \<noteq> 0" "unat (of_nat (A + 8) :: u32) = A + 8"
      using addr_eq_iff [of "A + 8" 0] unat_addr [of "A + 8"] by auto
    let ?m = "fst (hd (alloc_blocks ?k (fst b)))"
    have "in_use h' = insert (A + 8, ?m) (in_use h)"
      unfolding in_use_eq [OF r(5)] in_use_eq [OF inv] r(1)
      using regions_alloc [OF b(2), of "unat (h_memory h)" xs ys] r(6,3) b(1) by (simp add: keeps_contents_def)
    moreover have "(A + 8, ?m) \<notin> in_use h"
    proof
      assume "(A + 8, ?m) \<in> in_use h"
      then have "(A + 8, ?m) \<in> regions (unat (h_memory h)) xs \<or> (A + 8, ?m) \<in> regions (A + 8 + fst b) ys"
        unfolding in_use_eq [OF inv] r(1,3) using b(1) by (cases b) (auto simp: add.assoc)
      then show False
        using regions_bounds [of "A + 8" ?m "unat (h_memory h)" xs] regions_bounds [of "A + 8" ?m "A + 8 + fst b" ys] r(3)
        by auto
    qed
    moreover have "unat n \<le> ?m"
      using round_up_8(4) [OF assms(2,3)] b(2) by (simp add: alloc_blocks_def)
    moreover have "?m \<le> unat n + 15"
      using b(2) div_times_less_eq_dividend [of "unat n + 7" 8] by (auto simp: alloc_blocks_def round8_def)
    ultimately show ?thesis using r(4,5) p by (auto simp: heap_ok_def)
  next
    assume "malloc n h = Ret (0, h)"
    then show ?thesis using assms(1) by simp
  qed
qed

lemma keeps_region:
  assumes "keeps_contents bs h h'" "heap_inv h' bs" "(a, m) \<in> in_use h'" "a \<le> x" "x < a + m"
  shows "h_mem h' (of_nat x) = h_mem h (of_nat x)"
  using assms regions_contents [of a m "unat (h_memory h')" bs x] in_use_eq [OF assms(2)]
  by (simp add: keeps_contents_def)

interpretation heap: allocator malloc free heap_ok in_use h_mem
proof
  fix h :: heap_ctxt and n :: u32
  assume "heap_ok h" "1 \<le> sint n" "sint n + 7 < 2 ^ 31"
  then show "\<exists>p t. malloc n h = Ret (p, t) \<and> heap_ok t
      \<and> (if p = 0 then t = h else \<exists>m\<ge>unat n. (unat p, m) \<notin> in_use h \<and> in_use t = insert (unat p, m) (in_use h))"
    using malloc_regions [of h n] by (auto split: if_splits)
next
  fix h t :: heap_ctxt and n p :: u32 and a m x
  assume h: "heap_ok h" "malloc n h = Ret (p, t)" "(a, m) \<in> in_use h" "a \<le> x" "x < a + m"
  show "h_mem t (of_nat x) = h_mem h (of_nat x)"
  proof (cases "1 \<le> sint n \<and> sint n + 7 < 2 ^ 31")
    case True
    obtain bs where inv: "heap_inv h bs" using h(1) by (auto simp: heap_ok_def)
    have use: "in_use h \<subseteq> in_use t"
      using malloc_regions [of h n] h(1,2) True by (auto split: if_splits)
    from malloc_inv [OF inv, of n] True have "t = h \<or> (\<exists>cs. heap_inv t cs \<and> keeps_contents cs h t)"
      unfolding h(2) by (elim conjE disjE exE) auto
    then show ?thesis using keeps_region h(3-5) use by blast
  next
    case False
    then show ?thesis using h(2) by (auto simp: malloc_def heap_alloc_def split: if_splits)
  qed
next
  fix h :: heap_ctxt and p :: u32 and m
  assume h: "heap_ok h" "(unat p, m) \<in> in_use h"
  then obtain xs ys A where b: "heap_inv h (xs @ (m, True) # ys)" "A = unat (h_memory h) + total xs" "unat p = A + 8"
    by (rule in_use_block)
  have p: "p = of_nat (A + 8)" unfolding b(3) [symmetric] by simp
  obtain h' where h': "free p h = h'" "heap_inv h' (free_at xs m ys)" "h_memory h' = h_memory h"
    using free_inv [OF b(1,2)] p by (auto simp: keeps_contents_def)
  have "in_use h' = regions (unat (h_memory h)) (xs @ (m, False) # ys)"
    unfolding in_use_eq [OF h'(2)] h'(3) regions_free by simp
  also have "\<dots> = in_use h - {(unat p, m)}"
    unfolding in_use_eq [OF b(1)] b(3)
    using regions_bounds [of "A + 8" m "unat (h_memory h)" xs] regions_bounds [of "A + 8" m "A + 8 + m" ys] b(2)
    by (auto simp: add.assoc)
  finally show "heap_ok (free p h) \<and> in_use (free p h) = in_use h - {(unat p, m)}"
    using h'(1,2) by (auto simp: heap_ok_def)
next
  fix h :: heap_ctxt and p :: u32 and k a m x
  assume h: "heap_ok h" "(unat p, k) \<in> in_use h" "(a, m) \<in> in_use (free p h)" "a \<le> x" "x < a + m"
  then obtain xs ys A where b: "heap_inv h (xs @ (k, True) # ys)" "A = unat (h_memory h) + total xs" "unat p = A + 8"
    by (meson in_use_block)
  have p: "p = of_nat (A + 8)" unfolding b(3) [symmetric] by simp
  show "h_mem (free p h) (of_nat x) = h_mem h (of_nat x)"
    using free_inv [OF b(1,2)] keeps_region [of "free_at xs k ys" h "free p h" a m x] h(3-5) p by auto
next
  fix h :: heap_ctxt and r q
  assume "heap_ok h" "r \<in> in_use h" "q \<in> in_use h" "r \<noteq> q"
  then show "fst r + snd r \<le> fst q \<or> fst q + snd q \<le> fst r"
    using in_use_eq regions_disjoint unfolding heap_ok_def by blast
qed

section \<open>Properties of the heap\<close>

lemma core_mem_init_inv:
  assumes "8 \<le> unat start" "unat start + 17 \<le> unat stop" "unat start + 8 * (unat stop - unat start) < 2 ^ 32"
  shows "heap_inv (core_mem_init start stop h) [((unat stop - unat start - 1) div 8 * 8 - 8, False)]"
proof -
  have "start \<le> stop" using assms(2) by (simp add: word_le_nat_alt)
  then have "unat (stop - start) = unat stop - unat start" by (simp add: unat_sub)
  moreover have "1 \<le> stop - start" unfolding word_le_nat_alt calculation using assms(2) by simp
  ultimately have u: "unat (stop - start - 1) = unat stop - unat start - 1" by (simp add: unat_sub)
  have pre: "16 \<le> unat (stop - start - 1)" "unat start + unat (stop - start - 1) < 2 ^ 32"
    unfolding u using assms by linarith+
  note i = heap_init_rep [OF pre(1) assms(1) pre(2), of h, unfolded u]
  have "(unat stop - unat start - 1) div 8 * 8 \<le> unat stop - unat start"
    using div_times_less_eq_dividend [of "unat stop - unat start - 1" 8] by linarith
  then show ?thesis
    unfolding heap_inv_def core_mem_init_def i(2,3) using i(1) assms(3) by simp
qed

text \<open>Booting creates a well-formed heap: one free block that is all the region the linker reserves, rounded down
  to eight bytes, less its last byte, and no region in use.
\<close>

theorem core_mem_init_ok:
  assumes "8 \<le> unat start" "unat start + 17 \<le> unat stop" "unat start + 8 * (unat stop - unat start) < 2 ^ 32"
  shows "heap_inv (core_mem_init start stop h) [((unat stop - unat start - 1) div 8 * 8 - 8, False)]
    \<and> heap_ok (core_mem_init start stop h) \<and> in_use (core_mem_init start stop h) = {}"
proof -
  note inv = core_mem_init_inv [OF assms, of h]
  show ?thesis using inv in_use_eq [OF inv] by (auto simp: heap_ok_def)
qed

theorem core_mem_init_ok_witness:
  "\<forall>h. heap_inv (core_mem_init 0x1000 0x2000 h) [(0xFF0, False)] \<and> in_use (core_mem_init 0x1000 0x2000 h) = {}"
  by (intro allI) (use core_mem_init_ok [of "0x1000" "0x2000"] in simp)

text \<open>C18.
  \<^verbatim>\<open>malloc\<close> is best-fit allocation: it returns the contents of the first of the smallest free blocks that are
  large enough, split when what is left over can hold a block, or the null pointer when no free block is large enough; the
  heap stays well-formed and no allocated memory changes.
\<close>

theorem malloc_best_fit:
  assumes "heap_inv h bs" "1 \<le> sint n" "sint n + 7 < 2 ^ 31"
  shows "(malloc n h = Ret (0, h) \<and> (\<forall>b\<in>set bs. \<not> fits (round8 (unat n)) b))
    \<or> (\<exists>xs b ys h'. bs = xs @ b # ys \<and> best_fit (round8 (unat n)) xs b ys
        \<and> malloc n h = Ret (h_memory h + of_nat (total xs + 8), h')
        \<and> heap_inv h' (xs @ alloc_blocks (round8 (unat n)) (fst b) @ ys)
        \<and> keeps_contents (xs @ alloc_blocks (round8 (unat n)) (fst b) @ ys) h h')"
proof -
  from malloc_inv [OF assms] show ?thesis
  proof (elim disjE exE conjE)
    fix xs ys A h' and b :: "nat \<times> bool"
    assume r: "bs = xs @ b # ys" "best_fit (round8 (unat n)) xs b ys" "A = unat (h_memory h) + total xs"
      "malloc n h = Ret (of_nat (A + 8), h')" "heap_inv h' (xs @ alloc_blocks (round8 (unat n)) (fst b) @ ys)"
      "keeps_contents (xs @ alloc_blocks (round8 (unat n)) (fst b) @ ys) h h'"
    have "of_nat (A + 8) = h_memory h + of_nat (total xs + 8)" unfolding r(3) by simp
    with r show ?thesis by metis
  qed simp
qed

theorem malloc_best_fit_witness:
  "\<forall>h. \<exists>h'. malloc 20 (core_mem_init 0x1000 0x2000 h) = Ret (0x1008, h') \<and> heap_inv h' [(24, True), (0xFD0, False)]"
proof
  fix h show "\<exists>h'. malloc 20 (core_mem_init 0x1000 0x2000 h) = Ret (0x1008, h') \<and> heap_inv h' [(24, True), (0xFD0, False)]"
    using malloc_best_fit [OF core_mem_init_inv [of "0x1000" "0x2000"], of 20 h]
    by (auto simp: fits_def round8_def Cons_eq_append_conv core_mem_init_def heap_init_def alloc_blocks_def Let_def)
qed

text \<open>C19.
  \<^verbatim>\<open>free\<close> makes the block free and merges it with its free neighbours, so that the heap stays well-formed, without
  free neighbours, and no memory still allocated changes.
\<close>

theorem free_merges:
  assumes "heap_inv h (xs @ (n, True) # ys)"
  shows "\<exists>h'. heap_free (h_memory h + of_nat (total xs + 8)) h = (True, h') \<and> free (h_memory h + of_nat (total xs + 8)) h = h'
    \<and> heap_inv h' (free_at xs n ys) \<and> keeps_contents (free_at xs n ys) h h'"
proof -
  define A where "A = unat (h_memory h) + total xs"
  have "of_nat (A + 8) = h_memory h + of_nat (total xs + 8)" unfolding A_def by simp
  with free_inv [OF assms A_def] show ?thesis by metis
qed

text \<open>Allocating and freeing again restores the blocks of the heap exactly.
\<close>

theorem malloc_free_restores:
  assumes "heap_inv h bs" "1 \<le> sint n" "sint n + 7 < 2 ^ 31" "malloc n h = Ret (p, h')"
  shows "heap_inv (free p h') bs \<and> keeps_contents bs h (free p h')"
  using malloc_inv [OF assms(1-3)]
proof (elim disjE exE conjE)
  fix xs ys A h'' and b :: "nat \<times> bool"
  let ?k = "round8 (unat n)"
  let ?a = "alloc_blocks ?k (fst b)"
  assume r: "bs = xs @ b # ys" "best_fit ?k xs b ys" "A = unat (h_memory h) + total xs"
    "malloc n h = Ret (of_nat (A + 8), h'')" "heap_inv h'' (xs @ ?a @ ys)" "keeps_contents (xs @ ?a @ ys) h h''"
  have b: "b = (fst b, False)" "?k \<le> fst b" using r(2) by (auto simp: best_fit_def fits_def prod_eq_iff)
  have m: "fst b mod 8 = 0" "coalesced (xs @ (fst b, False) # ys)"
    using assms(1) b(1) by (auto simp: heap_inv_def heap_rep_def r(1))
  note fa = free_after_alloc [OF m(2) round_up_8(2) [OF assms(2,3)] m(1) b(2)]
  have inv: "heap_inv h'' (xs @ (fst (hd ?a), True) # tl ?a @ ys)" using r(5) fa(1) by simp
  have eq: "h'' = h'" "p = of_nat (A + 8)" using r(4) assms(4) by auto
  have "A = unat (h_memory h'') + total xs" using r(3,6) by (simp add: keeps_contents_def)
  from free_inv [OF inv this, unfolded fa(2)] have f: "heap_inv (free p h') bs" "keeps_contents bs h' (free p h')"
    using eq r(1) b(1) by auto
  have "contents (unat (h_memory h)) bs \<subseteq> contents (unat (h_memory h)) (xs @ ?a @ ys)"
    unfolding r(1) using b by (cases b) (auto simp: alloc_blocks_def add.assoc)
  then have "keeps_contents bs h (free p h')"
    using keeps_contents_trans [OF r(6) [unfolded eq(1)] f(2)] by simp
  with f(1) show ?thesis by simp
next
  assume "malloc n h = Ret (0, h)"
  then show ?thesis using assms(1,4) by (simp add: free_def keeps_contents_def)
qed

text \<open>C20.
  Successive allocations return disjoint regions of at least the sizes asked for, and freeing them all leaves in use exactly
  what was in use before.
\<close>

theorem allocations_disjoint:
  assumes "heap_ok h" "\<forall>n\<in>set ns. 1 \<le> sint n \<and> sint n + 7 < 2 ^ 31"
  shows "\<exists>ps ms t. heap.alloc_all ns h = Ret (ps, t) \<and> length ms = length ps
    \<and> (\<forall>i<length ps. unat (ns ! i) \<le> ms ! i)
    \<and> (\<forall>i<length ps. \<forall>j<length ps. i \<noteq> j \<longrightarrow> unat (ps ! i) + ms ! i \<le> unat (ps ! j) \<or> unat (ps ! j) + ms ! j \<le> unat (ps ! i))
    \<and> heap_ok (fold free ps t) \<and> in_use (fold free ps t) = in_use h"
proof -
  from heap.alloc_all_regions [OF assms] obtain ps ms t where r: "heap.alloc_all ns h = Ret (ps, t)" "heap_ok t" "length ms = length ps"
    "\<forall>i<length ps. unat (ns ! i) \<le> ms ! i" "distinct (zip (map unat ps) ms)"
    "set (zip (map unat ps) ms) \<inter> in_use h = {}" "in_use t = in_use h \<union> set (zip (map unat ps) ms)"
    by (elim exE conjE)
  let ?rs = "zip (map unat ps) ms"
  have nth: "?rs ! i = (unat (ps ! i), ms ! i)" "?rs ! i \<in> in_use t" if "i < length ps" for i
  proof -
    show "?rs ! i = (unat (ps ! i), ms ! i)" using that r(3) by simp
    have "?rs ! i \<in> set ?rs" using that r(3) by (intro nth_mem) simp
    then show "?rs ! i \<in> in_use t" unfolding r(7) by (rule UnI2)
  qed
  have "unat (ps ! i) + ms ! i \<le> unat (ps ! j) \<or> unat (ps ! j) + ms ! j \<le> unat (ps ! i)"
    if "i < length ps" "j < length ps" "i \<noteq> j" for i j
  proof -
    have "?rs ! i \<noteq> ?rs ! j" using nth_eq_iff_index_eq [OF r(5), of i j] that r(3) by simp
    from heap.regs_disjoint [OF r(2) nth(2) nth(2) this] show ?thesis using nth(1) that by simp
  qed
  moreover have "fold (\<lambda>r. free (of_nat (fst r))) ?rs t = fold free ps t"
  proof -
    have eq: "map (\<lambda>r. of_nat (fst r) :: u32) ?rs = ps"
      using r(3) by (intro nth_equalityI) auto
    have "fold free (map (\<lambda>r. of_nat (fst r)) ?rs) t = fold (\<lambda>r. free (of_nat (fst r))) ?rs t"
      by (simp add: fold_map comp_def)
    then show ?thesis unfolding eq by simp
  qed
  moreover have "\<forall>r\<in>set ?rs. fst r < 2 ^ 32"
  proof
    fix r assume "r \<in> set ?rs"
    then have "fst r \<in> set (map unat ps)" by (metis set_zip_leftD prod.collapse)
    then obtain q :: u32 where "fst r = unat q" by auto
    then show "fst r < 2 ^ 32" using unsigned_less [where ?'a = nat, of q] by simp
  qed
  moreover have "heap_ok (fold (\<lambda>r. free (of_nat (fst r))) ?rs t)"
      "in_use (fold (\<lambda>r. free (of_nat (fst r))) ?rs t) = in_use h"
    using heap.release_all_regions [OF r(2) _ r(5)] calculation(3) r(6,7) by blast+
  ultimately show ?thesis
    using r(1,3,4) by (intro exI [of _ ps] exI [of _ ms] exI [of _ t]) simp
qed

text \<open>Freeing a block twice in a row is refused the second time and changes nothing, also when the first time
  merged the block with its neighbours.
\<close>

theorem double_free_refused:
  assumes "heap_inv h (xs @ (n, True) # ys)"
  shows "\<exists>h'. heap_free (h_memory h + of_nat (total xs + 8)) h = (True, h')
    \<and> heap_free (h_memory h + of_nat (total xs + 8)) h' = (False, h')"
proof -
  define A where "A = unat (h_memory h) + total xs"
  have p: "of_nat (A + 8) = h_memory h + of_nat (total xs + 8)" unfolding A_def by simp
  from free_inv [OF assms A_def] obtain h' where h': "heap_free (of_nat (A + 8)) h = (True, h')"
    "keeps_contents (free_at xs n ys) h h'" "freed_marker h' A" by blast
  have tmp: "(of_nat (A + 8) :: u32) - 8 = of_nat A" by simp
  have "A < 2 ^ 32" using assms by (auto simp: heap_inv_def heap_rep_def A_def)
  have "h_memory h \<le> of_nat A"
    unfolding word_le_nat_alt unat_addr [OF \<open>A < 2 ^ 32\<close>] by (simp add: A_def)
  then have m: "\<not> (of_nat A :: u32) < h_memory h'" using h'(2) by (simp add: keeps_contents_def linorder_not_less)
  from h'(3) [unfolded freed_marker_def] have "heap_free (of_nat (A + 8)) h' = (False, h')"
  proof (elim disjE conjE)
    assume "msize h' (of_nat A) AND 1 = 0"
    then show ?thesis unfolding heap_free_def Let_def tmp by simp
  next
    assume w: "msize h' (of_nat A) = - 1" "msize_prev h' (of_nat A) = - 1"
    have wrap: "(4294967296 :: u32) = 0" by simp
    then have prv: "heap_marker_prev h' (of_nat A) = of_nat A"
      unfolding heap_marker_prev_def w using m by (simp add: wrap Let_def)
    show ?thesis
    proof (cases "(of_nat A :: u32) = 0")
      case True
      then show ?thesis using assms \<open>h_memory h \<le> of_nat A\<close> by (auto simp: heap_inv_def heap_rep_def)
    next
      case False
      then show ?thesis unfolding heap_free_def Let_def tmp prv w by simp
    qed
  qed
  with h'(1) show ?thesis unfolding p by blast
qed

text \<open>\<^verbatim>\<open>heap_free\<close> takes the end of the heap for the start plus eight times its size, so it accepts addresses
  behind the heap: if the words there look like the last block of a heap, it clears a bit of a word that
  does not belong to the heap.
\<close>

theorem heap_free_outside:
  assumes "heap_inv h bs" "unat (h_memory h) + unat (h_size h) \<le> A" "A < unat (h_memory h) + 8 * unat (h_size h)"
    "h_mem h (of_nat A) = enc n True True" "n mod 8 = 0" "heap_marker_prev h (of_nat A) = 0"
  shows "heap_free (of_nat (A + 8)) h = (True, set_msize (of_nat A) (enc n False True) h)"
proof -
  have tmp: "(of_nat (A + 8) :: u32) - 8 = of_nat A" by simp
  have fit: "unat (h_memory h) + 8 * unat (h_size h) < 2 ^ 32" using assms(1) by (simp add: heap_inv_def)
  then have "unat (h_memory h + 8 * h_size h) = unat (h_memory h) + 8 * unat (h_size h)"
    by (simp add: unat_word_ariths)
  moreover have "unat (of_nat A :: u32) = A" using fit assms(3) by (intro unat_addr) simp
  ultimately have range: "\<not> (of_nat A < h_memory h \<or> of_nat A \<ge> h_memory h + 8 * h_size h)"
    unfolding word_less_nat_alt word_le_nat_alt using assms(2,3) by simp
  have size: "msize h (of_nat A) = enc n True True" using assms(4) by (simp add: msize_def)
  then have nxt: "heap_marker_next h (of_nat A) = 0"
    unfolding heap_marker_next_def size enc_simps(3) [OF assms(5)] by simp
  show ?thesis
    unfolding heap_free_def Let_def tmp if_not_P [OF range] assms(6) nxt size enc_simps(6) [OF assms(5)]
    using enc_taken_iff [OF assms(5), of True] by simp
qed

text \<open>A heap of one block of 24 bytes; behind it, memory that looks like a taken block.\<close>

definition demo_heap :: heap_ctxt where
  "demo_heap = \<lparr>h_size = 32, h_memory = 0x1000, h_mem = (\<lambda>_. 0)(0x1000 := enc 24 True True, 0x1080 := enc 8 True True,
     0x1084 := 0x1078)\<rparr>"

lemma demo_heap_inv: "heap_inv demo_heap ([] @ (24, True) # [])"
  by (simp add: heap_inv_def heap_rep_def demo_heap_def)

theorem free_merges_witness:
  "\<exists>h'. heap_free 0x1008 demo_heap = (True, h') \<and> heap_inv h' [(24, False)]"
  using free_merges [OF demo_heap_inv] by (auto simp: demo_heap_def free_at_def merge_prev_def merge_next_def)

theorem double_free_refused_witness:
  "\<exists>h'. heap_free 0x1008 demo_heap = (True, h') \<and> heap_free 0x1008 h' = (False, h')"
  using double_free_refused [OF demo_heap_inv] by (simp add: demo_heap_def)

theorem heap_free_outside_witness:
  "heap_free 0x1088 demo_heap = (True, set_msize 0x1080 (enc 8 False True) demo_heap)"
  using heap_free_outside [OF demo_heap_inv, of "0x1080" 8]
  by (simp add: demo_heap_def heap_marker_prev_def msize_prev_def)

lemma malloc_null: "\<exists>p h'. malloc 4 demo_heap = Ret (p, h')"
  using malloc_inv [OF demo_heap_inv, of 4] by auto

theorem malloc_free_restores_witness:
  "\<exists>p h'. malloc 4 demo_heap = Ret (p, h') \<and> heap_inv (free p h') [(24, True)]"
  using malloc_null malloc_free_restores [OF demo_heap_inv, of 4] by fastforce

theorem allocations_disjoint_witness:
  "\<forall>h. \<exists>ps t. heap.alloc_all [4, 12] (core_mem_init 0x1000 0x2000 h) = Ret (ps, t) \<and> in_use (fold free ps t) = {}"
proof
  fix h
  have inv: "heap_inv (core_mem_init 0x1000 0x2000 h) [(0xFF0, False)]"
    using core_mem_init_inv [of "0x1000" "0x2000" h] by simp
  then have "heap_ok (core_mem_init 0x1000 0x2000 h)" "in_use (core_mem_init 0x1000 0x2000 h) = {}"
    using in_use_eq [OF inv] by (auto simp: heap_ok_def)
  with allocations_disjoint [of "core_mem_init 0x1000 0x2000 h" "[4, 12]"]
  show "\<exists>ps t. heap.alloc_all [4, 12] (core_mem_init 0x1000 0x2000 h) = Ret (ps, t) \<and> in_use (fold free ps t) = {}" by fastforce
qed

section \<open>Writing to memory in use\<close>

lemma layout_write:
  assumes "layout_at M a p l bs" "x \<in> contents a bs" "a + total bs < 2 ^ 32"
  shows "layout_at (M(of_nat x := v)) a p l bs"
  using assms
proof (induction bs arbitrary: a p)
  case (Cons b bs)
  have x: "a + 8 \<le> x" "x < 2 ^ 32" using contents_bounds [OF Cons.prems(2)] Cons.prems(3) by auto
  define N where "N = M(of_nat x := v)"
  have N: "N (of_nat y) = M (of_nat y)" if "y < 2 ^ 32" "y \<noteq> x" for y
    unfolding N_def upd_at [OF that(1) x(2)] using that(2) by simp
  have first: "N (of_nat a) = M (of_nat a)" "N (of_nat (a + 4)) = M (of_nat (a + 4))"
    using x by (intro N; simp)+
  have "layout_at N (a + 8 + fst b) (fst b) l bs"
  proof (cases "x \<in> contents (a + 8 + fst b) bs")
    case True
    then show ?thesis unfolding N_def by (intro Cons.IH) (use Cons.prems(1,3) in simp_all)
  next
    case False
    then have lt: "x < a + 8 + fst b" using Cons.prems(2) by (auto split: if_splits)
    show ?thesis
      by (rule layout_frame [where M = M]) (use Cons.prems(1,3) lt N in auto)
  qed
  then show ?case unfolding N_def [symmetric] layout_at.simps first using Cons.prems(1) by simp
qed simp

lemma heap_write:
  assumes "heap_ok h" "(a, m) \<in> in_use h" "a \<le> x" "x < a + m"
  shows "heap_ok (h\<lparr>h_mem := (h_mem h)(of_nat x := v)\<rparr>)"
    and "in_use (h\<lparr>h_mem := (h_mem h)(of_nat x := v)\<rparr>) = in_use h"
proof -
  let ?h = "h\<lparr>h_mem := (h_mem h)(of_nat x := v)\<rparr>"
  obtain bs where inv: "heap_inv h bs" using assms(1) by (auto simp: heap_ok_def)
  have "x \<in> contents (unat (h_memory h)) bs"
    using assms(2-4) regions_contents in_use_eq [OF inv] by blast
  then have "heap_inv ?h bs"
    using inv layout_write by (auto simp: heap_inv_def heap_rep_def)
  then show "heap_ok ?h" "in_use ?h = in_use h"
    using in_use_eq [OF \<open>heap_inv ?h bs\<close>] in_use_eq [OF inv] by (auto simp: heap_ok_def)
qed

lemma in_use_bounds:
  assumes "heap_ok h" "(a, m) \<in> in_use h"
  shows "16 \<le> a" "a + m < 2 ^ 32"
proof -
  obtain bs where inv: "heap_inv h bs" using assms(1) by (auto simp: heap_ok_def)
  then show "16 \<le> a" "a + m < 2 ^ 32"
    using regions_bounds [of a m "unat (h_memory h)" bs] assms(2) in_use_eq [OF inv]
    by (auto simp: heap_inv_def heap_rep_def)
qed

end
