(* ===== verification/Lists.thy ===== *)
theory Lists
  imports Machine
begin

text \<open>
  The doubly linked lists of \<^verbatim>\<open>library/util/src/list.c\<close>, in a store of \<open>next\<close> and \<open>prev\<close> pointers, and
  the contract of a stack (the locale \<open>stack\<close>) that the lists, the object pools and the object
  lists of the library share. \<open>list_rep s root xs\<close> says that \<open>root\<close> heads a list of the items \<open>xs\<close>.
\<close>

section \<open>Nodes and lists (list.c)\<close>

record list_store =
  lnext :: "u32 \<Rightarrow> u32"
  lprev :: "u32 \<Rightarrow> u32"

definition set_next :: "u32 \<Rightarrow> u32 \<Rightarrow> list_store \<Rightarrow> list_store" where
  "set_next n v s = s\<lparr>lnext := (lnext s)(n := v)\<rparr>"

definition set_prev :: "u32 \<Rightarrow> u32 \<Rightarrow> list_store \<Rightarrow> list_store" where
  "set_prev n v s = s\<lparr>lprev := (lprev s)(n := v)\<rparr>"

definition list_init :: "u32 \<Rightarrow> list_store \<Rightarrow> list_store" where
  "list_init l s = set_next l l (set_prev l l s)"

definition list_add_between :: "u32 \<Rightarrow> u32 \<Rightarrow> u32 \<Rightarrow> list_store \<Rightarrow> list_store" where
  "list_add_between first second item s =
     set_next first item (set_prev item first (set_next item second (set_prev second item s)))"

text \<open>
  The loops follow \<open>next\<close> until they are back at the root, which they need not be; \<open>None\<close> is a loop
  that does not end.
\<close>

partial_function (option) find_from :: "list_store \<Rightarrow> u32 \<Rightarrow> u32 \<Rightarrow> u32 \<Rightarrow> bool option" where
  "find_from s root item tmp =
     (if tmp = root then Some False else if tmp = item then Some True else find_from s root item (lnext s tmp))"

definition list_find :: "u32 \<Rightarrow> u32 \<Rightarrow> list_store \<Rightarrow> bool option" where
  "list_find root item s = find_from s root item (lnext s root)"

partial_function (option) count_from :: "list_store \<Rightarrow> u32 \<Rightarrow> u32 \<Rightarrow> nat \<Rightarrow> nat option" where
  "count_from s root tmp n = (if tmp = root then Some n else count_from s root (lnext s tmp) (n + 1))"

definition list_size_get :: "u32 \<Rightarrow> list_store \<Rightarrow> nat option" where
  "list_size_get root s = count_from s root (lnext s root) 0"

definition list_add :: "u32 \<Rightarrow> u32 \<Rightarrow> list_store \<Rightarrow> list_store option" where
  "list_add root item s =
     (case list_find root item s of
        None \<Rightarrow> None
      | Some found \<Rightarrow> Some (if found then s else list_add_between root (lnext s root) item s))"

definition list_remove :: "u32 \<Rightarrow> list_store \<Rightarrow> list_store" where
  "list_remove item s =
     (let nxt = lnext s item;
          prv = lprev s item;
          s1 = set_next prv nxt (set_prev nxt prv s)
      in set_next item item (set_prev item item s1))"

definition list_pop :: "u32 \<Rightarrow> list_store \<Rightarrow> u32 \<times> list_store" where
  "list_pop root s =
     (let ret = lnext s root in if ret \<noteq> root then (ret, list_remove ret s) else (0, s))"

definition list_is_empty :: "u32 \<Rightarrow> list_store \<Rightarrow> bool" where
  "list_is_empty root s \<longleftrightarrow> lnext s root = root"

section \<open>The list a root heads\<close>

fun linked :: "list_store \<Rightarrow> u32 \<Rightarrow> u32 list \<Rightarrow> u32 \<Rightarrow> bool" where
  "linked s a [] b \<longleftrightarrow> lnext s a = b \<and> lprev s b = a"
| "linked s a (x # xs) b \<longleftrightarrow> lnext s a = x \<and> lprev s x = a \<and> linked s x xs b"

definition list_rep :: "list_store \<Rightarrow> u32 \<Rightarrow> u32 list \<Rightarrow> bool" where
  "list_rep s root xs \<longleftrightarrow> distinct (root # xs) \<and> linked s root xs root"

lemma linked_append: "linked s a (xs @ y # ys) b \<longleftrightarrow> linked s a xs y \<and> linked s y ys b"
  by (induction xs arbitrary: a) auto

lemma linked_frame:
  assumes "linked s a xs b" "\<And>x. x \<in> set (a # xs) \<Longrightarrow> lnext t x = lnext s x"
    "\<And>x. x \<in> set (xs @ [b]) \<Longrightarrow> lprev t x = lprev s x"
  shows "linked t a xs b"
  using assms by (induction xs arbitrary: a) auto

lemma store_simps [simp]:
  "lnext (set_next n v s) = (lnext s)(n := v)" "lnext (set_prev n v s) = lnext s"
  "lprev (set_prev n v s) = (lprev s)(n := v)" "lprev (set_next n v s) = lprev s"
  by (simp_all add: set_next_def set_prev_def)

lemma list_init_rep: "list_rep (list_init root s) root []"
  by (simp add: list_rep_def list_init_def)

lemma find_from_suffix:
  assumes "linked s a ys root" "root \<notin> set ys"
  shows "find_from s root item (lnext s a) = Some (item \<in> set ys)"
  using assms
proof (induction ys arbitrary: a)
  case Nil
  then show ?case by (simp add: find_from.simps)
next
  case (Cons y ys)
  then have "find_from s root item (lnext s y) = Some (item \<in> set ys)" by simp
  with Cons.prems show ?case by (subst find_from.simps) auto
qed

lemma list_find_rep: "list_rep s root xs \<Longrightarrow> list_find root item s = Some (item \<in> set xs)"
  by (simp add: list_find_def list_rep_def find_from_suffix)

lemma count_from_suffix:
  assumes "linked s a ys root" "root \<notin> set ys"
  shows "count_from s root (lnext s a) n = Some (n + length ys)"
  using assms
proof (induction ys arbitrary: a n)
  case Nil
  then show ?case by (simp add: count_from.simps)
next
  case (Cons y ys)
  then have "count_from s root (lnext s y) (n + 1) = Some (n + 1 + length ys)" by simp
  with Cons.prems show ?case by (subst count_from.simps) auto
qed

lemma list_size_rep: "list_rep s root xs \<Longrightarrow> list_size_get root s = Some (length xs)"
  using count_from_suffix [of s root xs root 0] by (simp add: list_size_get_def list_rep_def)

lemma list_is_empty_rep: "list_rep s root xs \<Longrightarrow> list_is_empty root s \<longleftrightarrow> xs = []"
  by (cases xs) (auto simp: list_is_empty_def list_rep_def)

lemma list_add_between_rep:
  assumes "list_rep s root xs" "item \<notin> set (root # xs)"
  shows "list_rep (list_add_between root (lnext s root) item s) root (item # xs)"
proof (cases xs)
  case Nil
  then show ?thesis using assms by (auto simp: list_rep_def list_add_between_def)
next
  case (Cons x ys)
  have l: "linked s x ys root" "lnext s root = x" "distinct (root # x # ys)" using assms(1) Cons by (auto simp: list_rep_def)
  have "linked (list_add_between root x item s) x ys root"
    by (rule linked_frame [OF l(1)]) (use l(3) assms(2) Cons in \<open>auto simp: list_add_between_def\<close>)
  then show ?thesis using assms(2) l Cons by (auto simp: list_rep_def list_add_between_def)
qed

lemma list_add_rep:
  assumes "list_rep s root xs" "item \<noteq> root"
  shows "\<exists>t. list_add root item s = Some t \<and> list_rep t root (if item \<in> set xs then xs else item # xs)"
  using assms list_add_between_rep [of s root xs item] by (auto simp: list_add_def list_find_rep)

lemma list_remove_rep:
  assumes "list_rep s root (xs @ item # ys)"
  shows "list_rep (list_remove item s) root (xs @ ys)"
    and "lnext (list_remove item s) item = item" "lprev (list_remove item s) item = item"
proof -
  let ?t = "list_remove item s"
  have l: "linked s root xs item" "linked s item ys root" and d: "distinct (root # xs @ item # ys)"
    using assms by (auto simp: list_rep_def linked_append)
  show "lnext ?t item = item" "lprev ?t item = item" by (simp_all add: list_remove_def Let_def)
  define p where "p = lprev s item"
  define n where "n = lnext s item"
  have pn: "p = last (root # xs)" "n = hd (ys @ [root])"
  proof -
    have "linked s a zs b \<Longrightarrow> lprev s b = last (a # zs)" for a b zs by (induction zs arbitrary: a) auto
    then show "p = last (root # xs)" using l(1) by (simp add: p_def)
    show "n = hd (ys @ [root])" using l(2) by (cases ys) (auto simp: n_def)
  qed
  have "p \<in> set (root # xs)" unfolding pn(1) by (rule last_in_set) simp
  then have ne: "p \<noteq> item" "n \<noteq> item" using d unfolding pn(2) by (auto, (cases ys; auto)+)
  have t: "lnext ?t x = (if x = item then item else if x = p then n else lnext s x)"
    "lprev ?t x = (if x = item then item else if x = n then p else lprev s x)" for x
    by (simp_all add: list_remove_def Let_def p_def n_def)
  have "linked ?t root (xs @ ys) root"
  proof (cases xs rule: rev_cases)
    case Nil
    then have p: "p = root" using pn by simp
    show ?thesis
    proof (cases ys)
      case Nil
      then show ?thesis using \<open>xs = []\<close> pn d by (auto simp: t)
    next
      case (Cons y zs)
      have "linked ?t y zs root"
        by (rule linked_frame [of s]) (use l(2) d Cons pn p in \<open>auto simp: t\<close>)
      then show ?thesis using \<open>xs = []\<close> Cons pn d by (auto simp: t)
    qed
  next
    case (snoc us u)
    then have p: "p = u" using pn by simp
    have us: "linked s root us u" using l(1) snoc by (simp add: linked_append)
    have "linked ?t root us u"
      by (rule linked_frame [OF us]) (use d snoc pn in \<open>cases ys; auto simp: t p\<close>)+
    moreover have "linked ?t u ys root"
    proof (cases ys)
      case Nil
      then show ?thesis using pn p d snoc by (auto simp: t)
    next
      case (Cons y zs)
      have "linked ?t y zs root"
        by (rule linked_frame [of s]) (use l(2) d Cons pn p snoc in \<open>auto simp: t\<close>)
      then show ?thesis using Cons pn p d snoc by (auto simp: t)
    qed
    ultimately show ?thesis unfolding snoc by (simp add: linked_append)
  qed
  then show "list_rep ?t root (xs @ ys)" using d by (auto simp: list_rep_def)
qed

lemma list_remove_idle:
  assumes "lnext t i = i" "lprev t i = i"
  shows "list_remove i t = t"
proof -
  have "set_next i i t = t" using assms(1) by (cases t) (simp add: set_next_def fun_upd_idem)
  moreover have "set_prev i i t = t" using assms(2) by (cases t) (simp add: set_prev_def fun_upd_idem)
  ultimately show ?thesis unfolding list_remove_def Let_def assms by simp
qed

lemma list_pop_rep:
  assumes "list_rep s root xs"
  shows "xs = [] \<Longrightarrow> list_pop root s = (0, s)"
    and "xs = x # ys \<Longrightarrow> list_pop root s = (x, list_remove x s) \<and> list_rep (list_remove x s) root ys"
  using assms list_remove_rep(1) [of s root "[]" x ys] by (auto simp: list_pop_def list_rep_def)

section \<open>The contract of a stack\<close>

text \<open>\<open>push\<close> fails on what \<open>can_push\<close> rules out, at most; \<open>pop\<close> returns what was pushed last.\<close>

locale stack =
  fixes push :: "'a \<Rightarrow> 's \<Rightarrow> 's option"
    and pop :: "'s \<Rightarrow> ('a \<times> 's) option"
    and rep :: "'s \<Rightarrow> 'a list \<Rightarrow> bool"
    and can_push :: "'a \<Rightarrow> 's \<Rightarrow> 'a list \<Rightarrow> bool"
  assumes push_rep: "rep s xs \<Longrightarrow> can_push x s xs \<Longrightarrow> \<exists>t. push x s = Some t \<and> rep t (x # xs)"
    and pop_rep: "rep s (x # xs) \<Longrightarrow> \<exists>t. pop s = Some (x, t) \<and> rep t xs"
    and pop_empty: "rep s [] \<Longrightarrow> pop s = None"
begin

primrec push_all :: "'a list \<Rightarrow> 's \<Rightarrow> 's option" where
  "push_all [] s = Some s"
| "push_all (x # xs) s = Option.bind (push x s) (push_all xs)"

text \<open>Popping until the stack is empty, at most \<open>n\<close> times.\<close>

primrec pop_all :: "nat \<Rightarrow> 's \<Rightarrow> 'a list" where
  "pop_all 0 s = []"
| "pop_all (Suc n) s = (case pop s of None \<Rightarrow> [] | Some (x, t) \<Rightarrow> x # pop_all n t)"

lemma push_all_rep:
  assumes "rep s xs" "\<And>s us v vs. ys = us @ v # vs \<Longrightarrow> rep s (rev us @ xs) \<Longrightarrow> can_push v s (rev us @ xs)"
  shows "\<exists>t. push_all ys s = Some t \<and> rep t (rev ys @ xs)"
  using assms
proof (induction ys arbitrary: s xs)
  case (Cons y ys)
  have "can_push y s xs" using Cons.prems(1) Cons.prems(2) [of "[]" y ys s] by simp
  then obtain t where t: "push y s = Some t" "rep t (y # xs)" using push_rep Cons.prems(1) by blast
  have "\<exists>u. push_all ys t = Some u \<and> rep u (rev ys @ y # xs)"
  proof (rule Cons.IH [OF t(2)])
    fix s us v vs assume "ys = us @ v # vs" "rep s (rev us @ y # xs)"
    then show "can_push v s (rev us @ y # xs)" using Cons.prems(2) [of "y # us" v vs s] by simp
  qed
  then show ?case using t(1) by simp
qed simp

lemma pop_all_rep: "rep s xs \<Longrightarrow> length xs \<le> n \<Longrightarrow> pop_all n s = xs"
proof (induction n arbitrary: s xs)
  case (Suc n)
  show ?case
  proof (cases xs)
    case Nil
    then show ?thesis using Suc.prems pop_empty by simp
  next
    case (Cons x ys)
    then obtain t where "pop s = Some (x, t)" "rep t ys" using pop_rep Suc.prems(1) by blast
    then show ?thesis using Suc Cons by simp
  qed
qed simp

end

text \<open>A linked list is a stack: \<^verbatim>\<open>list_add\<close> puts an item in front, \<^verbatim>\<open>list_pop\<close> takes the first one.\<close>

definition list_pop_item :: "u32 \<Rightarrow> list_store \<Rightarrow> (u32 \<times> list_store) option" where
  "list_pop_item root s = (if list_is_empty root s then None else Some (list_pop root s))"

interpretation list_stack: stack "list_add root" "list_pop_item root" "\<lambda>s. list_rep s root"
    "\<lambda>item _ xs. item \<notin> set (root # xs)" for root
proof
  fix s xs item assume "list_rep s root xs" "item \<notin> set (root # xs)"
  then show "\<exists>t. list_add root item s = Some t \<and> list_rep t root (item # xs)"
    using list_add_rep [of s root xs item] by simp
next
  fix s x xs assume r: "list_rep s root (x # xs)"
  then show "\<exists>t. list_pop_item root s = Some (x, t) \<and> list_rep t root xs"
    using list_pop_rep(2) [OF r] list_is_empty_rep [OF r] by (simp add: list_pop_item_def)
next
  fix s assume "list_rep s root []"
  then show "list_pop_item root s = None" using list_is_empty_rep [of s root] by (simp add: list_pop_item_def)
qed

section \<open>Properties of lists\<close>

text \<open>C21.
  Every operation on a well-formed list does on the list of its items what its name says: the loops end, adding an
  item already in the list changes nothing, a removed item is linked to itself, so that removing it again is harmless.
\<close>

theorem list_refines:
  assumes "list_rep s root xs"
  shows "list_find root item s = Some (item \<in> set xs) \<and> list_size_get root s = Some (length xs)
    \<and> (list_is_empty root s \<longleftrightarrow> xs = [])
    \<and> (item \<noteq> root \<longrightarrow> (\<exists>t. list_add root item s = Some t \<and> list_rep t root (if item \<in> set xs then xs else item # xs)))
    \<and> (item \<in> set xs \<longrightarrow> list_rep (list_remove item s) root (remove1 item xs)
        \<and> list_remove item (list_remove item s) = list_remove item s)
    \<and> (case xs of [] \<Rightarrow> list_pop root s = (0, s)
        | x # ys \<Rightarrow> fst (list_pop root s) = x \<and> list_rep (snd (list_pop root s)) root ys)"
proof -
  have remove: "list_rep (list_remove item s) root (remove1 item xs) \<and> list_remove item (list_remove item s) = list_remove item s"
    if "item \<in> set xs"
  proof -
    obtain us vs where uv: "xs = us @ item # vs" "item \<notin> set us" using split_list_first [of item xs] \<open>item \<in> set xs\<close> by blast
    note r = list_remove_rep [OF assms [unfolded uv(1)]]
    have "list_remove item (list_remove item s) = list_remove item s"
      by (rule list_remove_idle [OF r(2,3)])
    moreover have "remove1 item xs = us @ vs" using uv by (simp add: remove1_append)
    ultimately show ?thesis using r(1) by simp
  qed
  have pop: "case xs of [] \<Rightarrow> list_pop root s = (0, s)
      | x # ys \<Rightarrow> fst (list_pop root s) = x \<and> list_rep (snd (list_pop root s)) root ys"
  proof (cases xs)
    case Nil
    then show ?thesis using list_pop_rep(1) [OF assms] by simp
  next
    case (Cons x ys)
    from list_pop_rep(2) [OF assms this] show ?thesis unfolding Cons by simp
  qed
  have add: "item \<noteq> root \<longrightarrow> (\<exists>t. list_add root item s = Some t \<and> list_rep t root (if item \<in> set xs then xs else item # xs))"
    using list_add_rep [OF assms] by blast
  show ?thesis
    unfolding list_find_rep [OF assms] list_size_rep [OF assms] list_is_empty_rep [OF assms]
    by (intro conjI add pop impI remove refl)
qed

theorem list_refines_witness:
  "\<forall>s. list_size_get 4 (list_init 4 s) = Some 0 \<and> (\<exists>t. list_add 4 8 (list_init 4 s) = Some t \<and> list_rep t 4 [8])"
  by (intro allI) (use list_refines [OF list_init_rep, of 4 8] in simp)

text \<open>Items added one after the other to an empty list, and different from each other, come out of it in the opposite order,
  and then the list is empty.
\<close>

theorem list_last_in_first_out:
  assumes "distinct (root # ys)" "length ys \<le> n"
  shows "\<exists>t. list_stack.push_all root ys (list_init root s) = Some t \<and> list_size_get root t = Some (length ys)
    \<and> list_stack.pop_all root n t = rev ys"
proof -
  have "\<exists>t. list_stack.push_all root ys (list_init root s) = Some t \<and> list_rep t root (rev ys @ [])"
    by (rule list_stack.push_all_rep [OF list_init_rep]) (use assms(1) in auto)
  then obtain t where t: "list_stack.push_all root ys (list_init root s) = Some t" "list_rep t root (rev ys)" by auto
  then show ?thesis using list_stack.pop_all_rep [OF t(2)] list_size_rep [OF t(2)] assms(2) by simp
qed

theorem list_last_in_first_out_witness:
  "\<forall>s. \<exists>t. list_stack.push_all 4 [8, 12, 16] (list_init 4 s) = Some t \<and> list_stack.pop_all 4 3 t = [16, 12, 8]"
  by (intro allI) (use list_last_in_first_out [of 4 "[8, 12, 16]" 3] in fastforce)

end
