(* ===== verification/Pools.thy ===== *)
theory Pools
  imports HeapSpec Lists
begin

text \<open>
  The containers of \<^verbatim>\<open>library/util\<close> whose storage comes from \<^verbatim>\<open>malloc\<close>: object pools (\<^verbatim>\<open>pool.c\<close>), object
  caches (\<^verbatim>\<open>slab.c\<close>), object lists (\<^verbatim>\<open>olist.c\<close>) and bit sets (\<^verbatim>\<open>bitset.c\<close>). Their arrays lie in the
  memory of the heap. The C type \<open>int\<close> is \<open>int\<close>, with the overflows of the code as the outcome
  \<open>Undefined\<close>.
\<close>

section \<open>Words of an array in the heap\<close>

definition array_get :: "heap_ctxt \<Rightarrow> u32 \<Rightarrow> int \<Rightarrow> u32" where
  "array_get h p i = h_mem h (p + 4 * of_int i)"

definition array_set :: "u32 \<Rightarrow> int \<Rightarrow> u32 \<Rightarrow> heap_ctxt \<Rightarrow> heap_ctxt" where
  "array_set p i v h = h\<lparr>h_mem := (h_mem h)(p + 4 * of_int i := v)\<rparr>"

abbreviation (input) INT_MAX :: int where "INT_MAX \<equiv> 2 ^ 31 - 1"

section \<open>Object pools (pool.c)\<close>

record pool_ctxt =
  pcount :: int
  pcurrent :: int
  psz :: int
  plist :: u32

definition pool_free :: "u32 \<Rightarrow> pool_ctxt \<times> heap_ctxt \<Rightarrow> pool_ctxt \<times> heap_ctxt" where
  "pool_free x = (\<lambda>(c, h).
     if pcurrent c < pcount c
     then (c\<lparr>pcurrent := pcurrent c + 1\<rparr>, array_set (plist c) (pcurrent c) x h)
     else (c, h))"

definition pool_alloc :: "pool_ctxt \<times> heap_ctxt \<Rightarrow> u32 \<times> pool_ctxt \<times> heap_ctxt" where
  "pool_alloc = (\<lambda>(c, h).
     if pcurrent c > 0
     then (let i = pcurrent c - 1 in (array_get h (plist c) i, c\<lparr>pcurrent := i\<rparr>, h))
     else (0, c, h))"

text \<open>
  \<open>ctxt->list + sizeof(void *) * ctxt->count\<close> is arithmetic on a \<open>void **\<close>: it advances by 16 bytes for each object.
\<close>

definition pool_objects :: "pool_ctxt \<Rightarrow> u32" where
  "pool_objects c = plist c + 4 * (4 * of_int (pcount c))"

definition pool_get_raw :: "int \<Rightarrow> pool_ctxt \<Rightarrow> u32" where
  "pool_get_raw index c =
     (if index < 0 \<or> index \<ge> pcount c then 0 else pool_objects c + of_int (psz c * index))"

definition pool_cleanup :: "pool_ctxt \<times> heap_ctxt \<Rightarrow> pool_ctxt \<times> heap_ctxt" where
  "pool_cleanup = (\<lambda>(c, h). if plist c \<noteq> 0 then (c\<lparr>plist := 0\<rparr>, free (plist c) h) else (c, h))"

text \<open>
  \<open>item_size < LIST_MIN_ITEM_SIZE\<close> compares with a \<open>sizeof\<close>, so a negative size counts as large. The loop
  pushes the objects in the order of their addresses.
\<close>

definition pool_init :: "int \<Rightarrow> int \<Rightarrow> pool_ctxt \<times> heap_ctxt \<Rightarrow> (bool \<times> pool_ctxt \<times> heap_ctxt) outcome" where
  "pool_init item_size item_count = (\<lambda>(c, h).
     (let size1 = (if 0 \<le> item_size \<and> item_size < 8 then 8 else item_size);
          n = (if item_count < 2 then 2 else item_count)
      in if size1 + 7 > INT_MAX then Undefined
         else
           (let sz = (size1 + 7) AND NOT 7
            in if sz * n > INT_MAX \<or> sz * n < - INT_MAX - 1 then Undefined
               else and_then (malloc (of_int (sz * n) + 4 * of_int n) h) (\<lambda>(p, h1).
                 let c1 = c\<lparr>pcount := n, psz := sz, pcurrent := 0, plist := p\<rparr>
                 in if p = 0 then Ret (False, c1, h1)
                    else Ret (True, for_loop (nat n) (\<lambda>k. pool_free (pool_objects c1 + of_int (sz * int k))) (c1, h1))))))"

section \<open>Object caches (slab.c)\<close>

text \<open>
  The constructor and the destructor are called for their effect on a state of their own; the null pointer is \<open>None\<close>.
\<close>

record 'w slab_ctxt =
  const_bottom :: int
  spool :: pool_ctxt
  constructor :: "(u32 \<Rightarrow> 'w \<Rightarrow> 'w) option"
  destructor :: "(u32 \<Rightarrow> 'w \<Rightarrow> 'w) option"

definition slab_init :: "int \<Rightarrow> int \<Rightarrow> (u32 \<Rightarrow> 'w \<Rightarrow> 'w) option \<Rightarrow> (u32 \<Rightarrow> 'w \<Rightarrow> 'w) option
    \<Rightarrow> 'w slab_ctxt \<times> heap_ctxt \<Rightarrow> (bool \<times> 'w slab_ctxt \<times> heap_ctxt) outcome" where
  "slab_init item_size item_count cons dest = (\<lambda>(c, h).
     and_then (pool_init item_size item_count (spool c, h)) (\<lambda>(r, p, h1).
       let c1 = c\<lparr>constructor := cons, destructor := dest, spool := p\<rparr>
       in Ret (if \<not> r then (False, c1, h1) else (True, c1\<lparr>const_bottom := pcount p - 1\<rparr>, h1))))"

definition slab_alloc :: "'w slab_ctxt \<times> heap_ctxt \<times> 'w \<Rightarrow> u32 \<times> 'w slab_ctxt \<times> heap_ctxt \<times> 'w" where
  "slab_alloc = (\<lambda>(c, h, w).
     (let (obj, p, h1) = pool_alloc (spool c, h);
          c1 = c\<lparr>spool := p\<rparr>
      in if obj \<noteq> 0 \<and> const_bottom c1 = pcurrent p
         then (obj, c1\<lparr>const_bottom := const_bottom c1 - 1\<rparr>, h1,
               (case constructor c1 of None \<Rightarrow> w | Some f \<Rightarrow> f obj w))
         else (obj, c1, h1, w)))"

definition slab_free :: "u32 \<Rightarrow> 'w slab_ctxt \<times> heap_ctxt \<times> 'w \<Rightarrow> 'w slab_ctxt \<times> heap_ctxt \<times> 'w" where
  "slab_free x = (\<lambda>(c, h, w). let (p, h1) = pool_free x (spool c, h) in (c\<lparr>spool := p\<rparr>, h1, w))"

definition slab_cleanup :: "'w slab_ctxt \<times> heap_ctxt \<times> 'w \<Rightarrow> 'w slab_ctxt \<times> heap_ctxt \<times> 'w" where
  "slab_cleanup = (\<lambda>(c, h, w).
     (let (c1, w1) =
            (case destructor c of
               None \<Rightarrow> (c, w)
             | Some f \<Rightarrow>
                 (let first = const_bottom c + 1
                  in (c\<lparr>const_bottom := max first (pcount (spool c))\<rparr>,
                      for_loop (nat (pcount (spool c) - first)) (\<lambda>k. f (pool_get_raw (first + int k) (spool c))) w)));
          (p, h1) = pool_cleanup (spool c1, h)
      in (c1\<lparr>spool := p\<rparr>, h1, w1)))"

section \<open>Object lists (olist.c)\<close>

text \<open>The size is an \<open>int\<close> but computed as a \<open>uint32_t\<close>; \<open>None\<close> in a result is \<open>Undefined\<close> or a hanging allocation.\<close>

record olist =
  ol_curr :: int
  ol_size :: int
  ol_list :: u32

abbreviation (input) SIZE_INITIAL :: int where "SIZE_INITIAL \<equiv> 24"

definition SIZE_NEXT :: "int \<Rightarrow> int" where
  "SIZE_NEXT x = x * 2 + 8"

definition copy_array :: "u32 \<Rightarrow> u32 \<Rightarrow> nat \<Rightarrow> heap_ctxt \<Rightarrow> heap_ctxt" where
  "copy_array dst src n = for_loop n (\<lambda>k h. array_set dst (int k) (array_get h src (int k)) h)"

definition olist_init :: "olist \<times> heap_ctxt \<Rightarrow> (bool \<times> olist \<times> heap_ctxt) outcome" where
  "olist_init = (\<lambda>(ol, h).
     and_then (malloc (of_int (SIZE_INITIAL * 4)) h) (\<lambda>(p, h1).
       Ret (p \<noteq> 0, ol\<lparr>ol_curr := 0, ol_size := SIZE_INITIAL, ol_list := p\<rparr>, h1)))"

definition olist_grow :: "olist \<times> heap_ctxt \<Rightarrow> (bool \<times> olist \<times> heap_ctxt) outcome" where
  "olist_grow = (\<lambda>(ol, h).
     if SIZE_NEXT (ol_size ol) > INT_MAX then Undefined
     else
       (let new_size = SIZE_NEXT (ol_size ol)
        in and_then (malloc (of_int new_size * 4) h) (\<lambda>(new_list, h1).
             if new_list = 0 then Ret (False, ol, h1)
             else
               (let h2 = copy_array new_list (ol_list ol) (nat (ol_curr ol)) h1
                in Ret (True, ol\<lparr>ol_list := new_list, ol_size := new_size\<rparr>, free (ol_list ol) h2)))))"

definition olist_item_push :: "u32 \<Rightarrow> olist \<times> heap_ctxt \<Rightarrow> (bool \<times> olist \<times> heap_ctxt) outcome" where
  "olist_item_push item = (\<lambda>(ol, h).
     if item = 0 then Ret (False, ol, h)
     else
       and_then (if ol_curr ol \<ge> ol_size ol - 1 then olist_grow (ol, h) else Ret (True, ol, h)) (\<lambda>(r, ol1, h1).
         Ret (if r then (True, ol1\<lparr>ol_curr := ol_curr ol1 + 1\<rparr>, array_set (ol_list ol1) (ol_curr ol1) item h1)
              else (False, ol1, h1))))"

definition olist_item_pop :: "olist \<times> heap_ctxt \<Rightarrow> u32 \<times> olist \<times> heap_ctxt" where
  "olist_item_pop = (\<lambda>(ol, h).
     if ol_curr ol = 0 then (0, ol, h)
     else (let i = ol_curr ol - 1 in (array_get h (ol_list ol) i, ol\<lparr>ol_curr := i\<rparr>, h)))"

definition olist_item_get :: "int \<Rightarrow> olist \<times> heap_ctxt \<Rightarrow> u32" where
  "olist_item_get index = (\<lambda>(ol, h). if index < 0 \<or> index \<ge> ol_curr ol then 0 else array_get h (ol_list ol) index)"

definition olist_size_get :: "olist \<Rightarrow> int" where
  "olist_size_get ol = ol_curr ol"

definition olist_item_remove :: "int \<Rightarrow> olist \<times> heap_ctxt \<Rightarrow> olist \<times> heap_ctxt" where
  "olist_item_remove index = (\<lambda>(ol, h).
     if index < 0 \<or> index \<ge> ol_curr ol then (ol, h)
     else
       (let i = ol_curr ol - 1; last_item = array_get h (ol_list ol) i
        in (ol\<lparr>ol_curr := i\<rparr>, if index \<noteq> i then array_set (ol_list ol) index last_item h else h)))"

definition olist_cleanup :: "olist \<times> heap_ctxt \<Rightarrow> olist \<times> heap_ctxt" where
  "olist_cleanup = (\<lambda>(ol, h). if ol_list ol \<noteq> 0 then (ol\<lparr>ol_list := 0\<rparr>, free (ol_list ol) h) else (ol, h))"

section \<open>Bit sets (bitset.c)\<close>

text \<open>A bit set is an address: its size, then its words. The null pointer has no bits.\<close>

definition bitset_size :: "heap_ctxt \<Rightarrow> u32 \<Rightarrow> int" where
  "bitset_size h b = sint (h_mem h b)"

definition bitset_init :: "int \<Rightarrow> heap_ctxt \<Rightarrow> (u32 \<times> heap_ctxt) outcome" where
  "bitset_init nbits h =
     (if nbits + 31 > INT_MAX then Undefined
      else
        (let sz = (nbits + 31) AND NOT 31
         in and_then (malloc (4 + of_int (sz div 8)) h) (\<lambda>(ret, h1).
              Ret (ret, if ret \<noteq> 0 then h1\<lparr>h_mem := (h_mem h1)(ret := of_int sz)\<rparr> else h1))))"

definition bitset_cleanup :: "u32 \<Rightarrow> heap_ctxt \<Rightarrow> heap_ctxt" where
  "bitset_cleanup b h = (if b \<noteq> 0 then free b h else h)"

definition bit_of :: "int \<Rightarrow> u32" where
  "bit_of n = push_bit (nat (n mod 32)) 1"

definition bitset_set :: "u32 \<Rightarrow> int \<Rightarrow> bool \<Rightarrow> heap_ctxt \<Rightarrow> heap_ctxt" where
  "bitset_set b n v h =
     (if b = 0 \<or> n < 0 \<or> n \<ge> bitset_size h b then h
      else
        (let index = drop_bit 5 n; w = array_get h (b + 4) index
         in array_set (b + 4) index (if v then w OR bit_of n else w AND NOT (bit_of n)) h))"

definition bitset_get :: "u32 \<Rightarrow> int \<Rightarrow> heap_ctxt \<Rightarrow> bool" where
  "bitset_get b n h =
     (if b = 0 \<or> n < 0 \<or> n \<ge> bitset_size h b then False
      else array_get h (b + 4) (drop_bit 5 n) AND bit_of n \<noteq> 0)"

definition bitset_set_all :: "u32 \<Rightarrow> bool \<Rightarrow> heap_ctxt \<Rightarrow> heap_ctxt" where
  "bitset_set_all b v h =
     (if b = 0 then h
      else for_loop (unat (of_int (drop_bit 5 (bitset_size h b)) :: u32))
             (\<lambda>k. array_set (b + 4) (int k) (if v then - 1 else 0)) h)"

section \<open>Arrays\<close>

lemma array_index_eq:
  assumes "0 \<le> i" "i < 2 ^ 30" "0 \<le> j" "j < 2 ^ 30"
  shows "(p :: u32) + 4 * of_int i = p + 4 * of_int j \<longleftrightarrow> i = j"
proof -
  have "(4 :: u32) * of_int k = of_nat (nat (4 * k))" if "0 \<le> k" for k
    using that by (simp add: of_nat_nat)
  moreover have "nat (4 * i) < 2 ^ 32" "nat (4 * j) < 2 ^ 32" using assms by simp_all
  ultimately have "(4 :: u32) * of_int i = 4 * of_int j \<longleftrightarrow> nat (4 * i) = nat (4 * j)"
    using assms(1,3) by (simp only: addr_eq_iff)
  moreover have "nat (4 * i) = nat (4 * j) \<longleftrightarrow> i = j" using assms by (simp add: eq_nat_nat_iff)
  ultimately show ?thesis by simp
qed

lemma array_get_set:
  assumes "0 \<le> i" "i < 2 ^ 30" "0 \<le> j" "j < 2 ^ 30"
  shows "array_get (array_set p i v h) p j = (if j = i then v else array_get h p j)"
  using array_index_eq [OF assms(3,4,1,2), of p] by (simp add: array_get_def array_set_def)

text \<open>An array of \<open>n\<close> words in a region that is in use.\<close>

definition owns_array :: "heap_ctxt \<Rightarrow> u32 \<Rightarrow> int \<Rightarrow> bool" where
  "owns_array h p n \<longleftrightarrow> heap_ok h \<and> p \<noteq> 0 \<and> n < 2 ^ 30 \<and> (\<exists>m. (unat p, m) \<in> in_use h \<and> 4 * n \<le> int m)"

lemma array_addr:
  assumes "owns_array h p n" "0 \<le> i" "i < n"
  obtains m x where "(unat p, m) \<in> in_use h" "p + 4 * of_int i = of_nat x" "unat p \<le> x" "x < unat p + m"
proof -
  obtain m where m: "(unat p, m) \<in> in_use h" "4 * n \<le> int m" using assms(1) by (auto simp: owns_array_def)
  have "p + 4 * of_int i = of_nat (unat p + nat (4 * i))"
    using assms(2) by (simp add: of_nat_nat)
  moreover have "unat p + nat (4 * i) < unat p + m" using m(2) assms(2,3) by linarith
  ultimately show ?thesis using m(1) that by (meson le_add1)
qed

lemma array_set_owned:
  assumes "owns_array h p n" "0 \<le> i" "i < n"
  shows "heap_ok (array_set p i v h)" "in_use (array_set p i v h) = in_use h" "owns_array (array_set p i v h) p n"
proof -
  obtain m x where x: "(unat p, m) \<in> in_use h" "p + 4 * of_int i = of_nat x" "unat p \<le> x" "x < unat p + m"
    by (rule array_addr [OF assms])
  have ok: "heap_ok h" using assms(1) by (simp add: owns_array_def)
  show a: "heap_ok (array_set p i v h)" and b: "in_use (array_set p i v h) = in_use h"
    unfolding array_set_def x(2) using heap_write [OF ok x(1,3,4)] by simp_all
  show "owns_array (array_set p i v h) p n" using assms(1) a b by (simp add: owns_array_def)
qed

text \<open>A write to one array leaves every other region alone.\<close>

lemma array_set_other:
  assumes "owns_array h p n" "0 \<le> i" "i < n" "(a, m) \<in> in_use h" "a \<noteq> unat p" "a \<le> y" "y < a + m"
  shows "h_mem (array_set p i v h) (of_nat y) = h_mem h (of_nat y)"
proof -
  have ok: "heap_ok h" using assms(1) by (simp add: owns_array_def)
  obtain k x where x: "(unat p, k) \<in> in_use h" "p + 4 * of_int i = of_nat x" "unat p \<le> x" "x < unat p + k"
    by (rule array_addr [OF assms(1-3)])
  have "y < 2 ^ 32" "x < 2 ^ 32" using in_use_bounds(2) [OF ok assms(4)] in_use_bounds(2) [OF ok x(1)] assms(7) x(4) by simp_all
  moreover have "y \<noteq> x" using heap.regs_disjoint [OF ok assms(4) x(1)] assms(5-7) x(3,4) by auto
  ultimately show ?thesis unfolding array_set_def x(2) by (simp add: addr_eq_iff)
qed

lemma array_get_region:
  assumes "owns_array h p n" "0 \<le> i" "i < n"
    "\<And>m y. (unat p, m) \<in> in_use h \<Longrightarrow> unat p \<le> y \<Longrightarrow> y < unat p + m \<Longrightarrow> h_mem t (of_nat y) = h_mem h (of_nat y)"
  shows "array_get t p i = array_get h p i"
  using array_addr [OF assms(1-3)] assms(4) unfolding array_get_def by metis

section \<open>Object lists\<close>

definition olist_rep :: "olist \<times> heap_ctxt \<Rightarrow> u32 list \<Rightarrow> bool" where
  "olist_rep = (\<lambda>(ol, h) xs. owns_array h (ol_list ol) (ol_size ol) \<and> ol_curr ol = int (length xs)
     \<and> ol_curr ol < ol_size ol \<and> (\<forall>i<length xs. array_get h (ol_list ol) (int i) = xs ! i))"

lemma owned_alloc:
  assumes "heap_ok h" "malloc n h = Ret (p, t)" "p \<noteq> 0" "1 \<le> sint n" "sint n + 7 < 2 ^ 31" "4 * k \<le> int (unat n)" "k < 2 ^ 30"
  shows "owns_array t p k" "\<exists>m. in_use t = insert (unat p, m) (in_use h) \<and> (unat p, m) \<notin> in_use h"
    "(a, m) \<in> in_use h \<Longrightarrow> a \<le> x \<Longrightarrow> x < a + m \<Longrightarrow> h_mem t (of_nat x) = h_mem h (of_nat x)"
    "(a, m) \<in> in_use h \<Longrightarrow> 0 < m \<Longrightarrow> a \<noteq> unat p"
proof -
  obtain m where m: "unat n \<le> m" "(unat p, m) \<notin> in_use h" "in_use t = insert (unat p, m) (in_use h)" "heap_ok t"
    using heap.alloc_works [OF assms(1,4,5)] assms(2,3) by auto
  have "4 * k \<le> int m" using m(1) assms(6) by linarith
  then show "owns_array t p k" unfolding owns_array_def m(3) using m(4) assms(3,7) by blast
  show "\<exists>m. in_use t = insert (unat p, m) (in_use h) \<and> (unat p, m) \<notin> in_use h" using m by blast
  show "(a, m) \<in> in_use h \<Longrightarrow> a \<le> x \<Longrightarrow> x < a + m \<Longrightarrow> h_mem t (of_nat x) = h_mem h (of_nat x)" for a m x
    by (rule heap.alloc_keeps [OF assms(1,2)])
  have "0 < m"
  proof -
    have "unat n \<noteq> 0" using assms(4) by (auto simp: unat_eq_0)
    then show ?thesis using m(1) by simp
  qed
  show "(a, m') \<in> in_use h \<Longrightarrow> 0 < m' \<Longrightarrow> a \<noteq> unat p" for a m'
  proof
    assume r: "(a, m') \<in> in_use h" "0 < m'" "a = unat p"
    then have "(a, m') \<noteq> (unat p, m)" using m(2) by auto
    from heap.regs_disjoint [OF m(4) _ _ this] r m(3) \<open>0 < m\<close> show False by auto
  qed
qed

text \<open>Growing copies the items, and releases the old array.\<close>

lemma copy_array_owned:
  assumes "owns_array h dst n" "int k \<le> n" "owns_array h src n'" "int k \<le> n'" "src \<noteq> dst"
  shows "heap_ok (copy_array dst src k h) \<and> in_use (copy_array dst src k h) = in_use h
    \<and> (\<forall>i<k. array_get (copy_array dst src k h) dst (int i) = array_get h src (int i))
    \<and> (\<forall>a m y. (a, m) \<in> in_use h \<longrightarrow> a \<noteq> unat dst \<longrightarrow> a \<le> y \<longrightarrow> y < a + m \<longrightarrow>
         h_mem (copy_array dst src k h) (of_nat y) = h_mem h (of_nat y))"
  using assms(2,4)
proof (induction k)
  case 0
  then show ?case using assms(1) by (simp add: copy_array_def owns_array_def)
next
  case (Suc k)
  let ?t = "copy_array dst src k h"
  have ih: "heap_ok ?t" "in_use ?t = in_use h" "\<And>i. i < k \<Longrightarrow> array_get ?t dst (int i) = array_get h src (int i)"
    "\<And>a m y. (a, m) \<in> in_use h \<Longrightarrow> a \<noteq> unat dst \<Longrightarrow> a \<le> y \<Longrightarrow> y < a + m \<Longrightarrow> h_mem ?t (of_nat y) = h_mem h (of_nat y)"
    using Suc by auto
  have own: "owns_array ?t dst n" using assms(1) ih(1,2) by (simp add: owns_array_def)
  have k: "0 \<le> int k" "int k < n" "int k < n'" "n < 2 ^ 30" using Suc.prems assms(1) by (auto simp: owns_array_def)
  have src: "array_get ?t src (int k) = array_get h src (int k)"
    by (rule array_get_region [OF assms(3) k(1,3)]) (use ih(4) assms(5) in \<open>simp add: word_unat_eq_iff\<close>)
  have step: "copy_array dst src (Suc k) h = array_set dst (int k) (array_get h src (int k)) ?t"
    using src by (simp add: copy_array_def)
  have "array_get (copy_array dst src (Suc k) h) dst (int i) = array_get h src (int i)" if "i < Suc k" for i
    unfolding step using array_get_set [of "int k" "int i" dst _ ?t] ih(3) that k by (auto simp: less_Suc_eq)
  then show ?case
    unfolding step using array_set_owned [OF own k(1,2)] array_set_other [OF own k(1,2)] ih by auto
qed

lemma olist_grow_rep:
  assumes rep: "olist_rep (ol, h) xs" and small: "ol_size ol < 2 ^ 27" "0 < ol_size ol"
  shows "\<exists>r ol' h'. olist_grow (ol, h) = Ret (r, ol', h')
    \<and> (if r then olist_rep (ol', h') xs \<and> ol_size ol' = SIZE_NEXT (ol_size ol) \<and> ol_curr ol' = ol_curr ol
             else ol' = ol \<and> h' = h)
    \<and> (\<forall>a m y. (a, m) \<in> in_use h \<longrightarrow> a \<noteq> unat (ol_list ol) \<longrightarrow> 0 < m \<longrightarrow> a \<le> y \<longrightarrow> y < a + m \<longrightarrow>
          (a, m) \<in> in_use h' \<and> a \<noteq> unat (ol_list ol') \<and> h_mem h' (of_nat y) = h_mem h (of_nat y))"
proof -
  let ?s = "ol_size ol" and ?l = "ol_list ol" and ?c = "nat (ol_curr ol)"
  define N where "N = SIZE_NEXT ?s"
  have N: "N = 2 * ?s + 8" "N \<le> INT_MAX" "?s < N" "N < 2 ^ 29" using small by (simp_all add: N_def SIZE_NEXT_def)
  have own: "owns_array h ?l ?s" and c: "?c = length xs" "int ?c < ?s" "int ?c \<le> N"
    and items: "\<And>i. i < length xs \<Longrightarrow> array_get h ?l (int i) = xs ! i"
    using rep N(3) by (auto simp: olist_rep_def)
  have ok: "heap_ok h" using own by (simp add: owns_array_def)
  define n :: u32 where "n = of_int N * 4"
  have n: "unat n = nat (4 * N)" "sint n = 4 * N"
  proof -
    have "n = of_nat (nat (4 * N))" using N(1) small(2) by (simp add: n_def of_nat_nat)
    moreover have "nat (4 * N) < 2 ^ 31" using N(4) by simp
    ultimately show u: "unat n = nat (4 * N)" by (simp add: unat_addr)
    have "int (unat n) = 4 * N" unfolding u using N(1) small(2) by simp
    then have "uint n = 4 * N" by simp
    then have "sint n = signed_take_bit 31 (4 * N)" by (simp add: sint_uint)
    also have "\<dots> = 4 * N" using N(1,4) small(2) by (intro signed_take_bit_int_eq_self) simp_all
    finally show "sint n = 4 * N" .
  qed
  have sz: "1 \<le> sint n" "sint n + 7 < 2 ^ 31" unfolding n(2) using N(1,4) small(2) by simp_all
  from heap.alloc_works [OF ok sz] obtain p t where "malloc n h = Ret (p, t)"
    "if p = 0 then t = h else \<exists>m\<ge>unat n. (unat p, m) \<notin> in_use h \<and> in_use t = insert (unat p, m) (in_use h)"
    by (elim exE conjE)
  then have pt: "malloc n h = Ret (p, t)" "p = 0 \<Longrightarrow> t = h" by simp_all
  show ?thesis
  proof (cases "p = 0")
    case True
    then have "olist_grow (ol, h) = Ret (False, ol, h)"
      using pt N(2) unfolding olist_grow_def Let_def N_def n_def by simp
    moreover have "a \<noteq> unat (ol_list ol) \<longrightarrow> 0 < m \<longrightarrow> (a, m) \<in> in_use h \<longrightarrow> (a, m) \<in> in_use h" for a m by simp
    ultimately show ?thesis by (intro exI [of _ False] exI [of _ ol] exI [of _ h]) simp
  next
    case False
    have "4 * N \<le> int (unat n)" "N < 2 ^ 30" using n(1) N by simp_all
    note al = owned_alloc [OF ok pt(1) False sz this]
    obtain m0 where m0: "in_use t = insert (unat p, m0) (in_use h)" "(unat p, m0) \<notin> in_use h" using al(2) by blast
    obtain k0 where k0: "(unat ?l, k0) \<in> in_use h" "0 < k0" using own small(2) by (auto simp: owns_array_def)
    have lp: "?l \<noteq> p" using al(4) [OF k0] by auto
    have okt: "heap_ok t" using al(1) by (simp add: owns_array_def)
    have ownl: "owns_array t ?l ?s" using own okt m0(1) by (auto simp: owns_array_def)
    define t2 where "t2 = copy_array p ?l ?c t"
    have cp: "heap_ok t2" "in_use t2 = in_use t" "\<And>i. i < ?c \<Longrightarrow> array_get t2 p (int i) = array_get t ?l (int i)"
      "\<And>a m y. (a, m) \<in> in_use t \<Longrightarrow> a \<noteq> unat p \<Longrightarrow> a \<le> y \<Longrightarrow> y < a + m \<Longrightarrow> h_mem t2 (of_nat y) = h_mem t (of_nat y)"
      using copy_array_owned [OF al(1) c(3) ownl _ lp] c(2) unfolding t2_def by auto
    define h' where "h' = free ?l t2"
    have kt: "(unat ?l, k0) \<in> in_use t2" using k0 m0(1) cp(2) by simp
    have fr: "heap_ok h'" "in_use h' = in_use t2 - {(unat ?l, k0)}"
      using heap.release_works [OF cp(1) kt] by (simp_all add: h'_def)
    have keep: "(a, m) \<in> in_use h' \<Longrightarrow> a \<le> y \<Longrightarrow> y < a + m \<Longrightarrow> h_mem h' (of_nat y) = h_mem t2 (of_nat y)" for a m y
      unfolding h'_def by (rule heap.release_keeps [OF cp(1) kt])
    define ol' where "ol' = ol\<lparr>ol_list := p, ol_size := N\<rparr>"
    have run: "olist_grow (ol, h) = Ret (True, ol', h')"
      using pt(1) [unfolded n_def N_def] N(2) [unfolded N_def] False
      by (simp add: olist_grow_def Let_def ol'_def h'_def t2_def N_def)
    have pin: "(unat p, m0) \<in> in_use h'" using fr(2) cp(2) m0(1) lp by (auto simp: word_unat_eq_iff)
    have "owns_array t2 p N" using al(1) cp(1,2) by (simp add: owns_array_def)
    moreover obtain m1 where m1: "(unat p, m1) \<in> in_use t" "4 * N \<le> int m1" using al(1) by (auto simp: owns_array_def)
    moreover have "(unat p, m1) \<in> in_use h'" using m1(1) fr(2) cp(2) lp by (auto simp: word_unat_eq_iff)
    ultimately have ownp: "owns_array h' p N" "owns_array t2 p N" using fr(1) by (auto simp: owns_array_def)
    have get: "array_get h' p (int i) = xs ! i" if "i < length xs" for i
    proof -
      have i: "0 \<le> int i" "int i < N" "int i < ?s" using that c by simp_all
      have "array_get t2 p (int i) = array_get h' p (int i)"
        by (rule array_get_region [OF ownp(1) i(1,2)]) (use keep in simp)
      moreover have "array_get t ?l (int i) = array_get h ?l (int i)"
        by (rule array_get_region [OF own i(1,3)]) (use al(3) in simp)
      ultimately show ?thesis using cp(3) [of i] items [OF that] that c(1) by simp
    qed
    then have "olist_rep (ol', h') xs"
      using ownp(1) c(2,3) rep N(3) by (simp add: olist_rep_def ol'_def)
    moreover have "(a, m) \<in> in_use h' \<and> a \<noteq> unat p \<and> h_mem h' (of_nat y) = h_mem h (of_nat y)"
      if a: "(a, m) \<in> in_use h" "a \<noteq> unat ?l" "0 < m" "a \<le> y" "y < a + m" for a m y
    proof -
      have ap: "a \<noteq> unat p" by (rule al(4) [OF a(1,3)])
      moreover have "(a, m) \<in> in_use h'" using a(1,2) fr(2) cp(2) m0(1) by auto
      ultimately show ?thesis using keep a(4,5) cp(4) [of a m y] al(3) [OF a(1,4,5)] a(1) m0(1) by simp
    qed
    ultimately show ?thesis using run by (intro exI [of _ True] exI [of _ ol'] exI [of _ h']) (simp add: ol'_def N_def)
  qed
qed

lemma olist_store:
  assumes "olist_rep (ol, h) xs" "ol_curr ol + 1 < ol_size ol"
  shows "olist_rep (ol\<lparr>ol_curr := ol_curr ol + 1\<rparr>, array_set (ol_list ol) (ol_curr ol) x h) (xs @ [x])"
proof -
  have own: "owns_array h (ol_list ol) (ol_size ol)" and c: "ol_curr ol = int (length xs)"
    and items: "\<And>i. i < length xs \<Longrightarrow> array_get h (ol_list ol) (int i) = xs ! i"
    using assms(1) by (auto simp: olist_rep_def)
  have b: "int (length xs) < 2 ^ 30" using own assms(2) c by (simp add: owns_array_def)
  have "array_get (array_set (ol_list ol) (ol_curr ol) x h) (ol_list ol) (int i) = (xs @ [x]) ! i" if "i < length (xs @ [x])" for i
    using array_get_set [of "int (length xs)" "int i" "ol_list ol" x h] b that items[of i] c
    by (auto simp: nth_append less_Suc_eq)
  then show ?thesis
    using array_set_owned(3) [OF own, of "ol_curr ol" x] assms(2) c by (simp add: olist_rep_def)
qed

lemma olist_push_rep:
  assumes "olist_rep (ol, h) xs" "item \<noteq> 0" "0 < ol_size ol" "ol_size ol < 2 ^ 27"
  shows "\<exists>r ol' h'. olist_item_push item (ol, h) = Ret (r, ol', h')
    \<and> olist_rep (ol', h') (if r then xs @ [item] else xs) \<and> (int (length xs) < ol_size ol - 1 \<longrightarrow> r)
    \<and> (\<forall>a m y. (a, m) \<in> in_use h \<longrightarrow> a \<noteq> unat (ol_list ol) \<longrightarrow> 0 < m \<longrightarrow> a \<le> y \<longrightarrow> y < a + m \<longrightarrow>
          (a, m) \<in> in_use h' \<and> h_mem h' (of_nat y) = h_mem h (of_nat y))"
proof -
  have c: "ol_curr ol = int (length xs)" and own: "owns_array h (ol_list ol) (ol_size ol)"
    using assms(1) by (simp_all add: olist_rep_def)
  show ?thesis
  proof (cases "ol_curr ol \<ge> ol_size ol - 1")
    case False
    let ?h = "array_set (ol_list ol) (ol_curr ol) item h"
    have i: "0 \<le> ol_curr ol" "ol_curr ol < ol_size ol" using False c by simp_all
    have run: "olist_item_push item (ol, h) = Ret (True, ol\<lparr>ol_curr := ol_curr ol + 1\<rparr>, ?h)"
      using False assms(2) by (simp add: olist_item_push_def)
    have "olist_rep (ol\<lparr>ol_curr := ol_curr ol + 1\<rparr>, ?h) (xs @ [item])"
      using olist_store [OF assms(1), of item] False by simp
    moreover have "(a, m) \<in> in_use ?h \<and> h_mem ?h (of_nat y) = h_mem h (of_nat y)"
      if "(a, m) \<in> in_use h" "a \<noteq> unat (ol_list ol)" "a \<le> y" "y < a + m" for a m y
      using array_set_other [OF own i that] array_set_owned(2) [OF own i] that(1) by simp
    ultimately show ?thesis using run by (intro exI [of _ True] exI [of _ "ol\<lparr>ol_curr := ol_curr ol + 1\<rparr>"] exI [of _ ?h]) simp
  next
    case True
    from olist_grow_rep [OF assms(1,4,3)] obtain r ol1 h1 where g: "olist_grow (ol, h) = Ret (r, ol1, h1)"
      "if r then olist_rep (ol1, h1) xs \<and> ol_size ol1 = SIZE_NEXT (ol_size ol) \<and> ol_curr ol1 = ol_curr ol
         else ol1 = ol \<and> h1 = h"
      "\<forall>a m y. (a, m) \<in> in_use h \<longrightarrow> a \<noteq> unat (ol_list ol) \<longrightarrow> 0 < m \<longrightarrow> a \<le> y \<longrightarrow> y < a + m \<longrightarrow>
          (a, m) \<in> in_use h1 \<and> a \<noteq> unat (ol_list ol1) \<and> h_mem h1 (of_nat y) = h_mem h (of_nat y)"
      by (elim exE conjE)
    have room: "\<not> int (length xs) < ol_size ol - 1" using True c by simp
    show ?thesis
    proof (cases r)
      case False
      then have "olist_item_push item (ol, h) = Ret (False, ol, h)"
        using True g(1,2) assms(2) by (simp add: olist_item_push_def)
      then show ?thesis using assms(1) room by (intro exI [of _ False] exI [of _ ol] exI [of _ h]) simp
    next
      case r: True
      let ?h = "array_set (ol_list ol1) (ol_curr ol1) item h1"
      have rep1: "olist_rep (ol1, h1) xs" "ol_size ol1 = SIZE_NEXT (ol_size ol)" "ol_curr ol1 = ol_curr ol"
        using g(2) r by simp_all
      have "ol_curr ol < ol_size ol" using assms(1) by (simp add: olist_rep_def)
      then have sz: "ol_curr ol1 + 1 < ol_size ol1" using rep1(2,3) assms(3) by (simp add: SIZE_NEXT_def)
      have own1: "owns_array h1 (ol_list ol1) (ol_size ol1)" using rep1(1) by (simp add: olist_rep_def)
      have i: "0 \<le> ol_curr ol1" "ol_curr ol1 < ol_size ol1" using sz c rep1(3) by simp_all
      have run: "olist_item_push item (ol, h) = Ret (True, ol1\<lparr>ol_curr := ol_curr ol1 + 1\<rparr>, ?h)"
        using True g(1) r assms(2) by (simp add: olist_item_push_def)
      have "(a, m) \<in> in_use ?h \<and> h_mem ?h (of_nat y) = h_mem h (of_nat y)"
        if a: "(a, m) \<in> in_use h" "a \<noteq> unat (ol_list ol)" "0 < m" "a \<le> y" "y < a + m" for a m y
      proof -
        have k: "(a, m) \<in> in_use h1" "a \<noteq> unat (ol_list ol1)" "h_mem h1 (of_nat y) = h_mem h (of_nat y)"
          using g(3) a by blast+
        show ?thesis using array_set_other [OF own1 i k(1,2) a(4,5)] array_set_owned(2) [OF own1 i] k by simp
      qed
      then show ?thesis using run olist_store [OF rep1(1) sz, of item] room
        by (intro exI [of _ True] exI [of _ "ol1\<lparr>ol_curr := ol_curr ol1 + 1\<rparr>"] exI [of _ ?h]) simp
    qed
  qed
qed

lemma olist_pop_rep:
  assumes "olist_rep (ol, h) (xs @ [x])"
  shows "\<exists>ol'. olist_item_pop (ol, h) = (x, ol', h) \<and> olist_rep (ol', h) xs"
proof -
  have "ol_curr ol = int (Suc (length xs))" "array_get h (ol_list ol) (int (length xs)) = x"
    using assms by (auto simp: olist_rep_def nth_append split: if_splits)
  then show ?thesis using assms
    by (auto simp: olist_item_pop_def olist_rep_def Let_def nth_append)
qed

text \<open>An object list is a stack as long as its array has room: items are taken from its end.\<close>

definition olist_push_ok :: "u32 \<Rightarrow> olist \<times> heap_ctxt \<Rightarrow> (olist \<times> heap_ctxt) option" where
  "olist_push_ok x s = (case olist_item_push x s of Ret (True, t) \<Rightarrow> Some t | _ \<Rightarrow> None)"

definition olist_pop_item :: "olist \<times> heap_ctxt \<Rightarrow> (u32 \<times> olist \<times> heap_ctxt) option" where
  "olist_pop_item s = (if ol_curr (fst s) = 0 then None else Some (olist_item_pop s))"

interpretation olist_stack: stack olist_push_ok olist_pop_item "\<lambda>s xs. olist_rep s (rev xs)"
    "\<lambda>x s xs. x \<noteq> 0 \<and> ol_size (fst s) < 2 ^ 27 \<and> int (length xs) < ol_size (fst s) - 1"
proof
  fix s :: "olist \<times> heap_ctxt" and xs :: "u32 list" and x :: u32
  assume s: "olist_rep s (rev xs)" "x \<noteq> 0 \<and> ol_size (fst s) < 2 ^ 27 \<and> int (length xs) < ol_size (fst s) - 1"
  obtain ol h where ol: "s = (ol, h)" by (cases s)
  obtain r ol' h' where p: "olist_item_push x (ol, h) = Ret (r, ol', h')" "r"
      "olist_rep (ol', h') (if r then rev xs @ [x] else rev xs)"
    using olist_push_rep [of ol h "rev xs" x] s by (auto simp: ol)
  then show "\<exists>t. olist_push_ok x s = Some t \<and> olist_rep t (rev (x # xs))"
    by (simp add: olist_push_ok_def ol)
next
  fix s :: "olist \<times> heap_ctxt" and xs :: "u32 list" and x :: u32
  assume s: "olist_rep s (rev (x # xs))"
  obtain ol h where ol: "s = (ol, h)" by (cases s)
  have "olist_rep (ol, h) (rev xs @ [x])" using s ol by simp
  from olist_pop_rep [OF this] this show "\<exists>t. olist_pop_item s = Some (x, t) \<and> olist_rep t (rev xs)"
    by (auto simp: olist_pop_item_def ol olist_rep_def)
next
  fix s :: "olist \<times> heap_ctxt"
  assume "olist_rep s (rev [])"
  then show "olist_pop_item s = None" by (auto simp: olist_pop_item_def olist_rep_def split: prod.splits)
qed

section \<open>Object pools\<close>

text \<open>The first \<open>pcurrent\<close> words of the array are the free objects; the last of them is handed out next.\<close>

definition pool_rep :: "pool_ctxt \<times> heap_ctxt \<Rightarrow> u32 list \<Rightarrow> bool" where
  "pool_rep = (\<lambda>(c, h) xs. pcurrent c = int (length xs) \<and> pcurrent c \<le> pcount c \<and> pcount c < 2 ^ 30
     \<and> (\<forall>i<length xs. array_get h (plist c) (int i) = rev xs ! i))"

lemma pool_free_rep:
  assumes "pool_rep (c, h) xs" "int (length xs) < pcount c"
  shows "pool_rep (pool_free x (c, h)) (x # xs)"
proof -
  have c: "pcurrent c = int (length xs)" "pcount c < 2 ^ 30"
    and items: "\<And>i. i < length xs \<Longrightarrow> array_get h (plist c) (int i) = rev xs ! i"
    using assms(1) by (auto simp: pool_rep_def)
  have "array_get (array_set (plist c) (pcurrent c) x h) (plist c) (int i) = rev (x # xs) ! i" if "i < length (x # xs)" for i
    using array_get_set [of "pcurrent c" "int i" "plist c" x h] assms(2) c that items [of i]
    by (auto simp: nth_append less_Suc_eq)
  then show ?thesis using assms(2) c by (simp add: pool_rep_def pool_free_def)
qed

definition pool_take :: "pool_ctxt \<times> heap_ctxt \<Rightarrow> (u32 \<times> pool_ctxt \<times> heap_ctxt) option" where
  "pool_take s = (if pcurrent (fst s) > 0 then Some (pool_alloc s) else None)"

interpretation pool_stack: stack "\<lambda>x s. Some (pool_free x s)" pool_take pool_rep
    "\<lambda>_ s xs. int (length xs) < pcount (fst s)"
proof
  fix s :: "pool_ctxt \<times> heap_ctxt" and xs :: "u32 list" and x :: u32
  assume "pool_rep s xs" "int (length xs) < pcount (fst s)"
  then show "\<exists>t. Some (pool_free x s) = Some t \<and> pool_rep t (x # xs)"
    using pool_free_rep by (cases s) auto
next
  fix s :: "pool_ctxt \<times> heap_ctxt" and xs :: "u32 list" and x :: u32
  assume s: "pool_rep s (x # xs)"
  obtain c h where c: "s = (c, h)" by (cases s)
  have "array_get h (plist c) (int (length xs)) = x" using s by (auto simp: c pool_rep_def nth_append)
  then have "pool_take s = Some (x, c\<lparr>pcurrent := int (length xs)\<rparr>, h)"
    using s by (simp add: c pool_rep_def pool_take_def pool_alloc_def Let_def)
  moreover have "pool_rep (c\<lparr>pcurrent := int (length xs)\<rparr>, h) xs"
    using s by (auto simp: c pool_rep_def nth_append)
  ultimately show "\<exists>t. pool_take s = Some (x, t) \<and> pool_rep t xs" by blast
next
  fix s :: "pool_ctxt \<times> heap_ctxt"
  assume "pool_rep s []"
  then show "pool_take s = None" by (auto simp: pool_take_def pool_rep_def split: prod.splits)
qed

section \<open>What the objects of a pool occupy\<close>

text \<open>Releasing an object to a pool writes into the array of the pool only.\<close>

lemma pool_free_owned:
  assumes "owns_array h (plist c) (pcount c)" "0 \<le> pcurrent c" "pool_free x (c, h) = (c', h')"
  shows "owns_array h' (plist c) (pcount c) \<and> in_use h' = in_use h \<and> 0 \<le> pcurrent c'
    \<and> plist c' = plist c \<and> pcount c' = pcount c \<and> psz c' = psz c"
  using assms(3) array_set_owned [OF assms(1,2), of x] assms(1,2) by (auto simp: pool_free_def split: if_splits)

lemma pool_fill_owned:
  assumes "owns_array h (plist c) (pcount c)" "0 \<le> pcurrent c" "for_loop n (\<lambda>k. pool_free (obj k)) (c, h) = (c', h')"
  shows "owns_array h' (plist c) (pcount c) \<and> in_use h' = in_use h \<and> plist c' = plist c \<and> pcount c' = pcount c \<and> psz c' = psz c"
proof -
  have "owns_array (snd s) (plist c) (pcount c) \<and> in_use (snd s) = in_use h \<and> 0 \<le> pcurrent (fst s)
      \<and> plist (fst s) = plist c \<and> pcount (fst s) = pcount c \<and> psz (fst s) = psz c"
    if "s = for_loop n (\<lambda>k. pool_free (obj k)) (c, h)" for s
    unfolding that
  proof (rule for_loop_invariant, goal_cases)
    case (2 k t)
    obtain d g where t: "t = (d, g)" by (cases t)
    obtain d' g' where r: "pool_free (obj k) t = (d', g')" by (cases "pool_free (obj k) t")
    show ?case using pool_free_owned [of g d "obj k" d' g'] 2(2) r by (simp add: t)
  qed (use assms in simp)
  from this [OF refl] show ?thesis using assms(3) by simp
qed

lemma int_and_not_7: "(x :: int) AND NOT 7 = x div 8 * 8"
proof -
  have "x AND NOT (mask 3) = push_bit 3 (drop_bit 3 x)"
    by (rule bit_eqI) (auto simp: bit_simps)
  then show ?thesis by (simp add: mask_eq_exp_minus_1 push_bit_eq_mult drop_bit_eq_div)
qed

lemma small_int_word:
  assumes "0 \<le> x" "x < 2 ^ 31"
  shows "sint (of_int x :: u32) = x" "unat (of_int x :: u32) = nat x"
proof -
  have "take_bit 32 x = x" using assms by (intro take_bit_int_eq_self) simp_all
  then show "unat (of_int x :: u32) = nat x" by (simp add: unat_eq_nat_uint uint_word_of_int_eq)
  have "signed_take_bit 31 x = x" using assms by (intro signed_take_bit_int_eq_self) simp_all
  then show "sint (of_int x :: u32) = x" by (simp add: sint_sbintrunc')
qed

text \<open>
  The object size and count a pool works with, and the heap request for them. Nothing wraps when the objects, with the
  sixteen bytes for each that the code skips, are below 2 GB.
\<close>

lemma pool_init_cases:
  assumes "pool_init item_size item_count (c, h) = Ret (True, c', h')" "0 \<le> item_size" "0 \<le> item_count"
    "heap_ok h" "(item_size + 32) * (item_count + 2) < 2 ^ 31"
  shows "8 \<le> psz c'" "2 \<le> pcount c'" "(psz c' + 16) * pcount c' < 2 ^ 31"
    "\<exists>m. (unat (plist c'), m) \<in> in_use h' \<and> int m < (psz c' + 16) * pcount c'"
proof -
  define size1 where "size1 = (if item_size < 8 then 8 else item_size)"
  define sz where "sz = (size1 + 7) AND NOT 7"
  define n where "n = (if item_count < 2 then 2 else item_count)"
  have sz8: "sz = (size1 + 7) div 8 * 8"
    unfolding sz_def by (rule int_and_not_7)
  have sz: "8 \<le> sz" "sz \<le> item_size + 15" using assms(2) unfolding sz8 size1_def by auto
  have n: "2 \<le> n" "n \<le> item_count + 2" using assms(3) by (auto simp: n_def)
  have "(sz + 16) * n \<le> (item_size + 32) * (item_count + 2)" using sz n assms(2,3) by (intro mult_mono) auto
  then have b: "(sz + 16) * n < 2147483648" using assms(5) by simp
  have "24 * n \<le> (sz + 16) * n" using sz(1) n(1) by (intro mult_right_mono) simp_all
  then have n24: "24 * n < 2147483648" using b by linarith
  have prod: "0 \<le> sz * n" "sz * n + 16 * n < 2147483648" using sz n b by (simp_all add: algebra_simps)
  have word: "(of_int (sz * n) + 4 * of_int n :: u32) = of_int (sz * n + 4 * n)" by simp
  have req: "sint (of_int (sz * n + 4 * n) :: u32) = sz * n + 4 * n" "unat (of_int (sz * n + 4 * n) :: u32) = nat (sz * n + 4 * n)"
    using prod n by (intro small_int_word; simp)+
  have "(item_size + 32) * 1 \<le> (item_size + 32) * (item_count + 2)" using assms(2,3) by (intro mult_left_mono) simp_all
  then have "item_size + 32 < 2147483648" using assms(5) by simp
  then have ovf: "\<not> size1 + 7 > INT_MAX" "\<not> sz * n > INT_MAX" "\<not> sz * n < - INT_MAX - 1"
    using prod n(1) by (auto simp: size1_def)
  have s1: "(if 0 \<le> item_size \<and> item_size < 8 then 8 else item_size) = size1" using assms(2) by (simp add: size1_def)
  have run: "pool_init item_size item_count (c, h) =
      and_then (malloc (of_int (sz * n + 4 * n)) h) (\<lambda>(p, h1).
        let c1 = c\<lparr>pcount := n, psz := sz, pcurrent := 0, plist := p\<rparr>
        in if p = 0 then Ret (False, c1, h1)
           else Ret (True, for_loop (nat n) (\<lambda>k. pool_free (pool_objects c1 + of_int (sz * int k))) (c1, h1)))"
    unfolding pool_init_def prod.case Let_def n_def [symmetric] s1 sz_def [symmetric] using ovf by simp
  have "1 \<le> sz * n + 4 * n" "sz * n + 4 * n + 7 < 2 ^ 31" using prod n(1) by simp_all
  with malloc_regions [OF assms(4), of "of_int (sz * n + 4 * n)"] req
  obtain p h1 m where h1: "malloc (of_int (sz * n + 4 * n)) h = Ret (p, h1)" "heap_ok h1"
    "p \<noteq> 0 \<longrightarrow> nat (sz * n + 4 * n) \<le> m \<and> m \<le> nat (sz * n + 4 * n) + 15 \<and> (unat p, m) \<in> in_use h1"
    by (auto split: if_splits)
  define c1 where "c1 = c\<lparr>pcount := n, psz := sz, pcurrent := 0, plist := p\<rparr>"
  have fill: "p \<noteq> 0" "for_loop (nat n) (\<lambda>k. pool_free (pool_objects c1 + of_int (sz * int k))) (c1, h1) = (c', h')"
    using assms(1) unfolding run h1(1) c1_def by (auto simp: Let_def split: if_splits)
  have m: "sz * n + 4 * n \<le> int m" "int m \<le> sz * n + 4 * n + 15" "(unat p, m) \<in> in_use h1"
    using h1(3) fill(1) prod n(1) by auto
  have "owns_array h1 (plist c1) (pcount c1)"
    unfolding owns_array_def using h1(2) fill(1) m(1,3) prod(1) n24 by (auto simp: c1_def intro!: exI [of _ m])
  from pool_fill_owned [OF this _ fill(2)] have "in_use h' = in_use h1" "plist c' = p" "pcount c' = n" "psz c' = sz"
    by (simp_all add: c1_def)
  then show "8 \<le> psz c'" "2 \<le> pcount c'" "(psz c' + 16) * pcount c' < 2 ^ 31"
    "\<exists>m. (unat (plist c'), m) \<in> in_use h' \<and> int m < (psz c' + 16) * pcount c'"
    using sz(1) n(1) b m by (auto simp: algebra_simps intro!: exI [of _ m])
qed

text \<open>C22.
  The objects of a pool do not fit in the memory the pool allocates. \<^verbatim>\<open>pool_init\<close> asks for the objects and four bytes
  of free list for each, but it, and \<^verbatim>\<open>pool_get_raw\<close>, place the objects sixteen bytes for each behind the start: the
  objects lie one behind the other, clear of the free list, and the last one ends outside the region that \<^verbatim>\<open>malloc\<close>
  returned.
\<close>

theorem pool_objects_outside:
  assumes "pool_init item_size item_count (c, h) = Ret (True, c', h')" "0 \<le> item_size" "0 \<le> item_count"
    "heap_ok h" "(item_size + 32) * (item_count + 2) < 2 ^ 31"
  shows "(\<forall>k. 0 \<le> k \<and> k < pcount c' \<longrightarrow>
           uint (pool_get_raw k c' - plist c') = 16 * pcount c' + psz c' * k)
    \<and> (\<exists>m. (unat (plist c'), m) \<in> in_use h'
         \<and> int m < uint (pool_get_raw (pcount c' - 1) c' - plist c') + psz c')"
proof -
  note fact = pool_init_cases [OF assms]
  have off: "uint (pool_get_raw k c' - plist c') = 16 * pcount c' + psz c' * k" if k: "0 \<le> k" "k < pcount c'" for k
  proof -
    have "psz c' * k \<le> psz c' * pcount c'" using k fact(1) by (intro mult_left_mono) simp_all
    moreover have "psz c' * pcount c' + 16 * pcount c' < 2147483648" using fact(3) by (simp add: distrib_right)
    moreover have "0 \<le> psz c' * k" using k fact(1) by simp
    ultimately have "0 \<le> 16 * pcount c' + psz c' * k" "16 * pcount c' + psz c' * k < 4294967296"
      using fact(2) by linarith+
    then have "0 \<le> 16 * pcount c' + psz c' * k" "16 * pcount c' + psz c' * k < 2 ^ 32" by simp_all
    moreover have "pool_get_raw k c' - plist c' = of_int (16 * pcount c' + psz c' * k)"
      using k by (simp add: pool_get_raw_def pool_objects_def)
    moreover have "uint (of_int x :: u32) = x" if "0 \<le> x" "x < 2 ^ 32" for x :: int
      unfolding uint_word_of_int_eq by (rule take_bit_int_eq_self) (use that in simp_all)
    ultimately show ?thesis by metis
  qed
  from fact(4) obtain m where m: "(unat (plist c'), m) \<in> in_use h'" "int m < (psz c' + 16) * pcount c'" by blast
  have "uint (pool_get_raw (pcount c' - 1) c' - plist c') + psz c' = (psz c' + 16) * pcount c'"
    using off [of "pcount c' - 1"] fact(2) by (simp add: algebra_simps)
  then show ?thesis using off m by auto
qed

section \<open>Bits\<close>

lemma bit_of_bit: "0 \<le> n \<Longrightarrow> bit (bit_of n) j \<longleftrightarrow> j < 32 \<and> j = nat (n mod 32)"
  by (auto simp: bit_of_def bit_simps)

lemma and_bit_of: "w AND bit_of n \<noteq> 0 \<longleftrightarrow> bit w (nat (n mod 32))"
proof -
  have "nat (n mod 32) < 32" by simp
  then show ?thesis
    by (auto simp: bit_of_def bit_eq_iff [where 'a = "32 word"] bit_simps)
qed

lemma bitset_word: "0 \<le> (n :: int) \<Longrightarrow> n < 2 ^ 31 \<Longrightarrow> 0 \<le> drop_bit 5 n \<and> drop_bit 5 n < 2 ^ 26"
  by (auto simp: drop_bit_eq_div)

lemma bitset_size_set: "bitset_size (bitset_set b n v h) b = bitset_size h b"
proof (cases "b = 0 \<or> n < 0 \<or> n \<ge> bitset_size h b")
  case False
  have "bitset_size h b < 2 ^ 31" using sint_lt [of "h_mem h b"] by (simp add: bitset_size_def)
  then have i: "0 \<le> drop_bit 5 n" "drop_bit 5 n < 2 ^ 26" using bitset_word [of n] False by simp_all
  have "b + 4 + 4 * of_int (drop_bit 5 n) \<noteq> b"
    using array_index_eq [of "drop_bit 5 n + 1" 0 b] i by (simp add: algebra_simps)
  then show ?thesis using False by (simp add: bitset_set_def bitset_size_def array_set_def Let_def)
qed (auto simp: bitset_set_def)

text \<open>A bit set holds the last value written to each of its bits: writing bit \<open>n\<close> changes that bit and no other, an index outside
  the set, or the null pointer, changes nothing, and the size stays.
\<close>

theorem bitset_get_set:
  "bitset_get b m (bitset_set b n v h)
     = (if m = n \<and> b \<noteq> 0 \<and> 0 \<le> n \<and> n < bitset_size h b then v else bitset_get b m h)
   \<and> bitset_size (bitset_set b n v h) b = bitset_size h b"
proof (cases "b = 0 \<or> n < 0 \<or> n \<ge> bitset_size h b \<or> m < 0 \<or> m \<ge> bitset_size h b")
  case True
  then show ?thesis using bitset_size_set [of b n v h] by (auto simp: bitset_set_def bitset_get_def)
next
  case False
  have "bitset_size h b < 2 ^ 31" using sint_lt [of "h_mem h b"] by (simp add: bitset_size_def)
  then have i: "0 \<le> drop_bit 5 n" "drop_bit 5 n < 2 ^ 26" "0 \<le> drop_bit 5 m" "drop_bit 5 m < 2 ^ 26"
    using bitset_word [of n] bitset_word [of m] False by simp_all
  have eq: "m = n \<longleftrightarrow> drop_bit 5 m = drop_bit 5 n \<and> nat (m mod 32) = nat (n mod 32)"
    using False by (auto simp: drop_bit_eq_div eq_nat_nat_iff) (metis mult_div_mod_eq)
  have word: "array_get (bitset_set b n v h) (b + 4) (drop_bit 5 m)
      = (let w = array_get h (b + 4) (drop_bit 5 m)
         in if drop_bit 5 m = drop_bit 5 n then (if v then w OR bit_of n else w AND NOT (bit_of n)) else w)"
    using i False by (auto simp: bitset_set_def Let_def array_get_set)
  have "nat (m mod 32) < 32" by simp
  then have "bit (array_get (bitset_set b n v h) (b + 4) (drop_bit 5 m)) (nat (m mod 32))
      = (if m = n then v else bit (array_get h (b + 4) (drop_bit 5 m)) (nat (m mod 32)))"
    using False unfolding word eq Let_def
    by (auto simp: bit_simps bit_of_bit)
  then show ?thesis using False bitset_size_set [of b n v h] by (simp add: bitset_get_def and_bit_of)
qed

section \<open>Pushing to an object list\<close>

text \<open>Pushing to an object list appends the item, whether or not the array has to be reallocated: growing copies the items, and
  the push fails, changing nothing of the list, only when the array is full and \<^verbatim>\<open>malloc\<close> finds no larger one. The
  item is what the next pop returns. Other regions of the heap stay in use and keep their contents.
\<close>

theorem olist_push_keeps_items:
  assumes "olist_rep (ol, h) xs" "item \<noteq> 0" "0 < ol_size ol" "ol_size ol < 2 ^ 27"
  shows "\<exists>r ol' h'. olist_item_push item (ol, h) = Ret (r, ol', h')
    \<and> olist_rep (ol', h') (if r then xs @ [item] else xs)
    \<and> (r \<longrightarrow> olist_item_pop (ol', h') = (item, ol'\<lparr>ol_curr := int (length xs)\<rparr>, h')
          \<and> olist_rep (ol'\<lparr>ol_curr := int (length xs)\<rparr>, h') xs)
    \<and> (int (length xs) < ol_size ol - 1 \<longrightarrow> r)
    \<and> (\<forall>a m y. (a, m) \<in> in_use h \<longrightarrow> a \<noteq> unat (ol_list ol) \<longrightarrow> 0 < m \<longrightarrow> a \<le> y \<longrightarrow> y < a + m \<longrightarrow>
          (a, m) \<in> in_use h' \<and> h_mem h' (of_nat y) = h_mem h (of_nat y))"
proof -
  from olist_push_rep [OF assms] obtain r ol' h' where r: "olist_item_push item (ol, h) = Ret (r, ol', h')"
    "olist_rep (ol', h') (if r then xs @ [item] else xs)" "int (length xs) < ol_size ol - 1 \<longrightarrow> r"
    "\<forall>a m y. (a, m) \<in> in_use h \<longrightarrow> a \<noteq> unat (ol_list ol) \<longrightarrow> 0 < m \<longrightarrow> a \<le> y \<longrightarrow> y < a + m \<longrightarrow>
          (a, m) \<in> in_use h' \<and> h_mem h' (of_nat y) = h_mem h (of_nat y)"
    by (elim exE conjE)
  have "olist_item_pop (ol', h') = (item, ol'\<lparr>ol_curr := int (length xs)\<rparr>, h')
      \<and> olist_rep (ol'\<lparr>ol_curr := int (length xs)\<rparr>, h') xs" if r
    using r(2) that by (auto simp: olist_rep_def olist_item_pop_def nth_append All_less_Suc)
  with r show ?thesis by blast
qed

text \<open>An empty list in the block of the example heap.\<close>

lemma demo_olist: "olist_rep (\<lparr>ol_curr = 0, ol_size = 6, ol_list = 0x1008\<rparr>, demo_heap) []"
  using demo_heap_inv in_use_eq [OF demo_heap_inv]
  by (auto simp: olist_rep_def owns_array_def heap_ok_def demo_heap_def)

theorem olist_push_keeps_items_witness:
  "\<exists>r ol' h'. olist_item_push 7 (\<lparr>ol_curr = 0, ol_size = 6, ol_list = 0x1008\<rparr>, demo_heap) = Ret (r, ol', h')
     \<and> olist_rep (ol', h') [7] \<and> r"
  using olist_push_keeps_items [OF demo_olist, of 7] by fastforce

text \<open>A heap of one free block, and a pool of two objects of eight bytes in it.\<close>

definition demo_pool_heap :: heap_ctxt where
  "demo_pool_heap = core_mem_init 0x1000 0x1100 \<lparr>h_size = 0, h_memory = 0, h_mem = \<lambda>_. 0\<rparr>"

lemma demo_pool_heap_inv: "heap_inv demo_pool_heap [(240, False)]"
  using core_mem_init_inv [of "0x1000" "0x1100"] by (simp add: demo_pool_heap_def)

lemma demo_pool: "\<exists>c' h'. pool_init 8 2 (\<lparr>pcount = 0, pcurrent = 0, psz = 0, plist = 0\<rparr>, demo_pool_heap) = Ret (True, c', h')"
proof -
  obtain p h1 where "malloc 24 demo_pool_heap = Ret (p, h1)" "p \<noteq> 0"
    using malloc_inv [OF demo_pool_heap_inv, of 24]
    by (auto simp: fits_def round8_def Cons_eq_append_conv demo_pool_heap_def core_mem_init_def heap_init_def Let_def)
  then show ?thesis by (simp add: pool_init_def Let_def)
qed

theorem pool_objects_outside_witness:
  "\<exists>c' h' m. pool_init 8 2 (\<lparr>pcount = 0, pcurrent = 0, psz = 0, plist = 0\<rparr>, demo_pool_heap) = Ret (True, c', h')
     \<and> (unat (plist c'), m) \<in> in_use h' \<and> int m < uint (pool_get_raw (pcount c' - 1) c' - plist c') + psz c'"
proof -
  obtain c' h' where run: "pool_init 8 2 (\<lparr>pcount = 0, pcurrent = 0, psz = 0, plist = 0\<rparr>, demo_pool_heap) = Ret (True, c', h')"
    using demo_pool by blast
  have "heap_ok demo_pool_heap"
    using demo_pool_heap_inv by (auto simp: heap_ok_def)
  from pool_objects_outside [OF run _ _ this] run show ?thesis by auto
qed

end
