(* ===== verification/Buddy.thy ===== *)
theory Buddy
  imports Pools
begin

text \<open>
  \<^verbatim>\<open>library/mem/src/buddy.c\<close>: a buddy allocator for pages. The header of page \<open>i\<close> is two words of an array in the heap:
  \<open>next\<close>, with the flag of a free block, and \<open>prev\<close>, with the order of the block. Indices of pages are \<open>u32\<close>, also where the
  code uses \<open>int\<close>: the value \<open>-1\<close> of an empty free list is the word of ones. Shifts by 32 or more, and indices
  outside the array of free lists, are the outcome \<open>Undefined\<close>.
\<close>

section \<open>Headers\<close>

abbreviation (input) FLAG_FREE :: u32 where "FLAG_FREE \<equiv> 0x80000000"
abbreviation (input) MASK_NEXT :: u32 where "MASK_NEXT \<equiv> 0x0FFFFFFF"
abbreviation (input) SHIFT_ORDER :: nat where "SHIFT_ORDER \<equiv> 27"
abbreviation (input) MASK_ORDER :: u32 where "MASK_ORDER \<equiv> 0xF8000000"
abbreviation (input) MASK_PREV :: u32 where "MASK_PREV \<equiv> 0x07FFFFFF"

record buddy_ctxt =
  b_base :: u32
  b_index_max :: u32
  b_page_bits :: int
  b_order :: int
  b_all :: u32
  b_free :: "int \<Rightarrow> u32"

type_synonym buddy = "buddy_ctxt \<times> heap_ctxt"

definition blk_next :: "buddy \<Rightarrow> u32 \<Rightarrow> u32" where
  "blk_next = (\<lambda>(c, h) i. array_get h (b_all c) (2 * uint i))"

definition blk_prev :: "buddy \<Rightarrow> u32 \<Rightarrow> u32" where
  "blk_prev = (\<lambda>(c, h) i. array_get h (b_all c) (2 * uint i + 1))"

definition set_blk_next :: "u32 \<Rightarrow> u32 \<Rightarrow> buddy \<Rightarrow> buddy" where
  "set_blk_next i v = (\<lambda>(c, h). (c, array_set (b_all c) (2 * uint i) v h))"

definition set_blk_prev :: "u32 \<Rightarrow> u32 \<Rightarrow> buddy \<Rightarrow> buddy" where
  "set_blk_prev i v = (\<lambda>(c, h). (c, array_set (b_all c) (2 * uint i + 1) v h))"

definition set_free :: "int \<Rightarrow> u32 \<Rightarrow> buddy \<Rightarrow> buddy" where
  "set_free order v = (\<lambda>(c, h). (c\<lparr>b_free := (b_free c)(order := v)\<rparr>, h))"

definition GET_NEXT :: "buddy \<Rightarrow> u32 \<Rightarrow> u32" where
  "GET_NEXT s i = blk_next s i AND MASK_NEXT"

definition IS_FREE :: "buddy \<Rightarrow> u32 \<Rightarrow> bool" where
  "IS_FREE s i \<longleftrightarrow> blk_next s i AND FLAG_FREE \<noteq> 0"

definition GET_PREV :: "buddy \<Rightarrow> u32 \<Rightarrow> u32" where
  "GET_PREV s i = blk_prev s i AND MASK_PREV"

definition GET_ORDER :: "buddy \<Rightarrow> u32 \<Rightarrow> u32" where
  "GET_ORDER s i = drop_bit SHIFT_ORDER (blk_prev s i)"

section \<open>Free lists\<close>

definition buddy_add_free :: "u32 \<Rightarrow> int \<Rightarrow> buddy \<Rightarrow> buddy" where
  "buddy_add_free index order s =
     (let first = b_free (fst s) order;
          s1 = (if first = - 1 then set_blk_next index (FLAG_FREE OR index) s
                else set_blk_next index (FLAG_FREE OR first)
                       (set_blk_prev first ((blk_prev s first AND MASK_ORDER) OR index) s))
      in set_free order index (set_blk_prev index (push_bit SHIFT_ORDER (of_int order) OR index) s1))"

definition buddy_remove_free :: "u32 \<Rightarrow> int \<Rightarrow> buddy \<Rightarrow> buddy" where
  "buddy_remove_free index order s =
     (let nxt = GET_NEXT s index; prv = GET_PREV s index
      in if prv = index
         then (if nxt = index then set_free order (- 1) s
               else (let s1 = set_free order nxt s
                     in set_blk_prev nxt ((blk_prev s1 nxt AND MASK_ORDER) OR nxt) s1))
         else (if nxt = index then set_blk_next prv ((blk_next s prv AND MASK_ORDER) OR prv) s
               else (let s1 = set_blk_prev nxt ((blk_prev s nxt AND MASK_ORDER) OR prv) s
                     in set_blk_next prv ((blk_next s1 prv AND MASK_ORDER) OR nxt) s1)))"

section \<open>Releasing a block\<close>

text \<open>The loop that joins the block with its buddy for as long as that is free and as large.\<close>

function buddy_merge :: "int \<Rightarrow> int \<Rightarrow> u32 \<Rightarrow> buddy \<Rightarrow> int \<times> u32 \<times> buddy" where
  "buddy_merge order_max i index s =
     (if i \<ge> order_max then (i, index, s)
      else
        (let index_buddy = index XOR push_bit (nat i) 1
         in if index_buddy \<ge> b_index_max (fst s) then (i, index, s)
            else if \<not> IS_FREE s index_buddy \<or> uint (GET_ORDER s index_buddy) \<noteq> i then (i, index, s)
            else buddy_merge order_max (i + 1) (if index_buddy < index then index_buddy else index)
                   (buddy_remove_free index_buddy i s)))"
  by pat_completeness auto
termination by (relation "measure (\<lambda>(order_max, i, index, s). nat (order_max - i))") auto

declare buddy_merge.simps [simp del]

definition buddy_free :: "u32 \<Rightarrow> buddy \<Rightarrow> bool \<times> buddy" where
  "buddy_free adr s =
     (let index = drop_bit (nat (b_page_bits (fst s))) (adr - b_base (fst s))
      in if index < b_index_max (fst s) \<and> \<not> IS_FREE s index
         then (let (i, first, s1) = buddy_merge (b_order (fst s) - 1) (uint (GET_ORDER s index)) index s
               in (True, buddy_add_free first i s1))
         else (False, s))"

section \<open>Taking a part of a block\<close>

text \<open>
  Both loops run over the pages of the block and jump over the part that is taken; \<open>part\<close> is its number of pages, at
  least one.
\<close>

function mark_in_use :: "nat \<Rightarrow> u32 \<Rightarrow> u32 \<Rightarrow> nat \<Rightarrow> nat \<Rightarrow> buddy \<Rightarrow> buddy" where
  "mark_in_use n index1 index2 part i s =
     (if i \<ge> n then s
      else
        (let k = index1 + of_nat i
         in mark_in_use n index1 index2 part (if k = index2 then i + (part - 1) + 1 else i + 1)
              (set_blk_prev k 0 (set_blk_next k 0 s))))"
  by pat_completeness auto
termination by (relation "measure (\<lambda>(n, index1, index2, part, i, s). n - i)") auto

declare mark_in_use.simps [simp del]

function put_back :: "nat \<Rightarrow> u32 \<Rightarrow> u32 \<Rightarrow> nat \<Rightarrow> nat \<Rightarrow> nat \<Rightarrow> buddy \<Rightarrow> buddy" where
  "put_back n index1 index2 order2 part i s =
     (if i \<ge> n then s
      else
        (let k = index1 + of_nat i
         in if k = index2
            then put_back n index1 index2 order2 part (i + (part - 1) + 1)
                   (set_blk_prev k (push_bit SHIFT_ORDER (of_nat order2)) s)
            else put_back n index1 index2 order2 part (i + 1)
                   (snd (buddy_free (b_base (fst s) + push_bit (nat (b_page_bits (fst s))) k) s))))"
  by pat_completeness auto
termination by (relation "measure (\<lambda>(n, index1, index2, order2, part, i, s). n - i)") auto

declare put_back.simps [simp del]

definition buddy_allocate_subset :: "u32 \<Rightarrow> int \<Rightarrow> u32 \<Rightarrow> int \<Rightarrow> buddy \<Rightarrow> buddy" where
  "buddy_allocate_subset index1 order1 index2 order2 s =
     (let n = 2 ^ nat order1; part = 2 ^ nat order2
      in put_back n index1 index2 (nat order2) part 0
           (mark_in_use n index1 index2 part 0 (buddy_remove_free index1 order1 s)))"

section \<open>Allocating\<close>

function order_loop :: "u32 \<Rightarrow> int \<Rightarrow> int outcome" where
  "order_loop sz ret =
     (if ret < 0 \<or> ret \<ge> 32 then Undefined
      else if sz > push_bit (nat ret) 1 then order_loop sz (ret + 1) else Ret ret)"
  by pat_completeness auto
termination by (relation "measure (\<lambda>(sz, ret). nat (32 - ret))") auto

declare order_loop.simps [simp del]

definition buddy_get_order_from_size :: "buddy_ctxt \<Rightarrow> u32 \<Rightarrow> int outcome" where
  "buddy_get_order_from_size c sz =
     and_then (order_loop sz (b_page_bits c)) (\<lambda>ret. Ret (ret - b_page_bits c))"

text \<open>The first order from \<open>i\<close> on with a free block; \<open>n\<close> is the number of orders.\<close>

function first_order :: "(int \<Rightarrow> u32) \<Rightarrow> int \<Rightarrow> int \<Rightarrow> int option" where
  "first_order free_of n i =
     (if i \<ge> n then None else if free_of i \<noteq> - 1 then Some i else first_order free_of n (i + 1))"
  by pat_completeness auto
termination by (relation "measure (\<lambda>(free_of, n, i). nat (n - i))") auto

declare first_order.simps [simp del]

definition buddy_contains_order :: "buddy_ctxt \<Rightarrow> int \<Rightarrow> bool \<Rightarrow> bool" where
  "buddy_contains_order c order or_larger =
     (if order < 0 \<or> order \<ge> b_order c then False
      else if or_larger then first_order (b_free c) (b_order c) order \<noteq> None
      else b_free c order \<noteq> - 1)"

definition buddy_belongs_to :: "buddy_ctxt \<Rightarrow> u32 \<Rightarrow> bool" where
  "buddy_belongs_to c adr \<longleftrightarrow> drop_bit (nat (b_page_bits c)) (adr - b_base c) < b_index_max c"

definition buddy_alloc :: "int \<Rightarrow> buddy \<Rightarrow> (u32 option \<times> buddy) outcome" where
  "buddy_alloc order s =
     (if order < 0 \<and> order < b_order (fst s) then Undefined
      else
        (case first_order (b_free (fst s)) (b_order (fst s)) order of
           None \<Rightarrow> Ret (None, s)
         | Some i \<Rightarrow>
             (let ret = b_free (fst s) i; s1 = buddy_allocate_subset ret i ret order s
              in Ret (Some (b_base (fst s1) + push_bit (nat (b_page_bits (fst s1))) ret), s1))))"

text \<open>The free blocks of one order, for one that holds the pages from \<open>adr1\<close> to \<open>end1\<close>; a list that does not end is no value.\<close>

partial_function (option) find_superset :: "buddy \<Rightarrow> u32 \<Rightarrow> u32 \<Rightarrow> int \<Rightarrow> u32 \<Rightarrow> u32 option option" where
  "find_superset s adr1 end1 i index =
     (if adr1 \<ge> index \<and> end1 < index + push_bit (nat i) 1 then Some (Some index)
      else
        (let nxt = GET_NEXT s index
         in if index = nxt then Some None else find_superset s adr1 end1 i nxt))"

function superset_loop :: "buddy \<Rightarrow> u32 \<Rightarrow> u32 \<Rightarrow> int \<Rightarrow> (int \<times> u32) option option" where
  "superset_loop s adr1 end1 i =
     (if i \<ge> b_order (fst s) then Some None
      else if b_free (fst s) i = - 1 then superset_loop s adr1 end1 (i + 1)
      else
        (case find_superset s adr1 end1 i (b_free (fst s) i) of
           None \<Rightarrow> None
         | Some None \<Rightarrow> superset_loop s adr1 end1 (i + 1)
         | Some (Some index) \<Rightarrow> Some (Some (i, index))))"
  by pat_completeness auto
termination by (relation "measure (\<lambda>(s, adr1, end1, i). nat (b_order (fst s) - i))") auto

declare superset_loop.simps [simp del]

definition buddy_alloc_at :: "u32 \<Rightarrow> int \<Rightarrow> buddy \<Rightarrow> (u32 option \<times> buddy) outcome" where
  "buddy_alloc_at adr order s =
     (let bits = b_page_bits (fst s)
      in if order + bits < 0 \<or> order + bits \<ge> 32 then Undefined
         else if (adr - b_base (fst s)) AND (push_bit (nat (order + bits)) 1 - 1) \<noteq> 0 then Ret (None, s)
         else if order < 0 then Undefined
         else
           (let adr1 = drop_bit (nat bits) (adr - b_base (fst s));
                end1 = adr1 + push_bit (nat order) 1 - 1
            in and_then (outcome_of (superset_loop s adr1 end1 order)) (\<lambda>r.
                 case r of
                   None \<Rightarrow> Ret (None, s)
                 | Some (i, index) \<Rightarrow>
                     (let s1 = buddy_allocate_subset index i adr1 order s
                      in Ret (Some (b_base (fst s1) + push_bit (nat (b_page_bits (fst s1))) adr1), s1)))))"

section \<open>Setting up\<close>

function count_orders :: "u32 \<Rightarrow> int \<Rightarrow> int outcome" where
  "count_orders sz order =
     (if order < 0 \<or> order \<ge> 32 then Undefined
      else if sz > push_bit (nat order) 1 then count_orders sz (order + 1) else Ret (order + 1))"
  by pat_completeness auto
termination by (relation "measure (\<lambda>(sz, order). nat (32 - order))") auto

declare count_orders.simps [simp del]

definition clear_array :: "u32 \<Rightarrow> nat \<Rightarrow> heap_ctxt \<Rightarrow> heap_ctxt" where
  "clear_array p n = for_loop n (\<lambda>k. array_set p (int k) 0)"

definition buddy_init :: "u32 \<Rightarrow> u32 \<Rightarrow> int \<Rightarrow> u32 \<Rightarrow> u32 \<Rightarrow> buddy \<Rightarrow> (bool \<times> buddy) outcome" where
  "buddy_init base sz page_bits first_free last_free = (\<lambda>(c, h).
     if page_bits < 0 \<or> page_bits \<ge> 32 then Undefined
     else
       (let page_mask = push_bit (nat page_bits) 1 - 1
        in if base AND page_mask \<noteq> 0 then Ret (False, c, h)
           else
             (let n = drop_bit (nat page_bits) sz;
                  c1 = c\<lparr>b_base := base, b_page_bits := page_bits, b_index_max := n\<rparr>
              in if page_bits < 5 \<or> page_bits > 24 \<or> n < 1 then Ret (False, c1, h)
                 else
                   and_then (count_orders n 0) (\<lambda>order.
                   and_then (malloc (n * 8) h) (\<lambda>(p, h1).
                     let c2 = c1\<lparr>b_order := order, b_all := p\<rparr>
                     in if p = 0 then Ret (False, c2, h1)
                        else if order > 27 then Undefined
                        else
                          (let s = (c2\<lparr>b_free := (\<lambda>i. if 0 \<le> i \<and> i < order then - 1 else b_free c2 i)\<rparr>,
                                    clear_array p (2 * unat n) h1);
                               last1 = last_free AND NOT page_mask;
                               first1 = (first_free + page_mask) AND NOT page_mask
                           in Ret (True, for_loop (unat n) (\<lambda>i s.
                                let adr = base + push_bit (nat page_bits) (of_nat i)
                                in if (first1 = 0 \<or> adr \<ge> first1) \<and> (last1 = 0 \<or> adr < last1)
                                   then snd (buddy_free adr s) else s) s)))))))"

definition buddy_cleanup :: "buddy \<Rightarrow> buddy" where
  "buddy_cleanup = (\<lambda>(c, h). if b_all c \<noteq> 0 then (c\<lparr>b_all := 0\<rparr>, free (b_all c) h) else (c, h))"

end
