(* ===== verification/BuddyInv.thy ===== *)
theory BuddyInv
  imports Buddy
begin

text \<open>
  The buddy allocator as a set of free and a set of used blocks: the doubly linked free lists in the headers, aligned blocks
  that tile the memory, and the invariant that the operations keep.
\<close>

section \<open>The words of a header\<close>

lemma header_masks:
  "MASK_NEXT = mask 28" "MASK_PREV = mask 27" "MASK_ORDER = NOT (mask 27)"
  by (simp_all add: mask_eq_exp_minus_1)

lemma flag_bit: "bit FLAG_FREE n \<longleftrightarrow> n = 31"
proof -
  have "FLAG_FREE = push_bit 31 1" by simp
  then show ?thesis by (simp only: bit_push_bit_iff bit_1_iff) auto
qed

lemma index_bits:
  assumes "(a :: u32) < 2 ^ 27" "bit a n"
  shows "n < 27"
proof (rule ccontr)
  assume n: "\<not> n < 27"
  have "unat a < 2 ^ 27" using assms(1) by (simp add: word_less_nat_alt)
  then have "drop_bit 27 a = 0" by (simp add: word_unat_eq_iff unat_drop_bit_eq drop_bit_eq_div [where 'a = nat])
  moreover have "bit a n = bit (drop_bit 27 a) (n - 27)" using n by (simp add: bit_drop_bit_eq)
  ultimately show False using assms(2) by simp
qed

lemma header_words:
  assumes a: "(a :: u32) < 2 ^ 27"
  shows "(FLAG_FREE OR a) AND MASK_NEXT = a" "(FLAG_FREE OR a) AND FLAG_FREE \<noteq> 0"
    "((w AND MASK_ORDER) OR a) AND MASK_PREV = a" "drop_bit 27 ((w AND MASK_ORDER) OR a) = drop_bit 27 w"
    "w AND MASK_NEXT < 2 ^ 27 \<Longrightarrow> ((w AND MASK_ORDER) OR a) AND MASK_NEXT = a"
    "((w AND MASK_ORDER) OR a) AND FLAG_FREE = w AND FLAG_FREE"
    "(push_bit 27 k OR a) AND MASK_PREV = a" "k < 32 \<Longrightarrow> drop_bit 27 (push_bit 27 k OR a) = k"
proof -
  note bits = bit_and_iff bit_or_iff bit_not_iff bit_push_bit_iff bit_drop_bit_eq bit_mask_word_iff flag_bit
  show "(FLAG_FREE OR a) AND MASK_NEXT = a" unfolding header_masks
    by (rule bit_word_eqI) (auto simp add: bits simp del: bit_numeral_word_iff bit_neg_numeral_word_iff dest: index_bits [OF a])
  have "bit ((FLAG_FREE OR a) AND FLAG_FREE) 31" by (simp only: bits) simp
  then show "(FLAG_FREE OR a) AND FLAG_FREE \<noteq> 0" by (metis bit_0_eq bot_apply bot_bool_def)
  show "((w AND MASK_ORDER) OR a) AND MASK_PREV = a" unfolding header_masks
    by (rule bit_word_eqI) (auto simp add: bits simp del: bit_numeral_word_iff bit_neg_numeral_word_iff dest: index_bits [OF a])
  show "drop_bit 27 ((w AND MASK_ORDER) OR a) = drop_bit 27 w" unfolding header_masks
    by (rule bit_word_eqI) (auto simp add: bits simp del: bit_numeral_word_iff bit_neg_numeral_word_iff dest: index_bits [OF a] bit_imp_le_length)
  show "((w AND MASK_ORDER) OR a) AND MASK_NEXT = a" if w: "w AND MASK_NEXT < 2 ^ 27"
  proof (rule bit_word_eqI)
    fix n assume "n < LENGTH(32)"
    have "bit w n \<Longrightarrow> n < 28 \<Longrightarrow> n < 27" using index_bits [OF w, of n] unfolding header_masks by (simp add: bits)
    then show "bit (((w AND MASK_ORDER) OR a) AND MASK_NEXT) n = bit a n" unfolding header_masks
      by (auto simp add: bits simp del: bit_numeral_word_iff bit_neg_numeral_word_iff dest: index_bits [OF a])
  qed
  show "((w AND MASK_ORDER) OR a) AND FLAG_FREE = w AND FLAG_FREE" unfolding header_masks
    by (rule bit_word_eqI) (auto simp add: bits simp del: bit_numeral_word_iff bit_neg_numeral_word_iff dest: index_bits [OF a])
  show "(push_bit 27 k OR a) AND MASK_PREV = a" unfolding header_masks
    by (rule bit_word_eqI) (auto simp add: bits simp del: bit_numeral_word_iff bit_neg_numeral_word_iff dest: index_bits [OF a])
  show "drop_bit 27 (push_bit 27 k OR a) = k" if k: "k < 32"
  proof -
    have "unat k < 32" using k by (simp add: word_less_nat_alt)
    then have "take_bit 5 (unat k) = unat k" by (intro take_bit_nat_eq_self) simp
    then have "take_bit 5 k = k" by (simp add: word_unat_eq_iff unsigned_take_bit_eq)
    then have "bit k n \<Longrightarrow> n < 5" for n by (metis bit_take_bit_iff)
    then show ?thesis by (intro bit_word_eqI) (auto simp add: bits simp del: bit_numeral_word_iff bit_neg_numeral_word_iff dest: index_bits [OF a])
  qed
qed

section \<open>Reading and writing headers\<close>

lemma set_blk_sel [simp]:
  "fst (set_blk_next i v s) = fst s" "fst (set_blk_prev i v s) = fst s"
  "snd (set_free k v s) = snd s" "b_base (fst (set_free k v s)) = b_base (fst s)"
  "b_index_max (fst (set_free k v s)) = b_index_max (fst s)" "b_page_bits (fst (set_free k v s)) = b_page_bits (fst s)"
  "b_order (fst (set_free k v s)) = b_order (fst s)" "b_all (fst (set_free k v s)) = b_all (fst s)"
  "b_free (fst (set_free k v s)) = (b_free (fst s))(k := v)"
  "blk_next (set_free k v s) = blk_next s" "blk_prev (set_free k v s) = blk_prev s"
  by (simp_all add: set_blk_next_def set_blk_prev_def set_free_def blk_next_def blk_prev_def split: prod.splits)

lemma blk_words:
  assumes "i < 2 ^ 27" "j < 2 ^ 27"
  shows "blk_next (set_blk_next i v s) j = (if j = i then v else blk_next s j)"
    "blk_next (set_blk_prev i v s) j = blk_next s j"
    "blk_prev (set_blk_next i v s) j = blk_prev s j"
    "blk_prev (set_blk_prev i v s) j = (if j = i then v else blk_prev s j)"
proof -
  have b: "uint i < 2 ^ 27" "uint j < 2 ^ 27" "0 \<le> uint i" "0 \<le> uint j"
    using assms by (simp_all add: word_less_def)
  have i: "0 \<le> 2 * uint i" "2 * uint i < 2 ^ 30" "0 \<le> 2 * uint i + 1" "2 * uint i + 1 < 2 ^ 30"
    and j: "0 \<le> 2 * uint j" "2 * uint j < 2 ^ 30" "0 \<le> 2 * uint j + 1" "2 * uint j + 1 < 2 ^ 30"
    using b by simp_all
  have ne: "2 * uint j \<noteq> 2 * uint i + 1" "2 * uint j + 1 \<noteq> 2 * uint i" by presburger+
  note get = array_get_set [OF i(1,2) j(1,2)] array_get_set [OF i(1,2) j(3,4)]
    array_get_set [OF i(3,4) j(1,2)] array_get_set [OF i(3,4) j(3,4)]
  show "blk_next (set_blk_next i v s) j = (if j = i then v else blk_next s j)"
    "blk_next (set_blk_prev i v s) j = blk_next s j"
    "blk_prev (set_blk_next i v s) j = blk_prev s j"
    "blk_prev (set_blk_prev i v s) j = (if j = i then v else blk_prev s j)"
    using ne by (simp_all add: blk_next_def blk_prev_def set_blk_next_def set_blk_prev_def get split_beta word_uint_eq_iff [symmetric])
qed

lemma header_set_free [simp]:
  "GET_NEXT (set_free k v s) = GET_NEXT s" "GET_PREV (set_free k v s) = GET_PREV s"
  "IS_FREE (set_free k v s) = IS_FREE s" "GET_ORDER (set_free k v s) = GET_ORDER s"
  by (simp_all add: GET_NEXT_def GET_PREV_def IS_FREE_def GET_ORDER_def fun_eq_iff)

text \<open>What a pair of writes to the links of a header leaves: the marks of every header, and the links of the others.\<close>

definition same_marks :: "buddy \<Rightarrow> buddy \<Rightarrow> u32 \<Rightarrow> bool" where
  "same_marks s t j \<longleftrightarrow> IS_FREE t j = IS_FREE s j \<and> GET_ORDER t j = GET_ORDER s j"

definition same_links :: "buddy \<Rightarrow> buddy \<Rightarrow> u32 \<Rightarrow> bool" where
  "same_links s t j \<longleftrightarrow> GET_NEXT t j = GET_NEXT s j \<and> GET_PREV t j = GET_PREV s j"

lemma relink_prev:
  assumes "i < 2 ^ 27" "j < 2 ^ 27" "a < 2 ^ 27" "t = set_blk_prev i ((blk_prev s i AND MASK_ORDER) OR a) s"
  shows "GET_PREV t j = (if j = i then a else GET_PREV s j)" "GET_NEXT t j = GET_NEXT s j" "same_marks s t j"
  using header_words(3,4) [OF assms(3)] unfolding assms(4) same_marks_def
  by (auto simp: GET_PREV_def GET_NEXT_def IS_FREE_def GET_ORDER_def blk_words [OF assms(1,2)])

lemma relink_next:
  assumes "i < 2 ^ 27" "j < 2 ^ 27" "a < 2 ^ 27" "GET_NEXT s i < 2 ^ 27"
    "t = set_blk_next i ((blk_next s i AND MASK_ORDER) OR a) s"
  shows "GET_NEXT t j = (if j = i then a else GET_NEXT s j)" "GET_PREV t j = GET_PREV s j" "same_marks s t j"
  using header_words(5,6) [OF assms(3), of "blk_next s i"] assms(4) unfolding assms(5) same_marks_def
  by (auto simp: GET_PREV_def GET_NEXT_def IS_FREE_def GET_ORDER_def blk_words [OF assms(1,2)])

lemma new_header:
  assumes "i < 2 ^ 27" "j < 2 ^ 27" "a < 2 ^ 27" "0 \<le> k" "k < 32"
    "t = set_blk_prev i (push_bit SHIFT_ORDER (of_int k) OR i) (set_blk_next i (FLAG_FREE OR a) s)"
  shows "j = i \<Longrightarrow> GET_NEXT t j = a \<and> GET_PREV t j = i \<and> IS_FREE t j \<and> GET_ORDER t j = of_int k"
    "j \<noteq> i \<Longrightarrow> same_links s t j \<and> same_marks s t j"
proof -
  have "(of_int k :: u32) = of_nat (nat k)" "nat k < 2 ^ 32" "nat k < 32" using assms(4,5) by simp_all
  then have k: "(of_int k :: u32) < 32" by (simp add: word_less_nat_alt unat_addr)
  show "j = i \<Longrightarrow> GET_NEXT t j = a \<and> GET_PREV t j = i \<and> IS_FREE t j \<and> GET_ORDER t j = of_int k"
    using header_words(1,2) [OF assms(3)] header_words(7) [OF assms(1)] header_words(8) [OF assms(1) k] unfolding assms(6)
    by (simp add: GET_PREV_def GET_NEXT_def IS_FREE_def GET_ORDER_def blk_words [OF assms(1,1)])
  show "j \<noteq> i \<Longrightarrow> same_links s t j \<and> same_marks s t j" unfolding assms(6) same_marks_def same_links_def
    by (simp add: GET_PREV_def GET_NEXT_def IS_FREE_def GET_ORDER_def blk_words [OF assms(1,2)])
qed

section \<open>The list of the free blocks of one order\<close>

lemma index_less: "x < 2 ^ 27 \<Longrightarrow> (of_nat x :: u32) < 2 ^ 27"
  by (simp add: word_less_nat_alt unat_addr)

lemma index_eq_iff: "x < 2 ^ 27 \<Longrightarrow> y < 2 ^ 27 \<Longrightarrow> (of_nat x :: u32) = of_nat y \<longleftrightarrow> x = y"
  by (simp add: addr_eq_iff)

lemma index_not_minus_1: "x < 2 ^ 27 \<Longrightarrow> (of_nat x :: u32) \<noteq> - 1"
proof
  assume x: "x < 2 ^ 27" "(of_nat x :: u32) = - 1"
  then have "unat (of_nat x :: u32) = unat (- 1 :: u32)" by simp
  moreover have "unat (of_nat x :: u32) = x" using x(1) by (simp add: unat_addr)
  moreover have "unat (- 1 :: u32) = 4294967295" by (simp add: unsigned_minus_1_eq_mask mask_eq_exp_minus_1)
  ultimately show False using x(1) by simp
qed

definition head :: "nat list \<Rightarrow> u32" where
  "head xs = (case xs of [] \<Rightarrow> - 1 | x # _ \<Rightarrow> of_nat x)"

lemma head_append [simp]: "xs \<noteq> [] \<Longrightarrow> head (xs @ ys) = head xs"
  by (cases xs) (simp_all add: head_def)

lemma head_simps [simp]: "head [] = - 1" "head (x # xs) = of_nat x"
  by (simp_all add: head_def)

text \<open>A link to the neighbour, or to the block itself at an end of the list.\<close>

definition link :: "nat option \<Rightarrow> nat \<Rightarrow> u32" where
  "link q x = of_nat (case q of None \<Rightarrow> x | Some y \<Rightarrow> y)"

lemma link_simps [simp]: "link None x = of_nat x" "link (Some y) x = of_nat y"
  by (simp_all add: link_def)

fun chain :: "buddy \<Rightarrow> nat option \<Rightarrow> nat list \<Rightarrow> nat option \<Rightarrow> bool" where
  "chain s q [] r \<longleftrightarrow> True"
| "chain s q (x # xs) r \<longleftrightarrow> GET_PREV s (of_nat x) = link q x
     \<and> GET_NEXT s (of_nat x) = link (if xs = [] then r else Some (hd xs)) x \<and> chain s (Some x) xs r"

lemma chain_append:
  "chain s q (xs @ ys) r \<longleftrightarrow> chain s q xs (if ys = [] then r else Some (hd ys))
     \<and> chain s (if xs = [] then q else Some (last xs)) ys r"
  by (induction xs arbitrary: q) auto

lemma chain_cong: "(\<And>x. x \<in> set xs \<Longrightarrow> same_links s t (of_nat x)) \<Longrightarrow> chain t q xs r \<longleftrightarrow> chain s q xs r"
  by (induction xs arbitrary: q) (simp_all add: same_links_def)

text \<open>Changing the predecessor of the first block, or the successor of the last one.\<close>

lemma chain_relink_front:
  assumes "chain s q (y # ys) r" "y \<notin> set ys" "GET_PREV t (of_nat y) = link q' y"
    "GET_NEXT t (of_nat y) = GET_NEXT s (of_nat y)" "\<And>x. x \<in> set ys \<Longrightarrow> same_links s t (of_nat x)"
  shows "chain t q' (y # ys) r"
  using assms(1,3,4) chain_cong [of ys s t, OF assms(5)] by simp

lemma chain_relink_back:
  assumes "chain s q (xs @ [p]) r" "GET_NEXT t (of_nat p) = link r' p"
    "GET_PREV t (of_nat p) = GET_PREV s (of_nat p)" "\<And>x. x \<in> set xs \<Longrightarrow> same_links s t (of_nat x)"
  shows "chain t q (xs @ [p]) r'"
  using assms(1-3) chain_cong [of xs s t, OF assms(4)] by (simp add: chain_append)

lemma remove_free_rep:
  assumes ch: "chain s None (xs @ x # ys) None" and dist: "distinct (xs @ x # ys)"
    and small: "\<forall>z\<in>set (xs @ x # ys). z < 2 ^ 27" and free: "b_free (fst s) k = head (xs @ x # ys)"
    and t: "t = buddy_remove_free (of_nat x) k s"
  shows "chain t None (xs @ ys) None" "b_free (fst t) = (b_free (fst s))(k := head (xs @ ys))"
    "j < 2 ^ 27 \<Longrightarrow> same_marks s t (of_nat j)"
    "j < 2 ^ 27 \<Longrightarrow> j \<notin> set (xs @ ys) \<Longrightarrow> same_links s t (of_nat j)"
proof -
  have x: "GET_PREV s (of_nat x) = link (if xs = [] then None else Some (last xs)) x"
    "GET_NEXT s (of_nat x) = link (if ys = [] then None else Some (hd ys)) x"
    using ch by (simp_all add: chain_append)
  have xs: "chain s None xs (Some x)" and ys: "chain s (Some x) ys None" using ch by (simp_all add: chain_append)
  have sm: "x < 2 ^ 27" "\<And>z. z \<in> set xs \<Longrightarrow> z < 2 ^ 27" "\<And>z. z \<in> set ys \<Longrightarrow> z < 2 ^ 27" using small by auto
  note eq = index_eq_iff and less = index_less
  consider (only) "xs = []" "ys = []" | (first) y zs where "xs = []" "ys = y # zs"
    | (last) p ws where "xs = ws @ [p]" "ys = []" | (mid) p ws y zs where "xs = ws @ [p]" "ys = y # zs"
    by (metis neq_Nil_conv rev_exhaust)
  then have "chain t None (xs @ ys) None \<and> b_free (fst t) = (b_free (fst s))(k := head (xs @ ys))
    \<and> (\<forall>j<2 ^ 27. same_marks s t (of_nat j) \<and> (j \<notin> set (xs @ ys) \<longrightarrow> same_links s t (of_nat j)))"
  proof cases
    case only
    then have "t = set_free k (- 1) s" unfolding t buddy_remove_free_def using x by simp
    then show ?thesis using only by (simp add: same_marks_def same_links_def)
  next
    case first
    have y: "y < 2 ^ 27" "y \<noteq> x" "y \<notin> set zs" "\<And>z. z \<in> set zs \<Longrightarrow> z < 2 ^ 27" using sm(3) dist first by auto
    let ?u = "set_free k (of_nat y) s"
    have t': "t = set_blk_prev (of_nat y) ((blk_prev ?u (of_nat y) AND MASK_ORDER) OR of_nat y) ?u"
      unfolding t buddy_remove_free_def using x first y(2) eq [OF y(1) sm(1)] by (simp add: Let_def)
    note r = relink_prev [OF less [OF y(1)] less less [OF y(1)] t']
    have rest: "same_links s t (of_nat z)" if "z < 2 ^ 27" "z \<noteq> y" for z
      using r(1,2) [OF that(1)] eq [OF that(1) y(1)] that(2) by (simp add: same_links_def)
    have "chain t None (y # zs) None"
      using r(1,2) [OF y(1)] rest y(3,4) by (intro chain_relink_front [OF ys [unfolded first(2)] y(3)]) auto
    moreover have "b_free (fst t) = (b_free (fst s))(k := of_nat y)" unfolding t' by simp
    ultimately show ?thesis using first rest r(3) by (auto simp: same_marks_def)
  next
    case last
    have p: "p < 2 ^ 27" "p \<noteq> x" "p \<notin> set ws" "\<And>z. z \<in> set ws \<Longrightarrow> z < 2 ^ 27" using sm(2) dist last by auto
    have nx: "GET_NEXT s (of_nat p) = of_nat x" using xs last by (simp add: chain_append)
    have t': "t = set_blk_next (of_nat p) ((blk_next s (of_nat p) AND MASK_ORDER) OR of_nat p) s"
      unfolding t buddy_remove_free_def using x last p(2) eq [OF p(1) sm(1)] by (simp add: Let_def)
    note r = relink_next [OF less [OF p(1)] less less [OF p(1)] _ t', unfolded nx, OF _ less [OF sm(1)]]
    have rest: "same_links s t (of_nat z)" if "z < 2 ^ 27" "z \<noteq> p" for z
      using r(1,2) [OF that(1)] eq [OF that(1) p(1)] that(2) by (simp add: same_links_def)
    have "chain t None (ws @ [p]) None"
      using r(1,2) [OF p(1)] rest p(3,4) by (intro chain_relink_back [OF xs [unfolded last(1)]]) auto
    moreover have "b_free (fst t) = (b_free (fst s))(k := head (ws @ [p]))"
      unfolding t' using free last head_append [of "ws @ [p]" "[x]"] by (simp add: fun_upd_idem)
    ultimately show ?thesis using last rest r(3) by auto
  next
    case mid
    have p: "p < 2 ^ 27" "p \<noteq> x" "p \<notin> set ws" "\<And>z. z \<in> set ws \<Longrightarrow> z < 2 ^ 27" using sm(2) dist mid by auto
    have y: "y < 2 ^ 27" "y \<noteq> x" "y \<notin> set zs" "\<And>z. z \<in> set zs \<Longrightarrow> z < 2 ^ 27" using sm(3) dist mid by auto
    have py: "p \<noteq> y" "p \<notin> set zs" "y \<notin> set ws" using dist mid by auto
    have nx: "GET_NEXT s (of_nat p) = of_nat x" using xs mid by (simp add: chain_append)
    define u where "u = set_blk_prev (of_nat y) ((blk_prev s (of_nat y) AND MASK_ORDER) OR of_nat p) s"
    have t': "t = set_blk_next (of_nat p) ((blk_next u (of_nat p) AND MASK_ORDER) OR of_nat y) u"
      unfolding t buddy_remove_free_def u_def
      using x mid p(2) y(2) eq [OF p(1) sm(1)] eq [OF y(1) sm(1)] by (simp add: Let_def)
    note r1 = relink_prev [OF less [OF y(1)] less less [OF p(1)] u_def]
    have nu: "GET_NEXT u (of_nat p) < 2 ^ 27" using r1(2) [OF p(1)] nx less [OF sm(1)] by simp
    note r2 = relink_next [OF less [OF p(1)] less less [OF y(1)] nu t']
    have rest: "same_links s t (of_nat z)" if "z < 2 ^ 27" "z \<noteq> p" "z \<noteq> y" for z
      using r1(1,2) [OF that(1)] r2(1,2) [OF that(1)] eq [OF that(1) p(1)] eq [OF that(1) y(1)] that
      by (simp add: same_links_def)
    have marks: "same_marks s t (of_nat z)" if "z < 2 ^ 27" for z
      using r1(3) [OF that] r2(3) [OF that] by (simp add: same_marks_def)
    have "GET_PREV t (of_nat y) = of_nat p" "GET_NEXT t (of_nat y) = GET_NEXT s (of_nat y)"
      using r1(1,2) [OF y(1)] r2(1,2) [OF y(1)] eq [OF y(1) p(1)] py(1) by auto
    then have "chain t (Some p) (y # zs) None"
      using rest y(3,4) py(2) by (intro chain_relink_front [OF ys [unfolded mid(2)] y(3)]) auto
    moreover have "GET_NEXT t (of_nat p) = of_nat y" "GET_PREV t (of_nat p) = GET_PREV s (of_nat p)"
      using r1(1,2) [OF p(1)] r2(1,2) [OF p(1)] eq [OF p(1) y(1)] py(1) by auto
    then have "chain t None (ws @ [p]) (Some y)"
      using rest p(3,4) py(3) by (intro chain_relink_back [OF xs [unfolded mid(1)]]) auto
    moreover have "b_free (fst t) = (b_free (fst s))(k := head (xs @ ys))"
      unfolding t' u_def using free mid head_append [of "ws @ [p]" "x # y # zs"] head_append [of "ws @ [p]" "y # zs"] by (simp add: fun_upd_idem)
    ultimately show ?thesis using mid rest marks chain_append [of t None "ws @ [p]" "y # zs" None] by auto
  qed
  then show "chain t None (xs @ ys) None" "b_free (fst t) = (b_free (fst s))(k := head (xs @ ys))"
    "j < 2 ^ 27 \<Longrightarrow> same_marks s t (of_nat j)"
    "j < 2 ^ 27 \<Longrightarrow> j \<notin> set (xs @ ys) \<Longrightarrow> same_links s t (of_nat j)" by blast+
qed

lemma add_free_rep:
  assumes ch: "chain s None xs None" and dist: "distinct (x # xs)"
    and small: "\<forall>z\<in>set (x # xs). z < 2 ^ 27" and free: "b_free (fst s) k = head xs" and k: "0 \<le> k" "k < 32"
    and t: "t = buddy_add_free (of_nat x) k s"
  shows "chain t None (x # xs) None" "b_free (fst t) = (b_free (fst s))(k := of_nat x)"
    "IS_FREE t (of_nat x)" "GET_ORDER t (of_nat x) = of_int k"
    "j < 2 ^ 27 \<Longrightarrow> j \<noteq> x \<Longrightarrow> same_marks s t (of_nat j)"
    "j < 2 ^ 27 \<Longrightarrow> j \<notin> set (x # xs) \<Longrightarrow> same_links s t (of_nat j)"
proof -
  have x: "x < 2 ^ 27" using small by simp
  note eq = index_eq_iff and less = index_less
  have "chain t None (x # xs) None \<and> b_free (fst t) = (b_free (fst s))(k := of_nat x)
    \<and> IS_FREE t (of_nat x) \<and> GET_ORDER t (of_nat x) = of_int k
    \<and> (\<forall>j<2 ^ 27. (j \<noteq> x \<longrightarrow> same_marks s t (of_nat j)) \<and> (j \<notin> set (x # xs) \<longrightarrow> same_links s t (of_nat j)))"
  proof (cases xs)
    case Nil
    have t': "t = set_free k (of_nat x) (set_blk_prev (of_nat x) (push_bit SHIFT_ORDER (of_int k) OR of_nat x)
        (set_blk_next (of_nat x) (FLAG_FREE OR of_nat x) s))"
      unfolding t buddy_add_free_def using free Nil by simp
    note h = new_header [OF less [OF x] less less [OF x] k refl]
    show ?thesis using h(1) [OF x refl] h(2) eq [OF _ x] Nil unfolding t'
      by (auto simp: same_marks_def same_links_def)
  next
    case (Cons y ys)
    have y: "y < 2 ^ 27" "y \<noteq> x" "y \<notin> set ys" "\<And>z. z \<in> set ys \<Longrightarrow> z < 2 ^ 27 \<and> z \<noteq> x" using small dist Cons by auto
    define u where "u = set_blk_prev (of_nat y) ((blk_prev s (of_nat y) AND MASK_ORDER) OR of_nat x) s"
    have t': "t = set_free k (of_nat x) (set_blk_prev (of_nat x) (push_bit SHIFT_ORDER (of_int k) OR of_nat x)
        (set_blk_next (of_nat x) (FLAG_FREE OR of_nat y) u))"
      unfolding t buddy_add_free_def u_def using free Cons index_not_minus_1 [OF y(1)] by (simp add: Let_def)
    note r = relink_prev [OF less [OF y(1)] less less [OF x] u_def]
    note h = new_header [OF less [OF x] less less [OF y(1)] k refl, of _ u]
    have other: "same_links u t (of_nat z) \<and> same_marks u t (of_nat z)" if "z < 2 ^ 27" "z \<noteq> x" for z
      using h(2) [OF that(1)] eq [OF that(1) x] that(2) unfolding t' by (simp add: same_marks_def same_links_def)
    have rest: "same_links s t (of_nat z)" if "z < 2 ^ 27" "z \<noteq> x" "z \<noteq> y" for z
      using other [OF that(1,2)] r(1,2) [OF that(1)] eq [OF that(1) y(1)] that(3) by (simp add: same_links_def)
    have marks: "same_marks s t (of_nat z)" if "z < 2 ^ 27" "z \<noteq> x" for z
      using other [OF that] r(3) [OF that(1)] by (simp add: same_marks_def)
    have "GET_PREV t (of_nat y) = of_nat x" "GET_NEXT t (of_nat y) = GET_NEXT s (of_nat y)"
      using other [OF y(1,2)] r(1,2) [OF y(1)] by (simp_all add: same_links_def)
    then have "chain t (Some x) (y # ys) None"
      using rest y(3,4) by (intro chain_relink_front [OF ch [unfolded Cons] y(3)]) auto
    moreover have "GET_NEXT t (of_nat x) = of_nat y \<and> GET_PREV t (of_nat x) = of_nat x \<and> IS_FREE t (of_nat x)
        \<and> GET_ORDER t (of_nat x) = of_int k"
      using h(1) [OF x refl] unfolding t' by simp
    moreover have "b_free (fst t) = (b_free (fst s))(k := of_nat x)" unfolding t' u_def by simp
    ultimately show ?thesis using rest marks Cons by auto
  qed
  then show "chain t None (x # xs) None" "b_free (fst t) = (b_free (fst s))(k := of_nat x)"
    "IS_FREE t (of_nat x)" "GET_ORDER t (of_nat x) = of_int k"
    "j < 2 ^ 27 \<Longrightarrow> j \<noteq> x \<Longrightarrow> same_marks s t (of_nat j)"
    "j < 2 ^ 27 \<Longrightarrow> j \<notin> set (x # xs) \<Longrightarrow> same_links s t (of_nat j)" by blast+
qed

section \<open>Aligned blocks of pages\<close>

type_synonym block = "nat \<times> nat"

definition pages :: "block \<Rightarrow> nat set" where
  "pages b = {fst b ..< fst b + 2 ^ snd b}"

definition buddy_of :: "nat \<Rightarrow> nat \<Rightarrow> nat" where
  "buddy_of i k = (if even (i div 2 ^ k) then i + 2 ^ k else i - 2 ^ k)"

lemma pages_self [simp]: "i \<in> pages (i, k)"
  by (simp add: pages_def)

lemma pages_0 [simp]: "pages (i, 0) = {i}"
  by (auto simp: pages_def)

lemma aligned_nested:
  assumes "2 ^ k dvd i" "2 ^ m dvd a" "m \<le> k" "pages (a, m) \<inter> pages (i, k) \<noteq> {}"
  shows "pages (a, m) \<subseteq> pages (i, k)"
proof -
  define M p :: nat where "M = 2 ^ m" and "p = 2 ^ (k - m)"
  have Mp: "(2 :: nat) ^ k = M * p" "0 < M" using assms(3) by (simp_all add: M_def p_def power_add [symmetric])
  obtain q r where q: "i = M * p * q" and r: "a = M * r" using assms(1,2) unfolding Mp(1) M_def [symmetric] by blast
  obtain x where "x \<in> pages (a, m)" "x \<in> pages (i, k)" using assms(4) by blast
  then have x: "M * r \<le> x" "x < M * r + M" "M * p * q \<le> x" "x < M * p * q + M * p"
    unfolding pages_def q r by (simp_all add: Mp(1) M_def [symmetric])
  have "M * (p * q) < M * (r + 1)" using x(2,3) by (simp add: algebra_simps)
  then have "p * q < r + 1" using mult_less_cancel1 by blast
  moreover have "M * r < M * (p * q + p)" using x(1,4) by (simp add: algebra_simps)
  then have "r < p * q + p" using mult_less_cancel1 by blast
  ultimately have "p * q \<le> r" "r + 1 \<le> p * q + p" by simp_all
  then have "M * (p * q) \<le> M * r" "M * (r + 1) \<le> M * (p * q + p)" by (intro mult_le_mono2; simp)+
  then show ?thesis unfolding pages_def q r by (auto simp: Mp(1) M_def [symmetric] algebra_simps)
qed

lemma aligned_same: "2 ^ k dvd i \<Longrightarrow> 2 ^ k dvd a \<Longrightarrow> pages (a, k) \<inter> pages (i, k) \<noteq> {} \<Longrightarrow> a = i"
  using aligned_nested [of k i k a] aligned_nested [of k a k i] by (auto simp: pages_def atLeastLessThan_eq_iff)

lemma buddy_facts:
  assumes "2 ^ k dvd i"
  shows "2 ^ k dvd buddy_of i k" "buddy_of (buddy_of i k) k = i" "2 ^ (k + 1) dvd min i (buddy_of i k)"
    "pages (min i (buddy_of i k), k + 1) = pages (i, k) \<union> pages (buddy_of i k, k)"
    "pages (i, k) \<inter> pages (buddy_of i k, k) = {}"
proof -
  obtain q where q: "i = 2 ^ k * q" using assms by blast
  have "buddy_of i k = 2 ^ k * (if even q then q + 1 else q - 1)"
    by (simp add: buddy_of_def q algebra_simps)
  note b = this
  show "2 ^ k dvd buddy_of i k" unfolding b by simp
  show "buddy_of (buddy_of i k) k = i" unfolding b by (simp add: buddy_of_def q algebra_simps) (cases q; auto)
  have "min i (buddy_of i k) = min (2 ^ k * q) (2 ^ k * (if even q then q + 1 else q - 1))" by (simp only: b q [symmetric])
  then have mn: "min i (buddy_of i k) = 2 ^ (k + 1) * (q div 2)"
    by (cases "even q") (auto simp: min_def elim!: evenE oddE)
  then show "2 ^ (k + 1) dvd min i (buddy_of i k)" by simp
  have "q = 2 * (q div 2) \<or> q = 2 * (q div 2) + 1" by presburger
  then show "pages (min i (buddy_of i k), k + 1) = pages (i, k) \<union> pages (buddy_of i k, k)"
    unfolding mn b unfolding q pages_def by (cases "even q") (auto simp: algebra_simps elim!: evenE oddE)
  show "pages (i, k) \<inter> pages (buddy_of i k, k) = {}"
    unfolding b unfolding q pages_def by (cases q) (auto simp: algebra_simps)
qed

text \<open>The index of the buddy is the index with one bit flipped.\<close>

lemma buddy_index:
  assumes "2 ^ k dvd i" "i < 2 ^ 27" "k \<le> 27"
  shows "(of_nat i :: u32) XOR push_bit k 1 = of_nat (buddy_of i k)"
proof -
  have bit: "bit (of_nat i :: u32) k \<longleftrightarrow> odd (i div 2 ^ k)"
    using assms(3) by (simp add: bit_of_nat_iff bit_iff_odd [where 'a = nat])
  have p: "push_bit k (1 :: u32) = of_nat (2 ^ k)" by (simp add: push_bit_eq_mult)
  have x: "(of_nat i :: u32) XOR push_bit k 1 = flip_bit k (of_nat i)" by (simp add: flip_bit_eq_xor)
  show ?thesis
  proof (cases "odd (i div 2 ^ k)")
    case True
    then have "2 ^ k \<le> i" by (metis div_less even_zero not_le_imp_less)
    then show ?thesis using True bit unfolding x by (simp add: flip_bit_eq_if unset_bit_eq buddy_of_def of_nat_diff)
  next
    case False
    then show ?thesis using bit unfolding x by (simp add: flip_bit_eq_if set_bit_eq buddy_of_def)
  qed
qed

section \<open>Blocks that tile the memory\<close>

text \<open>\<open>B\<close> are aligned blocks of at most \<open>K\<close> orders that partition the pages below \<open>N\<close> but those in \<open>H\<close>.\<close>

definition tiles :: "nat \<Rightarrow> nat \<Rightarrow> nat set \<Rightarrow> block set \<Rightarrow> bool" where
  "tiles N K H B \<longleftrightarrow> (\<forall>(i, k)\<in>B. 2 ^ k dvd i \<and> k < K)
     \<and> (\<forall>b\<in>B. \<forall>c\<in>B. b \<noteq> c \<longrightarrow> pages b \<inter> pages c = {}) \<and> \<Union> (pages ` B) = {..<N} - H"

lemma tilesD:
  assumes "tiles N K H B"
  shows "(i, k) \<in> B \<Longrightarrow> 2 ^ k dvd i" "(i, k) \<in> B \<Longrightarrow> k < K" "(i, k) \<in> B \<Longrightarrow> i + 2 ^ k \<le> N" "(i, k) \<in> B \<Longrightarrow> i < N"
    "b \<in> B \<Longrightarrow> c \<in> B \<Longrightarrow> b \<noteq> c \<Longrightarrow> pages b \<inter> pages c = {}" "b \<in> B \<Longrightarrow> pages b \<inter> H = {}"
    "\<Union> (pages ` B) = {..<N} - H"
proof -
  have u: "\<Union> (pages ` B) = {..<N} - H" using assms by (simp add: tiles_def)
  then show "\<Union> (pages ` B) = {..<N} - H" .
  show "b \<in> B \<Longrightarrow> pages b \<inter> H = {}" using u by blast
  show "(i, k) \<in> B \<Longrightarrow> i + 2 ^ k \<le> N"
  proof -
    assume "(i, k) \<in> B"
    then have "pages (i, k) \<subseteq> {..<N}" using u by blast
    moreover obtain t where "(2 :: nat) ^ k = Suc t" by (metis not0_implies_Suc power_not_zero zero_neq_numeral)
    then have "i + (2 ^ k - 1) \<in> pages (i, k)" by (simp add: pages_def)
    ultimately have "i + (2 ^ k - 1) < N" by blast
    then show ?thesis by simp
  qed
  show "(i, k) \<in> B \<Longrightarrow> i < N" using u pages_self [of i k] by blast
qed (use assms in \<open>auto simp: tiles_def\<close>)

lemma tiles_head_unique: "tiles N K H B \<Longrightarrow> (i, k) \<in> B \<Longrightarrow> (i, m) \<in> B \<Longrightarrow> k = m"
  using tilesD(5) [of N K H B "(i, k)" "(i, m)"] pages_self [of i k] pages_self [of i m] by blast

lemma tiles_remove:
  assumes "tiles N K H B" "b \<in> B"
  shows "tiles N K (H \<union> pages b) (B - {b})"
proof -
  have "\<Union> (pages ` (B - {b})) = \<Union> (pages ` B) - pages b"
    using tilesD(5) [OF assms(1) _ assms(2)] assms(2) by blast
  then show ?thesis using assms(1) unfolding tiles_def by auto
qed

lemma tiles_insert:
  assumes "tiles N K H B" "2 ^ k dvd i" "k < K" "pages (i, k) \<subseteq> H" "H \<subseteq> {..<N}"
  shows "tiles N K (H - pages (i, k)) (insert (i, k) B)"
proof -
  have "pages b \<inter> pages (i, k) = {}" if "b \<in> B" for b using tilesD(6) [OF assms(1) that] assms(4) by blast
  then have "\<forall>b\<in>insert (i, k) B. \<forall>c\<in>insert (i, k) B. b \<noteq> c \<longrightarrow> pages b \<inter> pages c = {}"
    using tilesD(5) [OF assms(1)] by (metis Int_commute insert_iff)
  moreover have "\<Union> (pages ` insert (i, k) B) = {..<N} - (H - pages (i, k))"
    using tilesD(7) [OF assms(1)] assms(4,5) by auto
  moreover have "\<forall>(j, m)\<in>insert (i, k) B. 2 ^ m dvd j \<and> m < K" using assms(1-3) by (auto simp: tiles_def)
  ultimately show ?thesis unfolding tiles_def by blast
qed

text \<open>The buddy of a hole is the first page of a block, of at most the size of the hole.\<close>

lemma buddy_is_head:
  assumes t: "tiles N K (pages (i, k)) B" and a: "2 ^ k dvd i" and j: "buddy_of i k < N"
  obtains m where "m \<le> k" "(buddy_of i k, m) \<in> B"
proof -
  let ?j = "buddy_of i k"
  note b = buddy_facts [OF a]
  have "?j \<notin> pages (i, k)" using b(5) pages_self [of ?j k] by blast
  then have "?j \<in> \<Union> (pages ` B)" using tilesD(7) [OF t] j by blast
  then obtain a' m where c: "(a', m) \<in> B" "?j \<in> pages (a', m)" by force
  have am: "2 ^ m dvd a'" using tilesD(1) [OF t c(1)] .
  have "m \<le> k"
  proof (rule ccontr)
    assume "\<not> m \<le> k"
    then have le: "k + 1 \<le> m" by simp
    have "?j \<in> pages (min i ?j, k + 1)" unfolding b(4) by simp
    then have "pages (min i ?j, k + 1) \<subseteq> pages (a', m)"
      using aligned_nested [OF am b(3) le] c(2) by blast
    then have "i \<in> pages (a', m)" unfolding b(4) by auto
    then show False using tilesD(6) [OF t c(1)] pages_self [of i k] by blast
  qed
  moreover have "2 ^ m dvd ?j" using b(1) calculation by (meson dvd_trans le_imp_power_dvd)
  then have "a' = ?j" using aligned_same [OF _ am, of ?j] c(2) pages_self [of ?j m] by blast
  ultimately show ?thesis using that c(1) by blast
qed

lemma tiles_merge:
  assumes t: "tiles N K (pages (i, k)) B" and a: "2 ^ k dvd i" and j: "(buddy_of i k, k) \<in> B"
  shows "tiles N K (pages (min i (buddy_of i k), k + 1)) (B - {(buddy_of i k, k)})"
  using tiles_remove [OF t j] buddy_facts(4) [OF a] by simp

text \<open>Free blocks none of which could be joined with its buddy.\<close>

definition joined :: "nat \<Rightarrow> block set \<Rightarrow> bool" where
  "joined K F \<longleftrightarrow> (\<forall>(x, k)\<in>F. k + 1 < K \<longrightarrow> (buddy_of x k, k) \<notin> F)"

lemma joined_covers:
  assumes t: "\<forall>(i, k)\<in>F. 2 ^ k dvd i" and j: "joined K F"
  shows "2 ^ k dvd a \<Longrightarrow> k < K \<Longrightarrow> pages (a, k) \<subseteq> \<Union> (pages ` F) \<Longrightarrow> \<exists>x m. (x, m) \<in> F \<and> k \<le> m \<and> pages (a, k) \<subseteq> pages (x, m)"
proof (induction k arbitrary: a)
  case 0
  then obtain x m where "(x, m) \<in> F" "a \<in> pages (x, m)" by force
  then show ?case by auto
next
  case (Suc k)
  obtain q where q: "a = 2 ^ Suc k * q" using Suc.prems(1) by blast
  have a: "2 ^ k dvd a" "buddy_of a k = a + 2 ^ k" unfolding q by (simp_all add: buddy_of_def)
  note b = buddy_facts [OF a(1), unfolded a(2)]
  have un: "pages (a, Suc k) = pages (a, k) \<union> pages (a + 2 ^ k, k)" using b(4) by simp
  obtain x m where x: "(x, m) \<in> F" "k \<le> m" "pages (a, k) \<subseteq> pages (x, m)"
    using Suc.IH [OF a(1)] Suc.prems(2,3) un by auto
  obtain y n where y: "(y, n) \<in> F" "k \<le> n" "pages (a + 2 ^ k, k) \<subseteq> pages (y, n)"
    using Suc.IH [OF b(1)] Suc.prems(2,3) un by auto
  have al: "2 ^ m dvd x" "2 ^ n dvd y" using t x(1) y(1) by auto
  consider "Suc k \<le> m" | "Suc k \<le> n" | "m = k" "n = k" using x(2) y(2) by linarith
  then show ?case
  proof cases
    case 1
    have "pages (a, Suc k) \<inter> pages (x, m) \<noteq> {}" using x(3) un pages_self [of a k] by blast
    then show ?thesis using aligned_nested [OF al(1) Suc.prems(1) 1] x(1) 1 by blast
  next
    case 2
    have "pages (a, Suc k) \<inter> pages (y, n) \<noteq> {}" using y(3) un pages_self [of "a + 2 ^ k" k] by blast
    then show ?thesis using aligned_nested [OF al(2) Suc.prems(1) 2] y(1) 2 by blast
  next
    case 3
    have "a = x" using aligned_same [OF al(1) [unfolded 3(1)] a(1)] x(3) 3(1) pages_self [of a k] by blast
    moreover have "a + 2 ^ k = y" using aligned_same [OF al(2) [unfolded 3(2)] b(1)] y(3) 3(2) pages_self [of "a + 2 ^ k" k] by blast
    ultimately show ?thesis using j x(1) y(1) 3 Suc.prems(2) a(2) unfolding joined_def by fastforce
  qed
qed

section \<open>The allocator as a set of free and a set of used blocks\<close>

abbreviation n_pages :: "buddy \<Rightarrow> nat" where "n_pages s \<equiv> unat (b_index_max (fst s))"
abbreviation n_orders :: "buddy \<Rightarrow> nat" where "n_orders s \<equiv> nat (b_order (fst s))"

definition buddy_ok :: "buddy \<Rightarrow> bool" where
  "buddy_ok s \<longleftrightarrow> owns_array (snd s) (b_all (fst s)) (2 * int (n_pages s)) \<and> 0 < n_pages s \<and> n_pages s < 2 ^ 27
     \<and> 1 \<le> b_order (fst s) \<and> b_order (fst s) \<le> 27 \<and> n_pages s \<le> 2 ^ (n_orders s - 1)
     \<and> 5 \<le> b_page_bits (fst s) \<and> b_page_bits (fst s) \<le> 24 \<and> n_pages s * 2 ^ nat (b_page_bits (fst s)) \<le> 2 ^ 32"

text \<open>\<open>L k\<close> is the free list of order \<open>k\<close>.\<close>

definition free_blocks :: "nat \<Rightarrow> (nat \<Rightarrow> nat list) \<Rightarrow> block set" where
  "free_blocks K L = {(x, k). k < K \<and> x \<in> set (L k)}"

definition lists_rep :: "buddy \<Rightarrow> (nat \<Rightarrow> nat list) \<Rightarrow> bool" where
  "lists_rep s L \<longleftrightarrow> (\<forall>k<n_orders s. chain s None (L k) None \<and> distinct (L k) \<and> b_free (fst s) (int k) = head (L k)
     \<and> (\<forall>x\<in>set (L k). IS_FREE s (of_nat x) \<and> GET_ORDER s (of_nat x) = of_nat k))"

text \<open>The headers of the used blocks are not marked free; those of the blocks in \<open>X\<close> need not have their order yet.\<close>

definition used_rep :: "buddy \<Rightarrow> block set \<Rightarrow> block set \<Rightarrow> bool" where
  "used_rep s X U \<longleftrightarrow> (\<forall>(x, k)\<in>U. \<not> IS_FREE s (of_nat x) \<and> ((x, k) \<notin> X \<longrightarrow> GET_ORDER s (of_nat x) = of_nat k))"

text \<open>The pages in \<open>H\<close> are in no block.\<close>

definition buddy_inv :: "block set \<Rightarrow> nat set \<Rightarrow> buddy \<Rightarrow> (nat \<Rightarrow> nat list) \<Rightarrow> block set \<Rightarrow> bool" where
  "buddy_inv X H s L U \<longleftrightarrow> buddy_ok s \<and> tiles (n_pages s) (n_orders s) H (free_blocks (n_orders s) L \<union> U)
     \<and> H \<subseteq> {..<n_pages s} \<and> lists_rep s L \<and> used_rep s X U \<and> joined (n_orders s) (free_blocks (n_orders s) L)"

text \<open>What an operation leaves: the constants of the context, and the heap but for the headers.\<close>

definition only_headers :: "buddy \<Rightarrow> buddy \<Rightarrow> bool" where
  "only_headers s t \<longleftrightarrow> b_base (fst t) = b_base (fst s) \<and> b_index_max (fst t) = b_index_max (fst s)
     \<and> b_page_bits (fst t) = b_page_bits (fst s) \<and> b_order (fst t) = b_order (fst s) \<and> b_all (fst t) = b_all (fst s)
     \<and> heap_ok (snd t) \<and> in_use (snd t) = in_use (snd s)
     \<and> (\<forall>a m y. (a, m) \<in> in_use (snd s) \<longrightarrow> a \<noteq> unat (b_all (fst s)) \<longrightarrow> a \<le> y \<longrightarrow> y < a + m \<longrightarrow>
          h_mem (snd t) (of_nat y) = h_mem (snd s) (of_nat y))"

lemma only_headers_trans: "only_headers s t \<Longrightarrow> only_headers t u \<Longrightarrow> only_headers s u"
  by (simp add: only_headers_def)

lemma only_headers_ok: "only_headers s t \<Longrightarrow> buddy_ok s \<Longrightarrow> buddy_ok t"
  by (simp add: only_headers_def buddy_ok_def owns_array_def)

lemma only_headers_refl: "buddy_ok s \<Longrightarrow> only_headers s s"
  by (simp add: only_headers_def buddy_ok_def owns_array_def)

lemma only_headers_free: "only_headers s t \<Longrightarrow> only_headers s (set_free k v t)"
  by (simp add: only_headers_def)

lemma only_headers_sel:
  assumes "only_headers s t"
  shows "b_base (fst t) = b_base (fst s)" "b_index_max (fst t) = b_index_max (fst s)" "b_page_bits (fst t) = b_page_bits (fst s)"
    "b_order (fst t) = b_order (fst s)" "n_pages t = n_pages s" "n_orders t = n_orders s"
  using assms by (simp_all add: only_headers_def)

lemma index_uint: "i < n_pages s \<Longrightarrow> uint (of_nat i :: u32) = int i"
proof -
  assume "i < n_pages s"
  moreover have "n_pages s < 2 ^ LENGTH(32)" by (rule unsigned_less)
  ultimately have "i < 2 ^ 32" by simp
  then show ?thesis by (simp add: uint_nat unat_addr)
qed

lemma set_blk_only:
  assumes "buddy_ok s" "i < n_pages s"
  shows "only_headers s (set_blk_next (of_nat i) v s)" "only_headers s (set_blk_prev (of_nat i) v s)"
proof -
  have own: "owns_array (snd s) (b_all (fst s)) (2 * int (n_pages s))" using assms(1) by (simp add: buddy_ok_def)
  note u = index_uint [OF assms(2)]
  have i: "0 \<le> 2 * int i" "2 * int i < 2 * int (n_pages s)" "0 \<le> 2 * int i + 1" "2 * int i + 1 < 2 * int (n_pages s)"
    using assms(2) by linarith+
  show "only_headers s (set_blk_next (of_nat i) v s)"
    using array_set_owned [OF own i(1,2), of v] array_set_other [OF own i(1,2)]
    by (cases s) (simp add: only_headers_def set_blk_next_def u)
  show "only_headers s (set_blk_prev (of_nat i) v s)"
    using array_set_owned [OF own i(3,4), of v] array_set_other [OF own i(3,4)]
    by (cases s) (simp add: only_headers_def set_blk_prev_def u)
qed

lemma only_set_next: "only_headers s t \<Longrightarrow> buddy_ok s \<Longrightarrow> i < n_pages s \<Longrightarrow> only_headers s (set_blk_next (of_nat i) v t)"
  using set_blk_only(1) [of t i v] only_headers_ok [of s t] only_headers_trans only_headers_sel(5) by metis

lemma only_set_prev: "only_headers s t \<Longrightarrow> buddy_ok s \<Longrightarrow> i < n_pages s \<Longrightarrow> only_headers s (set_blk_prev (of_nat i) v t)"
  using set_blk_only(2) [of t i v] only_headers_ok [of s t] only_headers_trans only_headers_sel(5) by metis

lemmas only_intros = only_headers_refl only_headers_free only_set_next only_set_prev

lemma add_free_only:
  assumes "buddy_ok s" "x < n_pages s" "b_free (fst s) k = head xs" "set xs \<subseteq> {..<n_pages s}"
  shows "only_headers s (buddy_add_free (of_nat x) k s)"
  using assms unfolding buddy_add_free_def Let_def
  by (cases xs) (auto intro!: only_intros split: if_splits)

lemma remove_free_only:
  assumes "buddy_ok s" "GET_NEXT s x = of_nat y" "GET_PREV s x = of_nat p" "y < n_pages s" "p < n_pages s"
  shows "only_headers s (buddy_remove_free x k s)"
  using assms unfolding buddy_remove_free_def Let_def by (auto intro!: only_intros)

section \<open>Facts about the blocks of an allocator\<close>

lemma in_free_blocks: "(x, k) \<in> free_blocks K L \<longleftrightarrow> k < K \<and> x \<in> set (L k)"
  by (simp add: free_blocks_def)

lemma inv_tiles: "buddy_inv X H s L U \<Longrightarrow> tiles (n_pages s) (n_orders s) H (free_blocks (n_orders s) L \<union> U)"
  and inv_ok: "buddy_inv X H s L U \<Longrightarrow> buddy_ok s"
  by (simp_all add: buddy_inv_def)

lemma inv_free:
  assumes "buddy_inv X H s L U" "k < n_orders s"
  shows "chain s None (L k) None" "distinct (L k)" "b_free (fst s) (int k) = head (L k)"
    "x \<in> set (L k) \<Longrightarrow> IS_FREE s (of_nat x)" "x \<in> set (L k) \<Longrightarrow> GET_ORDER s (of_nat x) = of_nat k"
    "x \<in> set (L k) \<Longrightarrow> x < n_pages s" "x \<in> set (L k) \<Longrightarrow> 2 ^ k dvd x" "x \<in> set (L k) \<Longrightarrow> x + 2 ^ k \<le> n_pages s"
proof -
  show "chain s None (L k) None" "distinct (L k)" "b_free (fst s) (int k) = head (L k)"
    "x \<in> set (L k) \<Longrightarrow> IS_FREE s (of_nat x)" "x \<in> set (L k) \<Longrightarrow> GET_ORDER s (of_nat x) = of_nat k"
    using assms by (simp_all add: buddy_inv_def lists_rep_def)
  note t = inv_tiles [OF assms(1)]
  show "x < n_pages s" "2 ^ k dvd x" "x + 2 ^ k \<le> n_pages s" if "x \<in> set (L k)"
    using tilesD(1,3,4) [OF t, of x k] that assms(2) by (auto simp: in_free_blocks)
qed

lemma inv_used:
  assumes "buddy_inv X H s L U" "(x, k) \<in> U"
  shows "\<not> IS_FREE s (of_nat x)" "(x, k) \<notin> X \<Longrightarrow> GET_ORDER s (of_nat x) = of_nat k"
    "x < n_pages s" "2 ^ k dvd x" "x + 2 ^ k \<le> n_pages s" "k < n_orders s"
proof -
  show "\<not> IS_FREE s (of_nat x)" "(x, k) \<notin> X \<Longrightarrow> GET_ORDER s (of_nat x) = of_nat k"
    using assms by (auto simp: buddy_inv_def used_rep_def)
  note t = inv_tiles [OF assms(1)]
  show "x < n_pages s" "2 ^ k dvd x" "x + 2 ^ k \<le> n_pages s" "k < n_orders s"
    using tilesD(1-4) [OF t, of x k] assms(2) by auto
qed

text \<open>Different blocks have different first pages.\<close>

lemma inv_heads:
  assumes "buddy_inv X H s L U"
  shows "x \<in> set (L k) \<Longrightarrow> x \<in> set (L m) \<Longrightarrow> k < n_orders s \<Longrightarrow> m < n_orders s \<Longrightarrow> k = m"
    "x \<in> set (L k) \<Longrightarrow> k < n_orders s \<Longrightarrow> (x, m) \<notin> U"
    "x \<in> H \<Longrightarrow> k < n_orders s \<Longrightarrow> x \<notin> set (L k)" "x \<in> H \<Longrightarrow> (x, m) \<notin> U"
proof -
  note t = inv_tiles [OF assms]
  show "x \<in> set (L k) \<Longrightarrow> x \<in> set (L m) \<Longrightarrow> k < n_orders s \<Longrightarrow> m < n_orders s \<Longrightarrow> k = m"
    by (rule tiles_head_unique [OF t, of x]) (simp_all add: in_free_blocks)
  show "x \<in> set (L k) \<Longrightarrow> k < n_orders s \<Longrightarrow> (x, m) \<notin> U"
    using inv_free(4) [OF assms] inv_used(1) [OF assms] by blast
  show "x \<in> H \<Longrightarrow> k < n_orders s \<Longrightarrow> x \<notin> set (L k)"
    using tilesD(6) [OF t, of "(x, k)"] pages_self [of x k] unfolding in_free_blocks Un_iff by blast
  show "x \<in> H \<Longrightarrow> (x, m) \<notin> U"
    using tilesD(6) [OF t, of "(x, m)"] pages_self [of x m] by blast
qed

lemma inv_small: "buddy_inv X H s L U \<Longrightarrow> x < n_pages s \<Longrightarrow> x < 2 ^ 27"
  by (simp add: buddy_inv_def buddy_ok_def)

end
