(* ===== verification/BuddyOps.thy ===== *)
theory BuddyOps
  imports BuddyInv
begin

text \<open>
  The operations of the buddy allocator keep the invariant of \<^verbatim>\<open>BuddyInv\<close>: taking a block off its free list and putting one on,
  joining it with its buddies, and breaking a free block up around the part that is taken.
\<close>

section \<open>Taking a block off its free list, and putting one on\<close>

lemma chain_links:
  "chain s None (xs @ x # ys) None \<Longrightarrow> GET_PREV s (of_nat x) = of_nat (if xs = [] then x else last xs)
     \<and> GET_NEXT s (of_nat x) = of_nat (if ys = [] then x else hd ys)"
  by (auto simp: chain_append)

lemma ok_order: "buddy_ok s \<Longrightarrow> k < n_orders s \<Longrightarrow> k < 27"
  unfolding buddy_ok_def by linarith

lemma inv_remove:
  assumes inv: "buddy_inv X H s L U" and k: "k < n_orders s" and L: "L k = xs @ x # ys"
    and t: "t = buddy_remove_free (of_nat x) (int k) s"
  shows "buddy_inv X (H \<union> pages (x, k)) t (L(k := xs @ ys)) U" "only_headers s t"
proof -
  let ?L = "L(k := xs @ ys)" and ?K = "n_orders s"
  note fr = inv_free [OF inv k]
  have sm: "\<forall>z\<in>set (xs @ x # ys). z < 2 ^ 27" using fr(6) inv_small [OF inv] unfolding L by blast
  note r = remove_free_rep [OF fr(1,2) [unfolded L] sm fr(3) [unfolded L] t]
  have nb: "GET_NEXT s (of_nat x) = of_nat (if ys = [] then x else hd ys)" "GET_PREV s (of_nat x) = of_nat (if xs = [] then x else last xs)"
    using chain_links [OF fr(1) [unfolded L]] by simp_all
  have bnd: "(if ys = [] then x else hd ys) < n_pages s" "(if xs = [] then x else last xs) < n_pages s"
    using fr(6) unfolding L by simp_all
  show only: "only_headers s t" unfolding t by (rule remove_free_only [OF inv_ok [OF inv] nb bnd])
  note sel = only_headers_sel [OF only]
  have xin: "x \<in> set (L k)" using L by simp
  have fb: "free_blocks ?K ?L = free_blocks ?K L - {(x, k)}"
    using fr(2) k unfolding free_blocks_def by (auto simp: L)
  have xU: "(x, k) \<notin> U" using inv_heads(2) [OF inv xin k] .
  have "tiles (n_pages s) ?K (H \<union> pages (x, k)) ((free_blocks ?K L \<union> U) - {(x, k)})"
    by (rule tiles_remove [OF inv_tiles [OF inv]]) (use xin k in \<open>simp add: in_free_blocks\<close>)
  then have tl: "tiles (n_pages s) ?K (H \<union> pages (x, k)) (free_blocks ?K ?L \<union> U)"
    unfolding fb using xU by (simp add: Un_Diff)
  have H: "H \<union> pages (x, k) \<subseteq> {..<n_pages s}"
    using inv fr(8) [OF xin] by (auto simp: buddy_inv_def pages_def)
  have lists: "lists_rep t ?L" unfolding lists_rep_def sel(6)
  proof (intro allI impI)
    fix m assume m: "m < ?K"
    show "chain t None (?L m) None \<and> distinct (?L m) \<and> b_free (fst t) (int m) = head (?L m)
      \<and> (\<forall>z\<in>set (?L m). IS_FREE t (of_nat z) \<and> GET_ORDER t (of_nat z) = of_nat m)"
    proof (cases "m = k")
      case True
      have "IS_FREE t (of_nat z) \<and> GET_ORDER t (of_nat z) = of_nat k" if "z \<in> set (xs @ ys)" for z
        using r(3) [of z] sm fr(4,5) [of z] that unfolding L same_marks_def by auto
      then show ?thesis using True r(1,2) fr(2) unfolding L by simp
    next
      case False
      note fm = inv_free [OF inv m]
      have other: "z < 2 ^ 27 \<and> z \<notin> set (xs @ ys)" if "z \<in> set (L m)" for z
        using inv_heads(1) [OF inv that _ m k] False fm(6) [OF that] inv_small [OF inv] unfolding L by auto
      have "chain t None (L m) None"
        using chain_cong [of "L m" s t] r(4) other fm(1) by blast
      moreover have "IS_FREE t (of_nat z) \<and> GET_ORDER t (of_nat z) = of_nat m" if "z \<in> set (L m)" for z
        using r(3) [of z] other [OF that] fm(4,5) [OF that] unfolding same_marks_def by simp
      ultimately show ?thesis using False r(2) fm(2,3) by simp
    qed
  qed
  have used: "used_rep t X U"
    unfolding used_rep_def
  proof safe
    fix y m assume y: "(y, m) \<in> U"
    note q = r(3) [OF inv_small [OF inv inv_used(3) [OF inv y]]] inv_used(1,2) [OF inv y]
    show "IS_FREE t (of_nat y) \<Longrightarrow> False" using q by (simp add: same_marks_def)
    show "(y, m) \<notin> X \<Longrightarrow> GET_ORDER t (of_nat y) = of_nat m" using q by (simp add: same_marks_def)
  qed
  have "joined ?K (free_blocks ?K ?L)"
    using inv unfolding fb buddy_inv_def joined_def by blast
  then show "buddy_inv X (H \<union> pages (x, k)) t ?L U"
    unfolding buddy_inv_def sel using only_headers_ok [OF only inv_ok [OF inv]] tl H lists used by simp
qed

lemma inv_add:
  assumes inv: "buddy_inv X H s L U" and k: "k < n_orders s" and x: "2 ^ k dvd x" "pages (x, k) \<subseteq> H"
    and buddy: "k + 1 < n_orders s \<Longrightarrow> buddy_of x k \<notin> set (L k)"
    and t: "t = buddy_add_free (of_nat x) (int k) s"
  shows "buddy_inv X (H - pages (x, k)) t (L(k := x # L k)) U" "only_headers s t"
proof -
  let ?L = "L(k := x # L k)" and ?K = "n_orders s"
  note fr = inv_free [OF inv k]
  have xH: "x \<in> H" using x(2) pages_self [of x k] by blast
  have HN: "H \<subseteq> {..<n_pages s}" using inv by (simp add: buddy_inv_def)
  have xN: "x < n_pages s" using xH HN by auto
  have xnew: "x \<notin> set (L m)" if "m < ?K" for m using inv_heads(3) [OF inv xH that] .
  have sm: "\<forall>z\<in>set (x # L k). z < 2 ^ 27" using fr(6) inv_small [OF inv] xN by auto
  have dist: "distinct (x # L k)" using fr(2) xnew [OF k] by simp
  have K: "int k < 32" using ok_order [OF inv_ok [OF inv] k] by simp
  note r = add_free_rep [OF fr(1) dist sm fr(3) of_nat_0_le_iff K t]
  show only: "only_headers s t"
    unfolding t by (rule add_free_only [OF inv_ok [OF inv] xN fr(3)]) (use fr(6) in blast)
  note sel = only_headers_sel [OF only]
  have fb: "free_blocks ?K ?L = insert (x, k) (free_blocks ?K L)"
    using k by (auto simp: free_blocks_def)
  have tl: "tiles (n_pages s) ?K (H - pages (x, k)) (free_blocks ?K ?L \<union> U)"
    unfolding fb using tiles_insert [OF inv_tiles [OF inv] x(1) k x(2) HN] by simp
  have lists: "lists_rep t ?L" unfolding lists_rep_def sel(6)
  proof (intro allI impI)
    fix m assume m: "m < ?K"
    show "chain t None (?L m) None \<and> distinct (?L m) \<and> b_free (fst t) (int m) = head (?L m)
      \<and> (\<forall>z\<in>set (?L m). IS_FREE t (of_nat z) \<and> GET_ORDER t (of_nat z) = of_nat m)"
    proof (cases "m = k")
      case True
      have "IS_FREE t (of_nat z) \<and> GET_ORDER t (of_nat z) = of_nat k" if "z \<in> set (L k)" for z
        using r(5) [of z] sm fr(4,5) [of z] that xnew [OF k] unfolding same_marks_def by auto
      then show ?thesis using True r(1-4) dist by simp
    next
      case False
      note fm = inv_free [OF inv m]
      have other: "z < 2 ^ 27 \<and> z \<noteq> x \<and> z \<notin> set (L k)" if "z \<in> set (L m)" for z
        using inv_heads(1) [OF inv that _ m k] False fm(6) [OF that] inv_small [OF inv] xnew [OF m] that by auto
      have "chain t None (L m) None"
        using chain_cong [of "L m" s t] r(6) other fm(1) by auto
      moreover have "IS_FREE t (of_nat z) \<and> GET_ORDER t (of_nat z) = of_nat m" if "z \<in> set (L m)" for z
        using r(5) [of z] other [OF that] fm(4,5) [OF that] unfolding same_marks_def by simp
      ultimately show ?thesis using False r(2) fm(2,3) by simp
    qed
  qed
  have used: "used_rep t X U"
    unfolding used_rep_def
  proof safe
    fix y m assume y: "(y, m) \<in> U"
    have yx: "y \<noteq> x" "y < 2 ^ 27"
      using inv_heads(4) [OF inv xH] y inv_small [OF inv inv_used(3) [OF inv y]] by auto
    note q = r(5) [OF yx(2,1)] inv_used(1,2) [OF inv y]
    show "IS_FREE t (of_nat y) \<Longrightarrow> False" using q by (simp add: same_marks_def)
    show "(y, m) \<notin> X \<Longrightarrow> GET_ORDER t (of_nat y) = of_nat m" using q by (simp add: same_marks_def)
  qed
  have "joined ?K (free_blocks ?K ?L)"
  proof -
    let ?F = "free_blocks ?K L"
    have no: "False" if y: "(y, m) \<in> insert (x, k) ?F" "m + 1 < ?K" "(buddy_of y m, m) \<in> insert (x, k) ?F" for y m
    proof -
      consider "y = x" "m = k" "buddy_of x k = x" | "y = x" "m = k" "(buddy_of x k, k) \<in> ?F"
        | "(y, m) \<in> ?F" "m = k" "buddy_of y k = x" | "(y, m) \<in> ?F" "(buddy_of y m, m) \<in> ?F"
        using y by auto
      then show False
      proof cases
        case 1
        then show ?thesis using buddy_facts(5) [OF x(1)] pages_self [of x k] by auto
      next
        case 2
        then show ?thesis using buddy y(2) by (simp add: in_free_blocks)
      next
        case 3
        then have "y \<in> set (L k)" by (simp add: in_free_blocks)
        then have "buddy_of x k = y" using buddy_facts(2) [OF fr(7)] 3(3) by blast
        then show ?thesis using buddy y(2) 3(2) \<open>y \<in> set (L k)\<close> by simp
      next
        case 4
        then show ?thesis using inv y(2) unfolding buddy_inv_def joined_def by blast
      qed
    qed
    show ?thesis
      unfolding joined_def fb
    proof (intro ballI)
      fix b assume "b \<in> insert (x, k) ?F"
      then show "case b of (y, m) \<Rightarrow> m + 1 < ?K \<longrightarrow> (buddy_of y m, m) \<notin> insert (x, k) ?F"
        unfolding case_prod_beta using no [of "fst b" "snd b"] unfolding prod.collapse by blast
    qed
  qed
  then show "buddy_inv X (H - pages (x, k)) t ?L U"
    unfolding buddy_inv_def sel using only_headers_ok [OF only inv_ok [OF inv]] tl HN lists used by auto
qed

section \<open>Releasing a block\<close>

definition free_pages :: "nat \<Rightarrow> (nat \<Rightarrow> nat list) \<Rightarrow> nat set" where
  "free_pages K L = \<Union> (pages ` free_blocks K L)"

lemma free_pages_add: "k < K \<Longrightarrow> free_pages K (L(k := x # L k)) = pages (x, k) \<union> free_pages K L"
proof -
  assume "k < K"
  then have "free_blocks K (L(k := x # L k)) = insert (x, k) (free_blocks K L)" by (auto simp: free_blocks_def)
  then show ?thesis by (simp add: free_pages_def)
qed

lemma free_pages_remove:
  "k < K \<Longrightarrow> L k = xs @ x # ys \<Longrightarrow> pages (x, k) \<union> free_pages K (L(k := xs @ ys)) = free_pages K L"
proof -
  assume "k < K" "L k = xs @ x # ys"
  then have "insert (x, k) (free_blocks K (L(k := xs @ ys))) = free_blocks K L" by (auto simp: free_blocks_def)
  then show ?thesis unfolding free_pages_def by (metis Union_insert image_insert)
qed

lemma merge_inv:
  assumes "buddy_inv X (pages (i, k)) s L U" "2 ^ k dvd i" "k < n_orders s"
  shows "\<exists>m j L' t. buddy_merge (b_order (fst s) - 1) (int k) (of_nat i) s = (int m, of_nat j, t)
    \<and> buddy_inv X (pages (j, m)) t L' U \<and> only_headers s t \<and> 2 ^ m dvd j \<and> m < n_orders s
    \<and> (m + 1 < n_orders s \<longrightarrow> buddy_of j m \<notin> set (L' m))
    \<and> pages (j, m) \<union> free_pages (n_orders s) L' = pages (i, k) \<union> free_pages (n_orders s) L"
  using assms
proof (induction "n_orders s - k" arbitrary: k i s L rule: less_induct)
  case less
  note inv = less.prems(1) and al = less.prems(2) and k = less.prems(3)
  let ?j = "buddy_of i k" and ?N = "n_pages s" and ?K = "n_orders s"
  have ok: "buddy_ok s" by (rule inv_ok [OF inv])
  have k27: "k < 27" by (rule ok_order [OF ok k])
  have iN: "i < ?N" using inv pages_self [of i k] unfolding buddy_inv_def by blast
  have i27: "i < 2 ^ 27" by (rule inv_small [OF inv iN])
  have "(2 :: nat) ^ k < 2 ^ 27" using k27 by (intro power_strict_increasing) simp_all
  then have j28: "?j < 2 ^ 28" using i27 unfolding buddy_of_def by (cases "even (i div 2 ^ k)") simp_all
  have max_order: "int k \<ge> b_order (fst s) - 1 \<longleftrightarrow> \<not> k + 1 < ?K" using k by linarith
  have xr: "(of_nat i :: u32) XOR push_bit (nat (int k)) 1 = of_nat ?j"
    using buddy_index [OF al i27] k27 by simp
  have ge: "(of_nat ?j :: u32) \<ge> b_index_max (fst s) \<longleftrightarrow> ?N \<le> ?j"
    using j28 by (simp add: word_le_nat_alt unat_addr)
  have stop: ?case if "buddy_merge (b_order (fst s) - 1) (int k) (of_nat i) s = (int k, of_nat i, s)"
    "k + 1 < ?K \<Longrightarrow> ?j \<notin> set (L k)"
    using that inv al k only_headers_refl [OF ok]
    by (intro exI [of _ k] exI [of _ i] exI [of _ L] exI [of _ s]) simp
  note step = buddy_merge.simps [of "b_order (fst s) - 1" "int k" "of_nat i" s, unfolded xr max_order ge Let_def]
  show ?case
  proof (cases "k + 1 < ?K \<and> ?j < ?N")
    case False
    show ?thesis
    proof (rule stop)
      show "buddy_merge (b_order (fst s) - 1) (int k) (of_nat i) s = (int k, of_nat i, s)"
        using False unfolding step by auto
      show "k + 1 < ?K \<Longrightarrow> ?j \<notin> set (L k)" using False inv_free(6) [OF inv k] by auto
    qed
  next
    case True
    obtain m where m: "m \<le> k" "(?j, m) \<in> free_blocks ?K L \<union> U"
      by (rule buddy_is_head [OF inv_tiles [OF inv] al conjunct2 [OF True]])
    have mK: "m < ?K" using m(1) k by simp
    have um: "uint (of_nat m :: u32) = int m" using m(1) k27 by (simp add: uint_nat unat_addr)
    show ?thesis
    proof (cases "?j \<in> set (L k)")
      case free: True
      obtain xs ys where L: "L k = xs @ ?j # ys" using split_list [OF free] by blast
      define t where "t = buddy_remove_free (of_nat ?j) (int k) s"
      note r = inv_remove [OF inv k L t_def]
      note b = buddy_facts [OF al]
      have less': "(of_nat ?j :: u32) < of_nat i \<longleftrightarrow> ?j < i" using i27 j28 by (simp add: word_less_nat_alt unat_addr)
      have idx: "(if (of_nat ?j :: u32) < of_nat i then of_nat ?j else of_nat i :: u32) = of_nat (min i ?j)"
        unfolding less' by (simp add: min_def)
      have kk: "uint (of_nat k :: u32) = int k" using k27 by (simp add: uint_nat unat_addr)
      have go: "buddy_merge (b_order (fst s) - 1) (int k) (of_nat i) s
          = buddy_merge (b_order (fst t) - 1) (int (k + 1)) (of_nat (min i ?j)) t"
        unfolding step idx t_def [symmetric] only_headers_sel(4) [OF r(2)]
        using True inv_free(4,5) [OF inv k free] kk by (simp add: add.commute)
      have un: "pages (i, k) \<union> pages (?j, k) = pages (min i ?j, k + 1)" using b(4) by simp
      have k1: "k + 1 < n_orders t" using True only_headers_sel(6) [OF r(2)] by simp
      have dec: "n_orders t - (k + 1) < ?K - k"
        unfolding only_headers_sel(6) [OF r(2)] using k by (intro diff_less_mono2) simp_all
      from less.hyps [OF dec r(1) [unfolded un] b(3) k1] obtain m' j' L' t' where
        IH: "buddy_merge (b_order (fst t) - 1) (int (k + 1)) (of_nat (min i ?j)) t = (int m', of_nat j', t')"
          "buddy_inv X (pages (j', m')) t' L' U" "only_headers t t'" "2 ^ m' dvd j'" "m' < n_orders t"
          "m' + 1 < n_orders t \<longrightarrow> buddy_of j' m' \<notin> set (L' m')"
          "pages (j', m') \<union> free_pages (n_orders t) L' = pages (min i ?j, k + 1) \<union> free_pages (n_orders t) (L(k := xs @ ys))"
        by (elim exE conjE)
      have "pages (min i ?j, k + 1) \<union> free_pages ?K (L(k := xs @ ys)) = pages (i, k) \<union> free_pages ?K L"
        using free_pages_remove [of k ?K L, OF k L] unfolding un [symmetric] by blast
      then show ?thesis
        using IH only_headers_trans [OF r(2) IH(3)] only_headers_sel(6) [OF r(2)] unfolding go
        by (intro exI [of _ m'] exI [of _ j'] exI [of _ L'] exI [of _ t']) simp
    next
      case notfree: False
      have "\<not> IS_FREE s (of_nat ?j) \<or> uint (GET_ORDER s (of_nat ?j)) \<noteq> int k"
      proof (cases "(?j, m) \<in> U")
        case True
        then show ?thesis using inv_used(1) [OF inv] by blast
      next
        case False
        then have "?j \<in> set (L m)" using m(2) by (simp add: in_free_blocks)
        moreover from this have "m \<noteq> k" using notfree by blast
        ultimately show ?thesis using inv_free(5) [OF inv mK] um by simp
      qed
      then have "buddy_merge (b_order (fst s) - 1) (int k) (of_nat i) s = (int k, of_nat i, s)"
        using True unfolding step by auto
      then show ?thesis using notfree by (rule stop)
    qed
  qed
qed

lemma page_address:
  assumes "buddy_ok s" "i < n_pages s"
  shows "drop_bit (nat (b_page_bits (fst s))) (push_bit (nat (b_page_bits (fst s))) (of_nat i)) = (of_nat i :: u32)"
proof -
  define b where "b = nat (b_page_bits (fst s))"
  have "i * 2 ^ b < n_pages s * 2 ^ b" using assms(2) by simp
  then have fit: "i * 2 ^ b < 2 ^ 32" using assms(1) unfolding buddy_ok_def b_def by linarith
  have "push_bit b (of_nat i :: u32) = of_nat (i * 2 ^ b)" by (simp add: push_bit_eq_mult)
  then have "unat (push_bit b (of_nat i :: u32)) = i * 2 ^ b" using unat_addr [OF fit] by (simp only:)
  then have "unat (drop_bit b (push_bit b (of_nat i :: u32))) = i"
    by (simp add: unat_drop_bit_eq drop_bit_eq_div [where 'a = nat])
  moreover have "i < 2 ^ 32" using assms by (simp add: buddy_ok_def)
  ultimately show ?thesis unfolding b_def by (simp add: word_unat_eq_iff unat_addr)
qed

text \<open>What \<^verbatim>\<open>buddy_free\<close> does with the address of a used block.\<close>

definition address_of :: "buddy \<Rightarrow> nat \<Rightarrow> u32" where
  "address_of s i = b_base (fst s) + push_bit (nat (b_page_bits (fst s))) (of_nat i)"

lemma free_inv_rep:
  assumes inv: "buddy_inv X {} s L U" and u: "(i, k) \<in> U" "(i, k) \<notin> X"
  shows "\<exists>L' t. buddy_free (address_of s i) s = (True, t) \<and> buddy_inv X {} t L' (U - {(i, k)})
    \<and> only_headers s t \<and> free_pages (n_orders s) L' = pages (i, k) \<union> free_pages (n_orders s) L"
proof -
  let ?K = "n_orders s"
  note us = inv_used [OF inv u(1)]
  have ok: "buddy_ok s" by (rule inv_ok [OF inv])
  have k27: "k < 27" by (rule ok_order [OF ok us(6)])
  have idx: "drop_bit (nat (b_page_bits (fst s))) (address_of s i - b_base (fst s)) = of_nat i"
    using page_address [OF ok us(3)] by (simp add: address_of_def)
  have "i < 2 ^ 32" using inv_small [OF inv us(3)] by simp
  then have lt: "(of_nat i :: u32) < b_index_max (fst s)" using us(3) by (simp add: word_less_nat_alt unat_addr)
  have ord: "uint (GET_ORDER s (of_nat i)) = int k" using us(2) u(2) k27 by (simp add: uint_nat unat_addr)
  have notF: "(i, k) \<notin> free_blocks ?K L" using inv_heads(2) [OF inv] u(1) by (auto simp: in_free_blocks)
  have "tiles (n_pages s) ?K ({} \<union> pages (i, k)) (free_blocks ?K L \<union> U - {(i, k)})"
    by (rule tiles_remove [OF inv_tiles [OF inv]]) (simp add: u(1))
  then have "tiles (n_pages s) ?K (pages (i, k)) (free_blocks ?K L \<union> (U - {(i, k)}))"
    using notF by (simp add: Un_Diff)
  moreover have "used_rep s X (U - {(i, k)})" using inv by (auto simp: buddy_inv_def used_rep_def)
  moreover have "pages (i, k) \<subseteq> {..<n_pages s}" using us(5) by (auto simp: pages_def)
  ultimately have hole: "buddy_inv X (pages (i, k)) s L (U - {(i, k)})" using inv by (simp add: buddy_inv_def)
  from merge_inv [OF hole us(4,6)] obtain m j L' t where
    r: "buddy_merge (b_order (fst s) - 1) (int k) (of_nat i) s = (int m, of_nat j, t)"
      "buddy_inv X (pages (j, m)) t L' (U - {(i, k)})" "only_headers s t" "2 ^ m dvd j" "m < ?K"
      "m + 1 < ?K \<longrightarrow> buddy_of j m \<notin> set (L' m)"
      "pages (j, m) \<union> free_pages ?K L' = pages (i, k) \<union> free_pages ?K L" by (elim exE conjE)
  note sel = only_headers_sel [OF r(3)]
  have mt: "m < n_orders t" using r(5) sel(6) by simp
  define t' where "t' = buddy_add_free (of_nat j) (int m) t"
  note a = inv_add [OF r(2) mt r(4) subset_refl _ t'_def]
  have "buddy_free (address_of s i) s = (True, t')"
    unfolding buddy_free_def idx Let_def using lt us(1) by (simp add: ord r(1) t'_def)
  moreover have "buddy_inv X {} t' (L'(m := j # L' m)) (U - {(i, k)})" using a(1) r(6) sel(6) by simp
  moreover have "only_headers s t'" using only_headers_trans [OF r(3) a(2)] r(6) sel(6) by simp
  moreover have "free_pages ?K (L'(m := j # L' m)) = pages (i, k) \<union> free_pages ?K L"
    using free_pages_add [OF r(5)] r(7) by simp
  ultimately show ?thesis by blast
qed

section \<open>Taking a part of a free block\<close>

lemma skip_eq: "0 < part \<Longrightarrow> i + (part - 1) + 1 = i + (part :: nat)"
  by simp

lemma header_eq_iff:
  "buddy_ok s \<Longrightarrow> i < n_pages s \<Longrightarrow> j < n_pages s \<Longrightarrow> (of_nat i :: u32) = of_nat j \<longleftrightarrow> i = j"
  by (simp add: buddy_ok_def index_eq_iff)

lemma ok_index: "buddy_ok s \<Longrightarrow> i < n_pages s \<Longrightarrow> i < 2 ^ 27"
  unfolding buddy_ok_def by linarith

lemma block_below: "pages (i, k) \<subseteq> {..<n} \<Longrightarrow> i + 2 ^ k \<le> n"
proof -
  assume b: "pages (i, k) \<subseteq> {..<n}"
  obtain t where t: "(2 :: nat) ^ k = Suc t" by (metis not0_implies_Suc power_not_zero zero_neq_numeral)
  have "i + t \<in> pages (i, k)" by (simp add: pages_def t)
  then show ?thesis using b t by auto
qed

lemma clear_header:
  assumes "buddy_ok s" "q < n_pages s" "j < n_pages s" "t = set_blk_prev (of_nat q) 0 (set_blk_next (of_nat q) 0 s)"
  shows "blk_next t (of_nat j) = (if j = q then 0 else blk_next s (of_nat j))"
    "blk_prev t (of_nat j) = (if j = q then 0 else blk_prev s (of_nat j))"
proof -
  note l = index_less [OF ok_index [OF assms(1,2)]] index_less [OF ok_index [OF assms(1,3)]]
  show "blk_next t (of_nat j) = (if j = q then 0 else blk_next s (of_nat j))"
    "blk_prev t (of_nat j) = (if j = q then 0 else blk_prev s (of_nat j))"
    unfolding assms(4) blk_words [OF l] header_eq_iff [OF assms(1,3,2)] by simp_all
qed

text \<open>The pages whose headers the first loop clears, from page \<open>a\<close> on.\<close>

definition cleared :: "nat \<Rightarrow> nat \<Rightarrow> nat \<Rightarrow> nat \<Rightarrow> nat set" where
  "cleared a b i2 part = {p. a \<le> p \<and> p < b \<and> (p \<le> i2 \<or> i2 + part \<le> p)}"

lemma mark_in_use_rep:
  assumes "buddy_ok s" "i1 + n \<le> n_pages s" "i2 < n_pages s" "0 < part" "i1 + i \<le> i2 \<or> i2 + part \<le> i1 + i"
    "t = mark_in_use n (of_nat i1) (of_nat i2) part i s"
  shows "only_headers s t \<and> fst t = fst s \<and> (\<forall>j<n_pages s.
    blk_next t (of_nat j) = (if j \<in> cleared (i1 + i) (i1 + n) i2 part then 0 else blk_next s (of_nat j))
    \<and> blk_prev t (of_nat j) = (if j \<in> cleared (i1 + i) (i1 + n) i2 part then 0 else blk_prev s (of_nat j)))"
  using assms
proof (induction "n - i" arbitrary: i s rule: less_induct)
  case less
  let ?q = "i1 + i"
  note ok = less.prems(1)
  show ?case
  proof (cases "i < n")
    case False
    then have "t = s" using less.prems(6) by (simp add: mark_in_use.simps)
    moreover have "cleared ?q (i1 + n) i2 part = {}" using False by (auto simp: cleared_def)
    ultimately show ?thesis using only_headers_refl [OF ok] by simp
  next
    case True
    define u where "u = set_blk_prev (of_nat ?q) 0 (set_blk_next (of_nat ?q) 0 s)"
    define i' where "i' = (if ?q = i2 then i + part else i + 1)"
    have q: "?q < n_pages s" using True less.prems(2) by simp
    have "(of_nat i1 + of_nat i :: u32) = of_nat i2 \<longleftrightarrow> ?q = i2"
      using header_eq_iff [OF ok q less.prems(3)] by simp
    then have t: "t = mark_in_use n (of_nat i1) (of_nat i2) part i' u"
      unfolding less.prems(6) mark_in_use.simps [of n _ _ _ i] using True less.prems(4) by (simp add: Let_def u_def i'_def)
    have only: "only_headers s u" unfolding u_def using ok q by (intro only_intros)
    note sel = only_headers_sel(5) [OF only]
    have fu: "fst u = fst s" by (simp add: u_def)
    have "only_headers u t \<and> fst t = fst u \<and> (\<forall>j<n_pages u.
      blk_next t (of_nat j) = (if j \<in> cleared (i1 + i') (i1 + n) i2 part then 0 else blk_next u (of_nat j))
      \<and> blk_prev t (of_nat j) = (if j \<in> cleared (i1 + i') (i1 + n) i2 part then 0 else blk_prev u (of_nat j)))"
      using less.prems(2-5) True
      by (intro less.hyps [OF _ only_headers_ok [OF only ok] _ _ _ _ t]) (auto simp: i'_def sel)
    moreover have "j \<in> cleared ?q (i1 + n) i2 part \<longleftrightarrow> j = ?q \<or> j \<in> cleared (i1 + i') (i1 + n) i2 part" for j
      using less.prems(4,5) True by (auto simp: cleared_def i'_def)
    ultimately show ?thesis
      using only_headers_trans [OF only, of t] clear_header [OF ok q _ u_def] fu unfolding sel by (auto simp del: of_nat_add)
  qed
qed

lemma tiles_fill:
  assumes "tiles N K H B" "H \<subseteq> {..<N}" "\<And>i k. (i, k) \<in> C \<Longrightarrow> 2 ^ k dvd i \<and> k < K" "\<Union> (pages ` C) = H"
    "\<And>b c. b \<in> C \<Longrightarrow> c \<in> C \<Longrightarrow> b \<noteq> c \<Longrightarrow> pages b \<inter> pages c = {}"
  shows "tiles N K {} (B \<union> C)"
proof -
  have "pages b \<inter> pages c = {}" if "b \<in> B" "c \<in> C" for b c
    using tilesD(6) [OF assms(1) that(1)] assms(4) that(2) by blast
  then have "\<forall>b\<in>B \<union> C. \<forall>c\<in>B \<union> C. b \<noteq> c \<longrightarrow> pages b \<inter> pages c = {}"
    using tilesD(5) [OF assms(1)] assms(5) by (metis Int_commute Un_iff)
  moreover have "\<Union> (pages ` (B \<union> C)) = {..<N} - {}" using tilesD(7) [OF assms(1)] assms(2,4) by auto
  moreover have "\<forall>(i, k)\<in>B \<union> C. 2 ^ k dvd i \<and> k < K" using assms(1,3) by (auto simp: tiles_def)
  ultimately show ?thesis unfolding tiles_def by blast
qed

text \<open>The pages of the block \<open>(i1, k1)\<close>, single and in use, but for the part \<open>(i2, k2)\<close>.\<close>

definition rest_pages :: "block \<Rightarrow> block \<Rightarrow> nat \<Rightarrow> block set" where
  "rest_pages b1 b2 q = {(p, 0) | p. p \<in> pages b1 - pages b2 \<and> q \<le> p}"

lemma split_inv:
  assumes inv: "buddy_inv {} (pages (i1, k1)) s L U" and k: "k2 \<le> k1" "k1 < n_orders s"
    and i2: "2 ^ k2 dvd i2" "pages (i2, k2) \<subseteq> pages (i1, k1)"
    and t: "t = mark_in_use (2 ^ k1) (of_nat i1) (of_nat i2) (2 ^ k2) 0 s"
  shows "buddy_inv {(i2, k2)} {} t L (U \<union> insert (i2, k2) (rest_pages (i1, k1) (i2, k2) i1))" "only_headers s t"
proof -
  let ?C = "insert (i2, k2) (rest_pages (i1, k1) (i2, k2) i1)" and ?M = "cleared i1 (i1 + 2 ^ k1) i2 (2 ^ k2)"
  have ok: "buddy_ok s" by (rule inv_ok [OF inv])
  have HN: "pages (i1, k1) \<subseteq> {..<n_pages s}" using inv by (simp add: buddy_inv_def)
  have n: "i1 + 2 ^ k1 \<le> n_pages s" by (rule block_below [OF HN])
  have i2b: "i2 \<in> pages (i1, k1)" using i2(2) pages_self [of i2 k2] by blast
  then have i2N: "i2 < n_pages s" "i1 \<le> i2" using HN by (auto simp: pages_def)
  have "only_headers s t \<and> fst t = fst s \<and> (\<forall>j<n_pages s.
    blk_next t (of_nat j) = (if j \<in> ?M then 0 else blk_next s (of_nat j))
    \<and> blk_prev t (of_nat j) = (if j \<in> ?M then 0 else blk_prev s (of_nat j)))"
    using mark_in_use_rep [OF ok n i2N(1) _ _ t, simplified] i2N(2) by simp
  then have only: "only_headers s t" and fst: "fst t = fst s"
    and nxt: "\<And>j. j < n_pages s \<Longrightarrow> blk_next t (of_nat j) = (if j \<in> ?M then 0 else blk_next s (of_nat j))"
    and prv: "\<And>j. j < n_pages s \<Longrightarrow> blk_prev t (of_nat j) = (if j \<in> ?M then 0 else blk_prev s (of_nat j))" by simp_all
  show "only_headers s t" by (rule only)
  note sel = only_headers_sel [OF only]
  have M: "?M \<subseteq> pages (i1, k1)" by (auto simp: cleared_def pages_def)
  have same: "same_links s t (of_nat j)" "same_marks s t (of_nat j)" if "j < n_pages s" "j \<notin> pages (i1, k1)" for j
    using nxt [OF that(1)] prv [OF that(1)] M that(2)
    by (auto simp: same_links_def same_marks_def GET_NEXT_def GET_PREV_def IS_FREE_def GET_ORDER_def)
  have zero: "\<not> IS_FREE t (of_nat j)" "GET_ORDER t (of_nat j) = 0" if "j \<in> ?M" for j
    using nxt [of j] prv [of j] that M HN by (auto simp: IS_FREE_def GET_ORDER_def)
  have Cheads: "j \<in> ?M" if "(j, k) \<in> ?C" for j k
    using that i2b i2N(2) by (auto simp: rest_pages_def cleared_def pages_def)
  have lists: "lists_rep t L" unfolding lists_rep_def sel(6)
  proof (intro allI impI)
    fix m assume m: "m < n_orders s"
    note fm = inv_free [OF inv m]
    have out: "x < n_pages s \<and> x \<notin> pages (i1, k1)" if "x \<in> set (L m)" for x
      using inv_heads(3) [OF inv _ m] fm(6) that by blast
    have "chain t None (L m) None" using chain_cong [of "L m" s t] same(1) out fm(1) by blast
    then show "chain t None (L m) None \<and> distinct (L m) \<and> b_free (fst t) (int m) = head (L m)
        \<and> (\<forall>x\<in>set (L m). IS_FREE t (of_nat x) \<and> GET_ORDER t (of_nat x) = of_nat m)"
      using fm(2-5) same(2) out fst by (auto simp: same_marks_def)
  qed
  have "\<not> IS_FREE t (of_nat x) \<and> ((x, m) \<notin> {(i2, k2)} \<longrightarrow> GET_ORDER t (of_nat x) = of_nat m)"
    if x: "(x, m) \<in> U \<union> ?C" for x m
  proof (cases "(x, m) \<in> U")
    case True
    have "x < n_pages s \<and> x \<notin> pages (i1, k1)" using inv_heads(4) [OF inv] inv_used(3) [OF inv True] True by blast
    then have "same_marks s t (of_nat x)" using same(2) by blast
    then show ?thesis using inv_used(1,2) [OF inv True] by (simp add: same_marks_def)
  next
    case False
    then have c: "(x, m) \<in> ?C" using x by blast
    then have "(x, m) \<notin> {(i2, k2)} \<Longrightarrow> m = 0" by (auto simp: rest_pages_def)
    then show ?thesis using zero [OF Cheads [OF c]] by auto
  qed
  then have used: "used_rep t {(i2, k2)} (U \<union> ?C)" unfolding used_rep_def by blast
  have "tiles (n_pages s) (n_orders s) {} ((free_blocks (n_orders s) L \<union> U) \<union> ?C)"
  proof (rule tiles_fill [OF inv_tiles [OF inv] HN])
    show "2 ^ k dvd i \<and> k < n_orders s" if "(i, k) \<in> ?C" for i k using that i2(1) k by (auto simp: rest_pages_def)
    show "\<Union> (pages ` ?C) = pages (i1, k1)"
    proof -
      have "\<Union> (pages ` rest_pages (i1, k1) (i2, k2) i1) = pages (i1, k1) - pages (i2, k2)"
        by (auto simp: rest_pages_def) (auto simp: pages_def)
      then show ?thesis using i2(2) by auto
    qed
    show "pages b \<inter> pages c = {}" if "b \<in> ?C" "c \<in> ?C" "b \<noteq> c" for b c
      using that by (auto simp: rest_pages_def)
  qed
  then have "tiles (n_pages s) (n_orders s) {} (free_blocks (n_orders s) L \<union> (U \<union> ?C))" by (simp add: Un_assoc)
  then show "buddy_inv {(i2, k2)} {} t L (U \<union> ?C)"
    using inv lists used only_headers_ok [OF only ok] unfolding buddy_inv_def sel by simp
qed

lemma inv_set_order:
  assumes inv: "buddy_inv X H s L U" and u: "(i, k) \<in> U"
    and t: "t = set_blk_prev (of_nat i) (push_bit SHIFT_ORDER (of_nat k)) s"
  shows "buddy_inv (X - {(i, k)}) H t L U" "only_headers s t"
proof -
  have ok: "buddy_ok s" by (rule inv_ok [OF inv])
  note us = inv_used [OF inv u]
  show only: "only_headers s t" unfolding t using ok us(3) by (intro only_intros)
  note sel = only_headers_sel [OF only]
  have k32: "(of_nat k :: u32) < 32" using ok_order [OF ok us(6)] by (simp add: word_less_nat_alt unat_addr)
  have words: "blk_next t (of_nat j) = blk_next s (of_nat j)"
    "blk_prev t (of_nat j) = (if j = i then push_bit SHIFT_ORDER (of_nat k) else blk_prev s (of_nat j))" if "j < n_pages s" for j
    using blk_words [OF index_less [OF ok_index [OF ok us(3)]] index_less [OF ok_index [OF ok that]]]
      header_eq_iff [OF ok that us(3)] unfolding t by simp_all
  have same: "same_links s t (of_nat j)" "same_marks s t (of_nat j)" if "j < n_pages s" "j \<noteq> i" for j
    using words [OF that(1)] that(2) by (simp_all add: same_links_def same_marks_def GET_NEXT_def GET_PREV_def IS_FREE_def GET_ORDER_def)
  have self: "IS_FREE t (of_nat i) = IS_FREE s (of_nat i)" "GET_ORDER t (of_nat i) = of_nat k"
    using words [OF us(3)] header_words(8) [OF _ k32, of 0] by (simp_all add: IS_FREE_def GET_ORDER_def)
  have lists: "lists_rep t L" unfolding lists_rep_def sel(6)
  proof (intro allI impI)
    fix m assume m: "m < n_orders s"
    note fm = inv_free [OF inv m]
    have out: "x < n_pages s \<and> x \<noteq> i" if "x \<in> set (L m)" for x
      using inv_heads(2) [OF inv that m] fm(6) [OF that] u by blast
    have "chain t None (L m) None" using chain_cong [of "L m" s t] same(1) out fm(1) by blast
    then show "chain t None (L m) None \<and> distinct (L m) \<and> b_free (fst t) (int m) = head (L m)
        \<and> (\<forall>x\<in>set (L m). IS_FREE t (of_nat x) \<and> GET_ORDER t (of_nat x) = of_nat m)"
      using fm(2-5) same(2) out unfolding t by (auto simp: same_marks_def)
  qed
  have "\<not> IS_FREE t (of_nat x) \<and> ((x, m) \<notin> X - {(i, k)} \<longrightarrow> GET_ORDER t (of_nat x) = of_nat m)" if x: "(x, m) \<in> U" for x m
  proof (cases "x = i")
    case True
    then have "m = k" using tiles_head_unique [OF inv_tiles [OF inv], of i m k] u x by blast
    then show ?thesis using True self us(1) by simp
  next
    case False
    then show ?thesis using same(2) [OF inv_used(3) [OF inv x]] inv_used(1,2) [OF inv x] by (auto simp: same_marks_def)
  qed
  then have "used_rep t (X - {(i, k)}) U" unfolding used_rep_def by blast
  then show "buddy_inv (X - {(i, k)}) H t L U"
    using inv lists only_headers_ok [OF only ok] unfolding buddy_inv_def sel by simp
qed

lemma put_back_rep:
  assumes "buddy_inv (if i1 + i \<le> i2 then {(i2, k2)} else {}) {} s L (U \<union> insert (i2, k2) (rest_pages (i1, k1) (i2, k2) (i1 + i)))"
    "i1 + i \<le> i2 \<or> i2 + 2 ^ k2 \<le> i1 + i" "pages (i2, k2) \<subseteq> pages (i1, k1)" "fst ` U \<inter> pages (i1, k1) = {}"
    "t = put_back (2 ^ k1) (of_nat i1) (of_nat i2) k2 (2 ^ k2) i s"
  shows "\<exists>L'. buddy_inv {} {} t L' (U \<union> {(i2, k2)}) \<and> only_headers s t
    \<and> free_pages (n_orders s) L' = free_pages (n_orders s) L \<union> {p \<in> pages (i1, k1) - pages (i2, k2). i1 + i \<le> p}"
  using assms
proof (induction "2 ^ k1 - i" arbitrary: i s L rule: less_induct)
  case less
  note inv = less.prems(1) and pos = less.prems(2) and sub = less.prems(3)
  let ?q = "i1 + i" and ?R = "rest_pages (i1, k1) (i2, k2)"
  have ok: "buddy_ok s" by (rule inv_ok [OF inv])
  note out = less.prems(4)
  have i2: "i2 \<in> pages (i1, k1)" using sub pages_self [of i2 k2] by blast
  show ?case
  proof (cases "i < 2 ^ k1")
    case False
    then have "t = s" using less.prems(5) by (simp add: put_back.simps)
    moreover have "?R ?q = {}" "{p \<in> pages (i1, k1) - pages (i2, k2). ?q \<le> p} = {}" "\<not> ?q \<le> i2"
      using False i2 by (auto simp: rest_pages_def pages_def)
    ultimately show ?thesis using inv only_headers_refl [OF ok] by (intro exI [of _ L]) (simp only: if_False Un_empty_right insert_is_Un [symmetric] simp_thms)
  next
    case True
    have i2N: "i2 < n_pages s" using inv_used(3) [OF inv, of i2 k2] by simp
    have step: "t = (if ?q = i2 then put_back (2 ^ k1) (of_nat i1) (of_nat i2) k2 (2 ^ k2) (i + 2 ^ k2)
            (set_blk_prev (of_nat i2) (push_bit SHIFT_ORDER (of_nat k2)) s)
        else put_back (2 ^ k1) (of_nat i1) (of_nat i2) k2 (2 ^ k2) (i + 1) (snd (buddy_free (address_of s ?q) s)))"
      if q: "?q < n_pages s"
    proof -
      have "(of_nat i1 + of_nat i :: u32) = of_nat i2 \<longleftrightarrow> ?q = i2" using header_eq_iff [OF ok q i2N] by simp
      moreover have "?q = i2 \<Longrightarrow> (of_nat i1 + of_nat i :: u32) = of_nat i2" by (metis of_nat_add)
      moreover have "i + (2 ^ k2 - 1) + 1 = i + 2 ^ k2" by (rule skip_eq) simp
      ultimately show ?thesis
        unfolding less.prems(5) put_back.simps [of _ _ _ _ _ i] using True by (auto simp: Let_def address_of_def)
    qed
    show ?thesis
    proof (cases "?q = i2")
      case q: True
      define u where "u = set_blk_prev (of_nat i2) (push_bit SHIFT_ORDER (of_nat k2)) s"
      have "(i2, k2) \<in> U \<union> insert (i2, k2) (?R ?q)" by simp
      note r = inv_set_order [OF inv this u_def]
      have R: "?R (i1 + (i + 2 ^ k2)) = ?R ?q" using q by (auto simp: rest_pages_def pages_def)
      have P: "{p \<in> pages (i1, k1) - pages (i2, k2). i1 + (i + 2 ^ k2) \<le> p} = {p \<in> pages (i1, k1) - pages (i2, k2). ?q \<le> p}"
        using q by (auto simp: pages_def)
      have t: "t = put_back (2 ^ k1) (of_nat i1) (of_nat i2) k2 (2 ^ k2) (i + 2 ^ k2) u"
        using step [OF i2N [folded q]] q by (simp add: u_def)
      have gt: "\<not> i1 + (i + 2 ^ k2) \<le> i2" using q zero_less_power [of "2 :: nat" k2] by linarith
      have dec: "2 ^ k1 - (i + 2 ^ k2) < 2 ^ k1 - i" using True by (intro diff_less_mono2) simp_all
      have "buddy_inv (if i1 + (i + 2 ^ k2) \<le> i2 then {(i2, k2)} else {}) {} u L
          (U \<union> insert (i2, k2) (?R (i1 + (i + 2 ^ k2))))"
        using r(1) q gt unfolding R by simp
      then obtain L' where "buddy_inv {} {} t L' (U \<union> {(i2, k2)})" "only_headers u t"
        "free_pages (n_orders u) L' = free_pages (n_orders u) L \<union> {p \<in> pages (i1, k1) - pages (i2, k2). i1 + (i + 2 ^ k2) \<le> p}"
        using less.hyps [OF dec _ _ sub out t] q by auto
      then show ?thesis
        using only_headers_trans [OF r(2), of t] unfolding P only_headers_sel(6) [OF r(2)] by blast
    next
      case q: False
      have qin: "?q \<in> pages (i1, k1) - pages (i2, k2)" using q True pos by (auto simp: pages_def)
      have mem: "(?q, 0) \<in> U \<union> insert (i2, k2) (?R ?q)" using qin by (auto simp: rest_pages_def)
      have notX: "(?q, 0) \<notin> (if ?q \<le> i2 then {(i2, k2)} else {})" using q by simp
      from free_inv_rep [OF inv mem notX] obtain L1 u where
        r: "buddy_free (address_of s ?q) s = (True, u)"
          "buddy_inv (if ?q \<le> i2 then {(i2, k2)} else {}) {} u L1 (U \<union> insert (i2, k2) (?R ?q) - {(?q, 0)})"
          "only_headers s u" "free_pages (n_orders s) L1 = pages (?q, 0) \<union> free_pages (n_orders s) L" by (elim exE conjE)
      have t: "t = put_back (2 ^ k1) (of_nat i1) (of_nat i2) k2 (2 ^ k2) (i + 1) u"
        using step [OF inv_used(3) [OF inv mem]] q r(1) by simp
      have "?R ?q - {(?q, 0)} = ?R (i1 + (i + 1))" by (auto simp: rest_pages_def Suc_le_eq)
      moreover have "(?q, 0) \<notin> U" using out qin by force
      ultimately have set: "U \<union> insert (i2, k2) (?R ?q) - {(?q, 0)} = U \<union> insert (i2, k2) (?R (i1 + (i + 1)))"
        using q by auto
      have pos': "i1 + (i + 1) \<le> i2 \<or> i2 + 2 ^ k2 \<le> i1 + (i + 1)" "(i1 + (i + 1) \<le> i2) = (?q \<le> i2)" using pos q by auto
      have dec: "2 ^ k1 - (i + 1) < 2 ^ k1 - i" using True by (intro diff_less_mono2) simp_all
      have P: "{p \<in> pages (i1, k1) - pages (i2, k2). ?q \<le> p} = pages (?q, 0) \<union> {p \<in> pages (i1, k1) - pages (i2, k2). i1 + (i + 1) \<le> p}"
        using qin by auto
      have "buddy_inv (if i1 + (i + 1) \<le> i2 then {(i2, k2)} else {}) {} u L1 (U \<union> insert (i2, k2) (?R (i1 + (i + 1))))"
        using r(2) unfolding set pos'(2) .
      from less.hyps [OF dec this pos'(1) sub out t] obtain L' where
        "buddy_inv {} {} t L' (U \<union> {(i2, k2)})" "only_headers u t"
        "free_pages (n_orders u) L' = free_pages (n_orders u) L1 \<union> {p \<in> pages (i1, k1) - pages (i2, k2). i1 + (i + 1) \<le> p}"
        by blast
      then show ?thesis
        using only_headers_trans [OF r(3), of t] r(4) unfolding P only_headers_sel(6) [OF r(3)] by blast
    qed
  qed
qed

lemma subset_rep:
  assumes inv: "buddy_inv {} {} s L U" and k: "k2 \<le> k1" "k1 < n_orders s" and i1: "i1 \<in> set (L k1)"
    and i2: "2 ^ k2 dvd i2" "pages (i2, k2) \<subseteq> pages (i1, k1)"
    and t: "t = buddy_allocate_subset (of_nat i1) (int k1) (of_nat i2) (int k2) s"
  shows "\<exists>L'. buddy_inv {} {} t L' (insert (i2, k2) U) \<and> only_headers s t
    \<and> free_pages (n_orders s) L' = free_pages (n_orders s) L - pages (i2, k2)"
proof -
  obtain xs ys where L: "L k1 = xs @ i1 # ys" using split_list [OF i1] by blast
  define L1 where "L1 = L(k1 := xs @ ys)"
  define u where "u = buddy_remove_free (of_nat i1) (int k1) s"
  note r = inv_remove [OF inv k(2) L u_def, folded L1_def, simplified]
  have ku: "k1 < n_orders u" using k(2) only_headers_sel(6) [OF r(2)] by simp
  define v where "v = mark_in_use (2 ^ k1) (of_nat i1) (of_nat i2) (2 ^ k2) 0 u"
  note sp = split_inv [OF r(1) k(1) ku i2 v_def]
  have t': "t = put_back (2 ^ k1) (of_nat i1) (of_nat i2) k2 (2 ^ k2) 0 v"
    unfolding t buddy_allocate_subset_def by (simp add: Let_def u_def v_def)
  have out: "fst ` U \<inter> pages (i1, k1) = {}" using inv_heads(4) [OF r(1)] by auto
  have i12: "i1 \<le> i2" using i2(2) pages_self [of i2 k2] by (auto simp: pages_def)
  obtain L' where L': "buddy_inv {} {} t L' (U \<union> {(i2, k2)})" "only_headers v t"
    "free_pages (n_orders v) L' = free_pages (n_orders v) L1 \<union> {p \<in> pages (i1, k1) - pages (i2, k2). i1 + 0 \<le> p}"
    using put_back_rep [OF _ _ i2(2) out t'] sp(1) i12 by auto
  have rest: "{p \<in> pages (i1, k1) - pages (i2, k2). i1 + 0 \<le> p} = pages (i1, k1) - pages (i2, k2)"
    by (auto simp: pages_def)
  have disj: "free_pages (n_orders s) L1 \<inter> pages (i1, k1) = {}"
  proof -
    have "tiles (n_pages u) (n_orders u) (pages (i1, k1)) (free_blocks (n_orders u) L1 \<union> U)" by (rule inv_tiles [OF r(1)])
    from tilesD(6) [OF this] show ?thesis unfolding free_pages_def only_headers_sel(6) [OF r(2)] by blast
  qed
  have un: "pages (i1, k1) \<union> free_pages (n_orders s) L1 = free_pages (n_orders s) L"
    unfolding L1_def by (rule free_pages_remove [of k1 "n_orders s" L, OF k(2) L])
  have nv: "n_orders v = n_orders s" using only_headers_sel(6) [OF r(2)] only_headers_sel(6) [OF sp(2)] by simp
  have "free_pages (n_orders s) L' = free_pages (n_orders s) L - pages (i2, k2)"
    using L'(3) disj un i2(2) unfolding rest nv by blast
  moreover have "only_headers s t" by (rule only_headers_trans [OF r(2) only_headers_trans [OF sp(2) L'(2)]])
  moreover have "buddy_inv {} {} t L' (insert (i2, k2) U)" using L'(1) by simp
  ultimately show ?thesis by blast
qed

end
