(* ===== verification/BuddySpec.thy ===== *)
theory BuddySpec
  imports BuddyOps "HOL-Library.Multiset"
begin

text \<open>
  What the buddy allocator promises, over the set of its used blocks: allocating adds a block that vacant, or returns no
  block when none vacant; releasing removes one; setting up leaves the pages of a range free.
\<close>

section \<open>The allocator as the set of its used blocks\<close>

definition buddy_holds :: "buddy \<Rightarrow> block set \<Rightarrow> bool" where
  "buddy_holds s U \<longleftrightarrow> (\<exists>L. buddy_inv {} {} s L U)"

text \<open>A block that could be handed out: aligned, in the memory and disjoint from the used blocks.\<close>

definition vacant :: "buddy \<Rightarrow> block set \<Rightarrow> block \<Rightarrow> bool" where
  "vacant s U b \<longleftrightarrow> 2 ^ snd b dvd fst b \<and> fst b + 2 ^ snd b \<le> n_pages s \<and> pages b \<inter> \<Union> (pages ` U) = {}"

lemma holds_free_pages:
  assumes "buddy_inv {} {} s L U"
  shows "free_pages (n_orders s) L = {..<n_pages s} - \<Union> (pages ` U)"
proof -
  note t = inv_tiles [OF assms]
  have disj: "pages b \<inter> pages c = {}" if "b \<in> free_blocks (n_orders s) L" "c \<in> U" for b c
  proof -
    have "b \<noteq> c" using that inv_heads(2) [OF assms] by (cases b) (auto simp: free_blocks_def)
    then show ?thesis using tilesD(5) [OF t, of b c] that by blast
  qed
  have "free_pages (n_orders s) L \<inter> \<Union> (pages ` U) = {}" using disj unfolding free_pages_def by fast
  moreover have "free_pages (n_orders s) L \<union> \<Union> (pages ` U) = {..<n_pages s}"
    using tilesD(7) [OF t] by (simp add: free_pages_def)
  ultimately show ?thesis by (metis Diff_cancel Diff_triv Un_Diff Un_empty_right)
qed

lemma vacant_free:
  assumes "buddy_inv {} {} s L U"
  shows "vacant s U (i, k) \<longleftrightarrow> 2 ^ k dvd i \<and> pages (i, k) \<subseteq> free_pages (n_orders s) L"
proof -
  have "pages (i, k) \<subseteq> {..<n_pages s} \<longleftrightarrow> i + 2 ^ k \<le> n_pages s"
    using block_below [of i k "n_pages s"] by (auto simp: pages_def)
  then show ?thesis unfolding holds_free_pages [OF assms] vacant_def by auto
qed

lemma vacant_order:
  assumes "buddy_ok s" "vacant s U (i, k)"
  shows "k < n_orders s"
proof -
  have "2 ^ k \<le> n_pages s" using assms(2) by (simp add: vacant_def)
  also have "n_pages s \<le> 2 ^ (n_orders s - 1)" using assms(1) by (simp add: buddy_ok_def)
  finally have "k \<le> n_orders s - 1" by (rule power_le_imp_le_exp [rotated]) simp
  then show ?thesis using assms(1) unfolding buddy_ok_def by linarith
qed

text \<open>A block that vacant lies in a block of a free list, since buddies that are free are joined.\<close>

lemma vacant_in_free_block:
  assumes inv: "buddy_inv {} {} s L U" and fit: "vacant s U (i, k)"
  obtains x m where "x \<in> set (L m)" "k \<le> m" "m < n_orders s" "pages (i, k) \<subseteq> pages (x, m)"
proof -
  have al: "\<forall>(j, m)\<in>free_blocks (n_orders s) L. 2 ^ m dvd j"
    using inv_free(7) [OF inv] by (auto simp: free_blocks_def)
  have j: "joined (n_orders s) (free_blocks (n_orders s) L)" using inv by (simp add: buddy_inv_def)
  have "pages (i, k) \<subseteq> \<Union> (pages ` free_blocks (n_orders s) L)" "2 ^ k dvd i"
    using fit unfolding vacant_free [OF inv] free_pages_def by blast+
  from joined_covers [OF al j this(2) vacant_order [OF inv_ok [OF inv] fit] this(1)] show ?thesis
    using that by (auto simp: in_free_blocks)
qed

lemma take_part:
  assumes inv: "buddy_inv {} {} s L U" and x: "x \<in> set (L m)" "m < n_orders s"
    and i: "2 ^ k dvd i" "k \<le> m" "pages (i, k) \<subseteq> pages (x, m)"
    and t: "t = buddy_allocate_subset (of_nat x) (int m) (of_nat i) (int k) s"
  shows "vacant s U (i, k)" "buddy_holds t (insert (i, k) U)" "only_headers s t"
proof -
  have "pages (x, m) \<subseteq> free_pages (n_orders s) L" using x by (auto simp: free_pages_def free_blocks_def)
  then show "vacant s U (i, k)" using i(1,3) unfolding vacant_free [OF inv] by blast
  show "buddy_holds t (insert (i, k) U)" "only_headers s t"
    using subset_rep [OF inv i(2) x(2,1) i(1,3) t] unfolding buddy_holds_def by blast+
qed

lemma address_of_same: "only_headers s t \<Longrightarrow> address_of t i = address_of s i"
  by (simp add: address_of_def only_headers_def)

section \<open>Allocating\<close>

lemma first_order_Some:
  "first_order f n i = Some j \<Longrightarrow> i \<le> j \<and> j < n \<and> f j \<noteq> - 1"
  by (induction f n i rule: first_order.induct) (subst (asm) (2) first_order.simps, force split: if_splits)

lemma first_order_None:
  "first_order f n i = None \<Longrightarrow> i \<le> j \<Longrightarrow> j < n \<Longrightarrow> f j = - 1"
proof (induction f n i rule: first_order.induct)
  case (1 f n i)
  then show ?case using first_order.simps [of f n i] by (cases "j = i") (auto split: if_splits)
qed

lemma buddy_alloc_cases:
  assumes inv: "buddy_inv {} {} s L U"
  shows "(\<exists>i t. buddy_alloc (int k) s = Ret (Some (address_of s i), t) \<and> vacant s U (i, k)
      \<and> buddy_holds t (insert (i, k) U) \<and> only_headers s t)
    \<or> buddy_alloc (int k) s = Ret (None, s) \<and> (\<forall>i. \<not> vacant s U (i, k))"
proof (cases "first_order (b_free (fst s)) (b_order (fst s)) (int k)")
  case None
  have "\<not> vacant s U (i, k)" for i
  proof
    assume "vacant s U (i, k)"
    then obtain x m where x: "x \<in> set (L m)" "k \<le> m" "m < n_orders s" by (rule vacant_in_free_block [OF inv])
    then have "head (L m) = - 1" using first_order_None [OF None, of "int m"] inv_free(3) [OF inv x(3)] by simp
    then show False using x(1,3) inv_free(6) [OF inv x(3)] index_not_minus_1 inv_small [OF inv] by (cases "L m") auto
  qed
  then show ?thesis using None by (simp add: buddy_alloc_def)
next
  case (Some j)
  note f = first_order_Some [OF Some]
  define m where "m = nat j"
  have j: "j = int m" "k \<le> m" "m < n_orders s" using f unfolding m_def by linarith+
  have "head (L m) \<noteq> - 1" using f inv_free(3) [OF inv j(3)] j(1) by simp
  then obtain x xs where L: "L m = x # xs" by (cases "L m") auto
  have x: "x \<in> set (L m)" "b_free (fst s) j = of_nat x" using L inv_free(3) [OF inv j(3)] j(1) by simp_all
  define t where "t = buddy_allocate_subset (of_nat x) (int m) (of_nat x) (int k) s"
  have "2 ^ k dvd x" using inv_free(7) [OF inv j(3) x(1)] j(2) by (meson dvd_trans le_imp_power_dvd)
  moreover have "pages (x, k) \<subseteq> pages (x, m)"
    using power_increasing [OF j(2), of "2 :: nat"] by (auto simp: pages_def)
  ultimately have "vacant s U (x, k) \<and> buddy_holds t (insert (x, k) U) \<and> only_headers s t"
    using take_part [OF inv x(1) j(3) _ j(2) _ t_def] by blast
  moreover from this have "buddy_alloc (int k) s = Ret (Some (address_of s x), t)"
    using Some x(2) j(1) address_of_same [of s t x] by (simp add: buddy_alloc_def Let_def t_def address_of_def)
  ultimately show ?thesis by blast
qed

section \<open>Allocating at an address\<close>

lemma find_superset_chain:
  assumes "chain s q (x # xs) None" "distinct (x # xs)" "\<forall>z\<in>set (x # xs). z < 2 ^ 27"
  shows "find_superset s a e i (of_nat x)
    = Some (map_option of_nat (find (\<lambda>z. of_nat z \<le> a \<and> e < of_nat z + push_bit (nat i) 1) (x # xs)))"
  using assms
proof (induction xs arbitrary: q x)
  case Nil
  then show ?case by (subst find_superset.simps) (simp add: Let_def)
next
  case (Cons y ys)
  have "(of_nat x :: u32) \<noteq> of_nat y" using Cons.prems(2,3) index_eq_iff [of x y] by auto
  moreover have "GET_NEXT s (of_nat x) = of_nat y" "chain s (Some x) (y # ys) None" using Cons.prems(1) by simp_all
  ultimately show ?case using Cons.IH [of "Some x" y] Cons.prems(2,3)
    by (subst find_superset.simps) (simp add: Let_def)
qed

lemma superset_loop_rep:
  assumes inv: "buddy_inv {} {} s L U" and "0 \<le> j"
  shows "(\<exists>m x. superset_loop s a e j = Some (Some (int m, of_nat x)) \<and> j \<le> int m \<and> m < n_orders s \<and> x \<in> set (L m)
      \<and> of_nat x \<le> a \<and> e < of_nat x + push_bit m 1)
    \<or> superset_loop s a e j = Some None
      \<and> (\<forall>m x. j \<le> int m \<longrightarrow> m < n_orders s \<longrightarrow> x \<in> set (L m) \<longrightarrow> \<not> (of_nat x \<le> a \<and> e < of_nat x + push_bit m 1))"
  using assms(2)
proof (induction "nat (b_order (fst s) - j)" arbitrary: j rule: less_induct)
  case less
  define m where "m = nat j"
  have j: "j = int m" using less.prems by (simp add: m_def)
  note step = superset_loop.simps [of s a e j]
  let ?P = "\<lambda>z. of_nat z \<le> a \<and> e < of_nat z + push_bit m 1"
  show ?case
  proof (cases "m < n_orders s")
    case False
    then have "b_order (fst s) \<le> j" using j by linarith
    then have "superset_loop s a e j = Some None" by (subst step) simp
    moreover have "\<not> m' < n_orders s" if "j \<le> int m'" for m' using that False j by simp
    ultimately show ?thesis by blast
  next
    case True
    have jlt: "j < b_order (fst s)" using True j by linarith
    note fm = inv_free [OF inv True]
    have dec: "nat (b_order (fst s) - (j + 1)) < nat (b_order (fst s) - j)" using jlt by simp
    have next': ?thesis if go: "superset_loop s a e j = superset_loop s a e (j + 1)" and no: "\<And>x. x \<in> set (L m) \<Longrightarrow> \<not> ?P x"
    proof -
      have "j + 1 \<le> int m' \<or> m' = m" if "j \<le> int m'" for m' using that j by linarith
      then show ?thesis using less.hyps [OF dec] less.prems no unfolding go by (smt (verit, best))
    qed
    show ?thesis
    proof (cases "L m")
      case Nil
      show ?thesis
      proof (rule next')
        show "superset_loop s a e j = superset_loop s a e (j + 1)" using Nil fm(3) j jlt by (subst step) simp
      qed (simp add: Nil)
    next
      case (Cons x xs)
      have sm: "\<forall>z\<in>set (x # xs). z < 2 ^ 27" using fm(6) inv_small [OF inv] unfolding Cons by blast
      have hd: "b_free (fst s) j = of_nat x" "(of_nat x :: u32) \<noteq> - 1" using fm(3) Cons j sm index_not_minus_1 by simp_all
      note f = find_superset_chain [OF fm(1,2) [unfolded Cons] sm, of a e j, folded Cons]
      show ?thesis
      proof (cases "find ?P (L m)")
        case None
        show ?thesis
        proof (rule next')
          show "superset_loop s a e j = superset_loop s a e (j + 1)" using f None hd j jlt by (subst step) simp
          show "\<not> ?P z" if "z \<in> set (L m)" for z using None that unfolding find_None_iff by blast
        qed
      next
        case (Some z)
        then have "z \<in> set (L m)" "?P z" by (auto simp: find_Some_iff)
        moreover have "superset_loop s a e j = Some (Some (j, of_nat z))" using f Some hd j jlt by (subst step) simp
        ultimately show ?thesis using True j by blast
      qed
    qed
  qed
qed

lemma superset_words:
  assumes "i + 2 ^ k \<le> 2 ^ 27" "z + 2 ^ m < 2 ^ 27"
  shows "(of_nat z :: u32) \<le> of_nat i \<and> of_nat i + push_bit k 1 - 1 < (of_nat z :: u32) + push_bit m 1
    \<longleftrightarrow> pages (i, k) \<subseteq> pages (z, m)"
proof -
  obtain t where t: "(2 :: nat) ^ k = Suc t" by (metis not0_implies_Suc power_not_zero zero_neq_numeral)
  have pw: "(push_bit n 1 :: u32) = of_nat (2 ^ n)" for n by (simp add: push_bit_eq_mult)
  have e: "of_nat i + push_bit k 1 - 1 = (of_nat (i + t) :: u32)" unfolding pw t by simp
  have z: "of_nat z + push_bit m 1 = (of_nat (z + 2 ^ m) :: u32)" unfolding pw by simp
  have small: "z < 2 ^ 32" "i < 2 ^ 32" "i + t < 2 ^ 32" "z + 2 ^ m < 2 ^ 32" using assms t by simp_all
  have "pages (i, k) \<subseteq> pages (z, m) \<longleftrightarrow> z \<le> i \<and> i + t < z + 2 ^ m"
    unfolding pages_def fst_conv snd_conv t by (simp add: ivl_subset Suc_le_eq)
  then show ?thesis unfolding e z word_le_nat_alt word_less_nat_alt unat_addr [OF small(1)] unat_addr [OF small(2)]
      unat_addr [OF small(3)] unat_addr [OF small(4)] by simp
qed

text \<open>The page of an address, and when the address is that of a block of order \<open>k\<close>.\<close>

definition page_of :: "buddy \<Rightarrow> u32 \<Rightarrow> nat" where
  "page_of s adr = unat (drop_bit (nat (b_page_bits (fst s))) (adr - b_base (fst s)))"

definition block_address :: "buddy \<Rightarrow> nat \<Rightarrow> u32 \<Rightarrow> bool" where
  "block_address s k adr \<longleftrightarrow> 2 ^ (k + nat (b_page_bits (fst s))) dvd unat (adr - b_base (fst s))"

lemma low_bits_zero: "n < 32 \<Longrightarrow> (w :: u32) AND (push_bit n 1 - 1) = 0 \<longleftrightarrow> 2 ^ n dvd unat w"
proof -
  assume n: "n < 32"
  have "w AND (push_bit n 1 - 1) = take_bit n w"
    by (simp add: take_bit_eq_mask mask_eq_exp_minus_1 push_bit_eq_mult)
  moreover have "unat (take_bit n w) = unat w mod 2 ^ n" by (simp only: unsigned_take_bit_eq take_bit_eq_mod [where 'a = nat])
  ultimately show ?thesis by (simp add: word_unat_eq_iff dvd_eq_mod_eq_0)
qed

lemma block_address_facts:
  assumes ok: "buddy_ok s" and adr: "block_address s k adr" and k: "int k + b_page_bits (fst s) < 32"
  shows "of_nat (page_of s adr) = drop_bit (nat (b_page_bits (fst s))) (adr - b_base (fst s))"
    "address_of s (page_of s adr) = adr" "2 ^ k dvd page_of s adr" "page_of s adr + 2 ^ k \<le> 2 ^ 27"
proof -
  define b where "b = nat (b_page_bits (fst s))"
  define w where "w = adr - b_base (fst s)"
  have b: "5 \<le> b" "k + b < 32" using ok k by (auto simp: buddy_ok_def b_def)
  show i: "of_nat (page_of s adr) = drop_bit (nat (b_page_bits (fst s))) (adr - b_base (fst s))" by (simp add: page_of_def)
  obtain q where q: "unat w = 2 ^ (k + b) * q" using adr unfolding block_address_def w_def b_def by blast
  then have pq: "page_of s adr = 2 ^ k * q"
    unfolding page_of_def w_def [symmetric] b_def [symmetric]
    by (simp add: unat_drop_bit_eq drop_bit_eq_div [where 'a = nat] power_add)
  then show "2 ^ k dvd page_of s adr" by simp
  have "unat (take_bit b w) = 0" using q by (simp add: unsigned_take_bit_eq take_bit_eq_mod [where 'a = nat] power_add)
  then have "take_bit b w = 0" by (simp only: unsigned_eq_0_iff)
  then have "push_bit b (drop_bit b w) = w" using bits_ident [of b w] by simp
  then show "address_of s (page_of s adr) = adr" unfolding address_of_def i b_def [symmetric] w_def [symmetric] by (simp add: w_def)
  have "unat w < 2 ^ LENGTH(32)" by (rule unsigned_less)
  then have "2 ^ (k + b) * q < 2 ^ (k + b) * 2 ^ (32 - (k + b))" using q b by (simp add: power_add [symmetric])
  then have "q + 1 \<le> 2 ^ (32 - (k + b))" by simp
  then have "2 ^ k * (q + 1) \<le> 2 ^ k * 2 ^ (32 - (k + b))" by (rule mult_le_mono2)
  also have "\<dots> = 2 ^ (32 - b)" using b by (simp add: power_add [symmetric])
  also have "\<dots> \<le> 2 ^ 27" using b by (intro power_increasing) simp_all
  finally show "page_of s adr + 2 ^ k \<le> 2 ^ 27" using pq by simp
qed

lemma buddy_alloc_at_unaligned:
  assumes "buddy_ok s" "int k + b_page_bits (fst s) < 32" "\<not> block_address s k adr"
  shows "buddy_alloc_at adr (int k) s = Ret (None, s)"
proof -
  have b: "5 \<le> b_page_bits (fst s)" using assms(1) by (simp add: buddy_ok_def)
  have n: "nat (int k + b_page_bits (fst s)) = k + nat (b_page_bits (fst s))" "k + nat (b_page_bits (fst s)) < 32"
    using b assms(2) by linarith+
  show ?thesis
    using low_bits_zero [OF n(2), of "adr - b_base (fst s)"] assms(2,3) b n(1)
    unfolding buddy_alloc_at_def block_address_def by (simp add: Let_def)
qed

lemma buddy_alloc_at_cases:
  assumes inv: "buddy_inv {} {} s L U" and k: "int k + b_page_bits (fst s) < 32" and adr: "block_address s k adr"
  defines "i \<equiv> page_of s adr"
  shows "if vacant s U (i, k)
    then \<exists>t. buddy_alloc_at adr (int k) s = Ret (Some adr, t) \<and> buddy_holds t (insert (i, k) U) \<and> only_headers s t
    else buddy_alloc_at adr (int k) s = Ret (None, s)"
proof -
  have ok: "buddy_ok s" by (rule inv_ok [OF inv])
  then have b: "5 \<le> b_page_bits (fst s)" by (simp add: buddy_ok_def)
  have n: "nat (int k + b_page_bits (fst s)) = k + nat (b_page_bits (fst s))" "k + nat (b_page_bits (fst s)) < 32"
    using b k by linarith+
  note page = block_address_facts [OF ok adr k, folded i_def]
  have aligned: "(adr - b_base (fst s)) AND (push_bit (nat (int k + b_page_bits (fst s))) 1 - 1) = 0"
    using low_bits_zero [OF n(2)] adr unfolding block_address_def n(1) by simp
  define e where "e = (of_nat i + push_bit k 1 - 1 :: u32)"
  have run: "buddy_alloc_at adr (int k) s = and_then (outcome_of (superset_loop s (of_nat i) e (int k))) (\<lambda>r.
      case r of None \<Rightarrow> Ret (None, s)
      | Some (m, index) \<Rightarrow>
          (let s1 = buddy_allocate_subset index m (of_nat i) (int k) s
           in Ret (Some (b_base (fst s1) + push_bit (nat (b_page_bits (fst s1))) (of_nat i)), s1)))"
    unfolding buddy_alloc_at_def Let_def page(1) [symmetric] aligned using b k by (simp add: e_def)
  have words: "of_nat x \<le> (of_nat i :: u32) \<and> e < of_nat x + push_bit m 1 \<longleftrightarrow> pages (i, k) \<subseteq> pages (x, m)"
    if "m < n_orders s" "x \<in> set (L m)" for m x
    unfolding e_def
  proof (rule superset_words [OF page(4)])
    show "x + 2 ^ m < 2 ^ 27" using inv_free(8) [OF inv that] ok by (simp add: buddy_ok_def)
  qed
  from superset_loop_rep [OF inv, of "int k" "of_nat i" e] consider
      (some) m x where "superset_loop s (of_nat i) e (int k) = Some (Some (int m, of_nat x))" "k \<le> m" "m < n_orders s"
        "x \<in> set (L m)" "of_nat x \<le> (of_nat i :: u32)" "e < of_nat x + push_bit m 1"
    | (none) "superset_loop s (of_nat i) e (int k) = Some None"
        "\<And>m x. k \<le> m \<Longrightarrow> m < n_orders s \<Longrightarrow> x \<in> set (L m) \<Longrightarrow> \<not> (of_nat x \<le> (of_nat i :: u32) \<and> e < of_nat x + push_bit m 1)"
    by fastforce
  then show ?thesis
  proof cases
    case some
    define t where "t = buddy_allocate_subset (of_nat x) (int m) (of_nat i) (int k) s"
    have "pages (i, k) \<subseteq> pages (x, m)" using words [OF some(3,4)] some(5,6) by simp
    note tk = take_part [OF inv some(4,3) page(3) some(2) this t_def]
    have "buddy_alloc_at adr (int k) s = Ret (Some (address_of t i), t)"
      unfolding run by (simp add: some(1) t_def [symmetric] outcome_of_def Let_def address_of_def)
    then show ?thesis using tk address_of_same [OF tk(3)] page(2) by simp
  next
    case none
    have "\<not> vacant s U (i, k)"
    proof
      assume "vacant s U (i, k)"
      then obtain x m where "x \<in> set (L m)" "k \<le> m" "m < n_orders s" "pages (i, k) \<subseteq> pages (x, m)"
        by (rule vacant_in_free_block [OF inv])
      then show False using none(2) words by blast
    qed
    then show ?thesis unfolding run by (simp add: none(1) outcome_of_def)
  qed
qed

section \<open>The order of a size\<close>

lemma order_loop_rep:
  assumes "0 \<le> r" "unat sz \<le> 2 ^ 31" "0 \<le> r \<Longrightarrow> r < 32"
  shows "\<exists>m. order_loop sz r = Ret (int m) \<and> r \<le> int m \<and> m < 32 \<and> unat sz \<le> 2 ^ m \<and> (r < int m \<longrightarrow> 2 ^ (m - 1) < unat sz)"
  using assms(1,3)
proof (induction "nat (32 - r)" arbitrary: r rule: less_induct)
  case less
  define n where "n = nat r"
  have r: "r = int n" "n < 32" using less.prems by (simp_all add: n_def)
  have "unat (push_bit n 1 :: u32) = 2 ^ n"
    using r(2) unat_addr [of "2 ^ n"] power_strict_increasing [OF r(2), of "2 :: nat"] by (simp add: push_bit_eq_mult)
  then have cmp: "push_bit (nat r) 1 < sz \<longleftrightarrow> 2 ^ n < unat sz" by (simp add: word_less_nat_alt r(1))
  note step = order_loop.simps [of sz r]
  show ?case
  proof (cases "2 ^ n < unat sz")
    case False
    then have "order_loop sz r = Ret (int n)" using cmp r by (subst step) simp
    then show ?thesis using False r by (intro exI [of _ n]) simp
  next
    case True
    have n31: "n < 31"
    proof (rule ccontr)
      assume "\<not> n < 31"
      then have "(2 :: nat) ^ 31 \<le> 2 ^ n" by (intro power_increasing) simp_all
      then show False using True assms(2) by simp
    qed
    have go: "order_loop sz r = order_loop sz (r + 1)" using True cmp r by (subst step) simp
    obtain m where m: "order_loop sz (r + 1) = Ret (int m)" "r + 1 \<le> int m" "m < 32" "unat sz \<le> 2 ^ m"
      "r + 1 < int m \<longrightarrow> 2 ^ (m - 1) < unat sz"
      using less.hyps [of "r + 1"] r n31 by auto
    have "2 ^ (m - 1) < unat sz"
    proof (cases "r + 1 < int m")
      case False
      then have "m - 1 = n" using m(2) r by linarith
      then show ?thesis using True by simp
    qed (use m in simp)
    then show ?thesis using go m by (intro exI [of _ m]) simp
  qed
qed

lemma order_loop_runs_off:
  assumes "2 ^ 31 < unat sz"
  shows "0 \<le> r \<Longrightarrow> order_loop sz r = Undefined"
proof (induction "nat (32 - r)" arbitrary: r rule: less_induct)
  case less
  define n where "n = nat r"
  have r: "r = int n" using less.prems by (simp add: n_def)
  note step = order_loop.simps [of sz r]
  show ?case
  proof (cases "n < 32")
    case True
    have "(2 :: nat) ^ n < 2 ^ 32" using True by (rule power_strict_increasing) simp
    then have "unat (push_bit n 1 :: u32) = 2 ^ n" using unat_addr [of "2 ^ n"] by (simp add: push_bit_eq_mult)
    moreover have "(2 :: nat) ^ n \<le> 2 ^ 31" using True by (intro power_increasing) simp_all
    then have "2 ^ n < unat sz" using assms by (rule le_less_trans)
    ultimately have "push_bit (nat r) 1 < sz" by (simp add: word_less_nat_alt r)
    then show ?thesis using less.hyps [of "r + 1"] r True by (subst step) simp
  next
    case False
    then show ?thesis using r by (subst step) simp
  qed
qed

section \<open>Setting up\<close>

lemma holds_free:
  assumes "buddy_holds s U" "(i, k) \<in> U"
  shows "\<exists>t. buddy_free (address_of s i) s = (True, t) \<and> buddy_holds t (U - {(i, k)}) \<and> only_headers s t"
  using assms free_inv_rep [of "{}" s _ U i k] unfolding buddy_holds_def by blast

lemma count_orders_eq: "count_orders sz r = and_then (order_loop sz r) (\<lambda>m. Ret (m + 1))"
proof (induction sz r rule: count_orders.induct)
  case (1 sz r)
  show ?case
  proof (cases "r < 0 \<or> r \<ge> 32 \<or> \<not> push_bit (nat r) 1 < sz")
    case True
    then show ?thesis by (subst count_orders.simps, subst order_loop.simps) auto
  next
    case False
    then have "count_orders sz r = count_orders sz (r + 1)" "order_loop sz r = order_loop sz (r + 1)"
      by (subst count_orders.simps, simp, subst order_loop.simps, simp)
    then show ?thesis using 1 False by simp
  qed
qed

lemma count_orders_rep:
  assumes "0 < unat n" "unat n < 2 ^ 27"
  obtains m where "count_orders n 0 = Ret (int m + 1)" "unat n \<le> 2 ^ m" "m \<le> 26 \<longleftrightarrow> unat n \<le> 2 ^ 26"
proof -
  have "unat n \<le> 2 ^ 31" using assms(2) by simp
  from order_loop_rep [OF order_refl this, simplified] obtain m where
    m: "order_loop n 0 = Ret (int m)" "unat n \<le> 2 ^ m" "0 < m \<longrightarrow> 2 ^ (m - 1) < unat n" by auto
  have "m \<le> 26 \<longleftrightarrow> unat n \<le> 2 ^ 26"
  proof
    assume "m \<le> 26"
    then have "(2 :: nat) ^ m \<le> 2 ^ 26" by (intro power_increasing) simp_all
    then show "unat n \<le> 2 ^ 26" using m(2) by simp
  next
    assume n: "unat n \<le> 2 ^ 26"
    show "m \<le> 26"
    proof (rule ccontr)
      assume "\<not> m \<le> 26"
      then have "0 < m" "26 \<le> m - 1" by simp_all
      moreover from this have "(2 :: nat) ^ 26 \<le> 2 ^ (m - 1)" by (intro power_increasing) simp_all
      ultimately show False using m(3) n by simp
    qed
  qed
  then show ?thesis using that m count_orders_eq by simp
qed

lemma clear_array_rep:
  assumes "owns_array h p (int n)"
  shows "owns_array (clear_array p n h) p (int n) \<and> in_use (clear_array p n h) = in_use h
    \<and> (\<forall>j<n. array_get (clear_array p n h) p (int j) = 0)"
proof -
  have small: "int n < 2 ^ 30" using assms by (simp add: owns_array_def)
  have "owns_array (clear_array p n h) p (int n) \<and> in_use (clear_array p n h) = in_use h
    \<and> (\<forall>j<n. j < n \<longrightarrow> array_get (clear_array p n h) p (int j) = 0)"
    unfolding clear_array_def
  proof (rule for_loop_indexed [where P = "\<lambda>k t. owns_array t p (int n) \<and> in_use t = in_use h
      \<and> (\<forall>j<k. j < n \<longrightarrow> array_get t p (int j) = 0)"])
    fix k t assume k: "k < n"
      and P: "owns_array t p (int n) \<and> in_use t = in_use h \<and> (\<forall>j<k. j < n \<longrightarrow> array_get t p (int j) = 0)"
    then have i: "owns_array t p (int n)" "0 \<le> int k" "int k < int n" by simp_all
    have "array_get (array_set p (int k) 0 t) p (int j) = (if j = k then 0 else array_get t p (int j))" if "j < n" for j
      using array_get_set [of "int k" "int j" p 0 t] that k small by simp
    then show "owns_array (array_set p (int k) 0 t) p (int n) \<and> in_use (array_set p (int k) 0 t) = in_use h
        \<and> (\<forall>j<Suc k. j < n \<longrightarrow> array_get (array_set p (int k) 0 t) p (int j) = 0)"
      using array_set_owned [OF i, of 0] P less_SucE by auto
  qed (use assms in simp)
  then show ?thesis by simp
qed

lemma all_used:
  assumes ok: "buddy_ok s" and free: "\<And>k. k < n_orders s \<Longrightarrow> b_free (fst s) (int k) = - 1"
    and zero: "\<And>j. j < 2 * n_pages s \<Longrightarrow> array_get (snd s) (b_all (fst s)) (int j) = 0"
  shows "buddy_holds s {(i, 0) | i. i < n_pages s}"
proof -
  let ?U = "{(i, 0) | i. i < n_pages s} :: block set"
  have hdr: "blk_next s (of_nat i) = 0" "blk_prev s (of_nat i) = 0" if "i < n_pages s" for i
    using zero [of "2 * i"] zero [of "2 * i + 1"] that
    by (simp_all add: blk_next_def blk_prev_def split_beta index_uint [OF that] add.commute)
  have "0 < n_orders s" using ok by (simp add: buddy_ok_def)
  then have "tiles (n_pages s) (n_orders s) {} (free_blocks (n_orders s) (\<lambda>_. []) \<union> ?U)"
    unfolding tiles_def free_blocks_def by auto
  moreover have "lists_rep s (\<lambda>_. [])" using free by (simp add: lists_rep_def)
  moreover have "used_rep s {} ?U" using hdr by (auto simp: used_rep_def IS_FREE_def GET_ORDER_def)
  moreover have "joined (n_orders s) (free_blocks (n_orders s) (\<lambda>_. []))" by (simp add: joined_def free_blocks_def)
  ultimately have "buddy_inv {} {} s (\<lambda>_. []) ?U" using ok by (simp add: buddy_inv_def)
  then show ?thesis unfolding buddy_holds_def by blast
qed

text \<open>The loop that releases the pages of a range.\<close>

lemma free_range:
  assumes "buddy_holds s {(i, 0) | i. i < n}" "b = b_base (fst s)" "k = nat (b_page_bits (fst s))"
    and body_def: "body = (\<lambda>i s. if P i then snd (buddy_free (b + push_bit k (of_nat i)) s) else s)"
  shows "buddy_holds (for_loop n body s) {(i, 0) | i. i < n \<and> \<not> P i}" "only_headers s (for_loop n body s)"
proof -
  have "buddy_holds (for_loop n body s) {(i, 0) | i. i < n \<and> (n \<le> i \<or> \<not> P i)} \<and> only_headers s (for_loop n body s)"
  proof (rule for_loop_indexed [where P = "\<lambda>j t. buddy_holds t {(i, 0) | i. i < n \<and> (j \<le> i \<or> \<not> P i)} \<and> only_headers s t"])
    have "buddy_ok s" using assms inv_ok unfolding buddy_holds_def by blast
    then show "buddy_holds s {(i, 0) | i. i < n \<and> (0 \<le> i \<or> \<not> P i)} \<and> only_headers s s"
      using assms only_headers_refl by simp
    fix j t assume j: "j < n" and t: "buddy_holds t {(i, 0) | i. i < n \<and> (j \<le> i \<or> \<not> P i)} \<and> only_headers s t"
    let ?U = "{(i, 0) | i. i < n \<and> (j \<le> i \<or> \<not> P i)} :: block set"
    show "buddy_holds (body j t) {(i, 0) | i. i < n \<and> (Suc j \<le> i \<or> \<not> P i)} \<and> only_headers s (body j t)"
    proof (cases "P j")
      case False
      then have "{(i, 0) | i. i < n \<and> (Suc j \<le> i \<or> \<not> P i)} = ?U" by (auto simp: Suc_le_eq le_less)
      then show ?thesis using False t by (simp add: body_def)
    next
      case p: True
      have "(j, 0) \<in> ?U" using j by simp
      from holds_free [OF conjunct1 [OF t] this] obtain u where
        u: "buddy_free (address_of t j) t = (True, u)" "buddy_holds u (?U - {(j, 0)})" "only_headers t u" by blast
      have "b + push_bit k (of_nat j) = address_of t j" using assms(2,3) only_headers_sel(1,3) [OF conjunct2 [OF t]] by (simp add: address_of_def)
      moreover have "?U - {(j, 0)} = {(i, 0) | i. i < n \<and> (Suc j \<le> i \<or> \<not> P i)}" using p by (auto simp: Suc_le_eq)
      ultimately show ?thesis using p u only_headers_trans [OF conjunct2 [OF t] u(3)] by (simp add: body_def)
    qed
  qed
  moreover have "{(i, 0) | i. i < n \<and> (n \<le> i \<or> \<not> P i)} = {(i, 0 :: nat) | i. i < n \<and> \<not> P i}" by auto
  ultimately show "buddy_holds (for_loop n body s) {(i, 0) | i. i < n \<and> \<not> P i}" "only_headers s (for_loop n body s)"
    by simp_all
qed

text \<open>The pages that \<^verbatim>\<open>buddy_init\<close> frees, between two addresses rounded to pages; zero is no bound.\<close>

definition in_range :: "u32 \<Rightarrow> nat \<Rightarrow> u32 \<Rightarrow> u32 \<Rightarrow> nat \<Rightarrow> bool" where
  "in_range base bits low high i \<longleftrightarrow>
     (let page_mask = push_bit bits 1 - 1;
          adr = base + push_bit bits (of_nat i);
          first1 = (low + page_mask) AND NOT page_mask;
          last1 = high AND NOT page_mask
      in (first1 = 0 \<or> adr \<ge> first1) \<and> (last1 = 0 \<or> adr < last1))"

lemma buddy_init_rep:
  fixes c :: buddy_ctxt
  assumes h: "heap_ok h" and bits: "5 \<le> bits" "bits \<le> 24" and base: "base AND (push_bit bits 1 - 1) = 0"
    and n: "n = unat (drop_bit bits sz)" "0 < n"
  shows "\<exists>p h1. malloc (of_nat n * 8) h = Ret (p, h1) \<and> (if p = 0 then in_use h1 = in_use h \<and>
        (\<exists>t. buddy_init base sz (int bits) low high (c, h) = Ret (False, t) \<and> snd t = h)
      else if n \<le> 2 ^ 26 then \<exists>t m. buddy_init base sz (int bits) low high (c, h) = Ret (True, t) \<and>
        buddy_holds t {(i, 0) | i. i < n \<and> \<not> in_range base bits low high i}
        \<and> b_base (fst t) = base \<and> b_page_bits (fst t) = int bits \<and> n_pages t = n
        \<and> b_all (fst t) = p \<and> (unat p, m) \<notin> in_use h \<and> in_use (snd t) = insert (unat p, m) (in_use h)
      else buddy_init base sz (int bits) low high (c, h) = Undefined)"
proof -
  have nw: "drop_bit bits sz = of_nat n" using n(1) by simp
  have nsz: "n * 2 ^ bits \<le> unat sz" unfolding n(1) by (simp add: unat_drop_bit_eq drop_bit_eq_div [where 'a = nat])
  have "unat sz < 2 ^ LENGTH(32)" by (rule unsigned_less)
  then have sz: "unat sz < 2 ^ 32" by simp
  have "(2 :: nat) ^ 5 \<le> 2 ^ bits" using bits(1) by (intro power_increasing) simp_all
  then have "n * 2 ^ 5 \<le> n * 2 ^ bits" by (rule mult_le_mono2)
  also have "\<dots> < 2 ^ 32" using nsz sz by (rule le_less_trans)
  finally have n27: "n < 2 ^ 27" by simp
  then have un: "unat (of_nat n :: u32) = n" by (simp add: unat_addr)
  have b8: "(of_nat n * 8 :: u32) = of_nat (n * 8)" by simp
  have u8: "unat (of_nat (n * 8) :: u32) = n * 8" using n27 by (intro unat_addr) simp
  have s8: "sint (of_nat (n * 8) :: u32) = int (n * 8)" using small_int_word(1) [of "int (n * 8)"] n27 by simp
  obtain p h1 where m: "malloc (of_nat n * 8) h = Ret (p, h1)" "heap_ok h1"
      "if p = 0 then h1 = h else \<exists>m\<ge>n * 8. m \<le> n * 8 + 15 \<and> (unat p, m) \<notin> in_use h \<and> in_use h1 = insert (unat p, m) (in_use h)"
  proof -
    have "1 \<le> sint (of_nat (n * 8) :: u32)" "sint (of_nat (n * 8) :: u32) + 7 < 2 ^ 31"
      unfolding s8 using n(2) n27 by simp_all
    from malloc_regions [OF h this, unfolded u8] show ?thesis unfolding b8 [symmetric] using that by blast
  qed
  obtain k where k: "count_orders (of_nat n) 0 = Ret (int k + 1)" "n \<le> 2 ^ k" "k \<le> 26 \<longleftrightarrow> n \<le> 2 ^ 26"
    using count_orders_rep [of "of_nat n"] n(2) n27 unfolding un by blast
  define c2 where "c2 = c\<lparr>b_base := base, b_page_bits := int bits, b_index_max := of_nat n, b_order := int k + 1, b_all := p\<rparr>"
  define s0 where "s0 = (c2\<lparr>b_free := (\<lambda>i. if 0 \<le> i \<and> i < int k + 1 then - 1 else b_free c i)\<rparr>, clear_array p (2 * n) h1)"
  define body where "body = (\<lambda>i s. if in_range base bits low high i then snd (buddy_free (base + push_bit bits (of_nat i)) s) else s)"
  have pos: "\<not> (of_nat n :: u32) < 1" using n(2) un by (simp add: word_less_nat_alt)
  have run: "buddy_init base sz (int bits) low high (c, h) =
      (if p = 0 then Ret (False, c2, h1) else if int k + 1 > 27 then Undefined else Ret (True, for_loop n body s0))"
    unfolding buddy_init_def using bits base pos
    by (simp add: Let_def nw m(1) k(1) c2_def s0_def un body_def in_range_def cong: if_cong)
  show ?thesis
  proof (cases "p = 0 \<or> \<not> n \<le> 2 ^ 26")
    case True
    then show ?thesis using m k(3) run by auto
  next
    case False
    then have p: "p \<noteq> 0" and n26: "n \<le> 2 ^ 26" by simp_all
    have k26: "k \<le> 26" using k(3) n26 by simp
    obtain r where r: "n * 8 \<le> r" "(unat p, r) \<notin> in_use h" "in_use h1 = insert (unat p, r) (in_use h)"
      using m(3) p by auto
    have "owns_array h1 p (int (2 * n))"
      using m(2) p r n26 unfolding owns_array_def by (intro conjI exI [of _ r]) simp_all
    note cl = clear_array_rep [OF this]
    have sel: "b_base (fst s0) = base" "b_page_bits (fst s0) = int bits" "n_pages s0 = n" "b_order (fst s0) = int k + 1"
      "b_all (fst s0) = p" "snd s0 = clear_array p (2 * n) h1"
      using un by (simp_all add: s0_def c2_def)
    have ok: "buddy_ok s0"
      unfolding buddy_ok_def sel using cl n27 n(2) k26 k(2) bits nsz sz by (simp add: nat_add_distrib)
    have free: "b_free (fst s0) (int j) = - 1" if "j < n_orders s0" for j using that unfolding sel by (simp add: s0_def nat_add_distrib)
    have "array_get (snd s0) (b_all (fst s0)) (int j) = 0" if "j < 2 * n_pages s0" for j using that cl unfolding sel by simp
    note used = all_used [OF ok free this, unfolded sel(3)]
    have "base = b_base (fst s0)" "bits = nat (b_page_bits (fst s0))" by (simp_all add: sel)
    note fr = free_range [OF used this body_def]
    have "in_use (snd (for_loop n body s0)) = in_use (snd s0)" "b_all (fst (for_loop n body s0)) = b_all (fst s0)"
      using fr(2) by (simp_all add: only_headers_def)
    then have "\<exists>t m. buddy_init base sz (int bits) low high (c, h) = Ret (True, t) \<and>
        buddy_holds t {(i, 0) | i. i < n \<and> \<not> in_range base bits low high i}
        \<and> b_base (fst t) = base \<and> b_page_bits (fst t) = int bits \<and> n_pages t = n
        \<and> b_all (fst t) = p \<and> (unat p, m) \<notin> in_use h \<and> in_use (snd t) = insert (unat p, m) (in_use h)"
      using run p k26 fr(1) only_headers_sel [OF fr(2)] sel cl r(2,3)
      by (intro exI [of _ "for_loop n body s0"] exI [of _ r]) simp
    then show ?thesis using m(1) p n26 by simp
  qed
qed

section \<open>A store of blocks and its clients\<close>

text \<open>Allocating for a list of orders, with the addresses of the blocks there were, and releasing a list of addresses.\<close>

fun alloc_all :: "(nat \<Rightarrow> 's \<Rightarrow> ('a option \<times> 's) outcome) \<Rightarrow> nat list \<Rightarrow> 's \<Rightarrow> ('a list \<times> 's) outcome" where
  "alloc_all alloc [] s = Ret ([], s)"
| "alloc_all alloc (k # ks) s = and_then (alloc k s) (\<lambda>(r, t).
     and_then (alloc_all alloc ks t) (\<lambda>(ps, u). Ret ((case r of None \<Rightarrow> ps | Some p \<Rightarrow> p # ps), u)))"

fun release_all :: "('a \<Rightarrow> 's \<Rightarrow> bool \<times> 's) \<Rightarrow> 'a list \<Rightarrow> 's \<Rightarrow> bool \<times> 's" where
  "release_all release [] s = (True, s)"
| "release_all release (p # ps) s =
     (case release p s of (ok, t) \<Rightarrow> (case release_all release ps t of (oks, u) \<Rightarrow> (ok \<and> oks, u)))"

lemma mset_map_split:
  assumes "mset qs = mset (map f bs)"
  obtains cs where "mset cs = mset bs" "qs = map f cs"
  using assms
proof (induction bs arbitrary: qs thesis)
  case (Cons b bs)
  then have "f b \<in> set qs" using mset_eq_setD [OF Cons.prems(2)] by simp
  then obtain xs ys where qs: "qs = xs @ f b # ys" by (meson split_list)
  then have "mset (xs @ ys) = mset (map f bs)" using Cons.prems(2) by simp
  then obtain cs where cs: "mset cs = mset bs" "xs @ ys = map f cs" using Cons.IH by blast
  then obtain us vs where "cs = us @ vs" "xs = map f us" "ys = map f vs" by (metis append_eq_map_conv)
  then show ?case using Cons.prems(1) [of "us @ b # vs"] cs(1) qs by simp
qed simp

text \<open>
  \<open>used s U\<close> says that \<open>U\<close> are the blocks handed out, \<open>adr s b\<close> is the address of a block, and \<open>kept s t\<close> what the
  operations leave alone, the addresses among it.
\<close>

locale block_store =
  fixes alloc :: "nat \<Rightarrow> 's \<Rightarrow> ('a option \<times> 's) outcome"
    and release :: "'a \<Rightarrow> 's \<Rightarrow> bool \<times> 's"
    and used :: "'s \<Rightarrow> 'b set \<Rightarrow> bool"
    and adr :: "'s \<Rightarrow> 'b \<Rightarrow> 'a"
    and kept :: "'s \<Rightarrow> 's \<Rightarrow> bool"
  assumes alloc_new: "used s U \<Longrightarrow> (\<exists>b t. alloc k s = Ret (Some (adr s b), t) \<and> b \<notin> U \<and> used t (insert b U) \<and> kept s t)
      \<or> alloc k s = Ret (None, s)"
    and release_used: "used s U \<Longrightarrow> b \<in> U \<Longrightarrow> \<exists>t. release (adr s b) s = (True, t) \<and> used t (U - {b}) \<and> kept s t"
    and kept_refl: "used s U \<Longrightarrow> kept s s"
    and kept_trans: "kept s t \<Longrightarrow> kept t u \<Longrightarrow> kept s u"
    and kept_adr: "kept s t \<Longrightarrow> adr t b = adr s b"
begin

lemma alloc_all_new:
  "used s U \<Longrightarrow> \<exists>bs t. alloc_all alloc ks s = Ret (map (adr s) bs, t) \<and> distinct bs \<and> set bs \<inter> U = {} \<and> used t (set bs \<union> U) \<and> kept s t"
proof (induction ks arbitrary: s U)
  case Nil
  then show ?case using kept_refl by (intro exI [of _ "[]"] exI [of _ s]) simp
next
  case (Cons k ks)
  from alloc_new [OF Cons.prems, of k] show ?case
  proof (elim disjE exE conjE)
    fix b t assume r: "alloc k s = Ret (Some (adr s b), t)" "b \<notin> U" "used t (insert b U)" "kept s t"
    from Cons.IH [OF r(3)] obtain bs u where
      IH: "alloc_all alloc ks t = Ret (map (adr t) bs, u)" "distinct bs" "set bs \<inter> insert b U = {}" "used u (set bs \<union> insert b U)" "kept t u"
      by blast
    then show ?thesis using r kept_trans [OF r(4)] kept_adr [OF r(4)]
      by (intro exI [of _ "b # bs"] exI [of _ u]) (simp add: insert_commute)
  next
    assume r: "alloc k s = Ret (None, s)"
    from Cons.IH [OF Cons.prems] obtain bs u where
      "alloc_all alloc ks s = Ret (map (adr s) bs, u) \<and> distinct bs \<and> set bs \<inter> U = {} \<and> used u (set bs \<union> U) \<and> kept s u"
      by blast
    then show ?thesis using r by (intro exI [of _ bs] exI [of _ u]) simp
  qed
qed

lemma release_all_used:
  "used s (set bs \<union> U) \<Longrightarrow> distinct bs \<Longrightarrow> set bs \<inter> U = {} \<Longrightarrow>
    \<exists>t. release_all release (map (adr s) bs) s = (True, t) \<and> used t U \<and> kept s t"
proof (induction bs arbitrary: s)
  case Nil
  then show ?case using kept_refl by simp
next
  case (Cons b bs)
  obtain t where t: "release (adr s b) s = (True, t)" "used t (set (b # bs) \<union> U - {b})" "kept s t"
    using release_used [OF Cons.prems(1), of b] by auto
  have "set (b # bs) \<union> U - {b} = set bs \<union> U" using Cons.prems(2,3) by auto
  then obtain u where "release_all release (map (adr t) bs) t = (True, u)" "used u U" "kept t u"
    using Cons.IH [of t] Cons.prems(2,3) t(2) by auto
  moreover have "map (adr t) bs = map (adr s) bs" using kept_adr [OF t(3)] by simp
  ultimately show ?case using t(1) kept_trans [OF t(3)] by simp
qed

text \<open>Whatever is allocated can be released in any order, and is then all that was used.\<close>

lemma release_any_order:
  assumes "used s U"
  shows "\<exists>ps t. alloc_all alloc ks s = Ret (ps, t)
    \<and> (\<forall>qs. mset qs = mset ps \<longrightarrow> (\<exists>u. release_all release qs t = (True, u) \<and> used u U \<and> kept s u))"
proof -
  obtain bs t where a: "alloc_all alloc ks s = Ret (map (adr s) bs, t)" "distinct bs" "set bs \<inter> U = {}" "used t (set bs \<union> U)" "kept s t"
    using alloc_all_new [OF assms] by blast
  have "\<exists>u. release_all release qs t = (True, u) \<and> used u U \<and> kept s u" if q: "mset qs = mset (map (adr s) bs)" for qs
  proof -
    have "adr t = adr s" using kept_adr [OF a(5)] by blast
    moreover obtain cs where "mset cs = mset bs" "qs = map (adr s) cs" by (rule mset_map_split [OF q])
    ultimately have cs: "mset cs = mset bs" "qs = map (adr t) cs" by simp_all
    then have "set cs = set bs" "distinct cs" using a(2) mset_eq_setD mset_eq_imp_distinct_iff by blast+
    then show ?thesis using release_all_used [of t cs U] a kept_trans [OF a(5)] cs(2) by auto
  qed
  then show ?thesis using a(1) by blast
qed

end
interpretation buddy: block_store "\<lambda>k. buddy_alloc (int k)" buddy_free buddy_holds "\<lambda>s b. address_of s (fst b)" only_headers
proof
  fix s t u :: buddy and U :: "block set" and b :: block and k :: nat
  assume "buddy_holds s U"
  then obtain L where inv: "buddy_inv {} {} s L U" unfolding buddy_holds_def by blast
  have "b \<notin> U" if "vacant s U b" for b using that pages_self [of "fst b" "snd b"] by (auto simp: vacant_def)
  then show "(\<exists>b t. buddy_alloc (int k) s = Ret (Some (address_of s (fst b)), t) \<and> b \<notin> U \<and> buddy_holds t (insert b U) \<and> only_headers s t)
      \<or> buddy_alloc (int k) s = Ret (None, s)"
    using buddy_alloc_cases [OF inv, of k] by (metis fst_conv)
  show "only_headers s s" using inv_ok [OF inv] by (rule only_headers_refl)
next
  fix s t u :: buddy and U :: "block set" and b :: block
  show "buddy_holds s U \<Longrightarrow> b \<in> U \<Longrightarrow> \<exists>t. buddy_free (address_of s (fst b)) s = (True, t) \<and> buddy_holds t (U - {b}) \<and> only_headers s t"
    using holds_free [of s U "fst b" "snd b"] by simp
  show "only_headers s t \<Longrightarrow> only_headers t u \<Longrightarrow> only_headers s u" by (rule only_headers_trans)
  show "only_headers s t \<Longrightarrow> address_of t (fst b) = address_of s (fst b)" by (rule address_of_same)
qed

section \<open>Properties\<close>

text \<open>A heap of 256 bytes, and an allocator for the four pages from \<^verbatim>\<open>0x100000\<close>, all of them free.\<close>

abbreviation (input) demo_ctxt :: buddy_ctxt where
  "demo_ctxt \<equiv> \<lparr>b_base = 0, b_index_max = 0, b_page_bits = 0, b_order = 0, b_all = 0, b_free = \<lambda>_. 0\<rparr>"

definition demo_buddy :: buddy where
  "demo_buddy = (case buddy_init 0x100000 0x4000 12 0 0 (demo_ctxt, demo_pool_heap) of
     Ret (r, s) \<Rightarrow> s | _ \<Rightarrow> (demo_ctxt, demo_pool_heap))"

lemma demo_malloc: "\<exists>p h1. malloc 32 demo_pool_heap = Ret (p, h1) \<and> p \<noteq> 0"
  using malloc_inv [OF demo_pool_heap_inv, of 32]
  by (auto simp: fits_def round8_def Cons_eq_append_conv demo_pool_heap_def core_mem_init_def heap_init_def Let_def)

lemma demo_buddy_holds:
  "buddy_holds demo_buddy {}" "n_pages demo_buddy = 4" "b_base (fst demo_buddy) = 0x100000" "b_page_bits (fst demo_buddy) = 12"
proof -
  have ok: "heap_ok demo_pool_heap" using demo_pool_heap_inv by (auto simp: heap_ok_def)
  have none: "{(i, 0 :: nat) | i. i < 4 \<and> \<not> in_range 0x100000 12 0 0 i} = {}" by (auto simp: in_range_def)
  show "buddy_holds demo_buddy {}" "n_pages demo_buddy = 4" "b_base (fst demo_buddy) = 0x100000" "b_page_bits (fst demo_buddy) = 12"
    using buddy_init_rep [OF ok, of 12 "0x100000" 4 "0x4000" 0 0 demo_ctxt, unfolded none] demo_malloc unfolding demo_buddy_def by auto
qed

text \<open>C24. Allocating (\<^verbatim>\<open>buddy_alloc\<close>) always returns, and is complete: it hands out the address of an aligned block of the order asked
for, none of whose pages are in use, adds that block to the used ones and leaves the rest of the heap alone; and it returns
no block only when no aligned run of that many unused pages exists.\<close>

theorem buddy_alloc_complete:
  assumes "buddy_holds s U"
  shows "(\<exists>i t. buddy_alloc (int k) s = Ret (Some (address_of s i), t) \<and> vacant s U (i, k)
      \<and> buddy_holds t (insert (i, k) U) \<and> only_headers s t)
    \<or> buddy_alloc (int k) s = Ret (None, s) \<and> (\<forall>i. \<not> vacant s U (i, k))"
  using assms buddy_alloc_cases unfolding buddy_holds_def by blast

theorem buddy_alloc_complete_witness:
  "\<exists>i t. buddy_alloc 1 demo_buddy = Ret (Some (address_of demo_buddy i), t) \<and> vacant demo_buddy {} (i, 1)
    \<and> buddy_holds t {(i, 1)}"
proof -
  have "vacant demo_buddy {} (0, 1)" by (simp add: vacant_def demo_buddy_holds)
  then show ?thesis using buddy_alloc_complete [OF demo_buddy_holds(1), of 1] by auto
qed

text \<open>C26. Allocating at an address (\<^verbatim>\<open>buddy_alloc_at\<close>) always returns: it takes exactly the block at that address when the address is
aligned to the block and its pages are in the memory and unused, whichever free block they lie in, and otherwise returns no
block and changes nothing.\<close>

theorem buddy_alloc_at_exact:
  assumes "buddy_holds s U" "int k + b_page_bits (fst s) < 32"
  shows "if block_address s k adr \<and> vacant s U (page_of s adr, k)
    then \<exists>t. buddy_alloc_at adr (int k) s = Ret (Some adr, t) \<and> buddy_holds t (insert (page_of s adr, k) U) \<and> only_headers s t
    else buddy_alloc_at adr (int k) s = Ret (None, s)"
proof (cases "block_address s k adr")
  case True
  then show ?thesis using assms buddy_alloc_at_cases [of s _ U k adr] unfolding buddy_holds_def by auto
next
  case False
  have "buddy_ok s" using assms(1) inv_ok unfolding buddy_holds_def by blast
  then show ?thesis using buddy_alloc_at_unaligned [OF _ assms(2) False] False by simp
qed

theorem buddy_alloc_at_exact_witness:
  "\<exists>t. buddy_alloc_at 0x102000 1 demo_buddy = Ret (Some 0x102000, t) \<and> buddy_holds t {(2, 1)}"
proof -
  have p: "page_of demo_buddy 0x102000 = 2" by (simp add: page_of_def demo_buddy_holds unat_drop_bit_eq drop_bit_eq_div [where 'a = nat])
  have b: "block_address demo_buddy 1 0x102000" by (simp add: block_address_def demo_buddy_holds)
  have f: "vacant demo_buddy {} (2, 1)" by (simp add: vacant_def demo_buddy_holds)
  have "int 1 + b_page_bits (fst demo_buddy) < 32" by (simp add: demo_buddy_holds)
  from buddy_alloc_at_exact [OF demo_buddy_holds(1) this, of "0x102000"] show ?thesis using p b f by auto
qed

text \<open>C25. Blocks can be released (\<^verbatim>\<open>buddy_free\<close>) in any order: after any sequence of allocations, releasing the addresses that were
handed out, however they are permuted, succeeds each time, and leaves in use exactly what was in use before, so every page
is free again and joined into blocks that can be allocated.\<close>

theorem buddy_release_any_order:
  assumes "buddy_holds s U"
  shows "\<exists>ps t. alloc_all (\<lambda>k. buddy_alloc (int k)) ks s = Ret (ps, t)
    \<and> (\<forall>qs. mset qs = mset ps \<longrightarrow> (\<exists>u. release_all buddy_free qs t = (True, u) \<and> buddy_holds u U \<and> only_headers s u))"
  by (rule buddy.release_any_order [OF assms])

theorem buddy_release_any_order_witness:
  "\<exists>ps t u. alloc_all (\<lambda>k. buddy_alloc (int k)) [1, 0, 0] demo_buddy = Ret (ps, t)
    \<and> release_all buddy_free (rev ps) t = (True, u) \<and> buddy_holds u {}"
proof -
  obtain ps t where r: "alloc_all (\<lambda>k. buddy_alloc (int k)) [1, 0, 0] demo_buddy = Ret (ps, t)"
    "\<And>qs. mset qs = mset ps \<Longrightarrow> \<exists>u. release_all buddy_free qs t = (True, u) \<and> buddy_holds u {} \<and> only_headers demo_buddy u"
    using buddy_release_any_order [OF demo_buddy_holds(1), of "[1, 0, 0]"] by blast
  moreover obtain u where "release_all buddy_free (rev ps) t = (True, u)" "buddy_holds u {}" using r(2) [of "rev ps"] by auto
  ultimately show ?thesis by blast
qed

text \<open>C27. Setting up (\<^verbatim>\<open>buddy_init\<close>), for pages of 32 bytes to 16 MB and an aligned start: when the heap has no room for the headers
it fails and keeps the heap; otherwise it owns one new region, and the pages in use are exactly those outside the range given
to free. Above \<open>2 ^ 26\<close> pages the free lists would need 28 orders and the array of 27 overflows.\<close>

theorem buddy_init_frees_range:
  assumes "heap_ok h" "5 \<le> bits" "bits \<le> 24" "base AND (push_bit bits 1 - 1) = 0"
    and "n = unat (drop_bit bits sz)" "0 < n"
  shows "\<exists>p h1. malloc (of_nat n * 8) h = Ret (p, h1) \<and> (if p = 0 then in_use h1 = in_use h \<and>
        (\<exists>t. buddy_init base sz (int bits) low high (c, h) = Ret (False, t) \<and> snd t = h)
      else if n \<le> 2 ^ 26 then \<exists>t m. buddy_init base sz (int bits) low high (c, h) = Ret (True, t) \<and>
        buddy_holds t {(i, 0) | i. i < n \<and> \<not> in_range base bits low high i}
        \<and> b_base (fst t) = base \<and> b_page_bits (fst t) = int bits \<and> n_pages t = n
        \<and> b_all (fst t) = p \<and> (unat p, m) \<notin> in_use h \<and> in_use (snd t) = insert (unat p, m) (in_use h)
      else buddy_init base sz (int bits) low high (c, h) = Undefined)"
  by (rule buddy_init_rep [OF assms])

theorem buddy_init_frees_range_witness:
  "\<exists>t. buddy_init 0x100000 0x4000 12 0x101000 0x103000 (demo_ctxt, demo_pool_heap) = Ret (True, t) \<and> buddy_holds t {(0, 0), (3, 0)}"
proof -
  have ok: "heap_ok demo_pool_heap" using demo_pool_heap_inv by (auto simp: heap_ok_def)
  have "{(i, 0 :: nat) | i. i < 4 \<and> \<not> in_range 0x100000 12 0x101000 0x103000 i} = {(0, 0), (3, 0)}"
  proof -
    have "i < 4 \<longleftrightarrow> i = 0 \<or> i = 1 \<or> i = 2 \<or> i = 3" for i :: nat by auto
    moreover have "\<not> in_range 0x100000 12 0x101000 0x103000 0" "in_range 0x100000 12 0x101000 0x103000 1"
      "in_range 0x100000 12 0x101000 0x103000 2" "\<not> in_range 0x100000 12 0x101000 0x103000 3"
      by (simp_all add: in_range_def)
    ultimately show ?thesis by blast
  qed
  then show ?thesis
    using buddy_init_frees_range [OF ok, of 12 "0x100000" 4 "0x4000" "0x101000" "0x103000" demo_ctxt] demo_malloc by auto
qed

text \<open>The order for a size (\<^verbatim>\<open>buddy_get_order_from_size\<close>) is the least one whose blocks are large enough; the loop runs off the width
of the shift exactly for sizes above \<open>2 ^ 31\<close>.\<close>

theorem buddy_order_least:
  assumes "0 \<le> b_page_bits c" "b_page_bits c < 32"
  shows "if unat sz \<le> 2 ^ 31
    then \<exists>k. buddy_get_order_from_size c sz = Ret (int k) \<and> unat sz \<le> 2 ^ (k + nat (b_page_bits c))
      \<and> (\<forall>m<k. 2 ^ (m + nat (b_page_bits c)) < unat sz)
    else buddy_get_order_from_size c sz = Undefined"
proof (cases "unat sz \<le> 2 ^ 31")
  case True
  define b where "b = nat (b_page_bits c)"
  obtain m where m: "order_loop sz (b_page_bits c) = Ret (int m)" "b \<le> m" "unat sz \<le> 2 ^ m" "b < m \<longrightarrow> 2 ^ (m - 1) < unat sz"
    using order_loop_rep [OF assms(1) True assms(2)] assms(1) unfolding b_def by auto
  have "2 ^ (j + b) < unat sz" if "j < m - b" for j
  proof -
    have "(2 :: nat) ^ (j + b) \<le> 2 ^ (m - 1)" using that by (intro power_increasing) simp_all
    also have "\<dots> < unat sz" using m(4) that by simp
    finally show ?thesis .
  qed
  then show ?thesis using True m assms(1) unfolding b_def [symmetric]
    by (simp add: buddy_get_order_from_size_def) (intro exI [of _ "m - b"], simp add: b_def of_nat_diff)
next
  case False
  then show ?thesis using order_loop_runs_off [of sz "b_page_bits c"] assms(1) by (simp add: buddy_get_order_from_size_def)
qed

theorem buddy_order_least_witness:
  "\<exists>k. buddy_get_order_from_size (demo_ctxt\<lparr>b_page_bits := 12\<rparr>) 0x1001 = Ret (int k) \<and> 0x1001 \<le> (2 :: nat) ^ (k + 12)
    \<and> (\<forall>m<k. (2 :: nat) ^ (m + 12) < 0x1001)"
  using buddy_order_least [of "demo_ctxt\<lparr>b_page_bits := 12\<rparr>" "0x1001"] by simp

end
