(* ===== verification/UcLib.thy ===== *)
theory UcLib
  imports Machine
begin

text \<open>
  \<^verbatim>\<open>library/uc\<close>: the strings and the formatted output of the small C library. Memory is a function from addresses to bytes, a
  \<^verbatim>\<open>char\<close> is unsigned, as on ARM, and an \<^verbatim>\<open>int\<close> is an integer whose overflow is the outcome \<open>Undefined\<close>. What is printed are the
  values given to \<^verbatim>\<open>printf_putchar\<close>, which the drivers provide. The arguments of \<^verbatim>\<open>printf\<close> are the words the caller passed;
  taking one more than there are is \<open>Undefined\<close>.
\<close>

section \<open>Memory (string.c)\<close>

type_synonym bytes = "u32 \<Rightarrow> u8"

abbreviation (input) INT_MIN :: int where "INT_MIN \<equiv> - (2 ^ 31)"

text \<open>The loops \<^verbatim>\<open>while(len--)\<close> of a negative \<open>len\<close> end in an overflow.\<close>

fun copy_bytes :: "u32 \<Rightarrow> u32 \<Rightarrow> nat \<Rightarrow> bytes \<Rightarrow> bytes" where
  "copy_bytes dst src 0 m = m"
| "copy_bytes dst src (Suc n) m = copy_bytes (dst + 1) (src + 1) n (m(dst := m src))"

definition memcpy :: "u32 \<Rightarrow> u32 \<Rightarrow> int \<Rightarrow> bytes \<Rightarrow> bytes outcome" where
  "memcpy dst src len m = (if len < 0 then Undefined else Ret (copy_bytes dst src (nat len) m))"

fun set_bytes :: "u32 \<Rightarrow> u8 \<Rightarrow> nat \<Rightarrow> bytes \<Rightarrow> bytes" where
  "set_bytes p v 0 m = m"
| "set_bytes p v (Suc n) m = set_bytes (p + 1) v n (m(p := v))"

definition memset :: "u32 \<Rightarrow> int \<Rightarrow> int \<Rightarrow> bytes \<Rightarrow> bytes outcome" where
  "memset ptr v num m = (if num < 0 then Undefined else Ret (set_bytes ptr (of_int v) (nat num) m))"

function memcmp :: "u32 \<Rightarrow> u32 \<Rightarrow> int \<Rightarrow> bytes \<Rightarrow> int outcome" where
  "memcmp p1 p2 n m =
     (if n = 0 then Ret 0
      else if n \<le> INT_MIN then Undefined
      else (let c = uint (m p1) - uint (m p2)
            in if c \<noteq> 0 then Ret c else memcmp (p1 + 1) (p2 + 1) (n - 1) m))"
  by pat_completeness auto
termination by (relation "measure (\<lambda>(p1, p2, n, m). nat (n + 2 ^ 31))") auto

declare memcmp.simps [simp del]

section \<open>Strings (string.c)\<close>

function strlen_loop :: "bytes \<Rightarrow> u32 \<Rightarrow> int \<Rightarrow> int outcome" where
  "strlen_loop m str ret =
     (if m str = 0 then Ret ret
      else if ret \<ge> 2 ^ 31 - 1 then Undefined
      else strlen_loop m (str + 1) (ret + 1))"
  by pat_completeness auto
termination by (relation "measure (\<lambda>(m, str, ret). nat (2 ^ 31 - ret))") auto

declare strlen_loop.simps [simp del]

definition strlen :: "bytes \<Rightarrow> u32 \<Rightarrow> int outcome" where
  "strlen m str = strlen_loop m str 0"

partial_function (option) strcpy_loop :: "u32 \<Rightarrow> u32 \<Rightarrow> bytes \<Rightarrow> bytes option" where
  "strcpy_loop dst src m =
     (let m1 = m(dst := m src)
      in if m1 src = 0 then Some m1 else strcpy_loop (dst + 1) (src + 1) m1)"

definition strcpy :: "u32 \<Rightarrow> u32 \<Rightarrow> bytes \<Rightarrow> (u32 \<times> bytes) outcome" where
  "strcpy dst src m = and_then (outcome_of (strcpy_loop dst src m)) (\<lambda>m1. Ret (dst, m1))"

text \<open>The two loops of \<^verbatim>\<open>strncpy\<close>: the copy, which leaves what is left of \<open>n\<close>, and the zeros.\<close>

function strncpy_copy :: "u32 \<Rightarrow> u32 \<Rightarrow> int \<Rightarrow> bytes \<Rightarrow> (u32 \<times> int \<times> bytes) outcome" where
  "strncpy_copy dst src n m =
     (let m1 = m(dst := m src)
      in if m1 src = 0 then Ret (dst + 1, n, m1)
         else if n \<le> INT_MIN then Undefined
         else if n - 1 = 0 then Ret (dst + 1, 0, m1)
         else strncpy_copy (dst + 1) (src + 1) (n - 1) m1)"
  by pat_completeness auto
termination by (relation "measure (\<lambda>(dst, src, n, m). nat (n + 2 ^ 31))") (auto simp: Let_def)

declare strncpy_copy.simps [simp del]

function strncpy_pad :: "u32 \<Rightarrow> int \<Rightarrow> bytes \<Rightarrow> bytes outcome" where
  "strncpy_pad dst n m =
     (if n \<le> INT_MIN then Undefined
      else if n - 1 = 0 then Ret m
      else strncpy_pad (dst + 1) (n - 1) (m(dst := 0)))"
  by pat_completeness auto
termination by (relation "measure (\<lambda>(dst, n, m). nat (n + 2 ^ 31))") auto

declare strncpy_pad.simps [simp del]

definition strncpy :: "u32 \<Rightarrow> u32 \<Rightarrow> int \<Rightarrow> bytes \<Rightarrow> (u32 \<times> bytes) outcome" where
  "strncpy dst src n m =
     and_then (strncpy_copy dst src n m) (\<lambda>(d, k, m1). and_then (strncpy_pad d k m1) (\<lambda>m2. Ret (dst, m2)))"

partial_function (option) strcmp :: "bytes \<Rightarrow> u32 \<Rightarrow> u32 \<Rightarrow> int option" where
  "strcmp m s1 s2 =
     (if m s2 \<noteq> 0 \<and> m s1 = m s2 then strcmp m (s1 + 1) (s2 + 1) else Some (uint (m s1) - uint (m s2)))"

fun strncmp :: "bytes \<Rightarrow> u32 \<Rightarrow> u32 \<Rightarrow> nat \<Rightarrow> int" where
  "strncmp m s1 s2 0 = 0"
| "strncmp m s1 s2 (Suc n) =
     (if m s1 \<noteq> m s2 then (if m s1 < m s2 then - 1 else 1)
      else if m s1 = 0 then 0
      else strncmp m (s1 + 1) (s2 + 1) n)"

section \<open>Output (print.c)\<close>

definition printf_putchar :: "int \<Rightarrow> int list \<Rightarrow> int list" where
  "printf_putchar c out = out @ [c]"

partial_function (option) printf_string :: "bytes \<Rightarrow> u32 \<Rightarrow> int list \<Rightarrow> int list option" where
  "printf_string m str out =
     (if m str = 0 then Some out else printf_string m (str + 1) (printf_putchar (uint (m str)) out))"

text \<open>The digits of a number that is not negative go to a buffer of twelve characters, the last digit first.\<close>

function int_digits :: "nat \<Rightarrow> int list \<Rightarrow> int list outcome" where
  "int_digits i buffer =
     (if length buffer \<ge> 12 then Undefined
      else (let buffer1 = buffer @ [48 + int (i mod 10)]
            in if i div 10 = 0 then Ret buffer1 else int_digits (i div 10) buffer1))"
  by pat_completeness auto
termination by (relation "measure (\<lambda>(i, buffer). i)") auto

declare int_digits.simps [simp del]

definition printf_int :: "int \<Rightarrow> int list \<Rightarrow> int list outcome" where
  "printf_int i out =
     (if i = INT_MIN then Undefined
      else
        (let neg = i < 0
         in and_then (int_digits (nat (if neg then - i else i)) []) (\<lambda>buffer.
              if neg \<and> length buffer \<ge> 12 then Undefined
              else Ret (fold printf_putchar (rev (if neg then buffer @ [45] else buffer)) out))))"

fun hex_loop :: "nat \<Rightarrow> u32 \<Rightarrow> u32 \<Rightarrow> int list \<Rightarrow> int list" where
  "hex_loop i n sz out =
     (let h = uint (drop_bit 28 n);
          n1 = push_bit 4 n;
          out1 = (if sz = 2 \<and> i \<ge> 2 then out
                  else printf_putchar (if h < 10 then h + 48 else h + (65 - 10)) out)
      in if i = 0 then out1 else hex_loop (i - 1) n1 sz out1)"

declare hex_loop.simps [simp del]

definition printf_hex :: "u32 \<Rightarrow> u32 \<Rightarrow> int list \<Rightarrow> int list" where
  "printf_hex n sz out = hex_loop (32 div 4 - 1) n sz out"

fun bin_loop :: "nat \<Rightarrow> u32 \<Rightarrow> int list \<Rightarrow> int list" where
  "bin_loop 0 n out = out"
| "bin_loop (Suc k) n out =
     (let out1 = (if Suc k \<noteq> 32 \<and> Suc k mod 4 = 0 then printf_putchar 95 out else out)
      in bin_loop k (push_bit 1 n) (printf_putchar (if n AND 0x80000000 \<noteq> 0 then 49 else 48) out1))"

definition printf_bin :: "u32 \<Rightarrow> int list \<Rightarrow> int list" where
  "printf_bin n out = bin_loop 32 n out"

text \<open>One directive after the \<open>%\<close>; the arguments that are left are returned with the output.\<close>

definition with_arg :: "u32 list \<Rightarrow> (u32 \<Rightarrow> int list outcome) \<Rightarrow> (u32 list \<times> int list) outcome" where
  "with_arg args f = (case args of [] \<Rightarrow> Undefined | w # ws \<Rightarrow> and_then (f w) (\<lambda>out. Ret (ws, out)))"

definition directive :: "bytes \<Rightarrow> u8 \<Rightarrow> u32 list \<Rightarrow> int list \<Rightarrow> (u32 list \<times> int list) outcome" where
  "directive m c args out =
     (if c = 99 then with_arg args (\<lambda>w. Ret (printf_putchar (sint w) out))
      else if c = 115 then with_arg args (\<lambda>w. outcome_of (printf_string m w out))
      else if c = 105 \<or> c = 100 then with_arg args (\<lambda>w. printf_int (sint w) out)
      else if c = 120 then with_arg args (\<lambda>w. Ret (printf_hex w 8 out))
      else if c = 50 then with_arg args (\<lambda>w. Ret (printf_hex w 2 out))
      else if c = 98 then with_arg args (\<lambda>w. Ret (printf_bin w out))
      else if c = 37 then Ret (args, printf_putchar (uint c) out)
      else Ret (args, printf_putchar (uint c) (printf_putchar 37 out)))"

partial_function (option) printf_loop :: "bytes \<Rightarrow> u32 \<Rightarrow> u32 list \<Rightarrow> int list \<Rightarrow> int list outcome option" where
  "printf_loop m fmt args out =
     (let c = m fmt
      in if c = 0 then Some (Ret out)
         else if c = 37
         then (let c1 = m (fmt + 1)
               in if c1 = 0 then Some (Ret (printf_putchar 0 out))
                  else
                    (case directive m c1 args out of
                       Ret r \<Rightarrow> printf_loop m (fmt + 2) (fst r) (snd r)
                     | Panic s \<Rightarrow> Some (Panic s)
                     | Hang \<Rightarrow> Some Hang
                     | Undefined \<Rightarrow> Some Undefined))
         else printf_loop m (fmt + 1) args (printf_putchar (uint c) out))"

definition printf :: "bytes \<Rightarrow> u32 \<Rightarrow> u32 list \<Rightarrow> int list \<Rightarrow> int list outcome" where
  "printf m fmt args out = and_then (outcome_of (printf_loop m fmt args out)) (\<lambda>r. r)"

end
