(* ===== verification/UcSpec.thy ===== *)
theory UcSpec
  imports UcLib
begin

text \<open>
  What the string and output functions of \<^verbatim>\<open>library/uc\<close> do: copies that overlap, the two cases of \<^verbatim>\<open>strncpy\<close>, numbers that are
  printed and read back, and formats as lists of parts.
\<close>

section \<open>Copying\<close>

lemma copy_bytes_snoc:
  "copy_bytes dst src (Suc n) m = (copy_bytes dst src n m)(dst + of_nat n := copy_bytes dst src n m (src + of_nat n))"
proof (induction n arbitrary: dst src m)
  case (Suc n)
  let ?m1 = "m(dst := m src)"
  have "copy_bytes dst src (Suc (Suc n)) m = copy_bytes (dst + 1) (src + 1) (Suc n) ?m1" by (rule copy_bytes.simps(2))
  also have "\<dots> = (copy_bytes (dst + 1) (src + 1) n ?m1)(dst + of_nat (Suc n) := copy_bytes (dst + 1) (src + 1) n ?m1 (src + of_nat (Suc n)))"
    unfolding Suc.IH by (simp only: of_nat_Suc add.assoc)
  finally show ?case by (simp only: copy_bytes.simps(2) [of dst src n m])
qed simp

lemma copy_bytes_at:
  "n < 2 ^ 32 \<Longrightarrow> copy_bytes dst src n m a
    = (if unat (a - dst) < n then m (src + of_nat (unat (a - dst) mod unat (dst - src))) else m a)"
proof (induction n arbitrary: a)
  case (Suc n)
  let ?k = "unat (dst - src)"
  have n: "n < 2 ^ 32" using Suc.prems by simp
  have self: "unat (dst + of_nat n - dst) = n" using n by (simp add: unat_of_nat take_bit_eq_mod)
  have read: "copy_bytes dst src n m (src + of_nat n) = m (src + of_nat (n mod ?k))"
  proof (cases "0 < ?k \<and> ?k \<le> n")
    case True
    have d: "dst = src + of_nat ?k" by simp
    have "src + of_nat n - dst = of_nat (n - ?k)" using True by (subst (1) d) (simp add: of_nat_diff)
    then have "unat (src + of_nat n - dst) = n - ?k" using n by (simp add: unat_of_nat take_bit_eq_mod)
    then show ?thesis using Suc.IH [OF n, of "src + of_nat n"] True by (simp add: le_mod_geq)
  next
    case False
    have "\<not> unat (src + of_nat n - dst) < n"
    proof
      assume lt: "unat (src + of_nat n - dst) < n"
      define j where "j = unat (src + of_nat n - dst)"
      have "src + of_nat n - dst = of_nat j" by (simp add: j_def)
      then have "dst - src = of_nat n - of_nat j" by (simp add: algebra_simps)
      also have "\<dots> = of_nat (n - j)" using lt by (simp add: j_def of_nat_diff)
      finally have "?k = n - j" using n by (simp add: unat_of_nat take_bit_eq_mod)
      then show False using False lt by (simp add: j_def)
    qed
    moreover have "n mod ?k = n" using False by (cases "?k = 0") simp_all
    ultimately show ?thesis using Suc.IH [OF n, of "src + of_nat n"] by simp
  qed
  show ?case
  proof (cases "a = dst + of_nat n")
    case True
    then show ?thesis using read self by (simp add: copy_bytes_snoc del: copy_bytes.simps)
  next
    case False
    have "unat (a - dst) \<noteq> n"
    proof
      assume "unat (a - dst) = n"
      then have "a - dst = of_nat n" using n by (simp add: word_unat_eq_iff unat_of_nat take_bit_eq_mod)
      then show False using False by (simp add: algebra_simps)
    qed
    then have "unat (a - dst) < Suc n \<longleftrightarrow> unat (a - dst) < n" by linarith
    then show ?thesis using Suc.IH [OF n, of a] False by (simp add: copy_bytes_snoc del: copy_bytes.simps)
  qed
qed simp

section \<open>Strings in memory\<close>

text \<open>The string \<open>s\<close>, with its terminator, at an address; and writing a list of bytes.\<close>

fun cstring :: "bytes \<Rightarrow> u32 \<Rightarrow> u8 list \<Rightarrow> bool" where
  "cstring m p [] \<longleftrightarrow> m p = 0"
| "cstring m p (c # s) \<longleftrightarrow> c \<noteq> 0 \<and> m p = c \<and> cstring m (p + 1) s"

fun write_bytes :: "u32 \<Rightarrow> u8 list \<Rightarrow> bytes \<Rightarrow> bytes" where
  "write_bytes p [] m = m"
| "write_bytes p (c # s) m = write_bytes (p + 1) s (m(p := c))"

lemma cstring_frame: "(\<And>j. j \<le> length s \<Longrightarrow> m (p + of_nat j) = m' (p + of_nat j)) \<Longrightarrow> cstring m p s = cstring m' p s"
proof (induction s arbitrary: p)
  case Nil
  then show ?case using Nil [of 0] by simp
next
  case (Cons c s)
  have "m (p + 1 + of_nat j) = m' (p + 1 + of_nat j)" if "j \<le> length s" for j
    using Cons.prems [of "Suc j"] that by (simp add: add.assoc)
  then show ?case using Cons.IH [of "p + 1"] Cons.prems [of 0] by simp
qed

lemma strncpy_pad_zeros:
  "1 \<le> n \<Longrightarrow> n < 2 ^ 31 \<Longrightarrow> strncpy_pad dst n m = Ret (write_bytes dst (replicate (nat (n - 1)) 0) m)"
proof (induction "nat n" arbitrary: n dst m)
  case (Suc k)
  show ?case
  proof (cases "n = 1")
    case False
    then have "nat (n - 1) = Suc (nat (n - 2))" using Suc.prems by linarith
    moreover have "k = nat (n - 1)" using Suc.hyps(2) by linarith
    ultimately show ?thesis using False Suc.prems Suc.hyps(1) [of "n - 1" "dst + 1" "m(dst := 0)"]
      by (subst strncpy_pad.simps) simp
  qed (subst strncpy_pad.simps, simp)
qed simp

lemma strncpy_pad_runs_off: "n \<le> 0 \<Longrightarrow> strncpy_pad dst n m = Undefined"
proof (induction "nat (n + 2 ^ 31)" arbitrary: n dst m rule: less_induct)
  case less
  show ?case
  proof (cases "n \<le> INT_MIN")
    case False
    then show ?thesis using less.hyps [of "n - 1"] less.prems by (subst strncpy_pad.simps) simp
  qed (subst strncpy_pad.simps, simp)
qed

text \<open>The copy of a string to a place apart from it.\<close>

definition apart :: "u32 \<Rightarrow> nat \<Rightarrow> u32 \<Rightarrow> nat \<Rightarrow> bool" where
  "apart dst n src k \<longleftrightarrow> (\<forall>i<n. \<forall>j\<le>k. dst + of_nat i \<noteq> src + of_nat j)"

lemma apart_step:
  assumes "apart dst (Suc n) src (length (c # s))"
  shows "apart (dst + 1) n (src + 1) (length s)" "\<And>j. j \<le> length (c # s) \<Longrightarrow> src + of_nat j \<noteq> dst"
proof -
  have ne: "dst + of_nat i \<noteq> src + of_nat j" if "i < Suc n" "j \<le> length (c # s)" for i j
    using assms that by (simp add: apart_def)
  have "dst + 1 + of_nat i \<noteq> src + 1 + of_nat j" if "i < n" "j \<le> length s" for i j
    using ne [of "Suc i" "Suc j"] that by (simp add: add.assoc)
  then show "apart (dst + 1) n (src + 1) (length s)" by (simp add: apart_def)
  show "\<And>j. j \<le> length (c # s) \<Longrightarrow> src + of_nat j \<noteq> dst" using ne [of 0] by force
qed

lemma strncpy_copy_rep:
  "cstring m src s \<Longrightarrow> apart dst n src (length s) \<Longrightarrow> 0 < n \<Longrightarrow> n < 2 ^ 31 \<Longrightarrow>
    strncpy_copy dst src (int n) m =
      (if length s < n
       then Ret (dst + of_nat (length s) + 1, int n - int (length s), write_bytes dst (s @ [0]) m)
       else Ret (dst + of_nat n, 0, write_bytes dst (take n s) m))"
proof (induction s arbitrary: dst src n m)
  case Nil
  have "src \<noteq> dst" using Nil.prems(2,3) by (auto simp: apart_def dest: spec [of _ 0])
  then show ?case using Nil.prems by (subst strncpy_copy.simps) (simp add: Let_def)
next
  case (Cons c s)
  obtain k where k: "n = Suc k" using Cons.prems(3) by (cases n) simp_all
  note ap = apart_step [OF Cons.prems(2) [unfolded k]]
  let ?m1 = "m(dst := c)"
  have mc: "m src = c" "c \<noteq> 0" "src \<noteq> dst" using Cons.prems(1) ap(2) [of 0] by simp_all
  have "cstring ?m1 (src + 1) s = cstring m (src + 1) s"
  proof (rule cstring_frame)
    fix j assume "j \<le> length s"
    then show "?m1 (src + 1 + of_nat j) = m (src + 1 + of_nat j)" using ap(2) [of "Suc j"] by (simp add: add.assoc)
  qed
  then have cs: "cstring ?m1 (src + 1) s" using Cons.prems(1) by simp
  have step: "strncpy_copy dst src (int n) m
      = (if k = 0 then Ret (dst + 1, 0, ?m1) else strncpy_copy (dst + 1) (src + 1) (int k) ?m1)"
    using mc Cons.prems(4) k by (subst strncpy_copy.simps) (simp add: Let_def)
  show ?case
  proof (cases "k = 0")
    case True
    then show ?thesis using step k by simp
  next
    case False
    then have "0 < k" "k < 2 ^ 31" using Cons.prems(4) k by simp_all
    note IH = Cons.IH [OF cs ap(1) this]
    show ?thesis unfolding step IH using False k by (simp add: add_ac)
  qed
qed

lemma write_append: "write_bytes p (xs @ ys) m = write_bytes (p + of_nat (length xs)) ys (write_bytes p xs m)"
  by (induction xs arbitrary: p m) (simp_all add: add.assoc add.commute)

section \<open>Numbers in a base\<close>

text \<open>The value of a list of digits, the most significant one first.\<close>

definition value_of :: "int \<Rightarrow> int list \<Rightarrow> int" where
  "value_of b ds = foldl (\<lambda>a d. a * b + d) 0 ds"

lemma value_of_simps [simp]:
  "value_of b [] = 0" "value_of b (ds @ [d]) = value_of b ds * b + d" "value_of b [d] = d"
  by (simp_all add: value_of_def)

lemma value_of_digits:
  "value_of (int b) (map (\<lambda>j. int (N div b ^ j mod b)) (rev [0..<k])) = int (N mod b ^ k)"
proof -
  have "foldl (\<lambda>a d. a * int b + d) a (map (\<lambda>j. int (N div b ^ j mod b)) (rev [0..<k])) = a * int b ^ k + int (N mod b ^ k)" for a
  proof (induction k arbitrary: a)
    case (Suc k)
    have "N mod (b ^ k * b) = b ^ k * (N div b ^ k mod b) + N mod b ^ k" by (rule mod_mult2_eq)
    then have "N mod b ^ Suc k = N div b ^ k mod b * b ^ k + N mod b ^ k" by (metis mult.commute power_Suc2)
    then show ?case using Suc by (simp add: algebra_simps)
  qed simp
  then show ?thesis by (simp add: value_of_def)
qed

section \<open>Decimal numbers\<close>

fun decimal :: "nat \<Rightarrow> int list" where
  "decimal n = (if n < 10 then [48 + int n] else decimal (n div 10) @ [48 + int (n mod 10)])"

declare decimal.simps [simp del]

lemma decimal_not_empty [simp]: "decimal n \<noteq> []"
  by (subst decimal.simps) simp

lemma decimal_digits: "d \<in> set (decimal n) \<Longrightarrow> 48 \<le> d \<and> d \<le> 57"
proof (induction n rule: decimal.induct)
  case (1 n)
  then show ?case using decimal.simps [of n] by (auto split: if_splits)
qed

lemma decimal_value: "value_of 10 (map (\<lambda>d. d - 48) (decimal n)) = int n"
proof (induction n rule: decimal.induct)
  case (1 n)
  then show ?case by (subst decimal.simps) (simp add: zdiv_int zmod_int)
qed

lemma decimal_length: "n < 10 ^ k \<Longrightarrow> 0 < k \<Longrightarrow> length (decimal n) \<le> k"
proof (induction n arbitrary: k rule: decimal.induct)
  case (1 n)
  show ?case
  proof (cases "n < 10")
    case False
    then obtain j where k: "k = Suc j" "0 < j" using 1(2,3) by (cases k; cases "k = 1") auto
    then have "n div 10 < 10 ^ j" using 1(2) by (simp add: less_mult_imp_div_less mult.commute)
    then show ?thesis using 1(1) [OF False _ k(2)] False k by (subst decimal.simps) simp
  qed (use 1(3) in \<open>subst decimal.simps, simp\<close>)
qed

lemma decimal_no_leading_zero: "0 < n \<Longrightarrow> hd (decimal n) \<noteq> 48"
proof (induction n rule: decimal.induct)
  case (1 n)
  show ?case
  proof (cases "n < 10")
    case False
    then have "0 < n div 10" by (simp add: div_greater_zero_iff)
    then show ?thesis using 1(1) [OF False] False by (subst decimal.simps) (simp add: hd_append)
  qed (use 1(2) in \<open>subst decimal.simps, simp\<close>)
qed

lemma int_digits_rep:
  "length buffer + length (decimal i) \<le> 12 \<Longrightarrow> int_digits i buffer = Ret (buffer @ rev (decimal i))"
proof (induction i arbitrary: buffer rule: decimal.induct)
  case (1 i)
  have room: "\<not> 12 \<le> length buffer" using 1(2) decimal_not_empty [of i] by (cases "decimal i") simp_all
  show ?case
  proof (cases "i < 10")
    case True
    then show ?thesis using room by (subst int_digits.simps, subst decimal.simps) (simp add: Let_def)
  next
    case False
    have d: "decimal i = decimal (i div 10) @ [48 + int (i mod 10)]" using False by (subst decimal.simps) simp
    have "int_digits i buffer = int_digits (i div 10) (buffer @ [48 + int (i mod 10)])"
      using room False by (subst int_digits.simps) (simp add: Let_def div_eq_0_iff)
    then show ?thesis using 1(1) [OF False, of "buffer @ [48 + int (i mod 10)]"] 1(2) d by simp
  qed
qed

text \<open>The text of an integer, and reading one back.\<close>

definition int_text :: "int \<Rightarrow> int list" where
  "int_text i = (if i < 0 then 45 # decimal (nat (- i)) else decimal (nat i))"

text \<open>Only canonical numerals are read: digits alone after the sign, no leading zero, no \<open>-0\<close>.\<close>

definition read_nat :: "int list \<Rightarrow> int option" where
  "read_nat ds = (if ds \<noteq> [] \<and> (\<forall>d\<in>set ds. 48 \<le> d \<and> d \<le> 57) \<and> (hd ds = 48 \<longrightarrow> length ds = 1)
     then Some (value_of 10 (map (\<lambda>d. d - 48) ds)) else None)"

definition read_int :: "int list \<Rightarrow> int option" where
  "read_int ds =
     (if ds \<noteq> [] \<and> hd ds = 45
      then (case read_nat (tl ds) of None \<Rightarrow> None | Some n \<Rightarrow> if n = 0 then None else Some (- n))
      else read_nat ds)"

lemma read_nat_decimal: "read_nat (decimal n) = Some (int n)"
proof -
  have "hd (decimal n) \<noteq> 48 \<or> length (decimal n) = 1"
    using decimal_no_leading_zero [of n] by (cases "n = 0") (auto simp: decimal.simps [of 0])
  then show ?thesis using decimal_digits by (auto simp: read_nat_def decimal_value)
qed

lemma read_int_text: "read_int (int_text i) = Some i"
proof -
  have "hd (decimal n) \<noteq> 45" for n using decimal_digits [of "hd (decimal n)" n] by (auto simp: hd_in_set)
  then show ?thesis by (simp add: read_int_def int_text_def read_nat_decimal)
qed

lemma putchar_fold [simp]: "fold printf_putchar cs out = out @ cs"
  by (induction cs arbitrary: out) (simp_all add: printf_putchar_def)

lemma int_length: "- (2 ^ 31) < i \<Longrightarrow> i < 2 ^ 31 \<Longrightarrow> length (decimal (nat \<bar>i\<bar>)) \<le> 10"
  by (rule decimal_length) simp_all

lemma printf_int_text:
  assumes "- (2 ^ 31) < i" "i < 2 ^ 31"
  shows "printf_int i out = Ret (out @ int_text i)"
proof (cases "i < 0")
  case True
  then have "length (decimal (nat (- i))) \<le> 10" using int_length [OF assms] by simp
  then show ?thesis using True assms int_digits_rep [of "[]" "nat (- i)"] by (simp add: printf_int_def int_text_def Let_def printf_putchar_def)
next
  case False
  then have "length (decimal (nat i)) \<le> 10" using int_length [OF assms] by simp
  then show ?thesis using False assms int_digits_rep [of "[]" "nat i"] by (simp add: printf_int_def int_text_def Let_def printf_putchar_def)
qed

section \<open>Hexadecimal and binary numbers\<close>

definition hex_char :: "int \<Rightarrow> int" where
  "hex_char h = (if h < 10 then h + 48 else h + 55)"

definition hex_value :: "int \<Rightarrow> int" where
  "hex_value c = (if c < 58 then c - 48 else c - 55)"

lemma hex_value_char: "0 \<le> h \<Longrightarrow> hex_value (hex_char h) = h"
  by (simp add: hex_value_def hex_char_def)

definition hex_text :: "u32 \<Rightarrow> nat \<Rightarrow> int list" where
  "hex_text w k = map (\<lambda>j. hex_char (int (unat w div 16 ^ j mod 16))) (rev [0..<k])"

lemma hex_digit:
  "i < 8 \<Longrightarrow> uint (drop_bit 28 (push_bit (28 - 4 * i) w :: u32)) = int (unat w div 16 ^ i mod 16)"
proof -
  assume i: "i < 8"
  have "drop_bit 28 (push_bit (28 - 4 * i) w) = take_bit 4 (drop_bit (4 * i) w)"
    using i by (intro bit_eqI) (auto simp: bit_simps add.commute)
  then have "uint (drop_bit 28 (push_bit (28 - 4 * i) w)) = int (unat (take_bit 4 (drop_bit (4 * i) w)))" by simp
  also have "unat (take_bit 4 (drop_bit (4 * i) w)) = unat w div 2 ^ (4 * i) mod 2 ^ 4"
    by (simp only: unsigned_take_bit_eq unat_drop_bit_eq take_bit_eq_mod [where 'a = nat] drop_bit_eq_div [where 'a = nat])
  finally show ?thesis by (simp add: power_mult)
qed

lemma hex_loop_text:
  "i < 8 \<Longrightarrow> sz \<noteq> 2 \<Longrightarrow> hex_loop i (push_bit (28 - 4 * i) w) sz out = out @ hex_text w (Suc i)"
  "i < 8 \<Longrightarrow> hex_loop i (push_bit (28 - 4 * i) w) 2 out = out @ hex_text w (min 2 (Suc i))"
proof -
  have next_digit: "push_bit 4 (push_bit (28 - 4 * Suc i) w) = push_bit (28 - 4 * i) w" if "Suc i < 8" for i
    using that by (simp add: push_bit_push_bit)
  show "i < 8 \<Longrightarrow> sz \<noteq> 2 \<Longrightarrow> hex_loop i (push_bit (28 - 4 * i) w) sz out = out @ hex_text w (Suc i)"
  proof (induction i arbitrary: out)
    case (Suc i)
    then show ?case using hex_digit [OF Suc.prems(1), of w] next_digit [OF Suc.prems(1)]
      by (subst hex_loop.simps) (simp add: Let_def printf_putchar_def hex_text_def hex_char_def)
  qed (use hex_digit [of 0 w] in \<open>subst hex_loop.simps, simp add: printf_putchar_def hex_text_def hex_char_def\<close>)
  show "i < 8 \<Longrightarrow> hex_loop i (push_bit (28 - 4 * i) w) 2 out = out @ hex_text w (min 2 (Suc i))"
  proof (induction i arbitrary: out)
    case (Suc i)
    show ?case
    proof (cases "i = 0")
      case True
      then show ?thesis using Suc hex_digit [OF Suc.prems(1), of w] next_digit [OF Suc.prems(1)]
        by (subst hex_loop.simps) (simp add: Let_def printf_putchar_def hex_text_def hex_char_def numeral_2_eq_2)
    next
      case False
      then show ?thesis using Suc next_digit [OF Suc.prems(1)] by (subst hex_loop.simps) (simp add: Let_def)
    qed
  qed (use hex_digit [of 0 w] in \<open>subst hex_loop.simps, simp add: printf_putchar_def hex_text_def hex_char_def\<close>)
qed

lemma printf_hex_text: "printf_hex w 8 out = out @ hex_text w 8" "printf_hex w 2 out = out @ hex_text w 2"
  using hex_loop_text [of 7] by (simp_all add: printf_hex_def)

lemma hex_text_value: "value_of 16 (map hex_value (hex_text w k)) = int (unat w mod 16 ^ k)"
  using value_of_digits [of 16 "unat w" k] by (simp add: hex_text_def comp_def hex_value_char)

definition bin_text :: "u32 \<Rightarrow> nat \<Rightarrow> int list" where
  "bin_text w k = concat (map (\<lambda>j. (if Suc j \<noteq> 32 \<and> Suc j mod 4 = 0 then [95] else []) @ [48 + int (unat w div 2 ^ j mod 2)]) (rev [0..<k]))"

lemma top_bit: "(w :: u32) AND 0x80000000 \<noteq> 0 \<longleftrightarrow> bit w 31"
proof -
  have "(0x80000000 :: u32) = push_bit 31 1" by simp
  then show ?thesis using bit_iff_and_push_bit_not_eq_0 [of w 31] by (simp only:)
qed

lemma bin_digit: "(if bit w j then 49 else 48) = 48 + int (unat (w :: u32) div 2 ^ j mod 2)"
proof -
  have "bit w j \<longleftrightarrow> bit (unat w) j" by (simp add: bit_unsigned_iff)
  then show ?thesis by (simp add: bit_iff_odd odd_iff_mod_2_eq_one)
qed

lemma bin_loop_text: "k \<le> 32 \<Longrightarrow> bin_loop k (push_bit (32 - k) w) out = out @ bin_text w k"
proof (induction k arbitrary: out)
  case (Suc k)
  have "bit (push_bit (32 - Suc k) w) 31 \<longleftrightarrow> bit w k" using Suc.prems by (simp add: bit_push_bit_iff)
  then have d: "(if push_bit (32 - Suc k) w AND 0x80000000 \<noteq> 0 then 49 else 48) = 48 + int (unat w div 2 ^ k mod 2)"
    unfolding top_bit bin_digit [symmetric] by simp
  have "1 + (32 - Suc k) = 32 - k" using Suc.prems by linarith
  then have n: "push_bit 1 (push_bit (32 - Suc k) w) = push_bit (32 - k) w" by (simp only: push_bit_push_bit)
  show ?case unfolding bin_loop.simps d n Let_def
    using Suc by (simp add: printf_putchar_def bin_text_def)
qed (simp add: bin_text_def)

lemma printf_bin_text: "printf_bin w out = out @ bin_text w 32"
  using bin_loop_text [of 32 w out] by (simp add: printf_bin_def)

lemma bin_text_value: "value_of 2 (map (\<lambda>c. c - 48) (filter (\<lambda>c. c \<noteq> 95) (bin_text w k))) = int (unat w mod 2 ^ k)"
proof -
  have "filter (\<lambda>c. c \<noteq> 95) (bin_text w k) = map (\<lambda>j. 48 + int (unat w div 2 ^ j mod 2)) (rev [0..<k])"
    unfolding bin_text_def
  proof (induction k)
    case (Suc k)
    have "48 + int (unat w div 2 ^ k mod 2) \<noteq> 95" by simp
    then show ?case using Suc by simp
  qed simp
  then show ?thesis using value_of_digits [of 2 "unat w" k] by (simp add: comp_def)
qed

section \<open>What a format prints\<close>

lemma printf_string_text: "cstring m p s \<Longrightarrow> printf_string m p out = Some (out @ map uint s)"
  by (induction s arbitrary: p out; subst printf_string.simps) (simp_all add: printf_putchar_def)

text \<open>The parts of a format, with the arguments they take: a plain character, \<^verbatim>\<open>%%\<close>, an unknown directive, and the others.\<close>

datatype item = Lit u8 | Pct | Other u8 | Chr u32 | Dec u32 | Idec u32 | Hex u32 | Hex2 u32 | Bin u32 | Txt u32 "u8 list"

fun item_ok :: "bytes \<Rightarrow> item \<Rightarrow> bool" where
  "item_ok m (Lit c) \<longleftrightarrow> c \<noteq> 0 \<and> c \<noteq> 37"
| "item_ok m (Other c) \<longleftrightarrow> c \<notin> {0, 37, 50, 98, 99, 100, 105, 115, 120}"
| "item_ok m (Dec w) \<longleftrightarrow> sint w \<noteq> INT_MIN"
| "item_ok m (Idec w) \<longleftrightarrow> sint w \<noteq> INT_MIN"
| "item_ok m (Txt p s) \<longleftrightarrow> cstring m p s"
| "item_ok m _ \<longleftrightarrow> True"

fun item_format :: "item \<Rightarrow> u8 list" where
  "item_format (Lit c) = [c]"
| "item_format Pct = [37, 37]"
| "item_format (Other c) = [37, c]"
| "item_format (Chr w) = [37, 99]"
| "item_format (Dec w) = [37, 100]"
| "item_format (Idec w) = [37, 105]"
| "item_format (Hex w) = [37, 120]"
| "item_format (Hex2 w) = [37, 50]"
| "item_format (Bin w) = [37, 98]"
| "item_format (Txt p s) = [37, 115]"

fun item_args :: "item \<Rightarrow> u32 list" where
  "item_args (Lit c) = []"
| "item_args Pct = []"
| "item_args (Other c) = []"
| "item_args (Chr w) = [w]"
| "item_args (Dec w) = [w]"
| "item_args (Idec w) = [w]"
| "item_args (Hex w) = [w]"
| "item_args (Hex2 w) = [w]"
| "item_args (Bin w) = [w]"
| "item_args (Txt p s) = [p]"

fun item_text :: "item \<Rightarrow> int list" where
  "item_text (Lit c) = [uint c]"
| "item_text Pct = [37]"
| "item_text (Other c) = [37, uint c]"
| "item_text (Chr w) = [sint w]"
| "item_text (Dec w) = int_text (sint w)"
| "item_text (Idec w) = int_text (sint w)"
| "item_text (Hex w) = hex_text w 8"
| "item_text (Hex2 w) = hex_text w 2"
| "item_text (Bin w) = bin_text w 32"
| "item_text (Txt p s) = map uint s"

lemma sint_range: "sint (w :: u32) \<noteq> INT_MIN \<Longrightarrow> - (2 ^ 31) < sint w \<and> sint w < 2 ^ 31"
  using sint_ge [of w] sint_lt [of w] by simp

lemma directive_item:
  "item_ok m it \<Longrightarrow> item_format it = [37, c] \<Longrightarrow> directive m c (item_args it @ rest) out = Ret (rest, out @ item_text it)"
  using sint_range
  by (cases it) (auto simp: directive_def with_arg_def printf_putchar_def printf_int_text printf_hex_text printf_bin_text
      printf_string_text outcome_of_def)

lemma item_format_cases:
  "(\<exists>c. it = Lit c) \<or> (\<exists>c. item_format it = [37, c] \<and> (item_ok m it \<longrightarrow> c \<noteq> 0))"
  by (cases it) auto

lemma printf_items:
  "cstring m p (concat (map item_format its)) \<Longrightarrow> \<forall>it\<in>set its. item_ok m it \<Longrightarrow>
    printf_loop m p (concat (map item_args its) @ rest) out = Some (Ret (out @ concat (map item_text its)))"
proof (induction its arbitrary: p out)
  case Nil
  then show ?case by (subst printf_loop.simps) simp
next
  case (Cons it its)
  have ok: "item_ok m it" using Cons.prems(2) by simp
  from item_format_cases [of it m] show ?case
  proof (elim disjE exE conjE)
    fix c assume it: "it = Lit c"
    then have "cstring m (p + 1) (concat (map item_format its))" "m p = c" using Cons.prems(1) by simp_all
    then show ?thesis using Cons.IH Cons.prems(2) it ok
      by (subst printf_loop.simps) (simp add: Let_def printf_putchar_def)
  next
    fix c assume it: "item_format it = [37, c]" "item_ok m it \<longrightarrow> c \<noteq> 0"
    then have cs: "cstring m (p + 2) (concat (map item_format its))" "m p = 37" "m (p + 1) = c" "c \<noteq> 0"
      using Cons.prems(1) ok by (simp_all add: add.assoc)
    have d: "directive m c (concat (map item_args (it # its)) @ rest) out
        = Ret (concat (map item_args its) @ rest, out @ item_text it)"
      using directive_item [OF ok it(1), of "concat (map item_args its) @ rest" out] by simp
    have "printf_loop m p (concat (map item_args (it # its)) @ rest) out
        = printf_loop m (p + 2) (concat (map item_args its) @ rest) (out @ item_text it)"
      by (subst printf_loop.simps) (simp only: cs d Let_def fst_conv snd_conv outcome.case if_False, simp)
    then show ?thesis using Cons.IH [OF cs(1)] Cons.prems(2) by simp
  qed
qed

section \<open>Properties\<close>

text \<open>\<^verbatim>\<open>memcpy\<close> copies upwards: the byte at distance \<open>i\<close> from the destination is the byte of the source at \<open>i\<close> modulo the distance
of the two areas. So it copies unless the destination starts inside the source, where it repeats the bytes in between, and
nothing else changes; a negative length is undefined.\<close>

theorem memcpy_exact:
  assumes "len < 2 ^ 31"
  shows "memcpy dst src len m = (if len < 0 then Undefined
    else Ret (\<lambda>a. if unat (a - dst) < nat len then m (src + of_nat (unat (a - dst) mod unat (dst - src))) else m a))"
proof -
  have "nat len < 2 ^ 32" using assms by simp
  then show ?thesis using copy_bytes_at [of "nat len" dst src m] by (simp add: memcpy_def fun_eq_iff)
qed

theorem memcpy_exact_witness:
  "\<exists>m. memcpy 0x102 0x100 5 (\<lambda>a. ucast a) = Ret m \<and> m 0x105 = 1 \<and> m 0x107 = 7"
  using memcpy_exact [of 5 "0x102" "0x100" "\<lambda>a. ucast a"] by simp

text \<open>\<^verbatim>\<open>strncpy\<close> copies a string that is shorter than \<open>n\<close>, fills up with zeros and writes exactly \<open>n\<close> bytes; it never truncates:
when the string is as long as \<open>n\<close> or longer, the loop that fills up has passed zero and runs over memory until \<open>n\<close> overflows.\<close>

theorem strncpy_exact:
  assumes "cstring m src s" "0 < n" "n < 2 ^ 31" "apart dst n src (length s)"
  shows "strncpy dst src (int n) m =
    (if length s < n then Ret (dst, write_bytes dst (s @ replicate (n - length s) 0) m) else Undefined)"
proof (cases "length s < n")
  case True
  have "write_bytes dst (s @ replicate (n - length s) 0) m
      = write_bytes (dst + of_nat (length s) + 1) (replicate (nat (int n - int (length s) - 1)) 0) (write_bytes dst (s @ [0]) m)"
  proof -
    obtain k where k: "n - length s = Suc k" using True by (metis Suc_diff_Suc)
    then have "nat (int n - int (length s) - 1) = k" by linarith
    then show ?thesis using k by (simp add: write_append add.assoc)
  qed
  then show ?thesis using True assms strncpy_copy_rep [OF assms(1,4,2,3)]
      strncpy_pad_zeros [of "int n - int (length s)"] by (simp add: strncpy_def)
next
  case False
  then show ?thesis using strncpy_copy_rep [OF assms(1,4,2,3)] by (simp add: strncpy_def strncpy_pad_runs_off)
qed

theorem strncpy_exact_witness:
  "strncpy 0x200 0x100 3 ((\<lambda>_. 0)(0x100 := 65, 0x101 := 66, 0x102 := 67)) = Undefined"
proof -
  let ?m = "(\<lambda>_. 0)(0x100 := 65, 0x101 := 66, 0x102 := 67) :: bytes"
  have "i = 0 \<or> i = 1 \<or> i = 2" if "i < 3" for i :: nat using that by linarith
  moreover have "j = 0 \<or> j = 1 \<or> j = 2 \<or> j = 3" if "j \<le> 3" for j :: nat using that by linarith
  ultimately have "apart 0x200 3 0x100 3" unfolding apart_def by fastforce
  moreover have "length [65, 66, 67 :: u8] = 3" by simp
  ultimately show ?thesis using strncpy_exact [of ?m "0x100" "[65, 66, 67]" 3 "0x200", unfolded \<open>length _ = 3\<close>] by simp
qed

text \<open>C28. \<^verbatim>\<open>printf_int\<close> prints every integer but the least, whose negation overflows, as its canonical decimal numeral, and
never fills its buffer of twelve characters: what it printed reads back as the integer, by a reader that accepts nothing but a sign
and digits, no leading zero and no \<open>-0\<close>, and there are at most eleven characters.\<close>

theorem printf_int_round_trip:
  assumes "INT_MIN \<le> i" "i < 2 ^ 31"
  shows "if i = INT_MIN then printf_int i out = Undefined
    else \<exists>ds. printf_int i out = Ret (out @ ds) \<and> read_int ds = Some i \<and> length ds \<le> 11"
proof (cases "i = INT_MIN")
  case False
  then have i: "- (2 ^ 31) < i" "i < 2 ^ 31" using assms by simp_all
  have "length (int_text i) \<le> 11" using int_length [OF i] by (cases "i < 0") (simp_all add: int_text_def)
  then show ?thesis using False printf_int_text [OF i] read_int_text [of i] by simp
qed (simp add: printf_int_def)

theorem printf_int_round_trip_witness:
  "\<exists>ds. printf_int (- 1203) [] = Ret ds \<and> read_int ds = Some (- 1203) \<and> length ds \<le> 11"
  using printf_int_round_trip [of "- 1203" "[]"] by auto

text \<open>\<^verbatim>\<open>printf\<close> prints a format as the concatenation of what its parts mean: plain characters, \<^verbatim>\<open>%%\<close> and unknown directives as they
are, characters, decimal, hexadecimal and binary numbers and strings from the arguments in order; the hexadecimal digits, and
the binary ones without their separators, read back as the number.\<close>

theorem printf_prints_items:
  assumes "cstring m fmt (concat (map item_format its))" "\<forall>it\<in>set its. item_ok m it"
  shows "printf m fmt (concat (map item_args its) @ rest) out = Ret (out @ concat (map item_text its))
    \<and> value_of 16 (map hex_value (hex_text w 8)) = uint w \<and> value_of 16 (map hex_value (hex_text w 2)) = uint w mod 256
    \<and> value_of 2 (map (\<lambda>c. c - 48) (filter (\<lambda>c. c \<noteq> 95) (bin_text w 32))) = uint w"
proof -
  have "unat w < 2 ^ LENGTH(32)" by (rule unsigned_less)
  then have u: "unat w mod 16 ^ 8 = unat w" "unat w mod 2 ^ 32 = unat w" by simp_all
  have "int (unat w mod 16 ^ 2) = uint w mod 256" by (simp add: zmod_int)
  then show ?thesis using printf_items [OF assms] hex_text_value [of w 8] hex_text_value [of w 2] bin_text_value [of w 32] u
    by (simp add: printf_def outcome_of_def)
qed

theorem printf_prints_items_witness:
  "printf ((\<lambda>_. 0)(0x100 := 37, 0x101 := 100, 0x102 := 33)) 0x100 [42] [] = Ret (int_text 42 @ [33])"
proof -
  let ?m = "(\<lambda>_. 0)(0x100 := 37, 0x101 := 100, 0x102 := 33) :: bytes"
  have s: "sint (42 :: u32) = 42" by simp
  show ?thesis using printf_prints_items [of ?m "0x100" "[Dec 42, Lit 33]" "[]" "[]"] s by simp
qed

end
