(* ===== verification/Bcm2836.thy ===== *)
theory Bcm2836
  imports Machine
begin

text \<open>
  The drivers of the port to the BCM2836 (\<^verbatim>\<open>core/hw/soc/bcm2836\<close>): interrupt controller, timer, pins and UART. What a driver does
  to its device is a sequence of events: reads and writes of registers, delays, and calls of handlers, whose code lies
  elsewhere. What a register reads is up to the device, a function \<open>dev\<close> of the events so far.
\<close>

section \<open>Devices\<close>

text \<open>The handlers the drivers install; others are addresses of the caller.\<close>

datatype callback = No_Handler | Default_Handler | Handler_Stub | Tick_Stub | Irq_Handler | Client_Handler u32

datatype event = Rd u32 | Wr u32 u32 | Delay | Call callback u32 u32 u32

type_synonym device = "event list \<Rightarrow> u32 \<Rightarrow> u32"

record soc =
  trace :: "event list"
  ireg :: u32
  interrupt_handler :: callback
  irq_function_table :: "nat \<Rightarrow> callback"
  timer :: u32
  tick_handler :: callback
  gppud :: u32
  fsel :: u32
  uart :: u32

definition emit :: "event \<Rightarrow> soc \<Rightarrow> soc" where
  "emit e s = s\<lparr>trace := trace s @ [e]\<rparr>"

definition reg_read :: "device \<Rightarrow> u32 \<Rightarrow> soc \<Rightarrow> u32 \<times> soc" where
  "reg_read dev a s = (dev (trace s) a, emit (Rd a) s)"

definition reg_write :: "u32 \<Rightarrow> u32 \<Rightarrow> soc \<Rightarrow> soc" where
  "reg_write a v = emit (Wr a v)"

definition reg_modify :: "device \<Rightarrow> u32 \<Rightarrow> (u32 \<Rightarrow> u32) \<Rightarrow> soc \<Rightarrow> soc" where
  "reg_modify dev a f s = (let (v, s1) = reg_read dev a s in reg_write a (f v) s1)"

abbreviation (input) IO_VA_ADDRESS :: "u32 \<Rightarrow> u32" where "IO_VA_ADDRESS x \<equiv> x + 0xBB000000"
abbreviation (input) PERI_BASE :: u32 where "PERI_BASE \<equiv> 0x3F000000"
abbreviation (input) GPIO_BASE :: u32 where "GPIO_BASE \<equiv> PERI_BASE + 0x200000"
abbreviation (input) GPPUD_BASE :: u32 where "GPPUD_BASE \<equiv> GPIO_BASE + 0x94"
abbreviation (input) INTC_BASE :: u32 where "INTC_BASE \<equiv> PERI_BASE + 0xB200"
abbreviation (input) TIMER_BASE :: u32 where "TIMER_BASE \<equiv> PERI_BASE + 0xB400"
abbreviation (input) UART_BASE :: u32 where "UART_BASE \<equiv> GPIO_BASE + 0x1000"
abbreviation (input) INTC_IRQ_NUM_TIMER :: int where "INTC_IRQ_NUM_TIMER \<equiv> 0 + 64"

section \<open>Interrupt controller (soc\_interrupt.c)\<close>

abbreviation (input) IRQ_COUNT :: int where "IRQ_COUNT \<equiv> 72"

text \<open>The registers: pending, FIQ control, enable, disable.\<close>

definition irq_pending :: "soc \<Rightarrow> u32 \<Rightarrow> u32" where "irq_pending s i = ireg s + 4 * i"
definition enable_irq :: "soc \<Rightarrow> u32 \<Rightarrow> u32" where "enable_irq s i = ireg s + 16 + 4 * i"
definition disable_irq :: "soc \<Rightarrow> u32 \<Rightarrow> u32" where "disable_irq s i = ireg s + 28 + 4 * i"

definition default_handler :: "u32 \<Rightarrow> u32 \<Rightarrow> u32 \<Rightarrow> soc \<Rightarrow> soc" where
  "default_handler r0 r1 r2 = emit (Call Default_Handler r0 r1 r2)"

definition interrupt_handler_stub :: "u32 \<Rightarrow> u32 \<Rightarrow> u32 \<Rightarrow> soc \<Rightarrow> soc" where
  "interrupt_handler_stub irq r1 r2 s =
     default_handler irq r1 r2
       (if interrupt_handler s \<noteq> No_Handler then emit (Call (interrupt_handler s) irq r1 r2) s else s)"

definition cpu_irq_set_enable :: "device \<Rightarrow> int \<Rightarrow> bool \<Rightarrow> soc \<Rightarrow> soc" where
  "cpu_irq_set_enable dev number enable s =
     (if number < 0 \<or> number \<ge> IRQ_COUNT then s
      else
        (let register_a = of_int (number div 32);
             mask = push_bit (nat (number mod 32)) 1
         in if enable then reg_modify dev (enable_irq s register_a) (\<lambda>v. v OR mask) s
            else reg_modify dev (disable_irq s register_a) (\<lambda>v. v OR mask) s))"

definition cpu_irq_set_handler :: "int \<Rightarrow> callback \<Rightarrow> soc \<Rightarrow> soc" where
  "cpu_irq_set_handler number handler s =
     (if number < 0 \<or> number \<ge> IRQ_COUNT then s
      else s\<lparr>irq_function_table := (irq_function_table s)
               (nat number := if handler = No_Handler then Handler_Stub else handler)\<rparr>)"

text \<open>The division of C rounds towards zero.\<close>

definition cpu_irq_acknowledge :: "device \<Rightarrow> int \<Rightarrow> soc \<Rightarrow> soc" where
  "cpu_irq_acknowledge dev number s =
     (let register_a = (if number \<ge> 64 \<or> number \<le> - 64 then of_int (number - 64) else of_int (number + 32)) :: u32
      in if register_a \<ge> of_int IRQ_COUNT then s
         else reg_modify dev (irq_pending s (register_a div 32))
                (\<lambda>v. v AND NOT (push_bit (unat (register_a mod 32)) 1)) s)"

text \<open>The bound of the first loop is \<^verbatim>\<open>(int)((IRQ_COUNT/32.0) + 0.5)\<close>: 72 / 32 + 0.5, cut off.\<close>

definition irq_banks :: nat where "irq_banks = nat ((2 * IRQ_COUNT + 32) div 64)"

definition soc_interrupt_init :: "device \<Rightarrow> soc \<Rightarrow> soc" where
  "soc_interrupt_init dev s =
     (let s1 = s\<lparr>interrupt_handler := Irq_Handler, ireg := IO_VA_ADDRESS INTC_BASE\<rparr>;
          s2 = for_loop irq_banks (\<lambda>i s. reg_write (disable_irq s (of_nat i)) 0xFFFFFFFF s) s1;
          s3 = for_loop (nat IRQ_COUNT) (\<lambda>i. cpu_irq_set_handler (int i) Default_Handler) s2
      in cpu_irq_set_enable dev 57 True s3)"

section \<open>Timer (soc\_timer.c)\<close>

definition timer_off :: "device \<Rightarrow> soc \<Rightarrow> soc" where
  "timer_off dev s = reg_modify dev (timer s + 8) (\<lambda>v. v AND NOT (push_bit 5 1 OR push_bit 7 1)) s"

definition tick_handler_stub :: "u32 \<Rightarrow> u32 \<Rightarrow> u32 \<Rightarrow> soc \<Rightarrow> soc" where
  "tick_handler_stub r0 r1 r2 s =
     (let s1 = reg_write (timer s + 12) 0 s
      in if tick_handler s1 \<noteq> No_Handler then emit (Call (tick_handler s1) r0 r1 r2) s1 else s1)"

definition timer_tick_start :: "device \<Rightarrow> callback \<Rightarrow> soc \<Rightarrow> soc" where
  "timer_tick_start dev handler s =
     (let s1 = timer_off dev s;
          s2 = reg_write (timer s1 + 12) 0 s1;
          s3 = cpu_irq_set_handler INTC_IRQ_NUM_TIMER Tick_Stub (s2\<lparr>tick_handler := handler\<rparr>);
          s4 = reg_write (timer s3 + 8) (push_bit 5 1 OR push_bit 7 1) s3
      in cpu_irq_set_enable dev INTC_IRQ_NUM_TIMER True s4)"

definition timer_tick_stop :: "device \<Rightarrow> soc \<Rightarrow> soc" where
  "timer_tick_stop = timer_off"

definition soc_timer_init :: "device \<Rightarrow> soc \<Rightarrow> soc" where
  "soc_timer_init dev s = timer_off dev (s\<lparr>timer := IO_VA_ADDRESS TIMER_BASE\<rparr>)"

section \<open>Pins (soc\_gpio.c)\<close>

definition delays :: "soc \<Rightarrow> soc" where
  "delays = for_loop 150 (\<lambda>i. emit Delay)"

definition set_field :: "nat \<Rightarrow> u32 \<Rightarrow> u32 \<Rightarrow> u32" where
  "set_field pos v w = (w AND NOT (push_bit pos 7)) OR push_bit pos v"

definition soc_gpio_init :: "device \<Rightarrow> soc \<Rightarrow> soc" where
  "soc_gpio_init dev s =
     (let s1 = s\<lparr>gppud := IO_VA_ADDRESS GPPUD_BASE\<rparr>;
          s2 = delays (reg_write (gppud s1) 0 s1);
          s3 = reg_write (gppud s2 + 4)
                 (push_bit 4 1 OR push_bit 14 1 OR push_bit 15 1 OR push_bit 22 1 OR push_bit 24 1 OR push_bit 25 1 OR push_bit 27 1) s2;
          s4 = reg_write (gppud s3 + 4) 0 (reg_write (gppud s3) 0 (delays s3));
          s5 = s4\<lparr>fsel := IO_VA_ADDRESS GPIO_BASE\<rparr>;
          s6 = reg_modify dev (fsel s5) (set_field 12 2) s5
      in reg_modify dev (fsel s6 + 8) (\<lambda>v. set_field 21 3 (set_field 15 3 (set_field 12 3 (set_field 6 3 v)))) s6)"

section \<open>UART (soc\_uart.c)\<close>

definition stdio_can_write :: "device \<Rightarrow> soc \<Rightarrow> bool \<times> soc" where
  "stdio_can_write dev s = (let (v, s1) = reg_read dev (uart s + 24) s in (v AND push_bit 5 1 = 0, s1))"

definition stdio_can_read :: "device \<Rightarrow> soc \<Rightarrow> bool \<times> soc" where
  "stdio_can_read dev s = (let (v, s1) = reg_read dev (uart s + 24) s in (v AND push_bit 4 1 = 0, s1))"

text \<open>Waiting for the device, which may never be ready.\<close>

partial_function (option) wait_for :: "(soc \<Rightarrow> bool \<times> soc) \<Rightarrow> soc \<Rightarrow> soc option" where
  "wait_for ready s = (let r = ready s in if fst r then Some (snd r) else wait_for ready (snd r))"

definition stdio_write_char :: "device \<Rightarrow> int \<Rightarrow> soc \<Rightarrow> soc outcome" where
  "stdio_write_char dev c s =
     and_then (outcome_of (wait_for (stdio_can_write dev) s)) (\<lambda>s1. Ret (reg_write (uart s1) (of_int c) s1))"

definition stdio_read_char :: "device \<Rightarrow> soc \<Rightarrow> (u32 \<times> soc) outcome" where
  "stdio_read_char dev s =
     and_then (outcome_of (wait_for (stdio_can_read dev) s)) (\<lambda>s1. Ret (reg_read dev (uart s1) s1))"

definition soc_uart_init :: "soc \<Rightarrow> soc" where
  "soc_uart_init s =
     (let u = IO_VA_ADDRESS UART_BASE; s1 = s\<lparr>uart := u\<rparr>
      in reg_write (u + 48) (push_bit 0 1 OR push_bit 8 1 OR push_bit 9 1)
        (reg_write (u + 56) (push_bit 1 1 OR push_bit 4 1 OR push_bit 5 1 OR push_bit 6 1
                             OR push_bit 7 1 OR push_bit 8 1 OR push_bit 9 1 OR push_bit 10 1)
        (reg_write (u + 44) (push_bit 4 1 OR push_bit 5 1 OR push_bit 6 1)
        (reg_write (u + 40) 40
        (reg_write (u + 36) 1
        (reg_write (u + 68) 0x7FF
        (reg_write (u + 44) (push_bit 4 0)
        (reg_write (u + 48) 0 s1))))))))"

section \<open>The whole chip (soc\_init.c)\<close>

definition soc_init :: "device \<Rightarrow> soc \<Rightarrow> soc" where
  "soc_init dev s = soc_uart_init (soc_timer_init dev (soc_interrupt_init dev (soc_gpio_init dev s)))"

section \<open>Properties\<close>

lemma emit_sel [simp]:
  "trace (emit e s) = trace s @ [e]" "ireg (emit e s) = ireg s" "irq_function_table (emit e s) = irq_function_table s"
  by (simp_all add: emit_def)

lemma reg_write_sel [simp]:
  "trace (reg_write a v s) = trace s @ [Wr a v]" "ireg (reg_write a v s) = ireg s"
  "irq_function_table (reg_write a v s) = irq_function_table s"
  by (simp_all add: reg_write_def)

lemma reg_modify_sel [simp]:
  "trace (reg_modify dev a f s) = trace s @ [Rd a, Wr a (f (dev (trace s) a))]"
  "irq_function_table (reg_modify dev a f s) = irq_function_table s"
  by (simp_all add: reg_modify_def reg_read_def Let_def)

text \<open>C29. Acknowledging an interrupt (\<^verbatim>\<open>cpu_irq_acknowledge\<close>) clears its bit in its pending register for the interrupts 0 to 39 and the
basic ones, 64 to 71; for 40 to 63, the UART's 57 among them, it does nothing, since the number is shifted by a register
before it is compared with the number of interrupts.\<close>

theorem irq_acknowledge_exact:
  assumes "0 \<le> number" "number < IRQ_COUNT"
  shows "cpu_irq_acknowledge dev number s =
    (if 40 \<le> number \<and> number < 64 then s
     else reg_modify dev (irq_pending s (if 64 \<le> number then 0 else of_int (number div 32 + 1)))
            (\<lambda>v. v AND NOT (push_bit (nat (number mod 32)) 1)) s)"
proof -
  define a where "a = (if number \<ge> 64 then nat (number - 64) else nat (number + 32))"
  have a: "a < 128" "(if number \<ge> 64 \<or> number \<le> - 64 then of_int (number - 64) else of_int (number + 32)) = (of_nat a :: u32)"
    using assms by (auto simp: a_def nat_less_iff)
  then have u: "unat (of_nat a :: u32) = a" by (simp add: unat_of_nat take_bit_eq_mod)
  have d: "of_nat a div 32 = (of_nat (a div 32) :: u32)" "unat (of_nat a mod 32 :: u32) = a mod 32"
    using a(1) u by (simp_all add: word_unat_eq_iff unat_div unat_mod unat_of_nat take_bit_eq_mod)
  have ge: "(of_nat a :: u32) \<ge> of_int IRQ_COUNT \<longleftrightarrow> 40 \<le> number \<and> number < 64"
    using assms u by (simp add: word_le_nat_alt a_def) linarith
  have bank: "of_nat (a div 32) = (if 64 \<le> number then 0 else of_int (number div 32 + 1) :: u32)" "a mod 32 = nat (number mod 32)"
    if "\<not> (40 \<le> number \<and> number < 64)"
  proof -
    have ia: "int a = (if 64 \<le> number then number - 64 else number + 32)" using assms by (simp add: a_def)
    have "int a div 32 = (if 64 \<le> number then 0 else number div 32 + 1)" "int a mod 32 = number mod 32"
      unfolding ia using assms(2) mod_add_self2 [of "number - 64" 32] mod_add_self2 [of "number - 32" 32]
        div_add_self2 [of 32 number] by simp_all
    then have "int (a div 32) = (if 64 \<le> number then 0 else number div 32 + 1)" "int (a mod 32) = number mod 32"
      by (simp_all only: zdiv_int zmod_int of_nat_numeral)
    then have "a div 32 = nat (if 64 \<le> number then 0 else number div 32 + 1)" "a mod 32 = nat (number mod 32)"
      by (metis nat_int)+
    moreover have "0 \<le> number div 32 + 1" using assms(1) by (simp add: pos_imp_zdiv_nonneg_iff add_nonneg_nonneg)
    ultimately show "of_nat (a div 32) = (if 64 \<le> number then 0 else of_int (number div 32 + 1) :: u32)" "a mod 32 = nat (number mod 32)"
      by simp_all
  qed
  show ?thesis unfolding cpu_irq_acknowledge_def Let_def a(2) ge d using bank by simp
qed

theorem irq_acknowledge_exact_witness:
  "\<forall>dev s. cpu_irq_acknowledge dev 57 s = s"
  using irq_acknowledge_exact [of 57] by simp

text \<open>Setting up the interrupt controller (\<^verbatim>\<open>soc_interrupt_init\<close>) gives every interrupt the default handler, disables the two
registers of numbered interrupts and enables the UART's; the rounding of the loop bound loses the third register, so the
basic interrupts, the timer's among them, are not disabled.\<close>

theorem interrupt_init_exact:
  "trace (soc_interrupt_init dev s) = trace s @
     [Wr 0xFA00B21C 0xFFFFFFFF, Wr 0xFA00B220 0xFFFFFFFF, Rd 0xFA00B214,
      Wr 0xFA00B214 (dev (trace s @ [Wr 0xFA00B21C 0xFFFFFFFF, Wr 0xFA00B220 0xFFFFFFFF]) 0xFA00B214 OR push_bit 25 1)]
   \<and> (\<forall>i<72. irq_function_table (soc_interrupt_init dev s) i = Default_Handler)
   \<and> ireg (soc_interrupt_init dev s) = 0xFA00B200"
proof -
  define s1 where "s1 = s\<lparr>interrupt_handler := Irq_Handler, ireg := IO_VA_ADDRESS INTC_BASE\<rparr>"
  define s2 where "s2 = for_loop irq_banks (\<lambda>i s. reg_write (disable_irq s (of_nat i)) 0xFFFFFFFF s) s1"
  define s3 where "s3 = for_loop (nat IRQ_COUNT) (\<lambda>i. cpu_irq_set_handler (int i) Default_Handler) s2"
  have two: "irq_banks = Suc (Suc 0)" by (simp add: irq_banks_def)
  have s2: "trace s2 = trace s @ [Wr 0xFA00B21C 0xFFFFFFFF, Wr 0xFA00B220 0xFFFFFFFF]" "ireg s2 = 0xFA00B200"
    unfolding s2_def two by (simp_all add: disable_irq_def s1_def)
  have "trace s3 = trace s2 \<and> ireg s3 = ireg s2 \<and> (\<forall>i<nat IRQ_COUNT. irq_function_table s3 i = Default_Handler)"
    unfolding s3_def
    by (rule for_loop_indexed [where P = "\<lambda>k t. trace t = trace s2 \<and> ireg t = ireg s2 \<and> (\<forall>i<k. irq_function_table t i = Default_Handler)"])
      (auto simp: cpu_irq_set_handler_def less_Suc_eq)
  moreover have "soc_interrupt_init dev s = cpu_irq_set_enable dev 57 True s3"
    by (simp add: soc_interrupt_init_def s1_def s2_def s3_def Let_def)
  ultimately show ?thesis using s2 by (simp add: cpu_irq_set_enable_def enable_irq_def reg_modify_def reg_read_def Let_def)
qed

theorem interrupt_init_exact_witness:
  "\<forall>s. irq_function_table (soc_interrupt_init (\<lambda>_ _. 0) s) 57 = Default_Handler \<and> Wr 0xFA00B214 (push_bit 25 1) \<in> set (trace (soc_interrupt_init (\<lambda>_ _. 0) s))"
  using interrupt_init_exact [of "\<lambda>_ _. 0"] by simp

end
