(* ===== verification/Mreg.thy ===== *)
theory Mreg
  imports Lists Buddy
begin

text \<open>
  \<^verbatim>\<open>library/mem/src/mreg.c\<close>: memory regions in two levels, chunks of megabytes on a list (\<open>free_megs\<close>) and megabytes that a buddy
  allocator divides (\<open>free_buddies\<close>). The structures lie in the heap, at the addresses \<^verbatim>\<open>malloc\<close> returns; their fields are
  kept in one map for each type: links, regions, buddy contexts and the regions' owner. Following the null pointer is
  \<open>Undefined\<close>, as is an \<^verbatim>\<open>int\<close> shifted out of its range; a list that does not end is \<open>Hang\<close>.
\<close>

section \<open>Regions\<close>

abbreviation (input) IS_BUDDY_PARENT :: u32 where "IS_BUDDY_PARENT \<equiv> 0x80000000"
abbreviation (input) IS_BUDDY_CHILD :: u32 where "IS_BUDDY_CHILD \<equiv> 0x40000000"
abbreviation (input) MB_BITS :: nat where "MB_BITS \<equiv> 20"
abbreviation (input) MB :: u32 where "MB \<equiv> 0x100000"

definition ALIGN_UP :: "u32 \<Rightarrow> u32 \<Rightarrow> u32" where "ALIGN_UP adr sz = (adr + sz - 1) AND NOT (sz - 1)"
definition ALIGN_DOWN :: "u32 \<Rightarrow> u32 \<Rightarrow> u32" where "ALIGN_DOWN adr sz = adr AND NOT (sz - 1)"

record memregion =
  r_start :: u32
  r_end :: u32
  r_flags :: u32
  r_buddy :: u32

record mreg_t =
  g_start :: u32
  g_end :: u32
  g_page_bits :: int

record mreg_state =
  ms_heap :: heap_ctxt
  ms_links :: list_store
  ms_region :: "u32 \<Rightarrow> memregion"
  ms_buddy :: "u32 \<Rightarrow> buddy_ctxt"
  ms_mreg :: "u32 \<Rightarrow> mreg_t"

definition free_megs :: "u32 \<Rightarrow> u32" where "free_megs reg = reg + 12"
definition free_buddies :: "u32 \<Rightarrow> u32" where "free_buddies reg = reg + 20"

definition set_region :: "u32 \<Rightarrow> (memregion \<Rightarrow> memregion) \<Rightarrow> mreg_state \<Rightarrow> mreg_state" where
  "set_region p f s = s\<lparr>ms_region := (ms_region s)(p := f (ms_region s p))\<rparr>"

definition link_region :: "u32 \<Rightarrow> u32 \<Rightarrow> mreg_state \<Rightarrow> mreg_state outcome" where
  "link_region root p s = and_then (outcome_of (list_add root p (ms_links s))) (\<lambda>l. Ret (s\<lparr>ms_links := l\<rparr>))"

definition unlink_region :: "u32 \<Rightarrow> mreg_state \<Rightarrow> mreg_state" where
  "unlink_region p s = s\<lparr>ms_links := list_remove p (ms_links s)\<rparr>"

definition with_buddy :: "u32 \<Rightarrow> (buddy \<Rightarrow> ('a \<times> buddy) outcome) \<Rightarrow> mreg_state \<Rightarrow> ('a \<times> mreg_state) outcome" where
  "with_buddy b f s = and_then (f (ms_buddy s b, ms_heap s)) (\<lambda>(r, c, h).
     Ret (r, s\<lparr>ms_buddy := (ms_buddy s)(b := c), ms_heap := h\<rparr>))"

definition memregion_free :: "u32 \<Rightarrow> mreg_state \<Rightarrow> mreg_state" where
  "memregion_free item s = s\<lparr>ms_heap := free item (ms_heap s)\<rparr>"

definition memregion_alloc :: "u32 \<Rightarrow> u32 \<Rightarrow> mreg_state \<Rightarrow> (u32 \<times> mreg_state) outcome" where
  "memregion_alloc start stop s = and_then (malloc 32 (ms_heap s)) (\<lambda>(ret, h).
     let s1 = s\<lparr>ms_heap := h\<rparr>
     in Ret (ret, if ret \<noteq> 0 then set_region ret (\<lambda>r. \<lparr>r_start = start, r_end = stop, r_flags = 0, r_buddy = 0\<rparr>) s1 else s1))"

definition memregion_attach_buddy :: "u32 \<Rightarrow> u32 \<Rightarrow> mreg_state \<Rightarrow> (bool \<times> mreg_state) outcome" where
  "memregion_attach_buddy reg item s =
     (let r = ms_region s item
      in if r_flags r AND (IS_BUDDY_PARENT OR IS_BUDDY_CHILD) \<noteq> 0 then Ret (False, s)
         else
           and_then (malloc 128 (ms_heap s)) (\<lambda>(b, h).
             let s1 = s\<lparr>ms_heap := h\<rparr>
             in if b = 0 then Ret (False, s1)
                else
                  and_then (with_buddy b (buddy_init (r_start r) (r_end r - r_start r + 1) (g_page_bits (ms_mreg s reg)) 0 0) s1)
                    (\<lambda>(ok, s2).
                      if ok
                      then and_then (link_region (free_buddies reg) item
                             (set_region item (\<lambda>r. r\<lparr>r_buddy := b, r_flags := r_flags r OR IS_BUDDY_PARENT\<rparr>) s2))
                             (\<lambda>s3. Ret (True, s3))
                      else Ret (False, s2\<lparr>ms_heap := free b (ms_heap s2)\<rparr>))))"

definition memregion_deattach_buddy :: "u32 \<Rightarrow> mreg_state \<Rightarrow> bool \<times> mreg_state" where
  "memregion_deattach_buddy item s =
     (let r = ms_region s item; b = r_buddy r
      in if r_flags r AND IS_BUDDY_PARENT \<noteq> 0
         then (let (c, h) = buddy_cleanup (ms_buddy s b, ms_heap s);
                   s1 = s\<lparr>ms_buddy := (ms_buddy s)(b := c), ms_heap := free b h\<rparr>
               in (True, set_region item (\<lambda>r. r\<lparr>r_flags := r_flags r AND NOT IS_BUDDY_PARENT\<rparr>) (unlink_region item s1)))
         else (False, s))"

section \<open>The first level\<close>

definition mreg_level1_split :: "u32 \<Rightarrow> u32 \<Rightarrow> u32 \<Rightarrow> bool \<Rightarrow> mreg_state \<Rightarrow> (u32 \<times> mreg_state) outcome" where
  "mreg_level1_split reg from sz keep_first s =
     (let r = ms_region s from
      in and_then (memregion_alloc (r_start r + sz) (r_end r) s) (\<lambda>(second, s1).
           if second = 0 then Ret (0, s1)
           else
             and_then (link_region (free_megs reg) (if keep_first then second else from)
               (set_region from (\<lambda>r. r\<lparr>r_end := r_start r + sz - 1\<rparr>) s1)) (\<lambda>s2.
               Ret (if keep_first then from else second, s2))))"

text \<open>The loops over the list, from the item \<open>tmp\<close> on.\<close>

partial_function (option) best_chunk :: "mreg_state \<Rightarrow> u32 \<Rightarrow> u32 \<Rightarrow> u32 \<Rightarrow> u32 \<Rightarrow> u32 \<Rightarrow> (u32 \<times> u32) option" where
  "best_chunk s root sz tmp best best_size =
     (if tmp = root then Some (best, best_size)
      else
        (let my_size = r_end (ms_region s tmp) - r_start (ms_region s tmp) + 1
         in if my_size \<ge> sz \<and> (best = 0 \<or> my_size < best_size)
            then best_chunk s root sz (lnext (ms_links s) tmp) tmp my_size
            else best_chunk s root sz (lnext (ms_links s) tmp) best best_size))"

partial_function (option) find_region :: "mreg_state \<Rightarrow> u32 \<Rightarrow> (memregion \<Rightarrow> bool) \<Rightarrow> u32 \<Rightarrow> u32 option" where
  "find_region s root P tmp =
     (if tmp = root then Some 0
      else if P (ms_region s tmp) then Some tmp
      else find_region s root P (lnext (ms_links s) tmp))"

definition mreg_level1_allocate :: "u32 \<Rightarrow> int \<Rightarrow> mreg_state \<Rightarrow> (u32 \<times> mreg_state) outcome" where
  "mreg_level1_allocate reg count s =
     (if count < 0 \<or> count \<ge> 2 ^ 11 then Undefined
      else
        (let sz = push_bit MB_BITS (of_int count); root = free_megs reg
         in and_then (outcome_of (best_chunk s root sz (lnext (ms_links s) root) 0 0)) (\<lambda>(best, best_size).
              if best = 0 then Ret (0, s)
              else
                (let s1 = unlink_region best s
                 in if best_size > sz
                    then and_then (mreg_level1_split reg best sz True s1) (\<lambda>(tmp, s2). Ret (best, s2))
                    else Ret (best, s1)))))"

definition mreg_level1_allocate_at :: "u32 \<Rightarrow> u32 \<Rightarrow> int \<Rightarrow> mreg_state \<Rightarrow> (u32 \<times> mreg_state) outcome" where
  "mreg_level1_allocate_at reg adr count s =
     (if count < 0 \<or> count \<ge> 2 ^ 11 then Undefined
      else
        (let stop = adr + push_bit MB_BITS (of_int count) - 1; root = free_megs reg
         in if adr AND (MB - 1) \<noteq> 0 then Ret (0, s)
            else
              and_then (outcome_of (find_region s root (\<lambda>r. r_start r \<le> adr \<and> stop \<le> r_end r) (lnext (ms_links s) root)))
                (\<lambda>target.
                  if target = 0 then Ret (0, s)
                  else
                    and_then
                      (let s1 = unlink_region target s
                       in if r_start (ms_region s1 target) < adr
                          then mreg_level1_split reg target (adr - r_start (ms_region s1 target) + 0) False s1
                          else Ret (target, s1))
                      (\<lambda>(target, s2).
                        if target = 0 then Undefined
                        else if r_end (ms_region s2 target) > stop
                        then mreg_level1_split reg target (stop - r_start (ms_region s2 target) + 1) True s2
                        else Ret (target, s2)))))"

definition mreg_find_starting :: "u32 \<Rightarrow> u32 \<Rightarrow> mreg_state \<Rightarrow> u32 option" where
  "mreg_find_starting reg start s =
     find_region s (free_megs reg) (\<lambda>r. r_start r = start) (lnext (ms_links s) (free_megs reg))"

definition mreg_find_ending :: "u32 \<Rightarrow> u32 \<Rightarrow> mreg_state \<Rightarrow> u32 option" where
  "mreg_find_ending reg stop s =
     find_region s (free_megs reg) (\<lambda>r. r_end r = stop) (lnext (ms_links s) (free_megs reg))"

definition mreg_level1_free :: "u32 \<Rightarrow> u32 \<Rightarrow> mreg_state \<Rightarrow> mreg_state outcome" where
  "mreg_level1_free reg item s =
     and_then (link_region (free_megs reg) item s) (\<lambda>s1.
     and_then (outcome_of (mreg_find_ending reg (r_start (ms_region s1 item) - 1) s1)) (\<lambda>tmp.
     let (mem1, s2) =
       (if tmp \<noteq> 0
        then (tmp, memregion_free item (set_region tmp (\<lambda>r. r\<lparr>r_end := r_end (ms_region s1 item)\<rparr>) (unlink_region item s1)))
        else (item, s1))
     in and_then (outcome_of (mreg_find_starting reg (r_end (ms_region s2 mem1) + 1) s2)) (\<lambda>tmp1.
          if tmp1 \<noteq> 0
          then (let s3 = unlink_region tmp1 s2
                in Ret (memregion_free tmp1 (set_region mem1 (\<lambda>r. r\<lparr>r_end := r_end (ms_region s3 tmp1)\<rparr>) s3)))
          else Ret s2)))"

section \<open>The second level\<close>

text \<open>One buddy of the list after the other, until one has a block; \<open>alloc\<close> asks it for one.\<close>

partial_function (option) level2_loop ::
  "u32 \<Rightarrow> (buddy \<Rightarrow> (u32 option \<times> buddy) outcome) \<Rightarrow> int \<Rightarrow> (u32 \<Rightarrow> u32) \<Rightarrow> u32 \<Rightarrow> mreg_state \<Rightarrow> (u32 \<times> mreg_state) outcome option" where
  "level2_loop reg alloc order undo tmp s =
     (if tmp = free_buddies reg then Some (Ret (0, s))
      else
        (let b = r_buddy (ms_region s tmp)
         in (case with_buddy b alloc s of
               Ret r \<Rightarrow>
                 (case fst r of
                    None \<Rightarrow> level2_loop reg alloc order undo (lnext (ms_links (snd r)) tmp) (snd r)
                  | Some adr \<Rightarrow>
                      (case memregion_alloc adr (adr - 1 + push_bit (nat (order + g_page_bits (ms_mreg (snd r) reg))) 1) (snd r) of
                         Ret q \<Rightarrow>
                           (if fst q \<noteq> 0
                            then Some (Ret (fst q, set_region (fst q) (\<lambda>r. r\<lparr>r_buddy := b, r_flags := r_flags r OR IS_BUDDY_CHILD\<rparr>) (snd q)))
                            else
                              (case with_buddy b (\<lambda>t. Ret (buddy_free (undo adr) t)) (snd q) of
                                 Ret u \<Rightarrow> level2_loop reg alloc order undo (lnext (ms_links (snd u)) tmp) (snd u)
                               | Panic msg \<Rightarrow> Some (Panic msg) | Hang \<Rightarrow> Some Hang | Undefined \<Rightarrow> Some Undefined))
                       | Panic msg \<Rightarrow> Some (Panic msg) | Hang \<Rightarrow> Some Hang | Undefined \<Rightarrow> Some Undefined))
             | Panic msg \<Rightarrow> Some (Panic msg) | Hang \<Rightarrow> Some Hang | Undefined \<Rightarrow> Some Undefined)))"

definition level2_search ::
  "u32 \<Rightarrow> u32 \<Rightarrow> (int \<Rightarrow> buddy \<Rightarrow> (u32 option \<times> buddy) outcome) \<Rightarrow> (u32 \<Rightarrow> u32) \<Rightarrow> mreg_state \<Rightarrow> (u32 \<times> mreg_state) outcome" where
  "level2_search reg sz alloc undo s =
     (if list_is_empty (free_buddies reg) (ms_links s) then Ret (0, s)
      else
        (let tmp = lnext (ms_links s) (free_buddies reg)
         in and_then (buddy_get_order_from_size (ms_buddy s (r_buddy (ms_region s tmp))) sz) (\<lambda>order.
              and_then (outcome_of (level2_loop reg (alloc order) order undo tmp s)) (\<lambda>r. r))))"

definition mreg_level2_allocate :: "u32 \<Rightarrow> u32 \<Rightarrow> mreg_state \<Rightarrow> (u32 \<times> mreg_state) outcome" where
  "mreg_level2_allocate reg sz = level2_search reg sz buddy_alloc (\<lambda>adr. adr)"

definition mreg_level2_allocate_at :: "u32 \<Rightarrow> u32 \<Rightarrow> u32 \<Rightarrow> mreg_state \<Rightarrow> (u32 \<times> mreg_state) outcome" where
  "mreg_level2_allocate_at reg adr sz = level2_search reg sz (buddy_alloc_at adr) (\<lambda>adr0. adr)"

definition mreg_level2_free :: "u32 \<Rightarrow> mreg_state \<Rightarrow> mreg_state outcome" where
  "mreg_level2_free item s =
     and_then (with_buddy (r_buddy (ms_region s item)) (\<lambda>t. Ret (buddy_free (r_start (ms_region s item)) t)) s)
       (\<lambda>(ok, s1). Ret (s1\<lparr>ms_heap := free item (ms_heap s1)\<rparr>))"

partial_function (option) shrink_loop :: "u32 \<Rightarrow> int \<Rightarrow> u32 \<Rightarrow> mreg_state \<Rightarrow> mreg_state outcome option" where
  "shrink_loop reg order tmp s =
     (if tmp = free_buddies reg then Some (Ret s)
      else if buddy_contains_order (ms_buddy s (r_buddy (ms_region s tmp))) order False
      then
        (let prv = lprev (ms_links s) tmp
         in (case mreg_level1_free reg tmp (snd (memregion_deattach_buddy tmp s)) of
               Ret s1 \<Rightarrow> shrink_loop reg order (lnext (ms_links s1) prv) s1
             | Panic msg \<Rightarrow> Some (Panic msg) | Hang \<Rightarrow> Some Hang | Undefined \<Rightarrow> Some Undefined))
      else shrink_loop reg order (lnext (ms_links s) tmp) s)"

definition mreg_level2_shrink :: "u32 \<Rightarrow> mreg_state \<Rightarrow> mreg_state outcome" where
  "mreg_level2_shrink reg s =
     and_then (outcome_of (shrink_loop reg (int MB_BITS - g_page_bits (ms_mreg s reg))
       (lnext (ms_links s) (free_buddies reg)) s)) (\<lambda>r. r)"

definition mreg_level2_expand :: "u32 \<Rightarrow> mreg_state \<Rightarrow> mreg_state outcome" where
  "mreg_level2_expand reg s =
     and_then (mreg_level1_allocate reg 1 s) (\<lambda>(item, s1).
       if item = 0 then Ret s1
       else and_then (memregion_attach_buddy reg item s1) (\<lambda>(ok, s2).
              if ok then Ret s2 else mreg_level1_free reg item s2))"

section \<open>The interface\<close>

definition mreg_create :: "int \<Rightarrow> mreg_state \<Rightarrow> (u32 \<times> mreg_state) outcome" where
  "mreg_create page_bits s =
     (if page_bits > int MB_BITS then Ret (0, s)
      else
        and_then (malloc 28 (ms_heap s)) (\<lambda>(ret, h).
          let s1 = s\<lparr>ms_heap := h\<rparr>
          in if ret = 0 then Ret (0, s1)
             else Ret (ret, s1\<lparr>ms_mreg := (ms_mreg s1)(ret := \<lparr>g_start = 0, g_end = 0, g_page_bits = page_bits\<rparr>),
                      ms_links := list_init (free_buddies ret) (list_init (free_megs ret) (ms_links s1))\<rparr>)))"

definition mreg_free :: "u32 \<Rightarrow> u32 \<Rightarrow> mreg_state \<Rightarrow> mreg_state outcome" where
  "mreg_free reg item s =
     (if item = 0 then Ret s
      else if r_flags (ms_region s item) AND IS_BUDDY_CHILD = 0 then mreg_level1_free reg item s
      else mreg_level2_free item s)"

text \<open>Attaching the pages before and after the whole megabytes; a failure is silent.\<close>

definition attach_pages :: "u32 \<Rightarrow> u32 \<Rightarrow> u32 \<Rightarrow> mreg_state \<Rightarrow> mreg_state outcome" where
  "attach_pages reg start stop s =
     and_then (memregion_alloc start stop s) (\<lambda>(tmp, s1).
       if tmp = 0 then Ret s1
       else and_then (memregion_attach_buddy reg tmp s1) (\<lambda>(ok, s2). Ret (if ok then s2 else memregion_free tmp s2)))"

definition mreg_region_attach :: "u32 \<Rightarrow> u32 \<Rightarrow> u32 \<Rightarrow> mreg_state \<Rightarrow> (bool \<times> mreg_state) outcome" where
  "mreg_region_attach reg adr sz s =
     (let bits = g_page_bits (ms_mreg s reg)
      in if bits < 0 \<or> bits \<ge> 32 then Undefined
         else
           (let page_size = push_bit (nat bits) 1
            in if sz < 2 * page_size then Ret (False, s)
               else
                 (let adr0 = ALIGN_UP adr page_size;
                      size0 = ALIGN_DOWN (sz + adr - adr0) page_size;
                      end0 = adr0 + size0 - 1;
                      adr1 = ALIGN_UP adr0 MB;
                      size1 = ALIGN_DOWN (size0 + adr0 - adr1) MB;
                      end1 = adr1 + size1 - 1
                  in and_then
                       (if size1 \<noteq> 0
                        then and_then (memregion_alloc adr1 end1 s) (\<lambda>(tmp, s1).
                               if tmp = 0 then Ret (False, s1) else and_then (mreg_free reg tmp s1) (\<lambda>s2. Ret (True, s2)))
                        else Ret (True, s))
                       (\<lambda>(ok, s2).
                         if \<not> ok then Ret (False, s2)
                         else
                           and_then (if adr0 < adr1 then attach_pages reg adr0 (adr1 - 1) s2 else Ret s2) (\<lambda>s3.
                           and_then (if end0 \<noteq> end1 \<and> end0 \<ge> 1 + end1 then attach_pages reg (end1 + 1) end0 s3 else Ret s3) (\<lambda>s4.
                           let g = ms_mreg s4 reg;
                               g1 = (if g_start g = 0 \<and> g_end g = 0 then g\<lparr>g_start := adr0, g_end := end0\<rparr>
                                     else g\<lparr>g_start := (if adr0 < g_start g then adr0 else g_start g),
                                            g_end := (if end0 > g_end g then end0 else g_end g)\<rparr>)
                           in Ret (True, s4\<lparr>ms_mreg := (ms_mreg s4)(reg := g1)\<rparr>)))))))"

definition mreg_alloc :: "u32 \<Rightarrow> u32 \<Rightarrow> mreg_state \<Rightarrow> (u32 \<times> mreg_state) outcome" where
  "mreg_alloc reg sz s =
     (let bits = g_page_bits (ms_mreg s reg)
      in if sz = 0 then Ret (0, s)
         else if bits < 0 \<or> bits \<ge> 32 then Undefined
         else
           (let sz1 = ALIGN_UP sz (push_bit (nat bits) 1)
            in if sz1 \<ge> MB
               then (let count = uint (drop_bit MB_BITS (ALIGN_UP sz1 MB))
                     in and_then (mreg_level1_allocate reg count s) (\<lambda>(ret, s1).
                          if ret \<noteq> 0 then Ret (ret, s1)
                          else and_then (mreg_level2_shrink reg s1) (mreg_level1_allocate reg count)))
               else and_then (mreg_level2_allocate reg sz1 s) (\<lambda>(ret, s1).
                      if ret \<noteq> 0 then Ret (ret, s1)
                      else and_then (mreg_level2_expand reg s1) (mreg_level2_allocate reg sz1))))"

definition mreg_alloc_at :: "u32 \<Rightarrow> u32 \<Rightarrow> u32 \<Rightarrow> mreg_state \<Rightarrow> (u32 \<times> mreg_state) outcome" where
  "mreg_alloc_at reg adr sz s =
     (let bits = g_page_bits (ms_mreg s reg)
      in if bits < 0 \<or> bits \<ge> 32 then Undefined
         else
           (let page_size = push_bit (nat bits) 1;
                adr0 = ALIGN_DOWN adr page_size;
                size0 = ALIGN_UP (sz + adr - adr0) page_size;
                adr1 = ALIGN_DOWN adr MB
            in if drop_bit MB_BITS adr0 \<noteq> drop_bit MB_BITS (adr0 + size0 - 1) then Ret (0, s)
               else
                 and_then (mreg_level2_allocate_at reg adr0 size0 s) (\<lambda>(tmp, s1).
                   if tmp \<noteq> 0 then Ret (tmp, s1)
                   else and_then (mreg_level1_allocate_at reg adr1 1 s1) (\<lambda>(tmp, s2).
                     if tmp = 0 then Ret (0, s2)
                     else and_then (memregion_attach_buddy reg tmp s2) (\<lambda>(ok, s3).
                            if ok then mreg_level2_allocate_at reg adr0 size0 s3
                            else and_then (mreg_level1_free reg tmp s3) (\<lambda>s4. Ret (0, s4)))))))"

end
