(* ===== verification/MregSpec.thy ===== *)
theory MregSpec
  imports Mreg BuddySpec
begin

text \<open>
  The first level of the region allocator: the chunks on the list as a set of free bytes, how it changes when a chunk is
  taken or given back.
\<close>

section \<open>Structures in the heap\<close>

definition held :: "heap_ctxt \<Rightarrow> u32 \<Rightarrow> nat \<Rightarrow> bool" where
  "held h p n \<longleftrightarrow> (\<exists>m\<ge>n. (unat p, m) \<in> in_use h)"

lemma held_not_0: "heap_ok h \<Longrightarrow> held h p n \<Longrightarrow> p \<noteq> 0"
  using in_use_bounds(1) by (fastforce simp: held_def)

lemma held_mono: "in_use h \<subseteq> in_use h' \<Longrightarrow> held h p n \<Longrightarrow> held h' p n"
  unfolding held_def by blast

lemma small_malloc:
  assumes "heap_ok h" "0 < n" "n < 2 ^ 30"
  shows "\<exists>q h'. malloc (of_nat n) h = Ret (q, h') \<and> heap_ok h' \<and> in_use h \<subseteq> in_use h'
    \<and> (if q = 0 then h' = h else held h' q n \<and> (\<forall>p k. 0 < k \<longrightarrow> held h p k \<longrightarrow> p \<noteq> q))"
proof -
  have n: "unat (of_nat n :: u32) = n" using assms(3) by (simp add: unat_addr)
  have s: "1 \<le> sint (of_nat n :: u32)" "sint (of_nat n :: u32) + 7 < 2 ^ 31"
    using small_int_word(1) [of "int n"] assms(2,3) by simp_all
  obtain q h' where q: "malloc (of_nat n) h = Ret (q, h')" "heap_ok h'"
      "if q = 0 then h' = h else \<exists>m\<ge>n. m \<le> n + 15 \<and> (unat q, m) \<notin> in_use h \<and> in_use h' = insert (unat q, m) (in_use h)"
    using malloc_regions [OF assms(1) s, unfolded n] by blast
  have "p \<noteq> q" if p: "q \<noteq> 0" "0 < k" "held h p k" for p k
  proof
    assume "p = q"
    then obtain m where m: "k \<le> m" "(unat q, m) \<in> in_use h" using p(3) by (auto simp: held_def)
    obtain m' where m': "n \<le> m'" "(unat q, m') \<notin> in_use h" "in_use h' = insert (unat q, m') (in_use h)"
      using q(3) p(1) by auto
    have "(unat q, m) \<noteq> (unat q, m')" using m(2) m'(2) by auto
    from heap.regs_disjoint [OF q(2) _ _ this] show False using m m' p(2) assms(2) by auto
  qed
  then show ?thesis using q by (auto simp: held_def split: if_splits)
qed

lemma free_held:
  assumes "heap_ok h" "held h q n"
  shows "heap_ok (free q h)" "held h p k \<Longrightarrow> p \<noteq> q \<Longrightarrow> held (free q h) p k"
proof -
  obtain m where m: "(unat q, m) \<in> in_use h" using assms(2) by (auto simp: held_def)
  note w = heap.release_works [OF assms(1) m]
  show "heap_ok (free q h)" using w by simp
  show "held (free q h) p k" if p: "held h p k" "p \<noteq> q"
  proof -
    obtain l where l: "k \<le> l" "(unat p, l) \<in> in_use h" using p(1) by (auto simp: held_def)
    then have "(unat p, l) \<in> in_use (free q h)" using w p(2) by (auto simp: word_unat_eq_iff)
    then show ?thesis using l(1) by (auto simp: held_def)
  qed
qed

text \<open>The roots of the lists lie in the structure of the region allocator, apart from every other one.\<close>

lemma inside_held:
  assumes "heap_ok h" "held h reg n" "i < n" "0 < i" "held h p k" "0 < k"
  shows "p \<noteq> reg + of_nat i"
proof
  assume p: "p = reg + of_nat i"
  obtain m k' where m: "n \<le> m" "(unat reg, m) \<in> in_use h" "k \<le> k'" "(unat p, k') \<in> in_use h"
    using assms(2,5) by (auto simp: held_def)
  have b: "unat reg + m < 2 ^ 32" by (rule in_use_bounds(2) [OF assms(1) m(2)])
  have "unat p = unat reg + i"
  proof -
    have "p = of_nat (unat reg + i)" unfolding p by simp
    moreover have "unat reg + i < 2 ^ 32" using b assms(3) m(1) by linarith
    ultimately show ?thesis using unat_addr by metis
  qed
  then show False using heap.regs_disjoint [OF assms(1) m(2,4)] m(1,3) assms(3,4,6) by auto
qed

section \<open>Chunks\<close>

definition region_bytes :: "mreg_state \<Rightarrow> u32 \<Rightarrow> nat set" where
  "region_bytes s p = {unat (r_start (ms_region s p))..unat (r_end (ms_region s p))}"

definition region_ok :: "mreg_state \<Rightarrow> u32 \<Rightarrow> bool" where
  "region_ok s p \<longleftrightarrow> held (ms_heap s) p 32 \<and> r_start (ms_region s p) \<le> r_end (ms_region s p)
     \<and> r_end (ms_region s p) + 1 \<noteq> r_start (ms_region s p)"

definition free_bytes :: "mreg_state \<Rightarrow> u32 list \<Rightarrow> nat set" where
  "free_bytes s xs = \<Union> (region_bytes s ` set xs)"

text \<open>The end of an address space that is free at both ends would be adjacent to its start.\<close>

definition level1 :: "u32 \<Rightarrow> mreg_state \<Rightarrow> u32 list \<Rightarrow> bool" where
  "level1 reg s xs \<longleftrightarrow> heap_ok (ms_heap s) \<and> held (ms_heap s) reg 28 \<and> list_rep (ms_links s) (free_megs reg) xs \<and> reg \<notin> set xs
     \<and> (\<forall>p\<in>set xs. region_ok s p) \<and> (\<forall>p\<in>set xs. \<forall>q\<in>set xs. p \<noteq> q \<longrightarrow> region_bytes s p \<inter> region_bytes s q = {})
     \<and> \<not> {0, 2 ^ 32 - 1} \<subseteq> free_bytes s xs"

lemma level1D:
  assumes "level1 reg s xs"
  shows "heap_ok (ms_heap s)" "held (ms_heap s) reg 28" "list_rep (ms_links s) (free_megs reg) xs"
    "p \<in> set xs \<Longrightarrow> region_ok s p" "p \<in> set xs \<Longrightarrow> q \<in> set xs \<Longrightarrow> p \<noteq> q \<Longrightarrow> region_bytes s p \<inter> region_bytes s q = {}"
    "p \<in> set xs \<Longrightarrow> p \<noteq> 0" "distinct xs" "0 \<notin> set xs" "region_ok s p \<Longrightarrow> p \<noteq> free_megs reg" "reg \<notin> set xs" "\<not> {0, 2 ^ 32 - 1} \<subseteq> free_bytes s xs"
proof -
  show "reg \<notin> set xs" "\<not> {0, 2 ^ 32 - 1} \<subseteq> free_bytes s xs" using assms by (simp_all add: level1_def)
  show h: "heap_ok (ms_heap s)" "held (ms_heap s) reg 28" and l: "list_rep (ms_links s) (free_megs reg) xs"
    and r: "p \<in> set xs \<Longrightarrow> region_ok s p" for p using assms by (simp_all add: level1_def)
  show "p \<in> set xs \<Longrightarrow> q \<in> set xs \<Longrightarrow> p \<noteq> q \<Longrightarrow> region_bytes s p \<inter> region_bytes s q = {}"
    using assms by (simp add: level1_def)
  show "p \<in> set xs \<Longrightarrow> p \<noteq> 0" for p using r held_not_0 [OF h(1)] by (auto simp: region_ok_def)
  then show "0 \<notin> set xs" by blast
  show "distinct xs" using l by (simp add: list_rep_def)
  show "region_ok s p \<Longrightarrow> p \<noteq> free_megs reg"
    using inside_held [OF h, of 12 p 32] by (simp add: region_ok_def free_megs_def)
qed

definition region_len :: "mreg_state \<Rightarrow> u32 \<Rightarrow> u32" where
  "region_len s p = r_end (ms_region s p) - r_start (ms_region s p) + 1"

lemma region_len_unat:
  assumes "region_ok s p"
  shows "unat (region_len s p) = unat (r_end (ms_region s p)) + 1 - unat (r_start (ms_region s p))"
    "unat (region_len s p) = card (region_bytes s p)"
proof -
  have le: "r_start (ms_region s p) \<le> r_end (ms_region s p)" "r_end (ms_region s p) + 1 \<noteq> r_start (ms_region s p)"
    using assms by (simp_all add: region_ok_def)
  have d: "unat (r_end (ms_region s p) - r_start (ms_region s p)) = unat (r_end (ms_region s p)) - unat (r_start (ms_region s p))"
    using le(1) by (rule unat_sub)
  have "1 + (r_end (ms_region s p) - r_start (ms_region s p)) \<noteq> 0" using le(2) by (simp add: algebra_simps)
  then have "unat (region_len s p) = unat (r_end (ms_region s p) - r_start (ms_region s p)) + 1"
    unfolding region_len_def by (metis Suc_eq_plus1 add.commute unatSuc)
  then show "unat (region_len s p) = unat (r_end (ms_region s p)) + 1 - unat (r_start (ms_region s p))"
    using d le(1) by (simp add: word_le_nat_alt)
  then show "unat (region_len s p) = card (region_bytes s p)" by (simp add: region_bytes_def)
qed

section \<open>Searching the list\<close>

lemma find_region_from:
  assumes "linked (ms_links s) a ys root" "root \<notin> set ys"
  shows "find_region s root P (lnext (ms_links s) a) = Some (case find (\<lambda>p. P (ms_region s p)) ys of None \<Rightarrow> 0 | Some p \<Rightarrow> p)"
  using assms
proof (induction ys arbitrary: a)
  case Nil
  then show ?case by (subst find_region.simps) simp
next
  case (Cons y ys)
  then show ?case by (subst find_region.simps) auto
qed

lemma find_region_rep:
  assumes "level1 reg s xs"
  shows "\<exists>p. find_region s (free_megs reg) P (lnext (ms_links s) (free_megs reg)) = Some p
    \<and> (if p = 0 then \<forall>q\<in>set xs. \<not> P (ms_region s q) else p \<in> set xs \<and> P (ms_region s p))"
proof -
  note l = level1D [OF assms]
  have f: "find_region s (free_megs reg) P (lnext (ms_links s) (free_megs reg))
      = Some (case find (\<lambda>p. P (ms_region s p)) xs of None \<Rightarrow> 0 | Some p \<Rightarrow> p)"
    using l(3) by (intro find_region_from) (simp_all add: list_rep_def)
  show ?thesis
  proof (cases "find (\<lambda>p. P (ms_region s p)) xs")
    case None
    then have "\<forall>q\<in>set xs. \<not> P (ms_region s q)" by (auto simp: find_None_iff)
    then show ?thesis using f None by simp
  next
    case (Some p)
    then have "p \<in> set xs" "P (ms_region s p)" by (auto simp: find_Some_iff)
    then show ?thesis using f Some l(6) by simp
  qed
qed

lemma best_chunk_from:
  assumes "linked (ms_links s) a ys root" "root \<notin> set ys" "0 \<notin> set ys" "b = 0 \<or> bs = region_len s b \<and> sz \<le> bs"
  shows "\<exists>c cs. best_chunk s root sz (lnext (ms_links s) a) b bs = Some (c, cs)
    \<and> (if c = 0 then b = 0 \<and> (\<forall>q\<in>set ys. region_len s q < sz)
       else (c = b \<or> c \<in> set ys) \<and> cs = region_len s c \<and> sz \<le> cs \<and> (b \<noteq> 0 \<longrightarrow> cs \<le> bs)
         \<and> (\<forall>q\<in>set ys. sz \<le> region_len s q \<longrightarrow> cs \<le> region_len s q))"
  using assms
proof (induction ys arbitrary: a b bs)
  case Nil
  then show ?case by (subst best_chunk.simps) auto
next
  case (Cons y ys)
  let ?take = "sz \<le> region_len s y \<and> (b = 0 \<or> region_len s y < bs)"
  have y: "lnext (ms_links s) a = y" "y \<noteq> root" "y \<noteq> 0" "linked (ms_links s) y ys root" "root \<notin> set ys" "0 \<notin> set ys"
    using Cons.prems by auto
  have step: "best_chunk s root sz (lnext (ms_links s) a) b bs =
      (if ?take then best_chunk s root sz (lnext (ms_links s) y) y (region_len s y) else best_chunk s root sz (lnext (ms_links s) y) b bs)"
    using y by (subst best_chunk.simps) (auto simp: region_len_def Let_def)
  show ?case
  proof (cases ?take)
    case True
    obtain c cs where c: "best_chunk s root sz (lnext (ms_links s) y) y (region_len s y) = Some (c, cs)"
        "if c = 0 then y = 0 \<and> (\<forall>q\<in>set ys. region_len s q < sz)
         else (c = y \<or> c \<in> set ys) \<and> cs = region_len s c \<and> sz \<le> cs \<and> (y \<noteq> 0 \<longrightarrow> cs \<le> region_len s y)
           \<and> (\<forall>q\<in>set ys. sz \<le> region_len s q \<longrightarrow> cs \<le> region_len s q)"
      using Cons.IH [OF y(4-6), of y "region_len s y"] True by auto
    have "best_chunk s root sz (lnext (ms_links s) a) b bs = Some (c, cs)" using step True c(1) by simp
    then show ?thesis using c(2) y(3) True by (intro exI [of _ c] exI [of _ cs]) (auto split: if_splits)
  next
    case False
    obtain c cs where c: "best_chunk s root sz (lnext (ms_links s) y) b bs = Some (c, cs)"
        "if c = 0 then b = 0 \<and> (\<forall>q\<in>set ys. region_len s q < sz)
         else (c = b \<or> c \<in> set ys) \<and> cs = region_len s c \<and> sz \<le> cs \<and> (b \<noteq> 0 \<longrightarrow> cs \<le> bs)
           \<and> (\<forall>q\<in>set ys. sz \<le> region_len s q \<longrightarrow> cs \<le> region_len s q)"
      using Cons.IH [OF y(4-6) Cons.prems(4)] by blast
    have "best_chunk s root sz (lnext (ms_links s) a) b bs = Some (c, cs)" using step False c(1) by simp
    then show ?thesis using c(2) y(3) False by (intro exI [of _ c] exI [of _ cs]) (auto split: if_splits)
  qed
qed

section \<open>What stays the same\<close>

lemma linked_ends:
  assumes "linked s a xs b"
  shows "lnext s a \<in> set (xs @ [b])" "lprev s b \<in> set (a # xs)"
  using assms by (induction xs arbitrary: a) auto

lemma list_add_outside:
  assumes "list_rep s root xs" "list_add root item s = Some t" "n \<notin> insert item (set (root # xs))"
  shows "lnext t n = lnext s n" "lprev t n = lprev s n"
proof -
  have "lnext s root \<in> set (root # xs)" using assms(1) linked_ends(1) by (fastforce simp: list_rep_def)
  moreover have "t = s \<or> t = list_add_between root (lnext s root) item s"
    using assms(1,2) by (auto simp: list_add_def list_find_rep)
  ultimately show "lnext t n = lnext s n" "lprev t n = lprev s n" using assms(3) by (auto simp: list_add_between_def)
qed

lemma list_remove_outside:
  assumes "list_rep s root (us @ item # vs)" "n \<notin> set (root # us @ item # vs)"
  shows "lnext (list_remove item s) n = lnext s n" "lprev (list_remove item s) n = lprev s n"
proof -
  have "linked s root us item" "linked s item vs root" using assms(1) by (simp_all add: list_rep_def linked_append)
  then have "lprev s item \<in> set (root # us)" "lnext s item \<in> set (vs @ [root])" by (auto dest: linked_ends)
  then show "lnext (list_remove item s) n = lnext s n" "lprev (list_remove item s) n = lprev s n"
    using assms(2) by (auto simp: list_remove_def Let_def)
qed

lemma list_rep_outside:
  assumes "list_rep s root xs" "\<And>n. n \<in> set (root # xs) \<Longrightarrow> lnext t n = lnext s n \<and> lprev t n = lprev s n"
  shows "list_rep t root xs"
  using assms linked_frame [of s root xs root t] by (auto simp: list_rep_def)

text \<open>Only the structures at \<open>N\<close> change.\<close>

definition outside :: "u32 set \<Rightarrow> mreg_state \<Rightarrow> mreg_state \<Rightarrow> bool" where
  "outside N s t \<longleftrightarrow> (\<forall>n. n \<notin> N \<longrightarrow> lnext (ms_links t) n = lnext (ms_links s) n \<and> lprev (ms_links t) n = lprev (ms_links s) n
       \<and> ms_region t n = ms_region s n \<and> (\<forall>k. held (ms_heap s) n k \<longrightarrow> held (ms_heap t) n k))
     \<and> ms_mreg t = ms_mreg s \<and> ms_buddy t = ms_buddy s"

lemma outside_refl: "outside N s s"
  by (simp add: outside_def)

lemma outside_trans: "outside N s t \<Longrightarrow> outside N' t u \<Longrightarrow> N' \<subseteq> N \<Longrightarrow> outside N s u"
  unfolding outside_def by (metis subsetD)

section \<open>Taking a chunk off the list, and putting one on\<close>

lemma region_upd [simp]:
  "ms_region (set_region p f s) = (ms_region s)(p := f (ms_region s p))" "ms_heap (set_region p f s) = ms_heap s"
  "ms_links (set_region p f s) = ms_links s" "ms_mreg (set_region p f s) = ms_mreg s" "ms_buddy (set_region p f s) = ms_buddy s"
  "ms_region (unlink_region p s) = ms_region s" "ms_heap (unlink_region p s) = ms_heap s"
  "ms_region (memregion_free p s) = ms_region s" "ms_links (memregion_free p s) = ms_links s"
  "ms_heap (memregion_free p s) = free p (ms_heap s)" "ms_links (unlink_region p s) = list_remove p (ms_links s)"
  "ms_mreg (unlink_region p s) = ms_mreg s" "ms_buddy (unlink_region p s) = ms_buddy s"
  "ms_mreg (memregion_free p s) = ms_mreg s" "ms_buddy (memregion_free p s) = ms_buddy s"
  by (simp_all add: set_region_def unlink_region_def memregion_free_def)

lemma region_cong:
  "ms_region t p = ms_region s p \<Longrightarrow> region_bytes t p = region_bytes s p"
  "ms_region t p = ms_region s p \<Longrightarrow> region_len t p = region_len s p"
  by (simp_all add: region_bytes_def region_len_def)

lemma unlink_level1:
  assumes "level1 reg s (us @ p # vs)"
  shows "level1 reg (unlink_region p s) (us @ vs)" "p \<notin> set (us @ vs)" "region_ok (unlink_region p s) p"
    "free_bytes (unlink_region p s) (us @ vs) = free_bytes s (us @ p # vs) - region_bytes s p"
    "region_bytes s p \<inter> free_bytes s (us @ vs) = {}"
proof -
  note l = level1D [OF assms]
  have same: "region_bytes (unlink_region p s) q = region_bytes s q" "region_ok (unlink_region p s) q = region_ok s q" for q
    by (simp_all add: region_bytes_def region_ok_def)
  show p: "p \<notin> set (us @ vs)" using l(7) by auto
  show "region_ok (unlink_region p s) p" unfolding same using l(4) by simp
  show d: "region_bytes s p \<inter> free_bytes s (us @ vs) = {}"
    using l(5) [of p] p by (auto simp: free_bytes_def)
  show f: "free_bytes (unlink_region p s) (us @ vs) = free_bytes s (us @ p # vs) - region_bytes s p"
    using d unfolding free_bytes_def same by auto
  have "\<not> {0, 2 ^ 32 - 1} \<subseteq> free_bytes (unlink_region p s) (us @ vs)" using l(11) unfolding f by blast
  then show "level1 reg (unlink_region p s) (us @ vs)"
    using l(1-5,10) list_remove_rep(1) [OF l(3)] unfolding level1_def same by auto
qed

lemma link_level1:
  assumes "level1 reg s xs" "region_ok s p" "p \<notin> set xs" "region_bytes s p \<inter> free_bytes s xs = {}" "p \<noteq> reg"
    "\<not> {0, 2 ^ 32 - 1} \<subseteq> region_bytes s p \<union> free_bytes s xs"
  obtains t where "link_region (free_megs reg) p s = Ret t" "level1 reg t (p # xs)" "ms_region t = ms_region s" "ms_heap t = ms_heap s"
    "outside (insert p (set (free_megs reg # xs))) s t" "free_bytes t (p # xs) = region_bytes s p \<union> free_bytes s xs"
proof -
  note l = level1D [OF assms(1)]
  obtain u where u: "list_add (free_megs reg) p (ms_links s) = Some u" "list_rep u (free_megs reg) (p # xs)"
    using list_add_rep [OF l(3) l(9) [OF assms(2)]] assms(3) by auto
  let ?t = "s\<lparr>ms_links := u\<rparr>"
  have same: "region_bytes ?t q = region_bytes s q" "region_ok ?t q = region_ok s q" for q
    by (simp_all add: region_bytes_def region_ok_def)
  have d: "\<forall>q\<in>set xs. region_bytes s p \<inter> region_bytes s q = {}" using assms(4) by (auto simp: free_bytes_def)
  have f: "free_bytes ?t (p # xs) = region_bytes s p \<union> free_bytes s xs" by (simp add: free_bytes_def same)
  have "level1 reg ?t (p # xs)" using l(1,2,4,5,10) u(2) assms(2,3,5,6) d unfolding level1_def same f by (auto simp: Int_commute)
  moreover have "link_region (free_megs reg) p s = Ret ?t" using u(1) by (simp add: link_region_def outcome_of_def)
  moreover have "outside (insert p (set (free_megs reg # xs))) s ?t"
    using list_add_outside [OF l(3) u(1)] by (simp add: outside_def)
  ultimately show ?thesis using f that [of ?t] by simp
qed

text \<open>A change to the end of regions on the list, and to regions off it.\<close>

lemma level1_change:
  assumes "level1 reg s xs" "\<And>q. q \<in> set xs \<Longrightarrow> ms_region t q = ms_region s q" "ms_links t = ms_links s"
    "heap_ok (ms_heap t)" "held (ms_heap t) reg 28" "\<And>q. q \<in> set xs \<Longrightarrow> held (ms_heap t) q 32"
  shows "level1 reg t xs" "free_bytes t xs = free_bytes s xs"
proof -
  note l = level1D [OF assms(1)]
  have same: "region_bytes t q = region_bytes s q" "region_ok t q" if "q \<in> set xs" for q
    using assms(2,6) [OF that] l(4) [OF that] by (simp_all add: region_bytes_def region_ok_def)
  show f: "free_bytes t xs = free_bytes s xs" using same by (simp add: free_bytes_def)
  show "level1 reg t xs" using l(3,5,10,11) assms(3-5) same unfolding level1_def f by auto
qed

lemma memregion_alloc_cases:
  assumes "heap_ok (ms_heap s)"
  shows "memregion_alloc a b s = Ret (0, s)
    \<or> (\<exists>q t. memregion_alloc a b s = Ret (q, t) \<and> q \<noteq> 0 \<and> held (ms_heap t) q 32 \<and> heap_ok (ms_heap t)
        \<and> (\<forall>p k. 0 < k \<longrightarrow> held (ms_heap s) p k \<longrightarrow> p \<noteq> q \<and> held (ms_heap t) p k)
        \<and> ms_region t = (ms_region s)(q := \<lparr>r_start = a, r_end = b, r_flags = 0, r_buddy = 0\<rparr>)
        \<and> ms_links t = ms_links s \<and> ms_mreg t = ms_mreg s \<and> ms_buddy t = ms_buddy s)"
proof -
  obtain q h where q: "malloc 32 (ms_heap s) = Ret (q, h)" "heap_ok h" "in_use (ms_heap s) \<subseteq> in_use h"
      "if q = 0 then h = ms_heap s else held h q 32 \<and> (\<forall>p k. 0 < k \<longrightarrow> held (ms_heap s) p k \<longrightarrow> p \<noteq> q)"
    using small_malloc [OF assms, of 32] by auto
  then show ?thesis using held_mono [OF q(3)] by (simp add: memregion_alloc_def Let_def)
qed

section \<open>Allocating chunks\<close>

lemma split_level1:
  assumes lv: "level1 reg s xs" and p: "region_ok s p" "p \<notin> set xs" "region_bytes s p \<inter> free_bytes s xs = {}"
      "\<not> {0, 2 ^ 32 - 1} \<subseteq> region_bytes s p \<union> free_bytes s xs"
    and sz: "0 < sz" "sz < region_len s p"
  shows "mreg_level1_split reg p sz True s = Ret (0, s)
    \<or> (\<exists>q t. mreg_level1_split reg p sz True s = Ret (p, t) \<and> level1 reg t (q # xs) \<and> p \<notin> set (q # xs) \<and> region_ok t p
        \<and> region_len t p = sz \<and> region_bytes t p \<subseteq> region_bytes s p
        \<and> free_bytes t (q # xs) = free_bytes s xs \<union> (region_bytes s p - region_bytes t p))"
proof -
  note l = level1D [OF lv]
  define a e z where "a = unat (r_start (ms_region s p))" and "e = unat (r_end (ms_region s p))" and "z = unat sz"
  have e32: "e < 2 ^ 32" using unsigned_less [of "r_end (ms_region s p)", where 'a = nat] by (simp add: e_def)
  have az: "0 < z" "a + z \<le> e"
    using p(1) sz region_len_unat(1) [OF p(1)]
    by (simp_all add: region_ok_def a_def e_def z_def word_less_nat_alt word_greater_zero_iff unat_gt_0)
  have u1: "unat (r_start (ms_region s p) + sz) = a + z"
    using az e32 by (subst unat_add_lem [THEN iffD1]) (simp_all add: a_def z_def)
  have u2: "unat (r_start (ms_region s p) + sz - 1) = a + z - 1"
    using az u1 by (subst unat_sub) (simp_all add: word_le_nat_alt)
  from memregion_alloc_cases [OF l(1), of "r_start (ms_region s p) + sz" "r_end (ms_region s p)"] show ?thesis
  proof (elim disjE exE conjE)
    assume "memregion_alloc (r_start (ms_region s p) + sz) (r_end (ms_region s p)) s = Ret (0, s)"
    then show ?thesis by (simp add: mreg_level1_split_def Let_def)
  next
    fix q s1
    assume r: "memregion_alloc (r_start (ms_region s p) + sz) (r_end (ms_region s p)) s = Ret (q, s1)" "q \<noteq> 0"
        "held (ms_heap s1) q 32" "heap_ok (ms_heap s1)"
        "\<forall>p k. 0 < k \<longrightarrow> held (ms_heap s) p k \<longrightarrow> p \<noteq> q \<and> held (ms_heap s1) p k"
        "ms_region s1 = (ms_region s)(q := \<lparr>r_start = r_start (ms_region s p) + sz, r_end = r_end (ms_region s p), r_flags = 0, r_buddy = 0\<rparr>)"
        "ms_links s1 = ms_links s"
    have old: "x \<noteq> q" "held (ms_heap s1) x 32" if "region_ok s x" for x
      using r(5) [rule_format, of 32 x] that by (simp_all add: region_ok_def)
    let ?s2 = "set_region p (\<lambda>r. r\<lparr>r_end := r_start r + sz - 1\<rparr>) s1"
    have pq: "p \<noteq> q" by (rule old(1) [OF p(1)])
    have x: "ms_region ?s2 x = ms_region s x" if "x \<in> set xs" for x
      using old(1) [OF l(4) [OF that]] that p(2) r(6) by auto
    have lv2: "level1 reg ?s2 xs" "free_bytes ?s2 xs = free_bytes s xs"
      using level1_change [OF lv, of ?s2] r(4,7) r(5) [rule_format, of 28 reg] l(2) old(2) l(4) x by simp_all
    have reg_p: "r_start (ms_region ?s2 p) = r_start (ms_region s p)" "r_end (ms_region ?s2 p) = r_start (ms_region s p) + sz - 1"
      and reg_q: "r_start (ms_region ?s2 q) = r_start (ms_region s p) + sz" "r_end (ms_region ?s2 q) = r_end (ms_region s p)"
      using pq r(6) by simp_all
    have bytes: "region_bytes ?s2 p = {a..a + z - 1}" "region_bytes ?s2 q = {a + z..e}" "region_bytes s p = {a..e}"
      unfolding region_bytes_def reg_p reg_q u1 u2 by (simp_all add: a_def e_def)
    have u3: "r_end (ms_region s p) + 1 \<noteq> r_start (ms_region s p) + sz"
    proof
      assume "r_end (ms_region s p) + 1 = r_start (ms_region s p) + sz"
      moreover have "region_len s p = (r_end (ms_region s p) + 1) - r_start (ms_region s p)" by (simp add: region_len_def)
      ultimately have "region_len s p = sz" by simp
      then show False using sz(2) by simp
    qed
    have ok: "region_ok ?s2 p" "region_ok ?s2 q"
      unfolding region_ok_def reg_p reg_q using old(2) [OF p(1)] r(3) az u1 u2 u3 sz(1)
      by (auto simp: word_le_nat_alt a_def [symmetric] e_def [symmetric])
    have qreg: "q \<noteq> reg" using r(5) [rule_format, of 28 reg] l(2) by auto
    have q: "q \<notin> set xs" using old(1) l(4) by blast
    have "{a + z..e} \<subseteq> {a..e}" by simp
    with p(3) have disj: "region_bytes ?s2 q \<inter> free_bytes ?s2 xs = {}" using p(3) unfolding bytes lv2(2) by blast
    have nw: "\<not> {0, 2 ^ 32 - 1} \<subseteq> region_bytes ?s2 q \<union> free_bytes ?s2 xs" using p(4) \<open>{a + z..e} \<subseteq> {a..e}\<close> unfolding bytes lv2(2) by blast
    obtain t where t: "link_region (free_megs reg) q ?s2 = Ret t" "level1 reg t (q # xs)" "ms_region t = ms_region ?s2" "ms_heap t = ms_heap ?s2"
        "free_bytes t (q # xs) = region_bytes ?s2 q \<union> free_bytes ?s2 xs"
      by (rule link_level1 [OF lv2(1) ok(2) q disj qreg nw])
    have tp: "region_bytes t p = {a..a + z - 1}" "region_len t p = region_len ?s2 p" "region_ok t p = region_ok ?s2 p"
      using bytes(1) t(3,4) by (simp_all add: region_bytes_def region_len_def region_ok_def)
    have "region_len ?s2 p = sz" unfolding region_len_def reg_p by simp
    moreover have "region_bytes s p - region_bytes t p = {a + z..e}" using az unfolding bytes(3) tp(1) by auto
    moreover have "mreg_level1_split reg p sz True s = Ret (p, t)" using r(1,2) t(1) by (simp add: mreg_level1_split_def Let_def)
    ultimately show ?thesis using t(2,5) tp ok(1) p(2) pq az unfolding bytes lv2(2) by (intro disjI2 exI [of _ q] exI [of _ t]) auto
  qed
qed

lemma level1_allocate_rep:
  assumes lv: "level1 reg s xs" and ct: "0 < cnt" "cnt < 2 ^ 11"
  shows "(\<exists>p t ys. mreg_level1_allocate reg (int cnt) s = Ret (p, t) \<and> p \<in> set xs \<and> p \<notin> set ys \<and> level1 reg t ys \<and> region_ok t p
      \<and> (card (region_bytes t p) = cnt * 2 ^ 20 \<or> region_bytes t p = region_bytes s p)
      \<and> cnt * 2 ^ 20 \<le> card (region_bytes s p)
      \<and> (\<forall>q\<in>set xs. cnt * 2 ^ 20 \<le> card (region_bytes s q) \<longrightarrow> card (region_bytes s p) \<le> card (region_bytes s q))
      \<and> region_bytes t p \<subseteq> free_bytes s xs \<and> free_bytes t ys = free_bytes s xs - region_bytes t p)
    \<or> mreg_level1_allocate reg (int cnt) s = Ret (0, s) \<and> (\<forall>q\<in>set xs. card (region_bytes s q) < cnt * 2 ^ 20)"
proof -
  note l = level1D [OF lv]
  define sz :: u32 where "sz = push_bit 20 (of_int (int cnt))"
  have "cnt * 2 ^ 20 < 2 ^ 32" using ct(2) by simp
  moreover have "sz = of_nat (cnt * 2 ^ 20)" by (simp add: sz_def push_bit_eq_mult)
  ultimately have usz: "unat sz = cnt * 2 ^ 20" using unat_addr by metis
  have len: "(sz \<le> region_len s q) = (cnt * 2 ^ 20 \<le> card (region_bytes s q))"
    "(region_len s q < sz) = (card (region_bytes s q) < cnt * 2 ^ 20)" if "q \<in> set xs" for q
    unfolding word_le_nat_alt word_less_nat_alt usz region_len_unat(2) [OF l(4) [OF that]] by simp_all
  have lk: "linked (ms_links s) (free_megs reg) xs (free_megs reg)" "free_megs reg \<notin> set xs" using l(3) by (simp_all add: list_rep_def)
  obtain c cs where c: "best_chunk s (free_megs reg) sz (lnext (ms_links s) (free_megs reg)) 0 0 = Some (c, cs)"
      "if c = 0 then \<forall>q\<in>set xs. region_len s q < sz
       else c \<in> set xs \<and> cs = region_len s c \<and> sz \<le> cs \<and> (\<forall>q\<in>set xs. sz \<le> region_len s q \<longrightarrow> cs \<le> region_len s q)"
    using best_chunk_from [OF lk l(8), of 0 0 sz] by (fastforce split: if_splits)
  have cn: "0 \<le> int cnt" "\<not> 2 ^ 11 \<le> int cnt" using ct(2) by simp_all
  have run: "mreg_level1_allocate reg (int cnt) s = (if c = 0 then Ret (0, s)
      else let s1 = unlink_region c s in if cs > sz then and_then (mreg_level1_split reg c sz True s1) (\<lambda>(tmp, s2). Ret (c, s2)) else Ret (c, s1))"
    unfolding mreg_level1_allocate_def sz_def [symmetric] Let_def using cn c(1) by (simp add: outcome_of_def)
  show ?thesis
  proof (cases "c = 0")
    case True
    then show ?thesis using run c(2) len(2) by simp
  next
    case False
    then have cin: "c \<in> set xs" "cs = region_len s c" "sz \<le> cs" "\<forall>q\<in>set xs. sz \<le> region_len s q \<longrightarrow> cs \<le> region_len s q" using c(2) by auto
    obtain us vs where xs: "xs = us @ c # vs" using split_list [OF cin(1)] by blast
    let ?s1 = "unlink_region c s"
    note u = unlink_level1 [OF lv [unfolded xs]]
    have same: "region_bytes ?s1 c = region_bytes s c" "region_len ?s1 c = region_len s c" by (simp_all add: region_bytes_def region_len_def)
    have least: "cnt * 2 ^ 20 \<le> card (region_bytes s q) \<longrightarrow> card (region_bytes s c) \<le> card (region_bytes s q)" if "q \<in> set xs" for q
      using cin(4) [rule_format, OF that] len(1) [OF that] region_len_unat(2) [OF l(4) [OF that]] region_len_unat(2) [OF l(4) [OF cin(1)]]
      unfolding cin(2) word_le_nat_alt by auto
    have big: "cnt * 2 ^ 20 \<le> card (region_bytes s c)" using cin len(1) by simp
    have sub: "region_bytes s c \<subseteq> free_bytes s xs" using cin(1) by (auto simp: free_bytes_def)
    have whole: ?thesis if "mreg_level1_allocate reg (int cnt) s = Ret (c, ?s1)"
      using that u cin(1) least big sub same(1) unfolding xs [symmetric]
      by (intro disjI1 exI [of _ c] exI [of _ ?s1] exI [of _ "us @ vs"]) simp
    show ?thesis
    proof (cases "sz < cs")
      case False
      then show ?thesis using run \<open>c \<noteq> 0\<close> by (intro whole) simp
    next
      case True
      have disj: "region_bytes ?s1 c \<inter> free_bytes ?s1 (us @ vs) = {}" unfolding u(4) same(1) by blast
      have "0 < unat sz" using usz ct(1) by simp
      then have sz0: "0 < sz" by (simp add: unat_gt_0 word_greater_zero_iff)
      have nw: "\<not> {0, 2 ^ 32 - 1} \<subseteq> region_bytes ?s1 c \<union> free_bytes ?s1 (us @ vs)"
        using l(11) sub unfolding u(4) same(1) xs [symmetric] by blast
      from split_level1 [OF u(1,3,2) disj nw sz0] True cin(2) same(2) consider
          "mreg_level1_split reg c sz True ?s1 = Ret (0, ?s1)"
        | q t where "mreg_level1_split reg c sz True ?s1 = Ret (c, t)" "level1 reg t (q # us @ vs)" "c \<notin> set (q # us @ vs)" "region_ok t c"
            "region_len t c = sz" "region_bytes t c \<subseteq> region_bytes ?s1 c"
            "free_bytes t (q # us @ vs) = free_bytes ?s1 (us @ vs) \<union> (region_bytes ?s1 c - region_bytes t c)" by auto
      then show ?thesis
      proof cases
        case 1
        then show ?thesis using run \<open>c \<noteq> 0\<close> True by (intro whole) simp
      next
        case 2
        have "card (region_bytes t c) = cnt * 2 ^ 20" using region_len_unat(2) [OF 2(4)] 2(5) usz by simp
        moreover have "free_bytes t (q # us @ vs) = free_bytes s xs - region_bytes t c"
          using 2(6,7) sub u(4) unfolding same(1) xs [symmetric] by blast
        moreover have "region_bytes t c \<subseteq> free_bytes s xs" using 2(6) sub unfolding same(1) by blast
        moreover have "mreg_level1_allocate reg (int cnt) s = Ret (c, t)" using run \<open>c \<noteq> 0\<close> True 2(1) by simp
        ultimately show ?thesis using 2(2-4) cin(1) least big
          by (intro disjI1 exI [of _ c] exI [of _ t] exI [of _ "q # us @ vs"]) simp
      qed
    qed
  qed
qed

section \<open>Giving chunks back\<close>

text \<open>No free chunk ends where another starts, but for chunks of \<open>M\<close>.\<close>

definition apart :: "mreg_state \<Rightarrow> u32 list \<Rightarrow> u32 set \<Rightarrow> bool" where
  "apart s xs M \<longleftrightarrow> (\<forall>p\<in>set xs - M. \<forall>q\<in>set xs. r_end (ms_region s p) + 1 \<noteq> r_start (ms_region s q))"

lemma apartD: "apart s xs M \<Longrightarrow> p \<in> set xs \<Longrightarrow> p \<notin> M \<Longrightarrow> q \<in> set xs \<Longrightarrow> r_end (ms_region s p) + 1 \<noteq> r_start (ms_region s q)"
  unfolding apart_def by blast

lemma region_ends: "region_ok s p \<Longrightarrow> r_end (ms_region s p) + 1 \<noteq> r_start (ms_region s p)"
  by (simp add: region_ok_def)

lemma ends_meet:
  assumes lv: "level1 reg s xs" and in_xs: "p \<in> set xs" "q \<in> set xs" and e: "r_end (ms_region s p) + 1 = r_start (ms_region s q)"
  shows "unat (r_end (ms_region s p)) + 1 = unat (r_start (ms_region s q))"
proof -
  note l = level1D [OF lv]
  have le: "r_start (ms_region s p) \<le> r_end (ms_region s p)" "r_start (ms_region s q) \<le> r_end (ms_region s q)"
    using l(4) in_xs by (simp_all add: region_ok_def)
  have "1 + r_end (ms_region s p) \<noteq> 0"
  proof
    assume z: "1 + r_end (ms_region s p) = 0"
    then have "r_end (ms_region s p) = - 1" "r_start (ms_region s q) = 0" using e by (simp_all add: eq_neg_iff_add_eq_0 add.commute)
    then have "2 ^ 32 - 1 \<in> region_bytes s p" "0 \<in> region_bytes s q"
      using le by (simp_all add: region_bytes_def word_le_nat_alt unsigned_minus_1_eq_mask mask_eq_exp_minus_1)
    then show False using l(11) in_xs by (auto simp: free_bytes_def)
  qed
  then show ?thesis unfolding e [symmetric] using unatSuc [of "r_end (ms_region s p)"] by (simp add: add.commute)
qed

text \<open>The second of two adjacent chunks joins the first.\<close>

lemma absorb_level1:
  assumes lv: "level1 reg s (us @ q # vs)" and p: "p \<in> set (us @ vs)" and adj: "r_end (ms_region s p) + 1 = r_start (ms_region s q)"
    and t: "t = memregion_free q (set_region p (\<lambda>r. r\<lparr>r_end := r_end (ms_region s q)\<rparr>) (unlink_region q s))"
  shows "level1 reg t (us @ vs)" "free_bytes t (us @ vs) = free_bytes s (us @ q # vs)"
    "ms_region t = (ms_region s)(p := (ms_region s p)\<lparr>r_end := r_end (ms_region s q)\<rparr>)"
    "outside (set (free_megs reg # us @ q # vs)) s t"
proof -
  note l = level1D [OF lv]
  have in_q: "q \<in> set (us @ q # vs)" and in_p: "p \<in> set (us @ q # vs)" using p by auto
  have pq: "p \<noteq> q" using p l(7) by auto
  show reg: "ms_region t = (ms_region s)(p := (ms_region s p)\<lparr>r_end := r_end (ms_region s q)\<rparr>)" unfolding t by simp
  note ok = l(4) [OF in_p] l(4) [OF in_q]
  have end_p: "unat (r_end (ms_region s p)) + 1 = unat (r_start (ms_region s q))" by (rule ends_meet [OF lv in_p in_q adj])
  have les: "unat (r_start (ms_region s p)) \<le> unat (r_end (ms_region s p))" "unat (r_start (ms_region s q)) \<le> unat (r_end (ms_region s q))"
    using ok by (simp_all add: region_ok_def word_le_nat_alt)
  have end_q: "r_end (ms_region s q) + 1 \<noteq> r_start (ms_region s p)" using ends_meet [OF lv in_q in_p] end_p les by fastforce
  have bytes_p: "region_bytes t p = region_bytes s p \<union> region_bytes s q"
    using end_p les unfolding region_bytes_def reg by auto
  have bytes: "region_bytes t x = region_bytes s x" if "x \<noteq> p" for x using that by (simp add: region_bytes_def reg)
  have hq: "held (ms_heap s) q 32" using ok(2) by (simp add: region_ok_def)
  have heap: "ms_heap t = free q (ms_heap s)" unfolding t by simp
  note fh = free_held [OF l(1) hq, folded heap]
  show "outside (set (free_megs reg # us @ q # vs)) s t"
    using list_remove_outside [OF l(3)] fh(2) p unfolding outside_def t by auto
  have ok': "region_ok t x" if "x \<in> set (us @ vs)" for x
  proof -
    have x: "x \<noteq> q" "region_ok s x" using that l(7) l(4) [of x] by auto
    then have "held (ms_heap t) x 32" using fh(2) by (simp add: region_ok_def)
    then show ?thesis using x(2) les end_p end_q unfolding region_ok_def reg by (auto simp: word_le_nat_alt)
  qed
  have lst: "list_rep (ms_links t) (free_megs reg) (us @ vs)" using list_remove_rep(1) [OF l(3)] unfolding t by simp
  have disj: "region_bytes t x \<inter> region_bytes t y = {}" if "x \<in> set (us @ vs)" "y \<in> set (us @ vs)" "x \<noteq> y" for x y
  proof -
    have "x \<noteq> q" "y \<noteq> q" using that l(7) by auto
    moreover have "x \<in> set (us @ q # vs)" "y \<in> set (us @ q # vs)" using that by auto
    ultimately show ?thesis
      using that(3) l(5) [of x y] l(5) [of x q] l(5) [of q y] in_q bytes bytes_p by (cases "x = p"; cases "y = p") auto
  qed
  have "free_bytes t (us @ vs) = \<Union> (region_bytes t ` insert p (set (us @ vs)))" using p by (simp add: free_bytes_def insert_absorb)
  also have "\<dots> = region_bytes t p \<union> \<Union> (region_bytes t ` (set (us @ vs) - {p}))" by blast
  also have "\<dots> = free_bytes s (us @ q # vs)" using bytes bytes_p p unfolding free_bytes_def by auto
  finally show f: "free_bytes t (us @ vs) = free_bytes s (us @ q # vs)" .
  have "\<not> {0, 2 ^ 32 - 1} \<subseteq> free_bytes t (us @ vs)" using l(11) unfolding f .
  then show "level1 reg t (us @ vs)"
    unfolding level1_def using fh(1) fh(2) [OF l(2)] l(10) lst ok' disj by auto
qed

lemma apart_end:
  assumes "apart s xs M" "ms_region t = (ms_region s)(p := (ms_region s p)\<lparr>r_end := e\<rparr>)"
  shows "apart t xs (insert p M)"
  using assms unfolding apart_def by auto

lemma absorb_apart:
  assumes "apart s (us @ q # vs) {p}" "ms_region t = (ms_region s)(p := (ms_region s p)\<lparr>r_end := r_end (ms_region s q)\<rparr>)" "q \<noteq> p"
  shows "apart t (us @ vs) {}"
  unfolding apart_def
proof (intro ballI)
  fix x y assume "x \<in> set (us @ vs) - {}" "y \<in> set (us @ vs)"
  then have xy: "x \<in> set (us @ q # vs)" "y \<in> set (us @ q # vs)" by auto
  have st: "r_start (ms_region t y) = r_start (ms_region s y)" unfolding assms(2) by simp
  show "r_end (ms_region t x) + 1 \<noteq> r_start (ms_region t y)"
  proof (cases "x = p")
    case True
    then have "r_end (ms_region t x) = r_end (ms_region s q)" unfolding assms(2) by simp
    then show ?thesis using apartD [OF assms(1) _ _ xy(2), of q] assms(3) st by simp
  next
    case False
    then show ?thesis using apartD [OF assms(1) xy(1) _ xy(2)] st unfolding assms(2) by simp
  qed
qed

lemma level1_free_head:
  assumes lv: "level1 reg s (us @ p # vs)" and ap: "apart s (us @ vs) {}"
  shows "\<exists>m t ys. (case mreg_find_ending reg (r_start (ms_region s p) - 1) s of None \<Rightarrow> False
      | Some tmp \<Rightarrow> (m, t) = (if tmp \<noteq> 0
        then (tmp, memregion_free p (set_region tmp (\<lambda>r. r\<lparr>r_end := r_end (ms_region s p)\<rparr>) (unlink_region p s))) else (p, s)))
    \<and> level1 reg t ys \<and> m \<in> set ys \<and> apart t ys {m} \<and> set ys \<subseteq> set (us @ p # vs)
    \<and> outside (set (free_megs reg # us @ p # vs)) s t \<and> free_bytes t ys = free_bytes s (us @ p # vs)"
proof -
  note l = level1D [OF lv]
  let ?xs = "us @ p # vs"
  let ?P = "\<lambda>r. r_end r = r_start (ms_region s p) - 1"
  obtain c where c: "mreg_find_ending reg (r_start (ms_region s p) - 1) s = Some c"
      "if c = 0 then \<forall>q\<in>set ?xs. \<not> ?P (ms_region s q) else c \<in> set ?xs \<and> ?P (ms_region s c)"
    unfolding mreg_find_ending_def using find_region_rep [OF lv, of ?P] by blast
  show ?thesis
  proof (cases "c = 0")
    case True
    have "apart s ?xs {p}"
    proof -
      have "r_end (ms_region s x) + 1 \<noteq> r_start (ms_region s p)" if "x \<in> set ?xs" for x
      proof
        assume "r_end (ms_region s x) + 1 = r_start (ms_region s p)"
        then have "r_end (ms_region s x) = r_start (ms_region s p) - 1" by (simp add: eq_diff_eq)
        then show False using c(2) True that by auto
      qed
      then show ?thesis using ap unfolding apart_def by auto
    qed
    then show ?thesis using c(1) True lv by (intro exI [of _ p] exI [of _ s] exI [of _ ?xs]) (simp add: outside_refl)
  next
    case False
    then have cx: "c \<in> set ?xs" "r_end (ms_region s c) = r_start (ms_region s p) - 1" using c(2) by simp_all
    have "region_ok s p" by (rule l(4)) simp
    then have "c \<noteq> p" using cx(2) region_ends by fastforce
    then have cs: "c \<in> set (us @ vs)" using cx(1) by simp
    have adj: "r_end (ms_region s c) + 1 = r_start (ms_region s p)" using cx(2) by simp
    define t where "t = memregion_free p (set_region c (\<lambda>r. r\<lparr>r_end := r_end (ms_region s p)\<rparr>) (unlink_region p s))"
    note a = absorb_level1 [OF lv cs adj t_def]
    have "apart t (us @ vs) {c}" by (rule apart_end [OF ap a(3)])
    then show ?thesis using c(1) False a(1,2,4) cs
      by (intro exI [of _ c] exI [of _ t] exI [of _ "us @ vs"]) (simp add: t_def [symmetric] subset_insertI2)
  qed
qed

lemma level1_free_tail:
  assumes lv: "level1 reg s xs" and m: "m \<in> set xs" "apart s xs {m}"
  shows "\<exists>t ys. (case mreg_find_starting reg (r_end (ms_region s m) + 1) s of None \<Rightarrow> False
      | Some tmp \<Rightarrow> t = (if tmp \<noteq> 0
        then memregion_free tmp (set_region m (\<lambda>r. r\<lparr>r_end := r_end (ms_region s tmp)\<rparr>) (unlink_region tmp s)) else s))
    \<and> level1 reg t ys \<and> apart t ys {} \<and> set ys \<subseteq> set xs
    \<and> outside (set (free_megs reg # xs)) s t \<and> free_bytes t ys = free_bytes s xs"
proof -
  note l = level1D [OF lv]
  let ?P = "\<lambda>r. r_start r = r_end (ms_region s m) + 1"
  obtain c where c: "mreg_find_starting reg (r_end (ms_region s m) + 1) s = Some c"
      "if c = 0 then \<forall>q\<in>set xs. \<not> ?P (ms_region s q) else c \<in> set xs \<and> ?P (ms_region s c)"
    unfolding mreg_find_starting_def using find_region_rep [OF lv, of ?P] by blast
  show ?thesis
  proof (cases "c = 0")
    case True
    have "apart s xs {}" using m(2) c(2) True unfolding apart_def by (metis Diff_iff empty_iff insert_iff)
    then show ?thesis using c(1) True lv by (intro exI [of _ s] exI [of _ xs]) (simp add: outside_refl)
  next
    case False
    then have cx: "c \<in> set xs" "r_start (ms_region s c) = r_end (ms_region s m) + 1" using c(2) by simp_all
    obtain us vs where xs: "xs = us @ c # vs" using split_list [OF cx(1)] by blast
    have "region_ok s m" by (rule l(4)) fact
    then have "m \<noteq> c" using cx(2) region_ends by fastforce
    then have ms: "m \<in> set (us @ vs)" using m(1) unfolding xs by simp
    define t where "t = memregion_free c (set_region m (\<lambda>r. r\<lparr>r_end := r_end (ms_region s c)\<rparr>) (unlink_region c s))"
    note a = absorb_level1 [OF lv [unfolded xs] ms cx(2) [symmetric] t_def]
    have "apart t (us @ vs) {}" by (rule absorb_apart [OF m(2) [unfolded xs] a(3)]) (use \<open>m \<noteq> c\<close> in simp)
    then show ?thesis using c(1) False a t_def unfolding xs by (intro exI [of _ t] exI [of _ "us @ vs"]) auto
  qed
qed

lemma level1_free_rep:
  assumes lv: "level1 reg s xs" and ap: "apart s xs {}"
    and p: "region_ok s p" "p \<notin> set xs" "p \<noteq> reg" "region_bytes s p \<inter> free_bytes s xs = {}"
      "\<not> {0, 2 ^ 32 - 1} \<subseteq> region_bytes s p \<union> free_bytes s xs"
  obtains t ys where "mreg_level1_free reg p s = Ret t" "level1 reg t ys" "apart t ys {}" "set ys \<subseteq> insert p (set xs)"
    "outside (insert p (set (free_megs reg # xs))) s t" "free_bytes t ys = free_bytes s xs \<union> region_bytes s p"
proof -
  obtain s1 where s1: "link_region (free_megs reg) p s = Ret s1" "level1 reg s1 (p # xs)" "ms_region s1 = ms_region s"
      "free_bytes s1 (p # xs) = region_bytes s p \<union> free_bytes s xs" "outside (insert p (set (free_megs reg # xs))) s s1"
    by (rule link_level1 [OF lv p(1,2,4,3,5)])
  have ap1: "apart s1 ([] @ xs) {}" using ap s1(3) by (simp add: apart_def)
  obtain c m s2 ys where h: "mreg_find_ending reg (r_start (ms_region s1 p) - 1) s1 = Some c"
      "(m, s2) = (if c \<noteq> 0
        then (c, memregion_free p (set_region c (\<lambda>r. r\<lparr>r_end := r_end (ms_region s1 p)\<rparr>) (unlink_region p s1))) else (p, s1))"
      "level1 reg s2 ys" "m \<in> set ys" "apart s2 ys {m}" "set ys \<subseteq> set (p # xs)"
      "outside (set (free_megs reg # p # xs)) s1 s2" "free_bytes s2 ys = free_bytes s1 (p # xs)"
    using level1_free_head [of reg s1 "[]" p xs] s1(2) ap1 by (auto split: option.splits)
  obtain d t zs where t: "mreg_find_starting reg (r_end (ms_region s2 m) + 1) s2 = Some d"
      "t = (if d \<noteq> 0
        then memregion_free d (set_region m (\<lambda>r. r\<lparr>r_end := r_end (ms_region s2 d)\<rparr>) (unlink_region d s2)) else s2)"
      "level1 reg t zs" "apart t zs {}" "set zs \<subseteq> set ys" "outside (set (free_megs reg # ys)) s2 t" "free_bytes t zs = free_bytes s2 ys"
    using level1_free_tail [OF h(3-5)] by (auto split: option.splits)
  have "mreg_level1_free reg p s = Ret t"
    using s1(1) h(1) t(1) unfolding mreg_level1_free_def h(2) [symmetric] t(2)
    by (simp add: outcome_of_def h(2) [symmetric] Let_def)
  moreover have "outside (insert p (set (free_megs reg # xs))) s t"
    by (rule outside_trans [OF outside_trans [OF s1(5) h(7)] t(6)]) (use h(6) in auto)
  ultimately show ?thesis using t(3-5,7) h(6,8) s1(4) by (intro that [of t zs]) auto
qed

section \<open>Attaching memory\<close>

text \<open>The two lists of an allocator: the chunks \<open>xs\<close>, and the regions \<open>bs\<close> that a buddy allocator divides.\<close>

definition two_lists :: "u32 \<Rightarrow> mreg_state \<Rightarrow> u32 list \<Rightarrow> u32 list \<Rightarrow> bool" where
  "two_lists reg s xs bs \<longleftrightarrow> heap_ok (ms_heap s) \<and> held (ms_heap s) reg 28 \<and> list_rep (ms_links s) (free_megs reg) xs
     \<and> list_rep (ms_links s) (free_buddies reg) bs \<and> set xs \<inter> set bs = {} \<and> reg \<notin> set xs
     \<and> (\<forall>p\<in>set xs \<union> set bs. held (ms_heap s) p 32)"

lemma roots_apart:
  assumes "heap_ok h" "held h reg 28" "held h p 32"
  shows "p \<noteq> free_megs reg" "p \<noteq> free_buddies reg" "free_megs reg \<noteq> free_buddies reg"
  using inside_held [OF assms(1,2), of 12 p 32] inside_held [OF assms(1,2), of 20 p 32] assms(3)
  by (simp_all add: free_megs_def free_buddies_def)

lemma buddy_init_outcome:
  assumes "heap_ok h" "5 \<le> bits" "bits \<le> 24" "base AND (push_bit bits 1 - 1) = 0"
    and "0 < unat (drop_bit bits sz)" "unat (drop_bit bits sz) \<le> 2 ^ 26"
  shows "\<exists>ok c' h'. buddy_init base sz (int bits) low high (c, h) = Ret (ok, c', h') \<and> heap_ok h'
    \<and> (if ok then in_use h \<subseteq> in_use h' else h' = h)"
proof -
  obtain p h1 where q: "malloc (of_nat (unat (drop_bit bits sz)) * 8) h = Ret (p, h1) \<and> (if p = 0 then in_use h1 = in_use h \<and>
        (\<exists>t. buddy_init base sz (int bits) low high (c, h) = Ret (False, t) \<and> snd t = h)
      else \<exists>t m. buddy_init base sz (int bits) low high (c, h) = Ret (True, t) \<and>
        buddy_holds t {(i, 0) | i. i < unat (drop_bit bits sz) \<and> \<not> in_range base bits low high i}
        \<and> b_base (fst t) = base \<and> b_page_bits (fst t) = int bits \<and> n_pages t = unat (drop_bit bits sz)
        \<and> b_all (fst t) = p \<and> (unat p, m) \<notin> in_use h \<and> in_use (snd t) = insert (unat p, m) (in_use h))"
    using buddy_init_rep [OF assms(1-4) refl assms(5), of low high c] unfolding if_P [OF assms(6)] by blast
  show ?thesis
  proof (cases "p = 0")
    case True
    then obtain t where t: "buddy_init base sz (int bits) low high (c, h) = Ret (False, t)" "snd t = h" using q by auto
    show ?thesis using assms(1) t by (intro exI [of _ False] exI [of _ "fst t"] exI [of _ "snd t"]) (cases t, simp)
  next
    case False
    then obtain t m U where t: "buddy_init base sz (int bits) low high (c, h) = Ret (True, t)" "buddy_holds t U"
        "in_use (snd t) = insert (unat p, m) (in_use h)" using q unfolding if_not_P [OF False] by blast
    have "heap_ok (snd t)" using t(2) by (auto simp: buddy_holds_def buddy_inv_def buddy_ok_def owns_array_def)
    then show ?thesis using t by (intro exI [of _ True] exI [of _ "fst t"] exI [of _ "snd t"]) auto
  qed
qed

lemma attach_buddy_run:
  assumes two: "two_lists reg s xs bs" and p: "held (ms_heap s) p 32" "p \<notin> set xs \<union> set bs" "r_flags (ms_region s p) = 0"
    and bits: "g_page_bits (ms_mreg s reg) = int bits" "6 \<le> bits" "bits \<le> 20"
    and st: "r_start (ms_region s p) AND (push_bit bits 1 - 1) = 0"
    and n: "0 < unat (drop_bit bits (r_end (ms_region s p) - r_start (ms_region s p) + 1))"
  shows "\<exists>ok t. memregion_attach_buddy reg p s = Ret (ok, t) \<and> two_lists reg t xs (if ok then p # bs else bs)
    \<and> (\<forall>q. q \<noteq> p \<longrightarrow> ms_region t q = ms_region s q) \<and> ms_mreg t = ms_mreg s
    \<and> (\<forall>q k. 0 < k \<longrightarrow> held (ms_heap s) q k \<longrightarrow> held (ms_heap t) q k)"
proof -
  let ?r = "ms_region s p"
  note w = two [unfolded two_lists_def]
  have nf: "\<not> (r_flags ?r AND (IS_BUDDY_PARENT OR IS_BUDDY_CHILD) \<noteq> 0)" using p(3) by simp
  obtain b h where b: "malloc 128 (ms_heap s) = Ret (b, h)" "heap_ok h" "in_use (ms_heap s) \<subseteq> in_use h"
      "if b = 0 then h = ms_heap s else held h b 128 \<and> (\<forall>p k. 0 < k \<longrightarrow> held (ms_heap s) p k \<longrightarrow> p \<noteq> b)"
    using small_malloc [of "ms_heap s" 128] w by auto
  show ?thesis
  proof (cases "b = 0")
    case True
    then have "memregion_attach_buddy reg p s = Ret (False, s\<lparr>ms_heap := h\<rparr>)" using b(1) nf by (simp add: memregion_attach_buddy_def)
    then show ?thesis using two b(4) True by (intro exI [of _ False] exI [of _ "s\<lparr>ms_heap := h\<rparr>"]) (simp add: two_lists_def)
  next
    case False
    let ?s1 = "s\<lparr>ms_heap := h\<rparr>"
    let ?init = "buddy_init (r_start ?r) (r_end ?r - r_start ?r + 1) (int bits) 0 0 (ms_buddy s b, h)"
    let ?n = "unat (drop_bit bits (r_end ?r - r_start ?r + 1))"
    have "unat (r_end ?r - r_start ?r + 1) < 2 ^ LENGTH(32)" by (rule unsigned_less)
    also have "(2 :: nat) ^ LENGTH(32) = 2 ^ (32 - bits) * 2 ^ bits" using bits(3) by (simp flip: power_add)
    finally have "?n < 2 ^ (32 - bits)"
      by (simp only: unat_drop_bit_eq drop_bit_eq_div [where 'a = nat] less_mult_imp_div_less)
    also have "(2 :: nat) ^ (32 - bits) \<le> 2 ^ 26" using bits(2) by (intro power_increasing) simp_all
    finally have n26: "?n \<le> 2 ^ 26" by simp
    have new: "q \<noteq> b" "held h q k" if "0 < k" "held (ms_heap s) q k" for q k
      using that b(4) False held_mono [OF b(3)] by auto
    obtain ok c h2 where i: "?init = Ret (ok, c, h2)" "heap_ok h2" "if ok then in_use h \<subseteq> in_use h2 else h2 = h"
      using buddy_init_outcome [OF b(2) _ _ st n n26, of 0 0 "ms_buddy s b"] bits(2,3) by auto
    show ?thesis
    proof (cases ok)
      case True
      let ?s3 = "set_region p (\<lambda>r. r\<lparr>r_buddy := b, r_flags := r_flags r OR IS_BUDDY_PARENT\<rparr>)
        (s\<lparr>ms_buddy := (ms_buddy s)(b := c), ms_heap := h2\<rparr>)"
      have keep: "held h2 q k" if "0 < k" "held (ms_heap s) q k" for q k using new(2) [OF that] i(3) True held_mono by simp
      note ra = roots_apart [of "ms_heap s" reg]
      obtain u where u: "list_add (free_buddies reg) p (ms_links s) = Some u" "list_rep u (free_buddies reg) (p # bs)"
        using list_add_rep [of "ms_links s" "free_buddies reg" bs p] w ra(2) [of p] p(1,2) by auto
      have hs: "held (ms_heap s) q 32" if "q \<in> set xs \<union> set bs \<union> {p}" for q using that w p(1) by blast
      have out: "n \<notin> insert p (set (free_buddies reg # bs))" if n: "n \<in> set (free_megs reg # xs)" for n
      proof (cases "n = free_megs reg")
        case True
        then have "n \<notin> set bs \<union> {p}" using hs ra(1) w by blast
        then show ?thesis using True ra(3) [OF _ _ p(1)] w by simp
      next
        case False
        then have "n \<in> set xs" using n by simp
        then show ?thesis using hs [of n] ra(2) [of n] w p(2) by auto
      qed
      have f: "list_rep u (free_megs reg) xs"
      proof (rule list_rep_outside)
        show "list_rep (ms_links s) (free_megs reg) xs" using w by simp
        show "lnext u n = lnext (ms_links s) n \<and> lprev u n = lprev (ms_links s) n" if "n \<in> set (free_megs reg # xs)" for n
          using list_add_outside [OF _ u(1) out [OF that]] w by simp
      qed
      have "memregion_attach_buddy reg p s = Ret (True, ?s3\<lparr>ms_links := u\<rparr>)"
        using b(1) nf bits(1) i(1) True u(1) False by (simp add: memregion_attach_buddy_def with_buddy_def link_region_def outcome_of_def)
      moreover have "two_lists reg (?s3\<lparr>ms_links := u\<rparr>) xs (p # bs)"
        using w p(1,2) f u(2) i(2) keep unfolding two_lists_def by auto
      ultimately show ?thesis using True keep by (intro exI [of _ True] exI [of _ "?s3\<lparr>ms_links := u\<rparr>"]) simp
    next
      case no: False
      let ?t = "s\<lparr>ms_buddy := (ms_buddy s)(b := c), ms_heap := free b h\<rparr>"
      have hb: "held h b 128" using b(4) False by simp
      have keep: "held (free b h) q k" if "0 < k" "held (ms_heap s) q k" for q k
        using free_held(2) [OF b(2) hb new(2) [OF that] new(1) [OF that]] .
      have "memregion_attach_buddy reg p s = Ret (False, ?t)"
        using b(1) nf bits(1) i(1,3) no False by (simp add: memregion_attach_buddy_def with_buddy_def)
      moreover have "two_lists reg ?t xs bs" using w free_held(1) [OF b(2) hb] keep by (auto simp: two_lists_def)
      ultimately show ?thesis using keep by (intro exI [of _ False] exI [of _ ?t]) simp
    qed
  qed
qed

lemma attach_pages_run:
  assumes two: "two_lists reg s xs bs" and bits: "g_page_bits (ms_mreg s reg) = int bits" "6 \<le> bits" "bits \<le> 20"
    and st: "start AND (push_bit bits 1 - 1) = 0" and n: "0 < unat (drop_bit bits (stop - start + 1))"
  shows "\<exists>t bs'. attach_pages reg start stop s = Ret t \<and> two_lists reg t xs bs' \<and> ms_mreg t = ms_mreg s
    \<and> (\<forall>q k. 0 < k \<longrightarrow> held (ms_heap s) q k \<longrightarrow> ms_region t q = ms_region s q \<and> held (ms_heap t) q k)"
proof -
  note w = two [unfolded two_lists_def]
  have ok: "heap_ok (ms_heap s)" using w by simp
  from memregion_alloc_cases [OF ok, of start stop] show ?thesis
  proof (elim disjE exE conjE)
    assume "memregion_alloc start stop s = Ret (0, s)"
    then show ?thesis using two by (intro exI [of _ s] exI [of _ bs]) (simp add: attach_pages_def)
  next
    fix q s1
    assume r: "memregion_alloc start stop s = Ret (q, s1)" "q \<noteq> 0" "held (ms_heap s1) q 32" "heap_ok (ms_heap s1)"
        "\<forall>p k. 0 < k \<longrightarrow> held (ms_heap s) p k \<longrightarrow> p \<noteq> q \<and> held (ms_heap s1) p k"
        "ms_region s1 = (ms_region s)(q := \<lparr>r_start = start, r_end = stop, r_flags = 0, r_buddy = 0\<rparr>)"
        "ms_links s1 = ms_links s" "ms_mreg s1 = ms_mreg s"
    have new: "p \<noteq> q" "held (ms_heap s1) p k" if "0 < k" "held (ms_heap s) p k" for p k using r(5) that by blast+
    have two1: "two_lists reg s1 xs bs" using w r(4,7) new by (auto simp: two_lists_def)
    have q: "q \<notin> set xs \<union> set bs" using w new(1) [of 32 q] by auto
    obtain ok t where t: "memregion_attach_buddy reg q s1 = Ret (ok, t)" "two_lists reg t xs (if ok then q # bs else bs)"
        "\<forall>p. p \<noteq> q \<longrightarrow> ms_region t p = ms_region s1 p" "ms_mreg t = ms_mreg s1"
        "\<forall>p k. 0 < k \<longrightarrow> held (ms_heap s1) p k \<longrightarrow> held (ms_heap t) p k"
      using attach_buddy_run [OF two1 r(3) q _ _ bits(2,3)] r(6,8) bits(1) st n by auto
    show ?thesis
    proof (cases ok)
      case True
      then have "attach_pages reg start stop s = Ret t" using r(1,2) t(1) by (simp add: attach_pages_def)
      then show ?thesis using t True r(6,8) new by (intro exI [of _ t] exI [of _ "q # bs"]) auto
    next
      case False
      have hq: "held (ms_heap t) q 32" and tok: "heap_ok (ms_heap t)" using t(2,5) r(3) by (auto simp: two_lists_def)
      have keep: "held (free q (ms_heap t)) p k" if "0 < k" "held (ms_heap s) p k" for p k
        using free_held(2) [OF tok hq _ new(1) [OF that]] new(2) [OF that] t(5) that(1) by blast
      have "attach_pages reg start stop s = Ret (memregion_free q t)" using r(1,2) t(1) False by (simp add: attach_pages_def)
      moreover have "two_lists reg (memregion_free q t) xs bs"
        using t(2) False free_held(1) [OF tok hq] w keep by (auto simp: two_lists_def)
      ultimately show ?thesis using keep new t(3,4) r(6,8) by (intro exI [of _ "memregion_free q t"] exI [of _ bs]) auto
    qed
  qed
qed

end
