(* ===== verification/MregAttach.thy ===== *)
theory MregAttach
  imports MregSpec
begin

text \<open>
  Attaching memory to the region allocator (\<^verbatim>\<open>mreg_region_attach\<close>): the addresses it computes, its two stages, the whole
  megabytes and the pages around them, and what happens when there is no whole megabyte.
\<close>

section \<open>Whole megabytes\<close>

definition down :: "nat \<Rightarrow> nat \<Rightarrow> nat" where "down k x = x div 2 ^ k * 2 ^ k"
definition up :: "nat \<Rightarrow> nat \<Rightarrow> nat" where "up k x = down k (x + 2 ^ k - 1)"

lemma down_bounds: "down k x \<le> x" "x < down k x + 2 ^ k" "2 ^ k dvd down k x"
proof -
  have "down k x + x mod 2 ^ k = x" by (simp add: down_def div_mult_mod_eq)
  moreover have "x mod 2 ^ k < 2 ^ k" by simp
  ultimately show "down k x \<le> x" "x < down k x + 2 ^ k" by linarith+
qed (simp add: down_def)

lemma up_bounds: "x \<le> up k x" "up k x < x + 2 ^ k" "2 ^ k dvd up k x"
proof -
  have "(0 :: nat) < 2 ^ k" by simp
  then show "x \<le> up k x" "up k x < x + 2 ^ k" using down_bounds(1) [of k "x + 2 ^ k - 1"] down_bounds(2) [of "x + 2 ^ k - 1" k] unfolding up_def by linarith+
  show "2 ^ k dvd up k x" unfolding up_def by (rule down_bounds)
qed

lemma down_greatest: "2 ^ k dvd y \<Longrightarrow> y \<le> x \<Longrightarrow> y \<le> down k x"
  by (auto simp: down_def dvd_def less_eq_div_iff_mult_less_eq mult.commute)

lemma up_least:
  assumes "2 ^ k dvd y" "x \<le> y"
  shows "up k x \<le> y"
proof (rule ccontr)
  assume "\<not> up k x \<le> y"
  then have lt: "y < up k x" by simp
  have "2 ^ k dvd up k x - y" using up_bounds(3) assms(1) by (rule dvd_diff_nat)
  then have "2 ^ k \<le> up k x - y" using lt by (intro dvd_imp_le) simp_all
  then show False using lt up_bounds(2) [of k x] assms(2) by linarith
qed

lemma down_down:
  assumes "j \<le> k"
  shows "down k (down j x) = down k x"
proof -
  have "2 ^ j dvd down k x" using down_bounds(3) assms by (metis dvd_trans le_imp_power_dvd)
  then have "down k x \<le> down j x" by (rule down_greatest [OF _ down_bounds(1)])
  then have "down k x \<le> down k (down j x)" by (rule down_greatest [OF down_bounds(3)])
  moreover have "down k (down j x) \<le> down k x"
    by (rule down_greatest [OF down_bounds(3)]) (rule order_trans [OF down_bounds(1) down_bounds(1)])
  ultimately show ?thesis by simp
qed

lemma up_up:
  assumes "j \<le> k"
  shows "up k (up j x) = up k x"
proof -
  have "2 ^ j dvd up k x" using up_bounds(3) assms by (metis dvd_trans le_imp_power_dvd)
  then have "up j x \<le> up k x" by (rule up_least [OF _ up_bounds(1)])
  then have "up k (up j x) \<le> up k x" by (rule up_least [OF up_bounds(3)])
  moreover have "up k x \<le> up k (up j x)"
    by (rule up_least [OF up_bounds(3)]) (rule order_trans [OF up_bounds(1) up_bounds(1)])
  ultimately show ?thesis by simp
qed

lemma word_of_unat: "unat x = n \<Longrightarrow> x = of_nat n" for x :: u32
  by auto

lemma align_nat:
  assumes "k < 32"
  shows "unat (ALIGN_DOWN x (push_bit k 1)) = down k (unat x)"
    "unat x + 2 ^ k - 1 < 2 ^ 32 \<Longrightarrow> unat (ALIGN_UP x (push_bit k 1)) = up k (unat x)"
proof -
  have one: "push_bit k 1 - 1 = (mask k :: u32)" by (simp add: mask_eq_exp_minus_1 push_bit_eq_mult)
  have d: "unat (y AND NOT (push_bit k 1 - 1)) = down k (unat y)" for y :: u32
  proof -
    have t: "unat (take_bit k y) = unat y mod 2 ^ k" by (simp only: unsigned_take_bit_eq take_bit_eq_mod [where 'a = nat])
    have "y - take_bit k y = y AND NOT (take_bit k y)" by (rule disjunctive_diff_eq_and_not) (rule bit_word_eqI, simp add: bit_simps)
    also have "\<dots> = y AND NOT (push_bit k 1 - 1)" unfolding one by (rule bit_word_eqI) (auto simp: bit_simps)
    finally have "y AND NOT (push_bit k 1 - 1) = y - take_bit k y" by simp
    moreover have "take_bit k y \<le> y" unfolding word_le_nat_alt t by simp
    ultimately have "unat (y AND NOT (push_bit k 1 - 1)) = unat y - unat y mod 2 ^ k" by (simp add: unat_sub t)
    then show ?thesis by (simp add: down_def minus_mod_eq_div_mult)
  qed
  show "unat (ALIGN_DOWN x (push_bit k 1)) = down k (unat x)" by (simp only: ALIGN_DOWN_def d)
  assume u: "unat x + 2 ^ k - 1 < 2 ^ 32"
  have "(1 :: nat) \<le> unat x + 2 ^ k" by (simp add: trans_le_add2)
  then have "x + push_bit k 1 - 1 = of_nat (unat x + 2 ^ k - 1)" by (simp only: of_nat_diff) (simp add: push_bit_eq_mult)
  then have "unat (x + push_bit k 1 - 1) = unat x + 2 ^ k - 1" using unat_addr [OF u] by simp
  then show "unat (ALIGN_UP x (push_bit k 1)) = up k (unat x)" by (simp only: ALIGN_UP_def d up_def)
qed

lemma down_diff:
  assumes "2 ^ k dvd y" "y \<le> x"
  shows "down k (x - y) = down k x - y"
proof (rule antisym)
  have "2 ^ k dvd down k (x - y) + y" using assms(1) down_bounds(3) by (rule dvd_add [rotated])
  moreover have "down k (x - y) + y \<le> x" using down_bounds(1) [of k "x - y"] assms(2) by linarith
  ultimately have "down k (x - y) + y \<le> down k x" by (rule down_greatest)
  then show "down k (x - y) \<le> down k x - y" by linarith
  show "down k x - y \<le> down k (x - y)"
    by (intro down_greatest dvd_diff_nat down_bounds assms(1) diff_le_mono)
qed

text \<open>The pages and megabytes that attaching the \<open>sz\<close> bytes at \<open>adr\<close> computes.\<close>

lemma attach_bounds:
  fixes adr sz :: u32
  assumes bits: "bits \<le> 20" and sz: "2 * 2 ^ bits \<le> unat sz" and top: "unat adr + unat sz \<le> 2 ^ 32"
    and m: "up 20 (unat adr) < 2 ^ 32"
  defines "adr0 \<equiv> ALIGN_UP adr (push_bit bits 1)"
  defines "size0 \<equiv> ALIGN_DOWN (sz + adr - adr0) (push_bit bits 1)"
  defines "adr1 \<equiv> ALIGN_UP adr0 MB"
  defines "size1 \<equiv> ALIGN_DOWN (size0 + adr0 - adr1) MB"
  defines "lo \<equiv> up bits (unat adr)" and "hi \<equiv> down bits (unat adr + unat sz)"
  shows "adr0 = of_nat lo" "size0 = of_nat (hi - lo)" "adr1 = of_nat (up 20 (unat adr))"
    "size1 = (if up 20 (unat adr) \<le> down 20 (unat adr + unat sz) then of_nat (down 20 (unat adr + unat sz) - up 20 (unat adr)) else - MB)"
    "2 ^ bits dvd lo" "2 ^ bits dvd hi" "lo < hi" "lo \<le> up 20 (unat adr)" "down 20 (unat adr + unat sz) \<le> hi" "lo < 2 ^ 32" "hi \<le> 2 ^ 32"
    "hi - lo < 2 ^ 32" "adr1 + size1 = of_nat (down 20 (unat adr + unat sz))" "hi - down 20 (unat adr + unat sz) < 2 ^ 32"
proof -
  define a z where "a = unat adr" and "z = unat sz"
  note az = a_def [symmetric] z_def [symmetric]
  have z32: "z < 2 ^ 32" using unsigned_less [of sz, where 'a = nat] by (simp add: z_def)
  have b32: "bits < 32" "(0 :: nat) < 2 ^ bits" and MB: "MB = push_bit 20 1" using bits by simp_all
  have lo: "a \<le> lo" "lo < a + 2 ^ bits" "2 ^ bits dvd lo" using up_bounds(1,3) [where k = bits] up_bounds(2) [of bits a] by (simp_all add: lo_def a_def)
  have hi: "hi \<le> a + z" "a + z < hi + 2 ^ bits" "2 ^ bits dvd hi" using down_bounds(1,3) [where k = bits] down_bounds(2) [of "a + z" bits] by (simp_all add: hi_def a_def z_def)
  have order: "lo < hi" "hi - lo \<le> z" "lo \<le> a + z" "lo < 2 ^ 32" using lo hi sz top b32(2) unfolding az by linarith+
  show "2 ^ bits dvd lo" "2 ^ bits dvd hi" "lo < hi" "lo < 2 ^ 32" by fact+
  show hi32: "hi \<le> 2 ^ 32" using hi(1) top unfolding az by linarith
  show d32: "hi - lo < 2 ^ 32" using order(2) z32 by linarith
  have uplo: "up 20 lo = up 20 a" unfolding lo_def az by (rule up_up [OF bits])
  have downhi: "down 20 hi = down 20 (a + z)" unfolding hi_def az by (rule down_down [OF bits])
  show M1: "lo \<le> up 20 (unat adr)" using up_bounds(1) [of lo 20] unfolding uplo az .
  show M2: "down 20 (unat adr + unat sz) \<le> hi" using down_bounds(1) [of 20 hi] unfolding downhi az .
  have "unat adr0 = lo" unfolding adr0_def lo_def by (rule align_nat(2) [OF b32(1)]) (use sz top b32(2) in linarith)
  then show adr0: "adr0 = of_nat lo" by (rule word_of_unat)
  have w: "sz + adr - adr0 = of_nat (a + z - lo)" unfolding adr0 using order(3) by (simp add: of_nat_diff a_def z_def)
  have "unat (sz + adr - adr0) = a + z - lo" unfolding w by (rule unat_addr) (use lo(1) z32 in linarith)
  then have "unat size0 = hi - lo" using down_diff [OF lo(3) order(3)] align_nat(1) [OF b32(1)] by (simp add: size0_def hi_def az)
  then show size0: "size0 = of_nat (hi - lo)" by (rule word_of_unat)
  have d20: "2 ^ 20 dvd up 20 a" by (rule up_bounds)
  then obtain q where q: "up 20 a = 2 ^ 20 * q" by (elim dvdE)
  have m20: "up 20 a \<le> 2 ^ 32 - 2 ^ 20" using m unfolding az q by simp
  have l20: "unat (of_nat lo :: u32) = lo" by (rule unat_addr [OF order(4)])
  have "unat adr1 = up 20 a"
    unfolding adr1_def adr0 MB by (subst align_nat(2)) (use m20 M1 in \<open>simp_all add: l20 uplo az\<close>)
  then show adr1: "adr1 = of_nat (up 20 (unat adr))" by (simp add: a_def word_of_unat)
  have rest: "size0 + adr0 - adr1 = of_nat hi - of_nat (up 20 a)" unfolding size0 adr0 adr1 az using order(1) by (simp add: of_nat_diff)
  have size1: "unat size1 = down 20 (unat (of_nat hi - of_nat (up 20 a) :: u32))" unfolding size1_def rest MB by (rule align_nat(1)) simp
  have "size1 = (if up 20 a \<le> down 20 (a + z) then of_nat (down 20 (a + z) - up 20 a) else - MB)"
  proof (cases "up 20 a \<le> down 20 (a + z)")
    case True
    then have le: "up 20 a \<le> hi" using M2 unfolding az by linarith
    have "unat (of_nat hi - of_nat (up 20 a) :: u32) = hi - up 20 a"
      using le d32 M1 unfolding az of_nat_diff [OF le, symmetric] by (intro unat_addr) linarith
    then have "unat size1 = down 20 (a + z) - up 20 a" using size1 down_diff [OF d20 le] by (simp add: downhi)
    then show ?thesis unfolding if_P [OF True] by (rule word_of_unat)
  next
    case False
    have lt: "hi < up 20 a"
    proof (rule ccontr)
      assume "\<not> hi < up 20 a"
      then have "up 20 a \<le> down 20 hi" by (intro down_greatest d20) simp
      then show False using False downhi by simp
    qed
    have near: "up 20 a < hi + 2 ^ 20" using up_bounds(2) [of 20 lo] order(1) unfolding uplo by linarith
    have "(of_nat hi - of_nat (up 20 a) :: u32) = of_nat (2 ^ 32 + hi - up 20 a)" using m az by (simp add: of_nat_diff)
    moreover have "2 ^ 32 + hi - up 20 a < 2 ^ 32" using lt by simp
    ultimately have "unat (of_nat hi - of_nat (up 20 a) :: u32) = 2 ^ 32 + hi - up 20 a" using unat_addr by metis
    moreover have "(2 ^ 32 + hi - up 20 a) div 2 ^ 20 = 4095" by (rule div_nat_eqI) (use lt near in simp_all)
    ultimately have "unat size1 = 4095 * 2 ^ 20" using size1 by (simp add: down_def)
    then have "size1 = of_nat (4095 * 2 ^ 20)" by (rule word_of_unat)
    then show ?thesis using False by simp
  qed
  then show size1': "size1 = (if up 20 (unat adr) \<le> down 20 (unat adr + unat sz)
      then of_nat (down 20 (unat adr + unat sz) - up 20 (unat adr)) else - MB)" unfolding az .
  show "hi - down 20 (unat adr + unat sz) < 2 ^ 32" using down_bounds(2) [of hi 20] downhi unfolding az by simp
  show "adr1 + size1 = of_nat (down 20 (unat adr + unat sz))"
  proof (cases "up 20 a \<le> down 20 (a + z)")
    case True
    then show ?thesis unfolding adr1 size1' az by (simp add: of_nat_diff)
  next
    case False
    have "a + z < up 20 a" using False down_greatest [OF d20, of "a + z"] by linarith
    then have "down 20 (a + z) < up 20 a" using down_bounds(1) [of 20 "a + z"] by linarith
    have m2: "2 ^ 20 \<le> up 20 a" using False q by (cases q) simp_all
    have "2 ^ 20 dvd up 20 a - 2 ^ 20" using d20 by (rule dvd_diff_nat) simp
    moreover have "up 20 a - 2 ^ 20 \<le> a + z" using up_bounds(2) [of 20 a] by linarith
    ultimately have ge: "up 20 a - 2 ^ 20 \<le> down 20 (a + z)" by (rule down_greatest)
    obtain r where r: "down 20 (a + z) = 2 ^ 20 * r" using down_bounds(3) [of 20 "a + z"] by (elim dvdE)
    have "down 20 (a + z) = up 20 a - 2 ^ 20" using ge \<open>down 20 (a + z) < up 20 a\<close> unfolding q r by simp
    then show ?thesis using False m2 unfolding adr1 size1' az by (simp add: of_nat_diff)
  qed
qed

lemma start_of_page:
  assumes "2 ^ k dvd x"
  shows "(of_nat x :: u32) AND (push_bit k 1 - 1) = 0"
proof -
  obtain q where q: "x = 2 ^ k * q" using assms by (elim dvdE)
  have "(of_nat x :: u32) AND (push_bit k 1 - 1) = take_bit k (push_bit k (of_nat q))"
    by (simp add: q take_bit_eq_mask mask_eq_exp_minus_1 push_bit_eq_mult mult.commute)
  then show ?thesis by (simp add: take_bit_push_bit)
qed

lemma page_count:
  assumes "2 ^ k dvd x" "0 < x" "x < 2 ^ 32"
  shows "0 < unat (drop_bit k (of_nat x :: u32))"
proof -
  have "unat (drop_bit k (of_nat x :: u32)) = x div 2 ^ k"
    by (simp only: unat_drop_bit_eq drop_bit_eq_div [where 'a = nat] unat_addr [OF assms(3)])
  then show ?thesis using assms(1,2) by (simp add: div_greater_zero_iff dvd_imp_le)
qed

lemma pages_between:
  assumes two: "two_lists reg s xs bs" and bits: "g_page_bits (ms_mreg s reg) = int bits" "6 \<le> bits" "bits \<le> 20"
    and n: "2 ^ bits dvd i" "2 ^ bits dvd j" "i < j" "j - i < 2 ^ 32" and w: "start = of_nat i" "stop = of_nat j - 1"
  shows "\<exists>t bs'. attach_pages reg start stop s = Ret t \<and> two_lists reg t xs bs' \<and> ms_mreg t = ms_mreg s
    \<and> (\<forall>q k. 0 < k \<longrightarrow> held (ms_heap s) q k \<longrightarrow> ms_region t q = ms_region s q \<and> held (ms_heap t) q k)"
proof (rule attach_pages_run [OF two bits])
  show "start AND (push_bit bits 1 - 1) = 0" unfolding w by (rule start_of_page [OF n(1)])
  have "stop - start + 1 = of_nat (j - i)" using n(3) by (simp add: w of_nat_diff)
  then show "0 < unat (drop_bit bits (stop - start + 1))" using page_count [of bits "j - i"] n by (simp add: dvd_diff_nat)
qed

text \<open>Attaching: the whole megabytes become a chunk, and then the pages before and after them change no chunk.\<close>

definition attach_tail :: "u32 \<Rightarrow> u32 \<Rightarrow> u32 \<Rightarrow> u32 \<Rightarrow> u32 \<Rightarrow> mreg_state \<Rightarrow> (bool \<times> mreg_state) outcome" where
  "attach_tail reg adr0 end0 adr1 end1 s2 =
     and_then (if adr0 < adr1 then attach_pages reg adr0 (adr1 - 1) s2 else Ret s2) (\<lambda>s3.
     and_then (if end0 \<noteq> end1 \<and> end0 \<ge> 1 + end1 then attach_pages reg (end1 + 1) end0 s3 else Ret s3) (\<lambda>s4.
     let g = ms_mreg s4 reg;
         g1 = (if g_start g = 0 \<and> g_end g = 0 then g\<lparr>g_start := adr0, g_end := end0\<rparr>
               else g\<lparr>g_start := (if adr0 < g_start g then adr0 else g_start g),
                      g_end := (if end0 > g_end g then end0 else g_end g)\<rparr>)
     in Ret (True, s4\<lparr>ms_mreg := (ms_mreg s4)(reg := g1)\<rparr>)))"

lemma attach_tail_run:
  assumes two: "two_lists reg s xs bs" and bits: "g_page_bits (ms_mreg s reg) = int bits" "6 \<le> bits" "bits \<le> 20"
    and n: "2 ^ bits dvd lo" "2 ^ bits dvd hi" "2 ^ bits dvd m1" "2 ^ bits dvd m2" "lo < 2 ^ 32" "m1 < 2 ^ 32" "m2 \<le> hi" "hi - m2 < 2 ^ 32"
    and w: "adr0 = of_nat lo" "end0 = of_nat hi - 1" "adr1 = of_nat m1" "end1 = of_nat m2 - 1"
  shows "\<exists>t bs'. attach_tail reg adr0 end0 adr1 end1 s = Ret (True, t) \<and> two_lists reg t xs bs'
    \<and> (\<forall>q k. 0 < k \<longrightarrow> held (ms_heap s) q k \<longrightarrow> ms_region t q = ms_region s q \<and> held (ms_heap t) q k)"
proof -
  define keep where "keep = (\<lambda>(s :: mreg_state) (t :: mreg_state). ms_mreg t = ms_mreg s
    \<and> (\<forall>q k. 0 < k \<longrightarrow> held (ms_heap s) q k \<longrightarrow> ms_region t q = ms_region s q \<and> held (ms_heap t) q k))"
  have lt: "adr0 < adr1 \<longleftrightarrow> lo < m1" using n(5,6) by (simp add: w word_less_nat_alt unat_addr)
  obtain s3 bs3 where s3: "(if adr0 < adr1 then attach_pages reg adr0 (adr1 - 1) s else Ret s) = Ret s3" "two_lists reg s3 xs bs3" "keep s s3"
  proof (cases "adr0 < adr1")
    case True
    then have m: "lo < m1" "m1 - lo < 2 ^ 32" using lt n(6) by simp_all
    show ?thesis
      using pages_between [OF two bits n(1,3) m w(1), of "adr1 - 1"] that True by (auto simp: keep_def w(3))
  next
    case False
    then show ?thesis using that [of s bs] two by (simp add: keep_def)
  qed
  have bits3: "g_page_bits (ms_mreg s3 reg) = int bits" using s3(3) bits(1) by (simp add: keep_def)
  obtain s4 bs4 where s4: "(if end0 \<noteq> end1 \<and> end0 \<ge> 1 + end1 then attach_pages reg (end1 + 1) end0 s3 else Ret s3) = Ret s4"
      "two_lists reg s4 xs bs4" "keep s3 s4"
  proof (cases "end0 \<noteq> end1 \<and> end0 \<ge> 1 + end1")
    case True
    then have "m2 \<noteq> hi" by (auto simp: w)
    then have m: "m2 < hi" using n(7) by simp
    have e: "end1 + 1 = of_nat m2" by (simp add: w)
    show ?thesis
      using pages_between [OF s3(2) bits3 bits(2,3) n(4,2) m n(8) e w(2)] that unfolding if_P [OF True] keep_def by blast
  next
    case False
    show ?thesis using that [of s3 bs3] s3(2) unfolding if_not_P [OF False] keep_def by blast
  qed
  have two4: "two_lists reg (s4\<lparr>ms_mreg := g\<rparr>) xs bs4" for g using s4(2) by (simp add: two_lists_def)
  have k4: "\<forall>q k. 0 < k \<longrightarrow> held (ms_heap s) q k \<longrightarrow> ms_region s4 q = ms_region s q \<and> held (ms_heap s4) q k"
    using s3(3) s4(3) by (simp add: keep_def)
  show ?thesis unfolding attach_tail_def s3(1) and_then.simps s4(1) Let_def using two4 k4 s4(2) by auto
qed

lemma level1_kept:
  assumes lv: "level1 reg s xs" and two: "two_lists reg t xs bs"
    and keep: "\<forall>q k. 0 < k \<longrightarrow> held (ms_heap s) q k \<longrightarrow> ms_region t q = ms_region s q \<and> held (ms_heap t) q k"
  shows "level1 reg t xs" "free_bytes t xs = free_bytes s xs" "apart s xs M \<Longrightarrow> apart t xs M"
proof -
  note l = level1D [OF lv]
  have r: "ms_region t q = ms_region s q" "held (ms_heap t) q 32" if "q \<in> set xs" for q
    using l(4) [OF that] keep [rule_format, of 32 q] by (simp_all add: region_ok_def)
  have same: "region_bytes t q = region_bytes s q" "region_ok t q" if "q \<in> set xs" for q
    using r [OF that] l(4) [OF that] by (simp_all add: region_bytes_def region_ok_def)
  show f: "free_bytes t xs = free_bytes s xs" using same by (simp add: free_bytes_def)
  show "level1 reg t xs" using two l(5,10,11) same unfolding level1_def f two_lists_def by auto
  show "apart s xs M \<Longrightarrow> apart t xs M" using r(1) by (simp add: apart_def)
qed

lemma level1_free_two_lists:
  assumes two: "two_lists reg s xs bs" and q: "held (ms_heap s) q 32" "q \<notin> set bs"
    and t: "level1 reg t ys" "set ys \<subseteq> insert q (set xs)" "outside (insert q (set (free_megs reg # xs))) s t"
  shows "two_lists reg t ys bs"
proof -
  note w = two [unfolded two_lists_def]
  note l = level1D [OF t(1)]
  note ra = roots_apart [of "ms_heap s" reg]
  have hs: "held (ms_heap s) p 32" if "p \<in> set xs \<union> set bs \<union> {q}" for p using that w q(1) by blast
  have out: "n \<notin> insert q (set (free_megs reg # xs))" if n: "n \<in> set (free_buddies reg # bs)" for n
  proof (cases "n = free_buddies reg")
    case True
    then have "n \<notin> set xs \<union> {q}" using hs ra(2) w by blast
    then show ?thesis using True ra(3) [OF _ _ q(1)] w by simp
  next
    case False
    then have "n \<in> set bs" using n by simp
    then show ?thesis using hs [of n] ra(1) [of n] w q(2) by auto
  qed
  have "list_rep (ms_links t) (free_buddies reg) bs"
    by (rule list_rep_outside [of "ms_links s"]) (use w t(3) out in \<open>simp_all add: outside_def\<close>)
  moreover have "held (ms_heap t) p 32" if "p \<in> set bs" for p
    using t(3) out [of p] hs [of p] that by (auto simp: outside_def)
  moreover have "held (ms_heap t) p 32" if "p \<in> set ys" for p using l(4) [OF that] by (simp add: region_ok_def)
  ultimately show ?thesis using l(1-3,10) w t(2) q(2) unfolding two_lists_def by auto
qed

lemma mreg_region_attach_stages:
  fixes adr sz :: u32
  assumes bits: "g_page_bits (ms_mreg s reg) = int bits" "bits \<le> 20" and sz: "2 * 2 ^ bits \<le> unat sz"
  defines "adr0 \<equiv> ALIGN_UP adr (push_bit bits 1)"
  defines "size0 \<equiv> ALIGN_DOWN (sz + adr - adr0) (push_bit bits 1)"
  defines "adr1 \<equiv> ALIGN_UP adr0 MB"
  defines "size1 \<equiv> ALIGN_DOWN (size0 + adr0 - adr1) MB"
  shows "mreg_region_attach reg adr sz s =
    and_then
     (if size1 \<noteq> 0
      then and_then (memregion_alloc adr1 (adr1 + size1 - 1) s) (\<lambda>(tmp, s1).
             if tmp = 0 then Ret (False, s1) else and_then (mreg_free reg tmp s1) (\<lambda>s2. Ret (True, s2)))
      else Ret (True, s))
     (\<lambda>(ok, s2). if \<not> ok then Ret (False, s2) else attach_tail reg adr0 (adr0 + size0 - 1) adr1 (adr1 + size1 - 1) s2)"
proof -
  have "(2 :: nat) * 2 ^ bits < 2 ^ 32"
  proof -
    have "(2 :: nat) * 2 ^ bits \<le> 2 * 2 ^ 20" by (intro mult_le_mono power_increasing bits(2)) simp_all
    then show ?thesis by simp
  qed
  then have "unat (of_nat (2 * 2 ^ bits) :: u32) = 2 * 2 ^ bits" by (rule unat_addr)
  moreover have "2 * push_bit bits (1 :: u32) = of_nat (2 * 2 ^ bits)" by (simp add: push_bit_eq_mult)
  ultimately have "\<not> sz < 2 * push_bit bits 1" using sz by (simp add: word_less_nat_alt)
  moreover have "\<not> (int bits < 0 \<or> 32 \<le> int bits)" using bits(2) by simp
  ultimately show ?thesis
    unfolding mreg_region_attach_def bits(1) Let_def nat_int adr0_def size0_def adr1_def size1_def attach_tail_def by (simp only: if_False simp_thms)
qed

text \<open>The chunk of the whole megabytes, in front of which \<open>mreg_free\<close> puts nothing.\<close>

lemma attach_chunk_run:
  assumes two: "two_lists reg s xs bs" and lv: "level1 reg s xs" "apart s xs {}"
    and m: "m1 < m2" "m2 \<le> 2 ^ 32" "m1 < 2 ^ 32" "m2 - m1 < 2 ^ 32"
    and new: "{m1..<m2} \<inter> free_bytes s xs = {}" "\<not> {0, 2 ^ 32 - 1} \<subseteq> {m1..<m2} \<union> free_bytes s xs"
  obtains "memregion_alloc (of_nat m1) (of_nat m2 - 1) s = Ret (0, s)"
  | q s1 t ys where "memregion_alloc (of_nat m1) (of_nat m2 - 1) s = Ret (q, s1)" "q \<noteq> 0" "mreg_free reg q s1 = Ret t"
    "two_lists reg t ys bs" "level1 reg t ys" "apart t ys {}" "free_bytes t ys = free_bytes s xs \<union> {m1..<m2}" "ms_mreg t = ms_mreg s"
proof -
  note w = two [unfolded two_lists_def]
  note l = level1D [OF lv(1)]
  from memregion_alloc_cases [OF l(1), of "of_nat m1" "of_nat m2 - 1"] show thesis
  proof (elim disjE exE conjE)
    assume "memregion_alloc (of_nat m1) (of_nat m2 - 1) s = Ret (0, s)"
    then show thesis by (rule that(1))
  next
    fix q s1
    assume r: "memregion_alloc (of_nat m1) (of_nat m2 - 1) s = Ret (q, s1)" "q \<noteq> 0" "held (ms_heap s1) q 32" "heap_ok (ms_heap s1)"
        "\<forall>p k. 0 < k \<longrightarrow> held (ms_heap s) p k \<longrightarrow> p \<noteq> q \<and> held (ms_heap s1) p k"
        "ms_region s1 = (ms_region s)(q := \<lparr>r_start = of_nat m1, r_end = of_nat m2 - 1, r_flags = 0, r_buddy = 0\<rparr>)"
        "ms_links s1 = ms_links s" "ms_mreg s1 = ms_mreg s"
    have old: "p \<noteq> q" "held (ms_heap s1) p k" if "0 < k" "held (ms_heap s) p k" for p k using r(5) that by blast+
    have q: "q \<notin> set xs" "q \<notin> set bs" "q \<noteq> reg" using old(1) [of 32] old(1) [of 28] w by auto
    have two1: "two_lists reg s1 xs bs" using w r(4,7) old(2) by (auto simp: two_lists_def)
    have "\<forall>p k. 0 < k \<longrightarrow> held (ms_heap s) p k \<longrightarrow> ms_region s1 p = ms_region s p \<and> held (ms_heap s1) p k"
      using old r(6) by auto
    note k1 = level1_kept [OF lv(1) two1 this]
    have u: "unat (r_start (ms_region s1 q)) = m1" "unat (r_end (ms_region s1 q)) = m2 - 1"
    proof -
      show "unat (r_start (ms_region s1 q)) = m1" using m(3) by (simp add: r(6) unat_addr)
      have "(of_nat m2 - 1 :: u32) = of_nat (m2 - 1)" using m(1) by (simp add: of_nat_diff)
      then show "unat (r_end (ms_region s1 q)) = m2 - 1" using unat_addr [of "m2 - 1"] m(1,2) by (simp add: r(6))
    qed
    have bytes: "region_bytes s1 q = {m1..<m2}" using m(1) unfolding region_bytes_def u by auto
    have "(of_nat m2 :: u32) \<noteq> of_nat m1"
    proof
      assume "(of_nat m2 :: u32) = of_nat m1"
      then have "(of_nat (m2 - m1) :: u32) = 0" using m(1) by (simp add: of_nat_diff)
      then show False using unat_addr [OF m(4)] m(1) by simp
    qed
    then have ok: "region_ok s1 q" using r(3) m(1) u unfolding region_ok_def word_le_nat_alt by (simp add: r(6))
    obtain t ys where t: "mreg_level1_free reg q s1 = Ret t" "level1 reg t ys" "apart t ys {}" "set ys \<subseteq> insert q (set xs)"
        "outside (insert q (set (free_megs reg # xs))) s1 t" "free_bytes t ys = free_bytes s1 xs \<union> region_bytes s1 q"
      by (rule level1_free_rep [OF k1(1) k1(3) [OF lv(2)] ok q(1,3)]) (use new in \<open>simp_all add: bytes k1(2)\<close>)
    have "mreg_free reg q s1 = Ret t" using t(1) r(2,6) by (simp add: mreg_free_def)
    moreover have "two_lists reg t ys bs" by (rule level1_free_two_lists [OF two1 r(3) q(2) t(2,4,5)])
    moreover have "ms_mreg t = ms_mreg s" using t(5) r(8) by (simp add: outside_def)
    ultimately show thesis using t(2,3,6) r(1,2) bytes k1(2) that(2) [of q s1 t ys] by simp
  qed
qed

lemma mreg_create_run:
  assumes "heap_ok (ms_heap s)" "bits \<le> 20"
  shows "\<exists>reg t. mreg_create (int bits) s = Ret (reg, t) \<and> (if reg = 0 then t = s
    else two_lists reg t [] [] \<and> level1 reg t [] \<and> apart t [] {} \<and> g_page_bits (ms_mreg t reg) = int bits)"
proof -
  obtain q h where q: "malloc 28 (ms_heap s) = Ret (q, h)" "heap_ok h"
      "if q = 0 then h = ms_heap s else held h q 28 \<and> (\<forall>p k. 0 < k \<longrightarrow> held (ms_heap s) p k \<longrightarrow> p \<noteq> q)"
    using small_malloc [OF assms(1), of 28] by auto
  show ?thesis
  proof (cases "q = 0")
    case True
    then have "mreg_create (int bits) s = Ret (0, s)" using q assms(2) by (simp add: mreg_create_def)
    then show ?thesis by (intro exI [of _ 0] exI [of _ s]) simp
  next
    case False
    let ?l = "list_init (free_buddies q) (list_init (free_megs q) (ms_links s))"
    have "free_megs q \<noteq> free_buddies q" by (simp add: free_megs_def free_buddies_def)
    then have l: "list_rep ?l (free_megs q) []" "list_rep ?l (free_buddies q) []"
      by (simp_all add: list_rep_def list_init_def)
    let ?t = "s\<lparr>ms_heap := h, ms_mreg := (ms_mreg s)(q := \<lparr>g_start = 0, g_end = 0, g_page_bits = int bits\<rparr>), ms_links := ?l\<rparr>"
    have "mreg_create (int bits) s = Ret (q, ?t)" using q(1) False assms(2) by (simp add: mreg_create_def)
    moreover have "two_lists q ?t [] []" "level1 q ?t []" "apart ?t [] {}"
      using q(2,3) False l by (simp_all add: two_lists_def level1_def apart_def free_bytes_def)
    ultimately show ?thesis using False by (intro exI [of _ q] exI [of _ ?t]) simp
  qed
qed

text \<open>The first stage and what follows it, as \<open>tail\<close>.\<close>

abbreviation attach_stages :: "u32 \<Rightarrow> nat \<Rightarrow> nat \<Rightarrow> (mreg_state \<Rightarrow> (bool \<times> mreg_state) outcome) \<Rightarrow> mreg_state \<Rightarrow> (bool \<times> mreg_state) outcome" where
  "attach_stages reg m1 m2 tail s \<equiv> and_then
     (and_then (memregion_alloc (of_nat m1) (of_nat m2 - 1) s) (\<lambda>(tmp, s1).
        if tmp = 0 then Ret (False, s1) else and_then (mreg_free reg tmp s1) (\<lambda>s2. Ret (True, s2))))
     (\<lambda>(ok, s2). if \<not> ok then Ret (False, s2) else tail s2)"

definition keeps_chunks :: "u32 \<Rightarrow> mreg_state \<Rightarrow> (mreg_state \<Rightarrow> (bool \<times> mreg_state) outcome) \<Rightarrow> bool" where
  "keeps_chunks reg s tail \<longleftrightarrow> (\<forall>s' xs bs. two_lists reg s' xs bs \<longrightarrow> ms_mreg s' = ms_mreg s \<longrightarrow>
     (\<exists>t bs'. tail s' = Ret (True, t) \<and> two_lists reg t xs bs'
       \<and> (\<forall>q k. 0 < k \<longrightarrow> held (ms_heap s') q k \<longrightarrow> ms_region t q = ms_region s' q \<and> held (ms_heap t) q k)))"

lemma keeps_chunksD:
  assumes "keeps_chunks reg s tail" "two_lists reg s' xs bs" "ms_mreg s' = ms_mreg s"
  obtains t bs' where "tail s' = Ret (True, t)" "two_lists reg t xs bs'"
    "\<forall>q k. 0 < k \<longrightarrow> held (ms_heap s') q k \<longrightarrow> ms_region t q = ms_region s' q \<and> held (ms_heap t) q k"
  using assms unfolding keeps_chunks_def by blast

text \<open>The two stages of attaching: the chunk of the whole megabytes \<open>m1\<close> to \<open>m2\<close>, and the rest.\<close>

lemma attach_run:
  fixes adr sz :: u32
  assumes bits: "g_page_bits (ms_mreg s reg) = int bits" "6 \<le> bits" "bits \<le> 20"
    and sz: "2 * 2 ^ bits \<le> unat sz" "unat adr + unat sz \<le> 2 ^ 32"
    and m: "m1 = up 20 (unat adr)" "m2 = down 20 (unat adr + unat sz)" "m1 < 2 ^ 32"
  obtains tail where "mreg_region_attach reg adr sz s = (if m1 = m2 then tail s else attach_stages reg m1 m2 tail s)"
    "keeps_chunks reg s tail" "m1 \<le> m2 \<longrightarrow> m2 - m1 < 2 ^ 32" "m2 \<le> 2 ^ 32"
proof -
  define a0 where "a0 = ALIGN_UP adr (push_bit bits 1)"
  define z0 where "z0 = ALIGN_DOWN (sz + adr - a0) (push_bit bits 1)"
  define a1 where "a1 = ALIGN_UP a0 MB"
  define z1 where "z1 = ALIGN_DOWN (z0 + a0 - a1) MB"
  define lo hi where "lo = up bits (unat adr)" and "hi = down bits (unat adr + unat sz)"
  note b = attach_bounds [OF bits(3) sz m(3) [unfolded m(1)], folded m(1,2) a0_def, folded z0_def a1_def, folded z1_def, folded lo_def hi_def]
  note st = mreg_region_attach_stages [OF bits(1,3) sz(1), of adr, folded a0_def, folded z0_def a1_def, folded z1_def]
  have e0: "a0 + z0 - 1 = of_nat hi - 1" using b(7) by (simp add: b(1,2) of_nat_diff)
  have e1: "a1 + z1 - 1 = of_nat m2 - 1" by (simp add: b(13))
  have "(2 :: nat) ^ bits dvd 2 ^ 20" using bits(3) by (rule le_imp_power_dvd)
  moreover have "2 ^ 20 dvd m1" "2 ^ 20 dvd m2" unfolding m by (rule up_bounds(3), rule down_bounds(3))
  ultimately have d: "2 ^ bits dvd m1" "2 ^ bits dvd m2" by (blast intro: dvd_trans)+
  have "m2 - m1 \<le> hi - lo" using b(8,9) by (meson diff_le_mono diff_le_mono2 order_trans)
  then have z32: "m2 - m1 < 2 ^ 32" using b(12) by (rule le_less_trans)
  have "z1 = 0 \<longleftrightarrow> m1 = m2"
  proof (cases "m1 \<le> m2")
    case True
    then have "z1 = of_nat (m2 - m1)" unfolding b(4) by (rule if_P)
    then have "unat z1 = m2 - m1" using unat_addr [OF z32] by (simp only:)
    then show ?thesis using True by (auto simp: unat_eq_zero)
  qed (use b(4) in auto)
  moreover have "keeps_chunks reg s (attach_tail reg a0 (a0 + z0 - 1) a1 (a1 + z1 - 1))"
    unfolding keeps_chunks_def
    using attach_tail_run [OF _ _ bits(2,3) b(5,6) d b(10) m(3) b(9,14) b(1) e0 b(3) e1] bits(1) by simp
  ultimately show thesis using st b(3,9,11) e1 z32 that [of "attach_tail reg a0 (a0 + z0 - 1) a1 (a1 + z1 - 1)"] by simp
qed

lemma attach_stages_run:
  assumes two: "two_lists reg s xs bs" and lv: "level1 reg s xs" "apart s xs {}"
    and m: "m1 < m2" "m2 \<le> 2 ^ 32" "m1 < 2 ^ 32" "m2 - m1 < 2 ^ 32"
    and new: "{m1..<m2} \<inter> free_bytes s xs = {}" "\<not> {0, 2 ^ 32 - 1} \<subseteq> {m1..<m2} \<union> free_bytes s xs"
    and tail: "keeps_chunks reg s tail"
  shows "\<exists>ok t ys bs'. attach_stages reg m1 m2 tail s = Ret (ok, t) \<and> two_lists reg t ys bs' \<and> level1 reg t ys \<and> apart t ys {}
    \<and> free_bytes t ys = free_bytes s xs \<union> (if ok then {m1..<m2} else {})"
proof (rule attach_chunk_run [OF two lv m new])
  assume "memregion_alloc (of_nat m1) (of_nat m2 - 1) s = Ret (0, s)"
  then show ?thesis using two lv by auto
next
  fix q s1 s2 ys
  assume r: "memregion_alloc (of_nat m1) (of_nat m2 - 1) s = Ret (q, s1)" "q \<noteq> 0" "mreg_free reg q s1 = Ret s2"
      "two_lists reg s2 ys bs" "level1 reg s2 ys" "apart s2 ys {}" "free_bytes s2 ys = free_bytes s xs \<union> {m1..<m2}" "ms_mreg s2 = ms_mreg s"
  obtain t bs' where t: "tail s2 = Ret (True, t)" "two_lists reg t ys bs'"
      "\<forall>q k. 0 < k \<longrightarrow> held (ms_heap s2) q k \<longrightarrow> ms_region t q = ms_region s2 q \<and> held (ms_heap t) q k"
    by (rule keeps_chunksD [OF tail r(4,8)])
  note k = level1_kept [OF r(5) t(2,3)]
  have "attach_stages reg m1 m2 tail s = Ret (True, t)" using t(1) r(1-3) by simp
  then show ?thesis using t(2) k(1,2) k(3) [OF r(6)] r(7) by auto
qed

lemma link_empty:
  assumes two: "two_lists reg s [] bs" and p: "held (ms_heap s) p 32" "p \<notin> set bs" "p \<noteq> reg"
  obtains t where "link_region (free_megs reg) p s = Ret t" "two_lists reg t [p] bs" "ms_region t = ms_region s" "ms_mreg t = ms_mreg s"
    "lnext (ms_links t) (free_megs reg) = p" "lnext (ms_links t) p = free_megs reg"
proof -
  note w = two [unfolded two_lists_def]
  note ra = roots_apart [of "ms_heap s" reg]
  have root: "p \<noteq> free_megs reg" "p \<noteq> free_buddies reg" "free_megs reg \<noteq> free_buddies reg" using ra [of p] w p(1) by auto
  obtain u where u: "list_add (free_megs reg) p (ms_links s) = Some u" "list_rep u (free_megs reg) [p]"
    using list_add_rep [of "ms_links s" "free_megs reg" "[]" p] w root(1) by auto
  have out: "n \<notin> insert p (set [free_megs reg])" if n: "n \<in> set (free_buddies reg # bs)" for n
    using that root p(2) ra(1) [of n] w by auto
  have "list_rep u (free_buddies reg) bs"
  proof (rule list_rep_outside)
    show "list_rep (ms_links s) (free_buddies reg) bs" using w by simp
    show "lnext u n = lnext (ms_links s) n \<and> lprev u n = lprev (ms_links s) n" if "n \<in> set (free_buddies reg # bs)" for n
      using list_add_outside [OF _ u(1) out [OF that]] w by simp
  qed
  then have "two_lists reg (s\<lparr>ms_links := u\<rparr>) [p] bs" using w p u(2) by (simp add: two_lists_def)
  moreover have "link_region (free_megs reg) p s = Ret (s\<lparr>ms_links := u\<rparr>)" using u(1) by (simp add: link_region_def outcome_of_def)
  ultimately show thesis using u(2) that [of "s\<lparr>ms_links := u\<rparr>"] by (simp add: list_rep_def)
qed

text \<open>A chunk that ends below its start joins no other.\<close>

lemma free_alone:
  assumes two: "two_lists reg s [] bs" and p: "held (ms_heap s) p 32" "p \<notin> set bs" "p \<noteq> reg" "p \<noteq> 0" "r_flags (ms_region s p) = 0"
    and e: "r_end (ms_region s p) + 1 \<noteq> r_start (ms_region s p)"
  obtains t where "mreg_free reg p s = Ret t" "two_lists reg t [p] bs" "ms_region t = ms_region s" "ms_mreg t = ms_mreg s"
proof -
  have root: "p \<noteq> free_megs reg" using roots_apart(1) [of "ms_heap s" reg p] two p(1) by (simp add: two_lists_def)
  obtain t where t: "link_region (free_megs reg) p s = Ret t" "two_lists reg t [p] bs" "ms_region t = ms_region s" "ms_mreg t = ms_mreg s"
      "lnext (ms_links t) (free_megs reg) = p" "lnext (ms_links t) p = free_megs reg"
    by (rule link_empty [OF two p(1-3)])
  have "r_end (ms_region s p) \<noteq> r_start (ms_region s p) - 1" using e by (auto simp: eq_diff_eq)
  then have none: "mreg_find_ending reg (r_start (ms_region t p) - 1) t = Some 0"
      "mreg_find_starting reg (r_end (ms_region t p) + 1) t = Some 0"
    using t(3,5,6) root e by (simp_all add: mreg_find_ending_def mreg_find_starting_def find_region.simps eq_commute)
  have "mreg_free reg p s = Ret t"
    using t(1) none p(4,5) by (simp add: mreg_free_def mreg_level1_free_def outcome_of_def)
  then show thesis using that t by blast
qed

lemma allocate_alone:
  assumes two: "two_lists reg t [p] bs" and p: "p \<noteq> 0" "MB \<le> region_len t p"
  shows "\<exists>u. mreg_level1_allocate reg 1 t = Ret (p, u) \<and> r_start (ms_region u p) = r_start (ms_region t p)"
proof -
  note w = two [unfolded two_lists_def]
  have l: "lnext (ms_links t) (free_megs reg) = p" "lnext (ms_links t) p = free_megs reg" "p \<noteq> free_megs reg"
    using w by (auto simp: list_rep_def)
  have best: "best_chunk t (free_megs reg) MB (lnext (ms_links t) (free_megs reg)) 0 0 = Some (p, region_len t p)"
    using l p by (simp add: best_chunk.simps region_len_def Let_def)
  have run: "mreg_level1_allocate reg 1 t = (if region_len t p > MB
      then and_then (mreg_level1_split reg p MB True (unlink_region p t)) (\<lambda>(tmp, s2). Ret (p, s2)) else Ret (p, unlink_region p t))"
    using best p(1) by (simp add: mreg_level1_allocate_def outcome_of_def Let_def)
  let ?s = "unlink_region p t"
  have root: "list_rep (ms_links ?s) (free_megs reg) []" using list_remove_rep(1) [of "ms_links t" "free_megs reg" "[]" p "[]"] w by simp
  have ok: "heap_ok (ms_heap ?s)" using w by simp
  show ?thesis
  proof (cases "region_len t p > MB")
    case False
    then show ?thesis using run by simp
  next
    case True
    from memregion_alloc_cases [OF ok, of "r_start (ms_region ?s p) + MB" "r_end (ms_region ?s p)"] show ?thesis
    proof (elim disjE exE conjE)
      assume "memregion_alloc (r_start (ms_region ?s p) + MB) (r_end (ms_region ?s p)) ?s = Ret (0, ?s)"
      then show ?thesis using run True by (simp add: mreg_level1_split_def Let_def)
    next
      fix q s1
      assume r: "memregion_alloc (r_start (ms_region ?s p) + MB) (r_end (ms_region ?s p)) ?s = Ret (q, s1)" "q \<noteq> 0" "held (ms_heap s1) q 32"
          "\<forall>x k. 0 < k \<longrightarrow> held (ms_heap ?s) x k \<longrightarrow> x \<noteq> q \<and> held (ms_heap s1) x k" "heap_ok (ms_heap s1)"
          "ms_region s1 = (ms_region ?s)(q := \<lparr>r_start = r_start (ms_region ?s p) + MB, r_end = r_end (ms_region ?s p), r_flags = 0, r_buddy = 0\<rparr>)"
          "ms_links s1 = ms_links ?s"
      have pq: "p \<noteq> q" and reg: "held (ms_heap s1) reg 28" using r(4) [rule_format, of 32 p] r(4) [rule_format, of 28 reg] w by simp_all
      have "q \<noteq> free_megs reg" by (rule roots_apart(1) [OF r(5) reg r(3)])
      then obtain l where l: "list_add (free_megs reg) q (ms_links s1) = Some l" using list_add_rep [OF root] r(7) by auto
      have "\<exists>u. mreg_level1_split reg p MB True ?s = Ret (p, u) \<and> r_start (ms_region u p) = r_start (ms_region t p)"
        using r(1,2,6) l pq by (simp add: mreg_level1_split_def link_region_def outcome_of_def Let_def)
      then show ?thesis using run True by auto
    qed
  qed
qed

lemma attach_stages_wrap:
  assumes two: "two_lists reg s [] bs" and lt: "m2 < m1" "m1 < 2 ^ 32" "m1 < m2 + (2 ^ 20 + 2 ^ 20)" and tail: "keeps_chunks reg s tail"
  shows "attach_stages reg m1 m2 tail s = Ret (False, s) \<and> (\<exists>start stop. memregion_alloc start stop s = Ret (0, s))
    \<or> (\<exists>t p u. attach_stages reg m1 m2 tail s = Ret (True, t) \<and> mreg_level1_allocate reg 1 t = Ret (p, u) \<and> p \<noteq> 0
        \<and> unat (r_start (ms_region u p)) = m1)"
proof -
  note w = two [unfolded two_lists_def]
  have ok: "heap_ok (ms_heap s)" using w by simp
  from memregion_alloc_cases [OF ok, of "of_nat m1" "of_nat m2 - 1"] show ?thesis
  proof (elim disjE exE conjE)
    assume "memregion_alloc (of_nat m1) (of_nat m2 - 1) s = Ret (0, s)"
    then show ?thesis by auto
  next
    fix q s1
    assume r: "memregion_alloc (of_nat m1) (of_nat m2 - 1) s = Ret (q, s1)" "q \<noteq> 0" "held (ms_heap s1) q 32" "heap_ok (ms_heap s1)"
        "\<forall>p k. 0 < k \<longrightarrow> held (ms_heap s) p k \<longrightarrow> p \<noteq> q \<and> held (ms_heap s1) p k"
        "ms_region s1 = (ms_region s)(q := \<lparr>r_start = of_nat m1, r_end = of_nat m2 - 1, r_flags = 0, r_buddy = 0\<rparr>)"
        "ms_links s1 = ms_links s" "ms_mreg s1 = ms_mreg s"
    have two1: "two_lists reg s1 [] bs" and q: "q \<notin> set bs" "q \<noteq> reg"
      using w r(4,7) r(5) [rule_format, of 32] r(5) [rule_format, of 28 reg] by (auto simp: two_lists_def)
    have u: "unat (of_nat m1 :: u32) = m1" "unat (of_nat m2 :: u32) = m2" using lt by (simp_all add: unat_addr)
    have ne: "r_end (ms_region s1 q) + 1 \<noteq> r_start (ms_region s1 q)" using u lt(1) by (auto simp: r(6))
    obtain s2 where s2: "mreg_free reg q s1 = Ret s2" "two_lists reg s2 [q] bs" "ms_region s2 = ms_region s1" "ms_mreg s2 = ms_mreg s1"
      by (rule free_alone [OF two1 r(3) q r(2) _ ne]) (use r(6) in simp)
    have ms: "ms_mreg s2 = ms_mreg s" and hq: "held (ms_heap s2) q 32" using s2(2,4) r(8) by (simp_all add: two_lists_def)
    obtain t bs' where t: "tail s2 = Ret (True, t)" "two_lists reg t [q] bs'"
        "\<forall>p k. 0 < k \<longrightarrow> held (ms_heap s2) p k \<longrightarrow> ms_region t p = ms_region s2 p \<and> held (ms_heap t) p k"
      by (rule keeps_chunksD [OF tail s2(2) ms])
    have run: "attach_stages reg m1 m2 tail s = Ret (True, t)" using r(1,2) s2(1) t(1) by simp
    have reg: "ms_region t q = \<lparr>r_start = of_nat m1, r_end = of_nat m2 - 1, r_flags = 0, r_buddy = 0\<rparr>"
      using t(3) [rule_format, of 32 q] hq s2(3) r(6) by simp
    have len: "region_len t q = of_nat (2 ^ 32 + m2 - m1)" unfolding region_len_def reg using lt by (simp add: of_nat_diff)
    have "2 ^ 32 + m2 - m1 < 2 ^ 32" using lt(1) by simp
    then have "unat (region_len t q) = 2 ^ 32 + m2 - m1" unfolding len by (rule unat_addr)
    then have big: "MB \<le> region_len t q" using lt(3) by (simp add: word_le_nat_alt)
    obtain u where "mreg_level1_allocate reg 1 t = Ret (q, u)" "r_start (ms_region u q) = of_nat m1"
      using allocate_alone [OF t(2) r(2) big] reg by auto
    then show ?thesis using run u(1) r(2) by auto
  qed
qed

text \<open>The allocator of an example, in a heap of one free block, before and after it has a chunk of three megabytes.\<close>

definition demo_regs :: mreg_state where
  "demo_regs = \<lparr>ms_heap = demo_pool_heap, ms_links = \<lparr>lnext = \<lambda>_. 0, lprev = \<lambda>_. 0\<rparr>,
     ms_region = \<lambda>_. \<lparr>r_start = 0, r_end = 0, r_flags = 0, r_buddy = 0\<rparr>, ms_buddy = \<lambda>_. demo_ctxt,
     ms_mreg = \<lambda>_. \<lparr>g_start = 0, g_end = 0, g_page_bits = 0\<rparr>\<rparr>"

lemma demo_mallocs: "\<exists>p h q h'. malloc 28 demo_pool_heap = Ret (p, h) \<and> p \<noteq> 0 \<and> malloc 32 h = Ret (q, h') \<and> q \<noteq> 0"
proof -
  have mem: "h_memory demo_pool_heap = 0x1000" by (simp add: demo_pool_heap_def core_mem_init_def heap_init_def Let_def)
  obtain p h where p: "malloc 28 demo_pool_heap = Ret (p, h)" "p \<noteq> 0" "heap_inv h (alloc_blocks 32 240)" "h_memory h = 0x1000"
    using malloc_inv [OF demo_pool_heap_inv, of 28] mem
    by (auto simp: fits_def round8_def Cons_eq_append_conv keeps_contents_def)
  have b: "alloc_blocks 32 240 = [(32, True), (200, False)]" by (simp add: alloc_blocks_def)
  obtain xs c ys h' where q: "[(32, True), (200, False)] = xs @ c # ys"
      "malloc 32 h = Ret (of_nat (unat (h_memory h) + total xs + 8), h')"
    using malloc_inv [OF p(3), of 32] unfolding b by (auto simp: fits_def round8_def)
  have "total xs \<le> 40" using q(1) by (auto simp: Cons_eq_append_conv)
  then have "(of_nat (unat (h_memory h) + total xs + 8) :: u32) \<noteq> 0"
    using p(4) unat_addr [of "unat (h_memory h) + total xs + 8"] by force
  then show ?thesis using p(1,2) q(2) by blast
qed

lemma demo_regs_created:
  "\<exists>reg s p s1. mreg_create 12 demo_regs = Ret (reg, s) \<and> two_lists reg s [] [] \<and> level1 reg s [] \<and> apart s [] {}
    \<and> g_page_bits (ms_mreg s reg) = int 12 \<and> memregion_alloc 0x100000 0x3FFFFF s = Ret (p, s1) \<and> p \<noteq> 0"
proof -
  obtain reg h q h' where m: "malloc 28 demo_pool_heap = Ret (reg, h)" "reg \<noteq> 0" "malloc 32 h = Ret (q, h')" "q \<noteq> 0"
    using demo_mallocs by blast
  have "heap_ok (ms_heap demo_regs)" using demo_pool_heap_inv by (auto simp: heap_ok_def demo_regs_def)
  then obtain r s where s: "mreg_create (int 12) demo_regs = Ret (r, s)" "if r = 0 then s = demo_regs
      else two_lists r s [] [] \<and> level1 r s [] \<and> apart s [] {} \<and> g_page_bits (ms_mreg s r) = int 12"
    using mreg_create_run [of demo_regs 12] by auto
  have "r = reg" "ms_heap s = h" using s(1) m(1,2) by (auto simp: mreg_create_def demo_regs_def)
  then show ?thesis using s m(2-4) by (auto simp: memregion_alloc_def)
qed

lemma demo_chunk:
  "\<exists>reg s p. level1 reg s [] \<and> apart s [] {} \<and> region_ok s p \<and> p \<noteq> reg \<and> region_bytes s p = {0x100000..0x3FFFFF}"
proof -
  obtain reg s p s1 where d: "level1 reg s []" "apart s [] {}" "memregion_alloc 0x100000 0x3FFFFF s = Ret (p, s1)" "p \<noteq> 0"
    using demo_regs_created by blast
  note l = level1D [OF d(1)]
  from memregion_alloc_cases [OF l(1), of "0x100000" "0x3FFFFF"] d(3,4)
  have r: "held (ms_heap s1) p 32" "heap_ok (ms_heap s1)" "\<forall>x k. 0 < k \<longrightarrow> held (ms_heap s) x k \<longrightarrow> x \<noteq> p \<and> held (ms_heap s1) x k"
    "ms_region s1 p = \<lparr>r_start = 0x100000, r_end = 0x3FFFFF, r_flags = 0, r_buddy = 0\<rparr>" "ms_links s1 = ms_links s"
    by auto
  have "level1 reg s1 []" using level1_change(1) [OF d(1), of s1] r l(2) by simp
  moreover have "p \<noteq> reg" using r(3) [rule_format, of 28 reg] l(2) by auto
  ultimately show ?thesis using r by (intro exI [of _ reg] exI [of _ s1] exI [of _ p]) (simp add: apart_def region_ok_def region_bytes_def)
qed

text \<open>C30. Giving a chunk back (\<^verbatim>\<open>mreg_level1_free\<close>) always returns: its bytes become free and no others, the chunks that end or start
where it does become one with it, so that no two chunks on the list touch, and no structure changes but those of the chunks
and of the list.\<close>

theorem mreg_free_coalesces:
  assumes "level1 reg s xs" "apart s xs {}" "region_ok s p" "p \<notin> set xs" "p \<noteq> reg"
    and "region_bytes s p \<inter> free_bytes s xs = {}" "\<not> {0, 2 ^ 32 - 1} \<subseteq> region_bytes s p \<union> free_bytes s xs"
  shows "\<exists>t ys. mreg_level1_free reg p s = Ret t \<and> level1 reg t ys \<and> apart t ys {} \<and> set ys \<subseteq> insert p (set xs)
    \<and> free_bytes t ys = free_bytes s xs \<union> region_bytes s p \<and> outside (insert p (set (free_megs reg # xs))) s t"
  by (rule level1_free_rep [OF assms]) blast

theorem mreg_free_coalesces_witness:
  "\<exists>reg s p t ys. mreg_level1_free reg p s = Ret t \<and> level1 reg t ys \<and> free_bytes t ys = {0x100000..0x3FFFFF}"
proof -
  obtain reg s p where d: "level1 reg s []" "apart s [] {}" "region_ok s p" "p \<noteq> reg" "region_bytes s p = {0x100000..0x3FFFFF}"
    using demo_chunk by blast
  have "region_bytes s p \<inter> free_bytes s [] = {}" "\<not> {0, 2 ^ 32 - 1} \<subseteq> region_bytes s p \<union> free_bytes s []"
    unfolding d(5) by (simp_all add: free_bytes_def)
  from mreg_free_coalesces [OF d(1-3) _ d(4) this] obtain t ys where "mreg_level1_free reg p s = Ret t" "level1 reg t ys"
      "free_bytes t ys = {0x100000..0x3FFFFF}" using d(5) by (auto simp: free_bytes_def)
  then show ?thesis by blast
qed

text \<open>C31. Allocating megabytes (\<^verbatim>\<open>mreg_level1_allocate\<close>) always returns, and is best fit: it takes a smallest chunk that is large
enough, cuts it to the size asked for (when \<^verbatim>\<open>malloc\<close> has no room for the rest it keeps the whole chunk), and frees nothing else;
it returns null, without any change, only when every chunk is too small.\<close>

theorem mreg_alloc_best_fit:
  assumes "level1 reg s xs" "0 < n" "n < 2 ^ 11"
  shows "(\<exists>p t ys. mreg_level1_allocate reg (int n) s = Ret (p, t) \<and> p \<in> set xs \<and> p \<notin> set ys \<and> level1 reg t ys \<and> region_ok t p
      \<and> (card (region_bytes t p) = n * 2 ^ 20 \<or> region_bytes t p = region_bytes s p) \<and> n * 2 ^ 20 \<le> card (region_bytes s p)
      \<and> (\<forall>q\<in>set xs. n * 2 ^ 20 \<le> card (region_bytes s q) \<longrightarrow> card (region_bytes s p) \<le> card (region_bytes s q))
      \<and> region_bytes t p \<subseteq> free_bytes s xs \<and> free_bytes t ys = free_bytes s xs - region_bytes t p)
    \<or> mreg_level1_allocate reg (int n) s = Ret (0, s) \<and> (\<forall>q\<in>set xs. card (region_bytes s q) < n * 2 ^ 20)"
  by (rule level1_allocate_rep [OF assms])

theorem mreg_alloc_best_fit_witness:
  "\<exists>reg s p t. mreg_level1_allocate reg 2 s = Ret (p, t) \<and> p \<noteq> 0 \<and> 2 * 2 ^ 20 \<le> card (region_bytes t p)"
proof -
  obtain reg s p where d: "level1 reg s []" "apart s [] {}" "region_ok s p" "p \<noteq> reg" "region_bytes s p = {0x100000..0x3FFFFF}"
    using demo_chunk by blast
  have f: "region_bytes s p \<inter> free_bytes s [] = {}" "\<not> {0, 2 ^ 32 - 1} \<subseteq> region_bytes s p \<union> free_bytes s []"
    unfolding d(5) by (simp_all add: free_bytes_def)
  obtain t where t: "link_region (free_megs reg) p s = Ret t" "level1 reg t [p]" "ms_region t = ms_region s"
    by (rule link_level1 [OF d(1,3) _ f(1) d(4) f(2)]) simp_all
  have c: "card (region_bytes t p) = 3 * 2 ^ 20" using d(5) t(3) by (simp add: region_bytes_def)
  have "p \<noteq> 0" using level1D(6) [OF t(2)] by simp
  obtain u where "mreg_level1_allocate reg 2 t = Ret (p, u)" "2 * 2 ^ 20 \<le> card (region_bytes u p)"
    using mreg_alloc_best_fit [OF t(2), of 2] c by auto
  then show ?thesis using \<open>p \<noteq> 0\<close> by blast
qed

text \<open>C32. Attaching memory whose whole megabytes are not free yet (\<^verbatim>\<open>mreg_region_attach\<close>) always returns, whatever \<^verbatim>\<open>malloc\<close>
does; when it succeeds exactly those megabytes become free, next to the chunks they touch, when it fails none do; and the
lists of chunks and of divided regions stay well formed.\<close>

theorem mreg_attach_whole_megs:
  assumes "two_lists reg s xs bs" "level1 reg s xs" "apart s xs {}"
    and "g_page_bits (ms_mreg s reg) = int bits" "6 \<le> bits" "bits \<le> 20" "2 * 2 ^ bits \<le> unat sz" "unat adr + unat sz \<le> 2 ^ 32"
    and "m1 = up 20 (unat adr)" "m2 = down 20 (unat adr + unat sz)" "m1 \<le> m2" "m1 < 2 ^ 32"
    and "{m1..<m2} \<inter> free_bytes s xs = {}" "\<not> {0, 2 ^ 32 - 1} \<subseteq> {m1..<m2} \<union> free_bytes s xs"
  shows "\<exists>ok t ys bs'. mreg_region_attach reg adr sz s = Ret (ok, t) \<and> two_lists reg t ys bs' \<and> level1 reg t ys \<and> apart t ys {}
    \<and> free_bytes t ys = free_bytes s xs \<union> (if ok then {m1..<m2} else {})"
proof -
  obtain tail where st: "mreg_region_attach reg adr sz s = (if m1 = m2 then tail s else attach_stages reg m1 m2 tail s)"
      and tail: "keeps_chunks reg s tail" and m: "m1 \<le> m2 \<longrightarrow> m2 - m1 < 2 ^ 32" "m2 \<le> 2 ^ 32"
    by (rule attach_run [OF assms(4-10,12)])
  show ?thesis
  proof (cases "m1 = m2")
    case True
    obtain t bs' where t: "tail s = Ret (True, t)" "two_lists reg t xs bs'"
        "\<forall>q k. 0 < k \<longrightarrow> held (ms_heap s) q k \<longrightarrow> ms_region t q = ms_region s q \<and> held (ms_heap t) q k"
      by (rule keeps_chunksD [OF tail assms(1)]) simp_all
    note k = level1_kept [OF assms(2) t(2,3)]
    show ?thesis using st t(1,2) k(1,2) k(3) [OF assms(3)] True by auto
  next
    case False
    then show ?thesis
      using attach_stages_run [OF assms(1-3) _ m(2) assms(12) _ assms(13,14) tail] st m(1) assms(11) by simp
  qed
qed

theorem mreg_attach_whole_megs_witness:
  "\<exists>reg s ok t ys. mreg_create 12 demo_regs = Ret (reg, s) \<and> mreg_region_attach reg 0xFE000 0x304000 s = Ret (ok, t)
    \<and> level1 reg t ys \<and> free_bytes t ys = (if ok then {0x100000..<0x400000} else {})"
proof -
  obtain reg s where d: "mreg_create 12 demo_regs = Ret (reg, s)" "two_lists reg s [] []" "level1 reg s []" "apart s [] {}"
      "g_page_bits (ms_mreg s reg) = int 12" using demo_regs_created by blast
  have v: "(0x100000 :: nat) = up 20 (unat (0xFE000 :: u32))" "(0x400000 :: nat) = down 20 (unat (0xFE000 :: u32) + unat (0x304000 :: u32))"
    by (simp_all add: up_def down_def)
  have f: "free_bytes s [] = {}" by (simp add: free_bytes_def)
  obtain ok t ys where "mreg_region_attach reg 0xFE000 0x304000 s = Ret (ok, t)" "level1 reg t ys"
      "free_bytes t ys = (if ok then {0x100000..<0x400000} else {})"
    using mreg_attach_whole_megs [OF d(2-5) _ _ _ _ v] unfolding f by auto
  then show ?thesis using d(1) by blast
qed

text \<open>C33. Attaching memory that touches no boundary of a megabyte, to an allocator without chunks (\<^verbatim>\<open>mreg_region_attach\<close>): the size of
the whole megabytes underflows to 4095 megabytes, and the chunk it frees starts behind the memory. When \<^verbatim>\<open>malloc\<close> does not
fail at once, the next megabyte allocated is one that nobody attached.\<close>

theorem mreg_attach_underflow:
  assumes "two_lists reg s [] bs" "g_page_bits (ms_mreg s reg) = int bits" "6 \<le> bits" "bits \<le> 20"
    and "2 * 2 ^ bits \<le> unat sz" "unat adr + unat sz \<le> 2 ^ 32" "down 20 (unat adr + unat sz) < up 20 (unat adr)" "up 20 (unat adr) < 2 ^ 32"
  shows "\<exists>ok t. mreg_region_attach reg adr sz s = Ret (ok, t) \<and> (if ok
    then \<exists>p u. mreg_level1_allocate reg 1 t = Ret (p, u) \<and> p \<noteq> 0
      \<and> unat (r_start (ms_region u p)) = up 20 (unat adr) \<and> unat adr + unat sz < up 20 (unat adr)
    else \<exists>start stop. memregion_alloc start stop s = Ret (0, s))"
proof -
  define m1 m2 where m: "m1 = up 20 (unat adr)" "m2 = down 20 (unat adr + unat sz)"
  have lt: "m2 < m1" "m1 < 2 ^ 32" using assms(7,8) by (simp_all add: m)
  obtain tail where st: "mreg_region_attach reg adr sz s = (if m1 = m2 then tail s else attach_stages reg m1 m2 tail s)"
      and tail: "keeps_chunks reg s tail" and "m1 \<le> m2 \<longrightarrow> m2 - m1 < 2 ^ 32" "m2 \<le> 2 ^ 32"
    by (rule attach_run [OF assms(2-6) m lt(2)])
  have far: "unat adr + unat sz < m1" "m1 < m2 + (2 ^ 20 + 2 ^ 20)"
    using down_greatest [OF up_bounds(3), of 20 "unat adr" "unat adr + unat sz"] up_bounds(2) [of 20 "unat adr"]
      down_bounds(2) [of "unat adr + unat sz" 20] lt(1) unfolding m by linarith+
  have "mreg_region_attach reg adr sz s = attach_stages reg m1 m2 tail s" using st lt(1) by simp
  from attach_stages_wrap [OF assms(1) lt far(2) tail, folded this] show ?thesis using far(1) unfolding m by fastforce
qed

theorem mreg_attach_underflow_witness:
  "\<exists>reg s t p u. mreg_create 12 demo_regs = Ret (reg, s) \<and> mreg_region_attach reg 0x101000 0x3000 s = Ret (True, t)
    \<and> mreg_level1_allocate reg 1 t = Ret (p, u) \<and> unat (r_start (ms_region u p)) = 0x200000"
proof -
  obtain reg s p s1 where d: "mreg_create 12 demo_regs = Ret (reg, s)" "two_lists reg s [] []"
      "g_page_bits (ms_mreg s reg) = int 12" "memregion_alloc 0x100000 0x3FFFFF s = Ret (p, s1)" "p \<noteq> 0"
    using demo_regs_created by blast
  have v: "up 20 (unat (0x101000 :: u32)) = 0x200000" "down 20 (unat (0x101000 :: u32) + unat (0x3000 :: u32)) = 0x100000"
    by (simp_all add: up_def down_def)
  have "memregion_alloc start stop s \<noteq> Ret (0, s)" for start stop
    using d(4,5) by (cases "malloc 32 (ms_heap s)") (auto simp: memregion_alloc_def Let_def split: if_splits)
  then obtain t q u where "mreg_region_attach reg 0x101000 0x3000 s = Ret (True, t)" "mreg_level1_allocate reg 1 t = Ret (q, u)"
      "unat (r_start (ms_region u q)) = 0x200000"
    using mreg_attach_underflow [OF d(2,3), of "0x3000" "0x101000"] unfolding v by (auto split: if_splits)
  then show ?thesis using d(1) by blast
qed

end
