(* ===== verification/Mprsa.thy ===== *)
theory Mprsa
  imports UcLib Heap
begin

text \<open>
  RSA with the padding of PKCS #1 v1.5 in the trusted guest: the modular power of \<^verbatim>\<open>guests/trusted/src/mpi/mpi.c\<close>, its conversions
  to bytes, and \<^verbatim>\<open>mpi/mprsa.c\<close>. An \<^verbatim>\<open>mp_int\<close> is the number its digits denote, and adding, multiplying, dividing, comparing and
  shifting its digits are the arithmetic of numbers. The digits lie in the heap of the guest: creating and clearing a number allocates
  and frees them, and what the digit arithmetic of the library, which is not modelled, allocates, moves and frees in between is the
  parameter \<open>W\<close> of the operations. A string of bytes is a list. A result is an error code or a value; writing outside a buffer is
  \<open>Undefined\<close>.
\<close>

section \<open>Memory (mem.c)\<close>

definition trusted_free :: "u32 \<Rightarrow> heap_ctxt \<Rightarrow> heap_ctxt" where
  "trusted_free adr h = snd (heap_free adr h)"

text \<open>Clearing bytes: of the word that holds the last ones, the others stay.\<close>

definition clear_bytes :: "u32 \<Rightarrow> nat \<Rightarrow> heap_ctxt \<Rightarrow> heap_ctxt" where
  "clear_bytes p n h =
     h\<lparr>h_mem := (\<lambda>a. if unat (a - p) < n then h_mem h a AND NOT (mask (8 * (n - unat (a - p)))) else h_mem h a)\<rparr>"

text \<open>The result of \<^verbatim>\<open>malloc\<close> is not checked: without memory, \<^verbatim>\<open>memset\<close> writes to the null pointer.\<close>

definition calloc :: "u32 \<Rightarrow> u32 \<Rightarrow> heap_ctxt \<Rightarrow> (u32 \<times> heap_ctxt) outcome" where
  "calloc num sz h =
     and_then (heap_alloc (num * sz) h) (\<lambda>(p, h1).
       if p = 0 \<and> num * sz \<noteq> 0 then Undefined else Ret (p, clear_bytes p (unat (num * sz)) h1))"

section \<open>Numbers (mpi.c)\<close>

text \<open>
  The operations on digits that may allocate: reading a number from a string of hexadecimal digits or of bytes, and the modular
  power. A \<open>digit_memory\<close> gives for the operation, the place of the digits before and the heap: the error code, the
  number that is left when it is not zero, the place of the digits after, and the heap.
\<close>

datatype mp_op = Read_radix nat | Read_bin "u8 list" | Power nat nat nat

type_synonym digit_memory = "mp_op \<Rightarrow> u32 \<Rightarrow> heap_ctxt \<Rightarrow> (int \<times> nat \<times> u32 \<times> heap_ctxt) outcome"

abbreviation (input) MP_MEM :: int where "MP_MEM \<equiv> - 2"
abbreviation (input) MP_RANGE :: int where "MP_RANGE \<equiv> - 3"
abbreviation (input) MP_UNDEF :: int where "MP_UNDEF \<equiv> - 5"

abbreviation (input) DIGIT_BIT :: nat where "DIGIT_BIT \<equiv> 16"
abbreviation (input) RADIX :: nat where "RADIX \<equiv> 65536"

text \<open>Creating a number, zero with 16 digits of two bytes, and clearing it.\<close>

definition mp_init :: "heap_ctxt \<Rightarrow> ((int + nat) \<times> u32 \<times> heap_ctxt) outcome" where
  "mp_init h = and_then (calloc 16 2 h) (\<lambda>(dp, h1). Ret (if dp = 0 then Inl MP_MEM else Inr 0, dp, h1))"

definition mp_clear :: "u32 \<Rightarrow> heap_ctxt \<Rightarrow> heap_ctxt" where
  "mp_clear dp h = (if dp \<noteq> 0 then trusted_free dp h else h)"

text \<open>The digits of a number, the lowest first; the number zero has one.\<close>

fun mp_digits :: "nat \<Rightarrow> nat list" where
  "mp_digits x = (if x < RADIX then [x] else x mod RADIX # mp_digits (x div RADIX))"

declare mp_digits.simps [simp del]

abbreviation USED :: "nat \<Rightarrow> nat" where "USED x \<equiv> length (mp_digits x)"

text \<open>The remainder by a power of two; the number of bits is passed as a digit, so it has 16 bits.\<close>

definition s_mp_mod_2d :: "nat \<Rightarrow> nat \<Rightarrow> nat" where "s_mp_mod_2d mp d = mp mod 2 ^ (d mod RADIX)"

text \<open>Barrett's reduction: the difference can be negative, and is at the end reduced by subtracting.\<close>

partial_function (option) back_off :: "int \<Rightarrow> int \<Rightarrow> int option" where
  "back_off m x = (if x \<ge> m then back_off m (x - m) else Some x)"

definition s_mp_reduce :: "nat \<Rightarrow> nat \<Rightarrow> nat \<Rightarrow> nat outcome" where
  "s_mp_reduce x m mu =
     (let um = USED m;
          q = x div RADIX ^ (um - 1) * mu div RADIX ^ (um + 1);
          x1 = int (s_mp_mod_2d x (DIGIT_BIT * (um + 1)));
          q1 = int (s_mp_mod_2d (q * m) (DIGIT_BIT * (um + 1)));
          x2 = (if x1 - q1 < 0 then x1 - q1 + int (RADIX ^ (um + 1)) else x1 - q1)
      in and_then (outcome_of (back_off (int m) x2)) (\<lambda>y. Ret (nat y)))"

text \<open>Square and multiply, over the bits \<open>d\<close> of a digit: \<open>n\<close> of them, or those up to the last that is set.\<close>

definition power_step :: "nat \<Rightarrow> nat \<Rightarrow> nat \<Rightarrow> nat \<Rightarrow> nat \<Rightarrow> (nat \<times> nat) outcome" where
  "power_step d m mu s x =
     and_then (if odd d then s_mp_reduce (s * x) m mu else Ret s) (\<lambda>s1.
     and_then (s_mp_reduce (x * x) m mu) (\<lambda>x1. Ret (s1, x1)))"

primrec power_digit :: "nat \<Rightarrow> nat \<Rightarrow> nat \<Rightarrow> nat \<Rightarrow> nat \<Rightarrow> nat \<Rightarrow> (nat \<times> nat) outcome" where
  "power_digit 0 d m mu s x = Ret (s, x)"
| "power_digit (Suc n) d m mu s x = and_then (power_step d m mu s x) (\<lambda>(s1, x1). power_digit n (d div 2) m mu s1 x1)"

fun power_last :: "nat \<Rightarrow> nat \<Rightarrow> nat \<Rightarrow> nat \<Rightarrow> nat \<Rightarrow> (nat \<times> nat) outcome" where
  "power_last d m mu s x =
     (if d = 0 then Ret (s, x) else and_then (power_step d m mu s x) (\<lambda>(s1, x1). power_last (d div 2) m mu s1 x1))"

declare power_last.simps [simp del]

fun power_digits :: "nat list \<Rightarrow> nat \<Rightarrow> nat \<Rightarrow> nat \<Rightarrow> nat \<Rightarrow> (nat \<times> nat) outcome" where
  "power_digits [] m mu s x = Ret (s, x)"
| "power_digits [d] m mu s x = power_last d m mu s x"
| "power_digits (d # ds) m mu s x = and_then (power_digit DIGIT_BIT d m mu s x) (\<lambda>(s1, x1). power_digits ds m mu s1 x1)"

definition mp_exptmod :: "nat \<Rightarrow> nat \<Rightarrow> nat \<Rightarrow> (int + nat) outcome" where
  "mp_exptmod a b m =
     (if m = 0 then Ret (Inl MP_RANGE)
      else and_then (power_digits (mp_digits b) m (RADIX ^ (2 * USED m) div m) 1 (a mod m)) (\<lambda>(s, x). Ret (Inr s)))"

text \<open>Numbers in base 256.\<close>

definition mp_read_unsigned_bin :: "u8 list \<Rightarrow> nat" where
  "mp_read_unsigned_bin str = foldl (\<lambda>mp b. mp * 256 + unat b) 0 str"

fun top_bytes :: "nat \<Rightarrow> u8 list" where
  "top_bytes d = (if d = 0 then [] else of_nat (d mod 256) # top_bytes (d div 256))"

declare top_bytes.simps [simp del]

definition mp_unsigned_bin_size :: "nat \<Rightarrow> nat" where
  "mp_unsigned_bin_size x =
     (if mp_digits x = [0] then 1 else (USED x - 1) * 2 + length (top_bytes (last (mp_digits x))))"

definition mp_to_unsigned_bin :: "nat \<Rightarrow> u8 list" where
  "mp_to_unsigned_bin x =
     (if mp_digits x = [0] then [0]
      else rev (concat (map (\<lambda>d. [of_nat (d mod 256), of_nat (d div 256 mod 256)]) (butlast (mp_digits x)))
                @ top_bytes (last (mp_digits x))))"

section \<open>RSA (mprsa.c)\<close>

text \<open>The offset \<open>xlen - len\<close> is never positive, so nothing is cleared, and a shorter number is written before the buffer.\<close>

definition mp_i2osp :: "nat \<Rightarrow> nat \<Rightarrow> (int + u8 list) outcome" where
  "mp_i2osp x len =
     (let xlen = mp_unsigned_bin_size x
      in if xlen > len then Ret (Inl MP_RANGE) else if xlen < len then Undefined else Ret (Inr (mp_to_unsigned_bin x)))"

definition mp_os2ip :: "u8 list \<Rightarrow> nat" where "mp_os2ip bs = mp_read_unsigned_bin bs"

definition mp_rsaep :: "nat \<Rightarrow> nat \<Rightarrow> nat \<Rightarrow> (int + nat) outcome" where
  "mp_rsaep msg e modulus = (if msg \<ge> modulus then Ret (Inl MP_RANGE) else mp_exptmod msg e modulus)"

definition mp_rsadp :: "nat \<Rightarrow> nat \<Rightarrow> nat \<Rightarrow> (int + nat) outcome" where
  "mp_rsadp cipher d modulus = (if cipher \<ge> modulus then Ret (Inl MP_RANGE) else mp_exptmod cipher d modulus)"

definition mp_rsasp :: "nat \<Rightarrow> nat \<Rightarrow> nat \<Rightarrow> (int + nat) outcome" where
  "mp_rsasp msg d modulus = (if msg \<ge> modulus then Ret (Inl MP_RANGE) else mp_exptmod msg d modulus)"

definition mp_rsavp :: "nat \<Rightarrow> nat \<Rightarrow> nat \<Rightarrow> (int + nat) outcome" where
  "mp_rsavp sig e modulus = (if sig \<ge> modulus then Ret (Inl MP_RANGE) else mp_exptmod sig e modulus)"

definition DER :: "u8 list" where
  "DER = [0x30, 49, 0x30, 13, 6, 9, 0x60] @ [134, 0x48, 1, 101] @ [3, 4, 2, 1] @ [5, 0] @ [4, 32]"

text \<open>The check leaves no room for the 19 bytes of the digest information.\<close>

definition mp_pkcs1v15_encodeSHA :: "u8 list \<Rightarrow> nat \<Rightarrow> (int + u8 list) outcome" where
  "mp_pkcs1v15_encodeSHA msg emlen =
     (let poffset = int emlen - int (length msg) - 19
      in if int (length msg) > int emlen - 10 then Ret (Inl MP_RANGE)
         else if poffset < 1 then Undefined
         else if poffset = 1 then Ret (Inr (0 # DER @ msg))
         else Ret (Inr (1 # replicate (nat poffset - 2) 0xFF @ [0] @ DER @ msg)))"

text \<open>The first zero at or after \<open>ix\<close>, or the length.\<close>

function find_zero :: "u8 list \<Rightarrow> nat \<Rightarrow> nat" where
  "find_zero emsg ix = (if ix < length emsg \<and> emsg ! ix \<noteq> 0 then find_zero emsg (ix + 1) else ix)"
  by pat_completeness auto
termination by (relation "measure (\<lambda>(emsg, ix). length emsg - ix)") auto

declare find_zero.simps [simp del]

text \<open>The length of the message and what is moved: nothing when the length is not positive.\<close>

definition mp_pkcs1v15_decodeSHA :: "u8 list \<Rightarrow> int + int \<times> u8 list" where
  "mp_pkcs1v15_decodeSHA emsg =
     (if length emsg < 10 then Inl MP_RANGE
      else if emsg ! 0 \<noteq> 1 then Inl MP_UNDEF
      else
        (let ix = find_zero emsg 9
         in if ix = length emsg then Inl MP_UNDEF
            else if list_ex (\<lambda>jx. emsg ! jx = 0) [1..<ix] then Inl MP_UNDEF
            else Inr (int (length emsg) - (int ix + 1 + 19), drop (ix + 20) emsg)))"

definition mp_pkcs1v15_encode ::
  "(nat \<Rightarrow> 's \<Rightarrow> (u8 list \<times> 's) outcome) \<Rightarrow> u8 list \<Rightarrow> nat \<Rightarrow> 's \<Rightarrow> ((int + u8 list) \<times> 's) outcome" where
  "mp_pkcs1v15_encode rnd msg emlen r =
     (if int (length msg) > int emlen - 10 then Ret (Inl MP_RANGE, r)
      else and_then (rnd (emlen - length msg - 2) r) (\<lambda>(pad, r1). Ret (Inr (2 # pad @ [0] @ msg), r1)))"

definition mp_pkcs1v15_decode :: "u8 list \<Rightarrow> int + u8 list" where
  "mp_pkcs1v15_decode emsg =
     (if length emsg < 10 then Inl MP_RANGE
      else if emsg ! 0 \<noteq> 2 then Inl MP_UNDEF
      else
        (let ix = find_zero emsg 9
         in if ix = length emsg then Inl MP_UNDEF
            else if list_ex (\<lambda>jx. emsg ! jx = 0) [1..<ix] then Inl MP_UNDEF
            else Inr (drop (ix + 1) emsg)))"

text \<open>
  A step of the functions below has a number, its digits at \<open>dp\<close> and the heap. A step on digits may fail for want of memory;
  a step that fails before it touches them leaves the heap alone. When a step fails, the function cleans up and returns the error code.
\<close>

definition with_digits :: "digit_memory \<Rightarrow> mp_op \<Rightarrow> (int + nat) outcome \<Rightarrow> u32 \<Rightarrow> heap_ctxt
    \<Rightarrow> ((int + nat) \<times> u32 \<times> heap_ctxt) outcome" where
  "with_digits W op value dp h =
     and_then value (\<lambda>res. case res of
        Inl err \<Rightarrow> Ret (Inl err, dp, h)
      | Inr v \<Rightarrow> and_then (W op dp h) (\<lambda>(err, rest, dp', h'). Ret (if err = 0 then Inr v else Inl err, dp', h')))"

definition no_digits :: "(int + 'a) outcome \<Rightarrow> u32 \<Rightarrow> heap_ctxt \<Rightarrow> ((int + 'a) \<times> u32 \<times> heap_ctxt) outcome" where
  "no_digits value dp h = and_then value (\<lambda>res. Ret (res, dp, h))"

definition or_cleanup :: "(u32 \<Rightarrow> heap_ctxt \<Rightarrow> heap_ctxt) \<Rightarrow> ((int + 'a) \<times> u32 \<times> heap_ctxt) outcome
    \<Rightarrow> ('a \<Rightarrow> u32 \<Rightarrow> heap_ctxt \<Rightarrow> ((int + 'b) \<times> heap_ctxt) outcome) \<Rightarrow> ((int + 'b) \<times> heap_ctxt) outcome" where
  "or_cleanup clean step f =
     and_then step (\<lambda>(res, dp, h). case res of Inl err \<Rightarrow> Ret (Inl err, clean dp h) | Inr v \<Rightarrow> f v dp h)"

text \<open>The buffer becomes the result.\<close>

definition mp_pkcs1v15_sign ::
  "digit_memory \<Rightarrow> u8 list \<Rightarrow> nat \<Rightarrow> nat \<Rightarrow> heap_ctxt \<Rightarrow> ((int + u8 list) \<times> heap_ctxt) outcome" where
  "mp_pkcs1v15_sign W hval d modulus h =
     (let k = mp_unsigned_bin_size modulus
      in and_then (heap_alloc (of_nat k) h) (\<lambda>(buf, h1).
        if buf = 0 then Ret (Inl MP_MEM, h1)
        else
          (let free_buf = (\<lambda>dp. trusted_free buf);
               clear_free = (\<lambda>dp t. trusted_free buf (mp_clear dp t))
           in or_cleanup free_buf (no_digits (mp_pkcs1v15_encodeSHA hval k) 0 h1) (\<lambda>emsg dp0 h2.
              or_cleanup free_buf (mp_init h2) (\<lambda>zero dp1 h3.
              or_cleanup clear_free (with_digits W (Read_bin emsg) (Ret (Inr (mp_os2ip emsg))) dp1 h3) (\<lambda>m dp2 h4.
              or_cleanup clear_free (with_digits W (Power m d modulus) (mp_rsasp m d modulus) dp2 h4) (\<lambda>sig dp3 h5.
              or_cleanup clear_free (no_digits (mp_i2osp sig k) dp3 h5) (\<lambda>bs dp4 h6. Ret (Inr bs, mp_clear dp4 h6)))))))))"

text \<open>Here and in \<^verbatim>\<open>mp_pkcs1v15_decrypt\<close> the number is cleared only on failure, after the buffer is freed.\<close>

definition mp_pkcs1v15_verify ::
  "digit_memory \<Rightarrow> u8 list \<Rightarrow> nat \<Rightarrow> nat \<Rightarrow> heap_ctxt \<Rightarrow> ((int + int \<times> u8 list) \<times> heap_ctxt) outcome" where
  "mp_pkcs1v15_verify W hval e modulus h =
     (let k = mp_unsigned_bin_size modulus
      in if length hval \<noteq> k then Ret (Inl MP_UNDEF, h)
         else and_then (heap_alloc (of_nat k) h) (\<lambda>(buf, h1).
           if buf = 0 then Ret (Inl MP_MEM, h1)
           else
             (let free_clear = (\<lambda>dp t. mp_clear dp (trusted_free buf t))
              in or_cleanup (\<lambda>dp. trusted_free buf) (mp_init h1) (\<lambda>zero dp1 h2.
                 or_cleanup free_clear (with_digits W (Read_bin hval) (Ret (Inr (mp_os2ip hval))) dp1 h2) (\<lambda>sig dp2 h3.
                 or_cleanup free_clear (with_digits W (Power sig e modulus) (mp_rsavp sig e modulus) dp2 h3) (\<lambda>m dp3 h4.
                 or_cleanup free_clear (no_digits (mp_i2osp m k) dp3 h4) (\<lambda>bs dp4 h5.
                 or_cleanup free_clear (no_digits (Ret (mp_pkcs1v15_decodeSHA bs)) dp4 h5) (\<lambda>v dp5 h6. Ret (Inr v, h6)))))))))"

text \<open>128 bytes of the buffer are copied out, whatever its length; the buffer is not freed.\<close>

definition mp_pkcs1v15_encrypt ::
  "digit_memory \<Rightarrow> (nat \<Rightarrow> 's \<Rightarrow> (u8 list \<times> 's) outcome) \<Rightarrow> u8 list \<Rightarrow> nat \<Rightarrow> nat \<Rightarrow> heap_ctxt \<Rightarrow> 's
    \<Rightarrow> ((int + u8 list) \<times> heap_ctxt \<times> 's) outcome" where
  "mp_pkcs1v15_encrypt W rnd msg e modulus h r =
     (let k = mp_unsigned_bin_size modulus
      in and_then (heap_alloc (of_nat k) h) (\<lambda>(buf, h1).
        if buf = 0 then Ret (Inl MP_MEM, h1, r)
        else and_then (mp_pkcs1v15_encode rnd msg k r) (\<lambda>(encoded, r1).
          let free_buf = (\<lambda>dp. trusted_free buf);
              clear_free = (\<lambda>dp t. trusted_free buf (mp_clear dp t))
          in and_then
            (or_cleanup free_buf (no_digits (Ret encoded) 0 h1) (\<lambda>emsg dp0 h2.
             or_cleanup free_buf (mp_init h2) (\<lambda>zero dp1 h3.
             or_cleanup clear_free (with_digits W (Read_bin emsg) (Ret (Inr (mp_os2ip emsg))) dp1 h3) (\<lambda>m dp2 h4.
             or_cleanup clear_free (with_digits W (Power m e modulus) (mp_rsaep m e modulus) dp2 h4) (\<lambda>c dp3 h5.
             or_cleanup clear_free (no_digits (mp_i2osp c k) dp3 h5) (\<lambda>bs dp4 h6.
               if k < 128 then Undefined else Ret (Inr (take 128 bs), mp_clear dp4 h6)))))))
            (\<lambda>(res, h7). Ret (res, h7, r1)))))"

definition mp_pkcs1v15_decrypt ::
  "digit_memory \<Rightarrow> u8 list \<Rightarrow> nat \<Rightarrow> nat \<Rightarrow> heap_ctxt \<Rightarrow> ((int + u8 list) \<times> heap_ctxt) outcome" where
  "mp_pkcs1v15_decrypt W msg d modulus h =
     (let k = mp_unsigned_bin_size modulus
      in if length msg \<noteq> k then Ret (Inl MP_UNDEF, h)
         else and_then (heap_alloc (of_nat k) h) (\<lambda>(buf, h1).
           if buf = 0 then Ret (Inl MP_MEM, h1)
           else
             (let free_clear = (\<lambda>dp t. mp_clear dp (trusted_free buf t))
              in or_cleanup (\<lambda>dp. trusted_free buf) (mp_init h1) (\<lambda>zero dp1 h2.
                 or_cleanup free_clear (with_digits W (Read_bin msg) (Ret (Inr (mp_os2ip msg))) dp1 h2) (\<lambda>c dp2 h3.
                 or_cleanup free_clear (with_digits W (Power c d modulus) (mp_rsadp c d modulus) dp2 h3) (\<lambda>m dp3 h4.
                 or_cleanup free_clear (no_digits (mp_i2osp m k) dp3 h4) (\<lambda>bs dp4 h5.
                 or_cleanup free_clear (no_digits (Ret (mp_pkcs1v15_decode bs)) dp4 h5) (\<lambda>v dp5 h6. Ret (Inr v, h6)))))))))"

definition mp_pkcs1v15_maxlen :: "nat \<Rightarrow> nat" where
  "mp_pkcs1v15_maxlen modulus = (let modlen = mp_unsigned_bin_size modulus in if modlen < 10 then 0 else modlen - 10)"

end
