(* ===== verification/Trusted.thy ===== *)
theory Trusted
  imports Mprsa
begin

text \<open>
  The trusted guest, \<^verbatim>\<open>guests/trusted/src\<close>: its helpers (\<^verbatim>\<open>util.c\<close>), its random numbers (\<^verbatim>\<open>mpi/mwc.c\<close>) and the encryption of
  messages in CBC mode with ciphertext stealing (\<^verbatim>\<open>aescbc.c\<close>). An array of C is a function from its indices to bytes, the
  locals beyond an array are a parameter. AES, a library the guest includes, is one too: \<open>E\<close> and \<open>D\<close> are the cipher on
  blocks of 16 bytes under the key. Printing is left out. Signed shifts wrap, as gcc defines it; a sum of \<^verbatim>\<open>int\<close>s that overflows is
  \<open>Undefined\<close>.
\<close>

section \<open>Helpers (util.c)\<close>

record rand_state =
  z1 :: u32
  z2 :: u32
  z3 :: u32
  z4 :: u32

definition rand :: "rand_state \<Rightarrow> u32 \<times> rand_state" where
  "rand s =
     (let b1 = drop_bit 13 (push_bit 6 (z1 s) XOR z1 s); v1 = push_bit 18 (z1 s AND 4294967294) XOR b1;
          b2 = drop_bit 27 (push_bit 2 (z2 s) XOR z2 s); v2 = push_bit 2 (z2 s AND 4294967288) XOR b2;
          b3 = drop_bit 21 (push_bit 13 (z3 s) XOR z3 s); v3 = push_bit 7 (z3 s AND 4294967280) XOR b3;
          b4 = drop_bit 12 (push_bit 3 (z4 s) XOR z4 s); v4 = push_bit 13 (z4 s AND 4294967168) XOR b4
      in (v1 XOR v2 XOR v3 XOR v4, \<lparr>z1 = v1, z2 = v2, z3 = v3, z4 = v4\<rparr>))"

definition abs_int :: "int \<Rightarrow> u32 outcome" where
  "abs_int n =
     (let mk = (if n < 0 then - 1 else 0)
      in if n + mk < - (2 ^ 31) then Undefined else Ret (of_int (n + mk) XOR of_int mk))"

definition toupper :: "u8 \<Rightarrow> u8" where "toupper ch = (if ch \<ge> 97 \<and> ch \<le> 122 then 65 + (ch - 97) else ch)"
definition tolower :: "u8 \<Rightarrow> u8" where "tolower ch = (if ch \<ge> 65 \<and> ch \<le> 90 then 97 + (ch - 65) else ch)"
definition isupper :: "int \<Rightarrow> bool" where "isupper ch \<longleftrightarrow> ch \<ge> 65 \<and> ch \<le> 90"
definition islower :: "int \<Rightarrow> bool" where "islower ch \<longleftrightarrow> ch \<ge> 97 \<and> ch \<le> 122"
definition isdigit :: "u8 \<Rightarrow> bool" where "isdigit c \<longleftrightarrow> c \<ge> 48 \<and> c \<le> 57"

text \<open>The loops of \<^verbatim>\<open>memmove\<close> from the last element to the first, over words and over bytes.\<close>

definition copy_word :: "u32 \<Rightarrow> u32 \<Rightarrow> bytes \<Rightarrow> bytes" where
  "copy_word d s m = (\<lambda>a. if a - d < 4 then m (s + (a - d)) else m a)"

fun words_down :: "u32 \<Rightarrow> u32 \<Rightarrow> nat \<Rightarrow> bytes \<Rightarrow> bytes" where
  "words_down d s 0 m = m"
| "words_down d s (Suc i) m = words_down d s i (copy_word (d + 4 * of_nat i) (s + 4 * of_nat i) m)"

fun bytes_down :: "u32 \<Rightarrow> u32 \<Rightarrow> nat \<Rightarrow> bytes \<Rightarrow> bytes" where
  "bytes_down d s 0 m = m"
| "bytes_down d s (Suc i) m = bytes_down d s i (m(d + of_nat i := m (s + of_nat i)))"

definition memmove :: "u32 \<Rightarrow> u32 \<Rightarrow> u32 \<Rightarrow> bytes \<Rightarrow> bytes outcome" where
  "memmove dst src len m =
     (if dst < src then memcpy dst src (sint len) m
      else if dst mod 4 = 0 \<and> src mod 4 = 0 \<and> len mod 4 = 0 then Ret (words_down dst src (unat (len div 4)) m)
      else Ret (bytes_down dst src (unat len) m))"

section \<open>Random numbers (mwc.c)\<close>

type_synonym u16 = "16 word"

text \<open>Two arrays of 18 elements; \<open>m1\<close> and \<open>m2\<close> point to the same index of each.\<close>

record mwc =
  mother1 :: "nat \<Rightarrow> u16"
  mother2 :: "nat \<Rightarrow> u16"
  mpos :: nat
  mStart :: bool

primrec seed_loop :: "nat \<Rightarrow> u32 \<Rightarrow> u16 \<Rightarrow> u16 list" where
  "seed_loop 0 number sNumber = []"
| "seed_loop (Suc n) number sNumber =
     (let number' = 30903 * ucast sNumber + drop_bit 16 number; sNumber' = ucast (number' AND 0xFFFF)
      in sNumber' # seed_loop n number' sNumber')"

definition srand_mwc2 :: "u32 \<Rightarrow> mwc \<Rightarrow> mwc" where
  "srand_mwc2 seed s =
     (let vs = seed_loop 18 seed (ucast (seed AND 0xFFFF))
      in s\<lparr>mother1 := (\<lambda>i. if 9 \<le> i \<and> i < 18 then vs ! (i - 9) else mother1 s i),
           mother2 := (\<lambda>i. if 9 \<le> i \<and> i < 18 then vs ! i else mother2 s i), mStart := False, mpos := 9\<rparr>)"

text \<open>The two sums are of type \<^verbatim>\<open>int\<close>: every element and every constant is promoted to it.\<close>

definition combine1 :: "(nat \<Rightarrow> u16) \<Rightarrow> nat \<Rightarrow> nat" where
  "combine1 m p = unat (m p)
     + 1941 * unat (m (p + 1)) + 1860 * unat (m (p + 2)) + 1812 * unat (m (p + 3)) + 1776 * unat (m (p + 4))
     + 1492 * unat (m (p + 5)) + 1215 * unat (m (p + 6)) + 1066 * unat (m (p + 7)) + 12013 * unat (m (p + 8))"

definition combine2 :: "(nat \<Rightarrow> u16) \<Rightarrow> nat \<Rightarrow> nat" where
  "combine2 m p = unat (m p)
     + 1111 * unat (m (p + 1)) + 2222 * unat (m (p + 2)) + 3333 * unat (m (p + 3)) + 4444 * unat (m (p + 4))
     + 5555 * unat (m (p + 5)) + 6666 * unat (m (p + 6)) + 7777 * unat (m (p + 7)) + 9272 * unat (m (p + 8))"

definition rand_mwc :: "mwc \<Rightarrow> (u32 \<times> mwc) outcome" where
  "rand_mwc s =
     (if mStart s then Ret (0, s)
      else if combine1 (mother1 s) (mpos s) \<ge> 2 ^ 31 \<or> combine2 (mother2 s) (mpos s) \<ge> 2 ^ 31 then Undefined
      else
        (let number1 = of_nat (combine1 (mother1 s) (mpos s)) :: u32;
             number2 = of_nat (combine2 (mother2 s) (mpos s)) :: u32;
             up = (\<lambda>m i. if 11 \<le> i \<and> i < 18 then m (i - 10) else m i);
             (a1, a2, p) = (if mpos s = 0 then (up (mother1 s), up (mother2 s), 9) else (mother1 s, mother2 s, mpos s - 1));
             b1 = a1(p := ucast (drop_bit 16 number1), p + 1 := ucast (0xFFFF AND number1));
             b2 = a2(p := ucast (drop_bit 16 number2), p + 1 := ucast (0xFFFF AND number2))
         in Ret (push_bit 16 (ucast (b1 (p + 1))) OR ucast (b2 (p + 1)), s\<lparr>mother1 := b1, mother2 := b2, mpos := p\<rparr>)))"

section \<open>Messages (aescbc.c)\<close>

type_synonym buffer = "nat \<Rightarrow> u8"

abbreviation (input) BLOCK_LEN :: nat where "BLOCK_LEN \<equiv> 16"

text \<open>\<^verbatim>\<open>memcpy\<close> from one array to another, and the loops over the bytes of a block.\<close>

definition copy_in :: "buffer \<Rightarrow> nat \<Rightarrow> buffer \<Rightarrow> nat \<Rightarrow> nat \<Rightarrow> buffer" where
  "copy_in dst off src soff len = fold (\<lambda>i d. d(off + i := src (soff + i))) [0..<len] dst"

definition xor_bytes :: "nat \<Rightarrow> nat \<Rightarrow> nat \<Rightarrow> buffer \<Rightarrow> buffer" where
  "xor_bytes p q len b = fold (\<lambda>i b. b(p + i := b (p + i) XOR b (q + i))) [0..<len] b"

definition xor_in :: "buffer \<Rightarrow> nat \<Rightarrow> buffer \<Rightarrow> nat \<Rightarrow> buffer" where
  "xor_in b p d len = fold (\<lambda>i b. b(i := b i XOR d (p + i))) [0..<len] b"

definition move_rest :: "nat \<Rightarrow> buffer \<Rightarrow> nat \<Rightarrow> nat \<Rightarrow> buffer \<Rightarrow> buffer" where
  "move_rest p src q len b = fold (\<lambda>i b. b(p + i := src (q + i))) [len..<BLOCK_LEN] b"

definition bytes_at :: "buffer \<Rightarrow> nat \<Rightarrow> nat \<Rightarrow> u8 list" where
  "bytes_at b p n = map (\<lambda>i. b (p + i)) [0..<n]"

definition put_block :: "nat \<Rightarrow> u8 list \<Rightarrow> buffer \<Rightarrow> buffer" where
  "put_block p xs b = (\<lambda>i. if p \<le> i \<and> i < p + BLOCK_LEN then xs ! (i - p) else b i)"

definition crypt :: "(u8 list \<Rightarrow> u8 list) \<Rightarrow> nat \<Rightarrow> buffer \<Rightarrow> buffer" where
  "crypt C p b = put_block p (C (bytes_at b p BLOCK_LEN)) b"

text \<open>The initialisation vector, and the key: hexadecimal digits, without an end.\<close>

primrec rand_bytes :: "nat \<Rightarrow> mwc \<Rightarrow> (u8 list \<times> mwc) outcome" where
  "rand_bytes 0 s = Ret ([], s)"
| "rand_bytes (Suc n) s =
     and_then (rand_mwc s) (\<lambda>(v, s1). and_then (rand_bytes n s1) (\<lambda>(bs, s2). Ret (ucast (v mod 256) # bs, s2)))"

definition fillrand :: "u32 \<Rightarrow> nat \<Rightarrow> mwc \<Rightarrow> (u8 list \<times> mwc) outcome" where
  "fillrand seed len s = rand_bytes len (srand_mwc2 seed s)"

primrec key_digits :: "nat \<Rightarrow> mwc \<Rightarrow> (u8 list \<times> mwc) outcome" where
  "key_digits 0 s = Ret ([], s)"
| "key_digits (Suc n) s =
     and_then (rand_mwc s) (\<lambda>(v, s1).
       let tmp = v mod 16
       in and_then (key_digits n s1) (\<lambda>(ds, s2). Ret ((if tmp < 10 then ucast tmp + 48 else ucast tmp + 55) # ds, s2)))"

definition generateAESKey :: "mwc \<Rightarrow> (u8 list \<times> mwc) outcome" where
  "generateAESKey s = key_digits 32 s"

text \<open>The offsets of the three blocks of the buffer change places after each block; \<open>r\<close> and \<open>w\<close> are the places to read and to write.\<close>

function encfile_loop ::
  "(u8 list \<Rightarrow> u8 list) \<Rightarrow> buffer \<Rightarrow> u32 \<Rightarrow> nat \<Rightarrow> nat \<Rightarrow> nat \<Rightarrow> nat \<Rightarrow> nat \<Rightarrow> buffer \<Rightarrow> buffer \<Rightarrow> buffer outcome" where
  "encfile_loop E message nbytes r w b1 b2 b3 dbuf out =
     (if r + BLOCK_LEN \<ge> 2 ^ 31 then Undefined
      else
        (let left = unat (nbytes - of_nat r);
             len = (if BLOCK_LEN > left then left else BLOCK_LEN);
             d1 = crypt E b1 (xor_bytes b1 b2 BLOCK_LEN (copy_in dbuf b3 message r len))
         in if len \<noteq> 0 \<and> len \<noteq> BLOCK_LEN
            then (let x = xor_bytes b3 b1 len d1; d2 = crypt E b3 (move_rest b3 x b1 len x)
                  in Ret (copy_in (copy_in out w d2 b3 BLOCK_LEN) (w + BLOCK_LEN) d2 b1 len))
            else if len \<noteq> BLOCK_LEN then Ret (copy_in out w d1 b1 BLOCK_LEN)
            else encfile_loop E message nbytes (r + BLOCK_LEN) (w + BLOCK_LEN) b3 b1 b2 d1 (copy_in out w d1 b1 BLOCK_LEN)))"
  by pat_completeness auto
termination by (relation "measure (\<lambda>(E, message, nbytes, r, w, b1, b2, b3, dbuf, out). 2 ^ 31 - r)") auto

declare encfile_loop.simps [simp del]

text \<open>\<open>dbuf\<close> is what the local buffer holds before, \<open>iv\<close> what \<^verbatim>\<open>fillrand\<close> puts there.\<close>

definition encfile :: "(u8 list \<Rightarrow> u8 list) \<Rightarrow> u8 list \<Rightarrow> buffer \<Rightarrow> buffer \<Rightarrow> buffer \<Rightarrow> u32 \<Rightarrow> buffer outcome" where
  "encfile E iv dbuf out message nbytes =
     (let d0 = put_block 0 iv dbuf;
          len = (if of_nat BLOCK_LEN > nbytes then unat nbytes else BLOCK_LEN);
          d1 = copy_in d0 BLOCK_LEN message 0 len
      in if len < BLOCK_LEN
         then Ret (copy_in out 0 (crypt E len (xor_bytes BLOCK_LEN 0 len d1)) 0 (len + BLOCK_LEN))
         else encfile_loop E message nbytes BLOCK_LEN BLOCK_LEN 0 BLOCK_LEN (2 * BLOCK_LEN) d1 (copy_in out 0 d1 0 BLOCK_LEN))"

function decfile_loop ::
  "(u8 list \<Rightarrow> u8 list) \<Rightarrow> buffer \<Rightarrow> u32 \<Rightarrow> nat \<Rightarrow> nat \<Rightarrow> nat \<Rightarrow> nat \<Rightarrow> nat \<Rightarrow> buffer \<Rightarrow> buffer \<Rightarrow> buffer \<Rightarrow> buffer outcome" where
  "decfile_loop D encrypted nbytes r w b1 b2 b3 dbuf buf out =
     (if r + BLOCK_LEN \<ge> 2 ^ 31 then Undefined
      else
        (let nBytesLeft = sint (nbytes - of_nat r - of_nat BLOCK_LEN + of_nat (2 * BLOCK_LEN));
             len = (if nBytesLeft < int BLOCK_LEN then nat nBytesLeft else BLOCK_LEN);
             d1 = copy_in dbuf b3 encrypted r len;
             buf1 = put_block 0 (D (bytes_at d1 b2 BLOCK_LEN)) buf
         in if nBytesLeft < 0 then Undefined
            else if len = 0 \<or> len = BLOCK_LEN
            then (let buf2 = xor_in buf1 b1 d1 BLOCK_LEN; out1 = copy_in out w buf2 0 BLOCK_LEN
                  in if len \<noteq> BLOCK_LEN then Ret out1
                     else decfile_loop D encrypted nbytes (r + BLOCK_LEN) (w + BLOCK_LEN) b2 b3 b1 d1 buf2 out1)
            else (let buf2 = xor_in buf1 b3 d1 len;
                      d2 = xor_bytes b3 b1 BLOCK_LEN (crypt D b3 (move_rest b3 buf2 0 len d1))
                  in Ret (copy_in (copy_in out w d2 b3 BLOCK_LEN) (w + BLOCK_LEN) buf2 0 len))))"
  by pat_completeness auto
termination by (relation "measure (\<lambda>(D, encrypted, nbytes, r, w, b1, b2, b3, dbuf, buf, out). 2 ^ 31 - r)") auto

declare decfile_loop.simps [simp del]

definition decfile :: "(u8 list \<Rightarrow> u8 list) \<Rightarrow> buffer \<Rightarrow> buffer \<Rightarrow> buffer \<Rightarrow> buffer \<Rightarrow> u32 \<Rightarrow> buffer outcome" where
  "decfile D dbuf buf encrypted out nbytes =
     (let len = (if of_nat BLOCK_LEN > nbytes then unat nbytes + BLOCK_LEN else 2 * BLOCK_LEN);
          d1 = copy_in dbuf 0 encrypted 0 len
      in if len < 2 * BLOCK_LEN
         then (let k = len - BLOCK_LEN in Ret (copy_in out 0 (xor_bytes 0 BLOCK_LEN k (crypt D k d1)) 0 k))
         else decfile_loop D encrypted nbytes (2 * BLOCK_LEN) 0 0 BLOCK_LEN (2 * BLOCK_LEN) d1 buf out)"

text \<open>The hexadecimal digits of a key, up to the end of the string; \<open>None\<close> for any other character. \<open>key\<close> holds the bytes so far.\<close>

definition key_nibble :: "u8 \<Rightarrow> u32 option" where
  "key_nibble c =
     (let ch = toupper c
      in if ch \<ge> 48 \<and> ch \<le> 57 then Some (ucast ch - 48) else if ch \<ge> 65 \<and> ch \<le> 70 then Some (ucast ch - 65 + 10) else None)"

function parse_key :: "buffer \<Rightarrow> nat \<Rightarrow> u32 \<Rightarrow> u8 list \<Rightarrow> (nat \<times> u8 list) option" where
  "parse_key str i by key =
     (if i < 64 \<and> str i \<noteq> 0
      then (case key_nibble (str i) of
              None \<Rightarrow> None
            | Some v \<Rightarrow>
                (let by' = push_bit 4 by + v
                 in parse_key str (i + 1) by' (if odd i then key @ [ucast (by' AND 0xFF)] else key)))
      else Some (i, key))"
  by pat_completeness auto
termination by (relation "measure (\<lambda>(str, i, by, key). 64 - i)") auto

declare parse_key.simps [simp del]

text \<open>The key, or one of three error codes from \<open>err\<close> down.\<close>

definition session_key :: "int \<Rightarrow> buffer \<Rightarrow> int + u8 list" where
  "session_key err str =
     (case parse_key str 0 0 [] of
        None \<Rightarrow> Inl err
      | Some (i, key) \<Rightarrow>
          if str i \<noteq> 0 then Inl (err - 1) else if i < 32 \<or> i mod 16 \<noteq> 0 then Inl (err - 2) else Inr (take (i div 2) key))"

text \<open>
  What the guest finds around it: the cipher, its keys, what the digit arithmetic does to the heap, what is in memory behind local
  arrays, and the place of its heap.
\<close>

record environment =
  e_encrypt :: "u8 list \<Rightarrow> u8 list \<Rightarrow> u8 list"
  e_decrypt :: "u8 list \<Rightarrow> u8 list \<Rightarrow> u8 list"
  e_modulus :: nat
  e_public :: nat
  e_private :: nat
  e_work :: digit_memory
  e_stack :: buffer
  e_seed :: u32
  e_heap_start :: u32
  e_heap_end :: u32

partial_function (option) string_end :: "buffer \<Rightarrow> nat \<Rightarrow> nat option" where
  "string_end b i = (if b i = 0 then Some i else string_end b (i + 1))"

definition aesEncrypt ::
  "environment \<Rightarrow> buffer \<Rightarrow> buffer \<Rightarrow> buffer \<Rightarrow> heap_ctxt \<Rightarrow> mwc \<Rightarrow> (int \<times> buffer \<times> heap_ctxt \<times> mwc) outcome" where
  "aesEncrypt V sessionKey data encrypted h s =
     and_then (outcome_of (string_end data 0)) (\<lambda>n.
     and_then (heap_alloc (of_nat n) h) (\<lambda>(message, h1).
       if message = 0 \<and> n \<noteq> 0 then Undefined
       else
         (case session_key (- 1) sessionKey of
            Inl err \<Rightarrow> Ret (err, encrypted, h1, s)
          | Inr key \<Rightarrow>
              and_then (fillrand (e_seed V) BLOCK_LEN s) (\<lambda>(iv, s1).
              and_then (encfile (e_encrypt V key) iv (e_stack V) encrypted (copy_in (e_stack V) 0 data 0 n) (of_nat n)) (\<lambda>out.
                Ret (0, out, snd (heap_free message h1), s1))))))"

definition aesDecrypt ::
  "environment \<Rightarrow> buffer \<Rightarrow> buffer \<Rightarrow> buffer \<Rightarrow> u32 \<Rightarrow> heap_ctxt \<Rightarrow> (int \<times> buffer \<times> heap_ctxt) outcome" where
  "aesDecrypt V sessionKey data decrypted nbytes h =
     (case session_key (- 2) sessionKey of
        Inl err \<Rightarrow> Ret (err, decrypted, h)
      | Inr key \<Rightarrow>
          and_then (decfile (e_decrypt V key) (e_stack V) (e_stack V) data decrypted nbytes) (\<lambda>out.
          and_then (heap_alloc (nbytes + 1) h) (\<lambda>(string, h1).
            if string = 0 then Undefined else Ret (0, out, snd (heap_free string h1)))))"

text \<open>An array whose first elements are written.\<close>

definition write_list :: "u8 list \<Rightarrow> buffer \<Rightarrow> buffer" where
  "write_list xs b = (\<lambda>i. if i < length xs then xs ! i else b i)"

end
