(* ===== verification/TrustedSpec.thy ===== *)
theory TrustedSpec
  imports Trusted UcSpec
begin

text \<open>
  The helpers of the trusted guest: moving memory, and the random number generator.
\<close>

section \<open>Moving memory\<close>

lemma unat_offset:
  fixes p :: u32
  assumes "unat p + n \<le> 2 ^ 32" "j < n"
  shows "unat (p + of_nat j) = unat p + j"
proof -
  have "p + of_nat j = of_nat (unat p + j)" by simp
  then show ?thesis using assms unat_addr [of "unat p + j"] by (simp only:)
qed

definition in_area :: "u32 \<Rightarrow> nat \<Rightarrow> u32 \<Rightarrow> bool" where "in_area p n a \<longleftrightarrow> (\<exists>j<n. a = p + of_nat j)"

lemma bytes_down_at:
  "unat d + n \<le> 2 ^ 32 \<Longrightarrow> s \<le> d \<Longrightarrow> bytes_down d s n m a = (if in_area d n a then m (s + (a - d)) else m a)"
proof (induction n arbitrary: m)
  case (Suc i)
  let ?m = "m(d + of_nat i := m (s + of_nat i))"
  have ih: "bytes_down d s (Suc i) m a = (if in_area d i a then ?m (s + (a - d)) else ?m a)" using Suc by simp
  show ?case
  proof (cases "in_area d i a")
    case True
    then obtain j where j: "j < i" "a = d + of_nat j" by (auto simp: in_area_def)
    have "unat s + Suc i \<le> 2 ^ 32" using Suc.prems by (simp add: word_le_nat_alt)
    then have "unat (s + of_nat j) = unat s + j" using j(1) by (intro unat_offset) auto
    moreover have "unat (d + of_nat i) = unat d + i" using Suc.prems(1) by (intro unat_offset) auto
    ultimately have "s + of_nat j \<noteq> d + of_nat i" using Suc.prems(2) j(1) by (auto simp: word_le_nat_alt dest: arg_cong [of _ _ unat])
    then show ?thesis using ih True j less_SucI by (auto simp: in_area_def)
  next
    case False
    have "in_area d (Suc i) a \<longleftrightarrow> a = d + of_nat i" using False by (auto simp: in_area_def less_Suc_eq)
    then show ?thesis using ih False by auto
  qed
qed (simp add: in_area_def)

lemma copy_word_at:
  assumes "unat d + 4 * Suc i \<le> 2 ^ 32"
  shows "copy_word (d + 4 * of_nat i) (s + 4 * of_nat i) m a
    = (if in_area d (4 * Suc i) a \<and> \<not> in_area d (4 * i) a then m (s + (a - d)) else m a)"
proof -
  let ?k = "a - (d + 4 * of_nat i)"
  have a: "a = d + of_nat (4 * i + unat ?k)" by simp
  have "?k < 4 \<longleftrightarrow> in_area d (4 * Suc i) a \<and> \<not> in_area d (4 * i) a"
  proof
    assume k: "?k < 4"
    then have k4: "unat ?k < 4" by (simp add: word_less_nat_alt)
    then have "in_area d (4 * Suc i) a" unfolding in_area_def by (intro exI [of _ "4 * i + unat ?k"]) (use a in simp)
    moreover have "\<not> in_area d (4 * i) a"
    proof
      assume "in_area d (4 * i) a"
      then obtain j where j: "j < 4 * i" "a = d + of_nat j" by (auto simp: in_area_def)
      have "unat a = unat d + j" unfolding j(2) by (rule unat_offset [OF assms]) (use j(1) in simp)
      moreover have "unat a = unat d + (4 * i + unat ?k)"
        by (subst a, rule unat_offset [OF assms]) (use k4 in simp)
      ultimately show False using j(1) by simp
    qed
    ultimately show "in_area d (4 * Suc i) a \<and> \<not> in_area d (4 * i) a" by blast
  next
    assume r: "in_area d (4 * Suc i) a \<and> \<not> in_area d (4 * i) a"
    then obtain j where j: "j < 4 * Suc i" "a = d + of_nat j" by (auto simp: in_area_def)
    have "\<not> j < 4 * i" using r j(2) unfolding in_area_def by blast
    then have "4 * i \<le> j" by simp
    then have "?k = of_nat (j - 4 * i)" using j(2) by (simp add: of_nat_diff)
    moreover have "j - 4 * i < 4" using j(1) by simp
    ultimately show "?k < 4" by (simp add: word_less_nat_alt unat_addr)
  qed
  moreover have "s + 4 * of_nat i + ?k = s + (a - d)" by simp
  ultimately show ?thesis by (simp add: copy_word_def)
qed

lemma words_down_at:
  "unat d + 4 * n \<le> 2 ^ 32 \<Longrightarrow> s \<le> d \<Longrightarrow> words_down d s n m a = (if in_area d (4 * n) a then m (s + (a - d)) else m a)"
proof (induction n arbitrary: m)
  case (Suc i)
  let ?m = "copy_word (d + 4 * of_nat i) (s + 4 * of_nat i) m"
  have ih: "words_down d s (Suc i) m a = (if in_area d (4 * i) a then ?m (s + (a - d)) else ?m a)"
    using Suc.IH [of ?m] Suc.prems by simp
  note cw = copy_word_at [OF Suc.prems(1), of s m]
  show ?case
  proof (cases "in_area d (4 * i) a")
    case True
    then obtain j where j: "j < 4 * i" "a = d + of_nat j" by (auto simp: in_area_def)
    have s: "unat s + 4 * Suc i \<le> 2 ^ 32" using Suc.prems by (simp add: word_le_nat_alt)
    have "\<not> (in_area d (4 * Suc i) (s + of_nat j) \<and> \<not> in_area d (4 * i) (s + of_nat j))"
    proof
      assume r: "in_area d (4 * Suc i) (s + of_nat j) \<and> \<not> in_area d (4 * i) (s + of_nat j)"
      then obtain k where k: "k < 4 * Suc i" "s + of_nat j = d + of_nat k" by (auto simp: in_area_def)
      have "\<not> k < 4 * i" using r k(2) unfolding in_area_def by blast
      moreover have "unat s + j = unat d + k"
        using unat_offset [OF s, of j] unat_offset [OF Suc.prems(1) k(1)] k(2) j(1) by simp
      ultimately show False using j(1) Suc.prems(2) by (simp add: word_le_nat_alt not_less)
    qed
    then have "?m (s + of_nat j) = m (s + of_nat j)" unfolding cw by (rule if_not_P)
    moreover have "in_area d (4 * Suc i) a" using j unfolding in_area_def by (intro exI [of _ j]) simp
    ultimately show ?thesis using ih True j(2) by simp
  next
    case False
    then show ?thesis using ih by (simp add: cw)
  qed
qed (simp add: in_area_def)

lemma memmove_at:
  assumes "unat dst + unat len \<le> 2 ^ 32" "unat src + unat len \<le> 2 ^ 32" "unat len < 2 ^ 31" and n_def: "n = unat len"
  shows "\<exists>m'. memmove dst src len m = Ret m' \<and> (\<forall>a. m' a = (if in_area dst n a then m (src + (a - dst)) else m a))"
proof (cases "dst < src")
  case True
  have n31: "n < 2 ^ 31" using assms(3) by (simp add: n_def)
  have "sint (of_nat n :: u32) = int n" using n31 by (simp add: signed_of_nat signed_take_bit_int_eq_self)
  then have "sint len = int n" by (simp add: n_def)
  then have run: "memmove dst src len m = Ret (copy_bytes dst src n m)" using True by (simp add: memmove_def memcpy_def)
  have "unat (dst - src) = 2 ^ 32 + unat dst - unat src" using True by (simp add: unat_sub_if' word_less_nat_alt)
  then have far: "n \<le> unat (dst - src)" using assms(2) n_def by simp
  have "copy_bytes dst src n m a = (if in_area dst n a then m (src + (a - dst)) else m a)" for a
  proof -
    have "in_area dst n a \<longleftrightarrow> unat (a - dst) < n"
    proof
      assume "in_area dst n a"
      then obtain j where "j < n" "a = dst + of_nat j" by (auto simp: in_area_def)
      then show "unat (a - dst) < n" using assms(3) by (simp add: n_def unat_addr)
    next
      assume "unat (a - dst) < n"
      then show "in_area dst n a" unfolding in_area_def by (intro exI [of _ "unat (a - dst)"]) simp
    qed
    then show ?thesis using copy_bytes_at [of n dst src m a] far assms(3) by (simp add: n_def)
  qed
  then show ?thesis using run by blast
next
  case False
  then have le: "src \<le> dst" by simp
  show ?thesis
  proof (cases "dst mod 4 = 0 \<and> src mod 4 = 0 \<and> len mod 4 = 0")
    case True
    have "n mod 4 = 0" using True by (simp add: n_def unat_mod_distrib flip: unat_eq_zero)
    then have n4: "4 * (n div 4) = n" by (metis add_0_right mult_div_mod_eq)
    have "unat (len div 4) = n div 4" by (simp add: n_def unat_div_distrib)
    then have "memmove dst src len m = Ret (words_down dst src (n div 4) m)" using False True by (simp add: memmove_def)
    then show ?thesis using words_down_at [of dst "n div 4" src m] le assms(1) n4 by (simp add: n_def)
  next
    case other: False
    have "memmove dst src len m = Ret (bytes_down dst src n m)" 
      unfolding memmove_def if_not_P [OF False] if_not_P [OF other] n_def by (rule refl)
    then show ?thesis using bytes_down_at [of dst n src m] le assms(1) by (simp add: n_def)
  qed
qed

text \<open>C40. \<^verbatim>\<open>memmove\<close> copies the bytes the source had, however the two areas overlap and whichever loop it takes, and changes no
other byte.\<close>

theorem memmove_exact:
  assumes "unat dst + unat len \<le> 2 ^ 32" "unat src + unat len \<le> 2 ^ 32" "unat len < 2 ^ 31"
  shows "\<exists>m'. memmove dst src len m = Ret m' \<and> (\<forall>i<unat len. m' (dst + of_nat i) = m (src + of_nat i))
    \<and> (\<forall>a. \<not> in_area dst (unat len) a \<longrightarrow> m' a = m a)"
  using memmove_at [OF assms refl] unfolding in_area_def by fastforce

theorem memmove_exact_witness:
  "\<forall>m. \<exists>m'. memmove 0x1008 0x1000 16 m = Ret m' \<and> m' 0x1008 = m 0x1000 \<and> m' 0x1017 = m 0x100F \<and> m' 0x1018 = m 0x1018"
proof
  fix m :: bytes
  obtain m' where m': "memmove 0x1008 0x1000 16 m = Ret m'" "\<forall>i<16. m' (0x1008 + of_nat i) = m (0x1000 + of_nat i)"
    "\<forall>a. \<not> in_area 0x1008 16 a \<longrightarrow> m' a = m a"
    using memmove_exact [of "0x1008" 16 "0x1000" m] by auto
  have "\<not> in_area 0x1008 16 0x1018"
  proof
    assume "in_area 0x1008 16 0x1018"
    then obtain j where j: "j < 16" "(0x1018 :: u32) = 0x1008 + of_nat j" by (auto simp: in_area_def)
    then show False using unat_offset [of "0x1008" 16 j] by simp
  qed
  then show "\<exists>m'. memmove 0x1008 0x1000 16 m = Ret m' \<and> m' 0x1008 = m 0x1000 \<and> m' 0x1017 = m 0x100F \<and> m' 0x1018 = m 0x1018"
    using m'(1,3) m'(2) [rule_format, of 0] m'(2) [rule_format, of 15] by auto
qed

section \<open>Random numbers\<close>

text \<open>
  The generator as its author describes it: the carry and the eight last numbers, which shift by one place. A sum that an
  \<^verbatim>\<open>int\<close> cannot hold is undefined.
\<close>

definition mother_number :: "nat list \<Rightarrow> u16 list \<Rightarrow> nat" where
  "mother_number cs ms = unat (hd ms) + sum_list (map2 (\<lambda>c v. c * unat v) cs (tl ms))"

definition mother_shift :: "nat list \<Rightarrow> u16 list \<Rightarrow> u16 list outcome" where
  "mother_shift cs ms =
     (let number = mother_number cs ms
      in if number \<ge> 2 ^ 31 then Undefined
         else Ret (of_nat (number div 2 ^ 16) # of_nat number # take 7 (tl ms)))"

definition mother_next :: "u16 list \<times> u16 list \<Rightarrow> (u32 \<times> u16 list \<times> u16 list) outcome" where
  "mother_next ab =
     and_then (mother_shift [1941, 1860, 1812, 1776, 1492, 1215, 1066, 12013] (fst ab)) (\<lambda>a.
     and_then (mother_shift [1111, 2222, 3333, 4444, 5555, 6666, 7777, 9272] (snd ab)) (\<lambda>b.
       Ret (push_bit 16 (ucast (a ! 1)) OR ucast (b ! 1), a, b)))"

primrec mother_numbers :: "nat \<Rightarrow> u16 list \<times> u16 list \<Rightarrow> u32 list outcome" where
  "mother_numbers 0 ab = Ret []"
| "mother_numbers (Suc n) ab =
     and_then (mother_next ab) (\<lambda>(v, ab'). and_then (mother_numbers n ab') (\<lambda>vs. Ret (v # vs)))"

primrec draws :: "nat \<Rightarrow> mwc \<Rightarrow> u32 list outcome" where
  "draws 0 s = Ret []"
| "draws (Suc n) s = and_then (rand_mwc s) (\<lambda>(v, t). and_then (draws n t) (\<lambda>vs. Ret (v # vs)))"

definition window :: "(nat \<Rightarrow> u16) \<Rightarrow> nat \<Rightarrow> u16 list" where
  "window m p = map (\<lambda>i. m (p + i)) [0, 1, 2, 3, 4, 5, 6, 7, 8]"

lemma combine_window:
  "combine1 m p = mother_number [1941, 1860, 1812, 1776, 1492, 1215, 1066, 12013] (window m p)"
  "combine2 m p = mother_number [1111, 2222, 3333, 4444, 5555, 6666, 7777, 9272] (window m p)"
  by (simp_all add: combine1_def combine2_def mother_number_def window_def add.assoc)

lemma window_shift:
  "window (m(k := a, Suc k := b)) k = a # b # take 7 (tl (window m (Suc k)))"
  "window ((\<lambda>i. if 11 \<le> i \<and> i < 18 then m (i - 10) else m i)(9 := a, 10 := b)) 9 = a # b # take 7 (tl (window m 0))"
  by (simp_all add: window_def eval_nat_numeral)

text \<open>The halves of a sum, as the code and as the generator take them.\<close>

lemma narrow_number: "ucast (of_nat n :: u32) = (of_nat n :: u16)"
  by (simp add: unsigned_of_nat word_of_nat_eq_iff min_def)

lemma number_high:
  assumes "n < 2 ^ 31"
  shows "ucast (drop_bit 16 (of_nat n :: u32)) = (of_nat (n div 2 ^ 16) :: u16)"
proof -
  have u: "unat (of_nat n :: u32) = n" "unat (of_nat (n div 2 ^ 16) :: u32) = n div 2 ^ 16"
    using assms by (simp_all add: unat_addr)
  have "unat (drop_bit 16 (of_nat n :: u32)) = unat (of_nat (n div 2 ^ 16) :: u32)"
    unfolding unat_drop_bit_eq u by (simp add: drop_bit_eq_div)
  then have "drop_bit 16 (of_nat n :: u32) = of_nat (n div 2 ^ 16)" by (simp only: word_unat_eq_iff)
  then show ?thesis by (simp only: narrow_number)
qed

lemma number_low: "ucast (0xFFFF AND of_nat n :: u32) = (of_nat n :: u16)"
proof -
  have m: "(0xFFFF :: u32) = mask 16" by (simp add: mask_eq_exp_minus_1)
  have "ucast (mask 16 AND w :: u32) = (ucast w :: u16)" for w
    by (rule bit_word_eqI) (simp add: bit_ucast_iff bit_and_iff bit_mask_iff)
  then show ?thesis by (simp only: m narrow_number)
qed

text \<open>The first sum never overflows.\<close>

lemma combine1_fits: "combine1 m p < 2 ^ 31"
proof -
  have b: "unat (w :: u16) \<le> 65535" for w using unsigned_less [where ?'a = nat, of w] by simp
  show ?thesis unfolding combine1_def
    using b [of "m p"] b [of "m (p + 1)"] b [of "m (p + 2)"] b [of "m (p + 3)"] b [of "m (p + 4)"] b [of "m (p + 5)"]
      b [of "m (p + 6)"] b [of "m (p + 7)"] b [of "m (p + 8)"] by simp
qed

abbreviation windows :: "mwc \<Rightarrow> u16 list \<times> u16 list" where
  "windows s \<equiv> (window (mother1 s) (mpos s), window (mother2 s) (mpos s))"

lemma rand_mwc_shift:
  assumes "\<not> mStart s" "mpos s \<le> 9"
  shows "(rand_mwc s = Undefined \<and> mother_next (windows s) = Undefined)
    \<or> (\<exists>v t. rand_mwc s = Ret (v, t) \<and> mother_next (windows s) = Ret (v, windows t) \<and> \<not> mStart t \<and> mpos t \<le> 9)"
proof (cases "combine2 (mother2 s) (mpos s) < 2 ^ 31")
  case False
  then show ?thesis using assms combine1_fits [of "mother1 s" "mpos s"]
    by (simp add: rand_mwc_def mother_next_def mother_shift_def Let_def flip: combine_window)
next
  case True
  note fit = combine1_fits [of "mother1 s" "mpos s"] True
  note halves = number_high number_low
  have "mother_next (windows s) = (let n1 = combine1 (mother1 s) (mpos s); n2 = combine2 (mother2 s) (mpos s)
    in Ret (push_bit 16 (ucast (of_nat n1 :: u16)) OR ucast (of_nat n2 :: u16),
        of_nat (n1 div 2 ^ 16) # of_nat n1 # take 7 (tl (window (mother1 s) (mpos s))),
        of_nat (n2 div 2 ^ 16) # of_nat n2 # take 7 (tl (window (mother2 s) (mpos s)))))"
    using fit by (simp add: mother_next_def mother_shift_def Let_def flip: combine_window)
  then show ?thesis
    using assms fit window_shift by (cases "mpos s") (simp_all add: rand_mwc_def Let_def halves not_le)
qed

lemma draws_window: "\<not> mStart s \<Longrightarrow> mpos s \<le> 9 \<Longrightarrow> draws n s = mother_numbers n (windows s)"
proof (induction n arbitrary: s)
  case (Suc n)
  from rand_mwc_shift [OF Suc.prems] show ?case using Suc.IH by auto
qed simp

lemma seed_loop_length [simp]: "length (seed_loop n a b) = n"
  by (induction n arbitrary: a b) (simp_all add: Let_def)

lemma srand_windows:
  "\<not> mStart (srand_mwc2 seed s)" "mpos (srand_mwc2 seed s) = 9"
  "windows (srand_mwc2 seed s) = (let vs = seed_loop 18 seed (ucast (seed AND 0xFFFF)) in (take 9 vs, drop 9 vs))"
proof -
  define vs where "vs = seed_loop 18 seed (ucast (seed AND 0xFFFF))"
  have vs: "length vs = 18" by (simp add: vs_def)
  let ?t = "srand_mwc2 seed s"
  show t: "\<not> mStart ?t" "mpos ?t = 9" by (simp_all add: srand_mwc2_def Let_def)
  have "mother1 ?t = (\<lambda>i. if 9 \<le> i \<and> i < 18 then vs ! (i - 9) else mother1 s i)"
      "mother2 ?t = (\<lambda>i. if 9 \<le> i \<and> i < 18 then vs ! i else mother2 s i)"
    unfolding vs_def by (simp_all add: srand_mwc2_def Let_def)
  then show "windows ?t = (let vs = seed_loop 18 seed (ucast (seed AND 0xFFFF)) in (take 9 vs, drop 9 vs))"
    using vs unfolding t window_def vs_def [symmetric] Let_def
    by (auto intro!: nth_equalityI simp: less_Suc_eq numeral_eq_Suc)
qed

text \<open>C39. After \<^verbatim>\<open>srand_mwc2\<close>, the numbers \<^verbatim>\<open>rand_mwc\<close> returns are those of the generator that shifts its numbers by one place
each time: moving the two pointers down their arrays, and copying only when they reach the start, is the same. It overflows, which
is undefined, exactly when a sum of that generator does.\<close>

theorem mwc_refines:
  "draws n (srand_mwc2 seed s)
    = (let vs = seed_loop 18 seed (ucast (seed AND 0xFFFF)) in mother_numbers n (take 9 vs, drop 9 vs))"
  using draws_window [OF srand_windows(1), of seed s n] srand_windows(2,3) [of seed s] by (simp add: Let_def)

end
