(* ===== verification/Service.thy ===== *)
theory Service
  imports Trusted
begin

text \<open>
  The service the trusted guest offers to the other guests by remote procedure calls (\<^verbatim>\<open>guests/trusted/src/trusted_service.c\<close>), its
  use of RSA (\<^verbatim>\<open>rsa.c\<close>) and its heap (\<^verbatim>\<open>mem.c\<close>). The keys are the numbers that the constant strings of the code denote.
\<close>

section \<open>RSA (rsa.c)\<close>

partial_function (option) nonzero_rand :: "rand_state \<Rightarrow> (u32 \<times> rand_state) option" where
  "nonzero_rand r = (let (v, r1) = rand r in if v mod 255 = 0 then nonzero_rand r1 else Some (v mod 255, r1))"

primrec myrand :: "nat \<Rightarrow> rand_state \<Rightarrow> (u8 list \<times> rand_state) outcome" where
  "myrand 0 r = Ret ([], r)"
| "myrand (Suc n) r =
     and_then (outcome_of (nonzero_rand r)) (\<lambda>(v, r1). and_then (myrand n r1) (\<lambda>(bs, r2). Ret (ucast v # bs, r2)))"

text \<open>A number read from a constant string. Error codes of \<^verbatim>\<open>mp_init\<close> and \<^verbatim>\<open>mp_read_radix\<close> are ignored.\<close>

definition read_number :: "environment \<Rightarrow> nat \<Rightarrow> u32 \<Rightarrow> heap_ctxt \<Rightarrow> (nat \<times> u32 \<times> heap_ctxt) outcome" where
  "read_number V x dp h = and_then (e_work V (Read_radix x) dp h) (\<lambda>(err, rest, dp', h'). Ret (if err = 0 then x else rest, dp', h'))"

definition rsaEncrypt ::
  "environment \<Rightarrow> buffer \<Rightarrow> buffer \<Rightarrow> heap_ctxt \<Rightarrow> rand_state \<Rightarrow> (int \<times> buffer \<times> heap_ctxt \<times> rand_state) outcome" where
  "rsaEncrypt V g_message encrypted h r =
     and_then (mp_init h) (\<lambda>(res1, dn, h1).
     and_then (mp_init h1) (\<lambda>(res2, de, h2).
     and_then (read_number V (e_modulus V) dn h2) (\<lambda>(modulus, dn1, h3).
     and_then (read_number V (e_public V) de h3) (\<lambda>(e, de1, h4).
     and_then (outcome_of (string_end g_message 0)) (\<lambda>n.
     and_then (mp_pkcs1v15_encrypt (e_work V) myrand (bytes_at g_message 0 n) e modulus h4 r) (\<lambda>(res, h5, r1).
       let h6 = mp_clear dn1 (mp_clear de1 h5)
       in Ret (case res of Inl err \<Rightarrow> (err, encrypted, h6, r1) | Inr out \<Rightarrow> (0, write_list out encrypted, h6, r1))))))))"

text \<open>The string of the modulus has 256 digits, so 128 bytes are decrypted.\<close>

definition rsaDecrypt :: "environment \<Rightarrow> buffer \<Rightarrow> buffer \<Rightarrow> heap_ctxt \<Rightarrow> (int \<times> buffer \<times> heap_ctxt) outcome" where
  "rsaDecrypt V g_message decrypted h =
     and_then (mp_init h) (\<lambda>(res1, dn, h1).
     and_then (mp_init h1) (\<lambda>(res2, dd, h2).
     and_then (read_number V (e_modulus V) dn h2) (\<lambda>(modulus, dn1, h3).
     and_then (read_number V (e_private V) dd h3) (\<lambda>(d, dd1, h4).
     and_then (mp_pkcs1v15_decrypt (e_work V) (bytes_at g_message 0 128) d modulus h4) (\<lambda>(res, h5).
       let h6 = mp_clear dn1 (mp_clear dd1 h5)
       in Ret (case res of Inl err \<Rightarrow> (err, decrypted, h6) | Inr out \<Rightarrow> (0, write_list out decrypted, h6)))))))"

section \<open>The service (trusted_service.c)\<close>

definition g_modulus :: nat where
  "g_modulus = 0xf0f4fa85b4ad3f6d9171995085b31640c4c8ed28e5c9eb5106f62acea46ee83c0c575f03ab918d9aee62fdd5fc7b5a350d4775618f646583ef6a0c50985123ac4271ae3cdaba97f5d6527217971f2cc0bdbbfa2886afedfe783e1b170ca5e279e6fd07e9efffd99c1f4f35c30644f86227cfc32a5253a89ebfb22862f1085b35"

definition g_d :: nat where
  "g_d = 0xe2d4cc0e18834b859af8c4ea6fa2a29d406322177112bfaa9c921ac4433980f81e6a15b0ffcf5aedf1e250b12428ff479803a035c26631c69d18491589fe4043f2cf8d591c93256dda125bb1466a2199fab20081b6806ddda740b73e35e73c63e794ba34197aa423064286feb2e019b4521a05405b27b2f232619a00bedeac95"

definition g_e :: nat where "g_e = 0x10001"

record service =
  s_count :: u32
  s_nbytes :: u32
  s_encrypted :: buffer
  s_decrypted :: buffer
  s_contract :: buffer
  s_data :: buffer
  s_enckey :: buffer
  s_deckey :: buffer
  s_heap :: heap_ctxt
  s_mwc :: mwc
  s_rand :: rand_state

definition getContract :: "environment \<Rightarrow> service \<Rightarrow> service outcome" where
  "getContract V s =
     and_then (rsaDecrypt V (s_enckey s) (s_deckey s) (s_heap s)) (\<lambda>(rsaErr, key, h).
       let s1 = s\<lparr>s_deckey := key, s_heap := h\<rparr>
       in and_then
            (if rsaErr \<noteq> 0 then Ret (0, s_decrypted s1, h)
             else aesDecrypt V key (s_encrypted s1) (s_decrypted s1) (s_nbytes s1) h)
            (\<lambda>(aesErr, plain, h1).
              let s2 = s1\<lparr>s_decrypted := plain, s_heap := h1\<rparr>;
                  s3 = (if aesErr = 0 \<and> rsaErr = 0
                        then s2\<lparr>s_contract := copy_in (s_contract s2) 0 plain 0 (unat (s_nbytes s2))\<rparr> else s2)
              in Ret (s3\<lparr>s_deckey := write_list (replicate 128 0) (s_deckey s3)\<rparr>)))"

definition initFlashData :: "environment \<Rightarrow> service \<Rightarrow> service outcome" where
  "initFlashData V s =
     and_then (generateAESKey (s_mwc s)) (\<lambda>(ks, g).
       let sessionKey = write_list ks (e_stack V)
       in and_then (outcome_of (string_end (s_data s) 0)) (\<lambda>n.
          and_then (aesEncrypt V sessionKey (s_data s) (s_encrypted s) (s_heap s) g) (\<lambda>(aesErr, out, h, g1).
            let s1 = s\<lparr>s_nbytes := of_nat n, s_encrypted := out, s_heap := h, s_mwc := g1,
                      s_contract := copy_in (s_contract s) 0 out 0 n\<rparr>
            in if aesErr \<noteq> 0 then Ret s1
               else and_then (rsaEncrypt V sessionKey (s_enckey s1) (s_heap s1) (s_rand s1)) (\<lambda>(rsaErr, ek, h1, r).
                 Ret (s1\<lparr>s_enckey := ek, s_heap := h1, s_rand := r\<rparr>)))))"

definition init_heap :: "environment \<Rightarrow> heap_ctxt \<Rightarrow> heap_ctxt" where
  "init_heap V h = heap_init (e_heap_end V - e_heap_start V - 1) (e_heap_start V) h"

definition service_main :: "environment \<Rightarrow> u32 \<Rightarrow> service \<Rightarrow> service" where
  "service_main V seed s = s\<lparr>s_mwc := srand_mwc2 seed (s_mwc s), s_heap := init_heap V (s_heap s)\<rparr>"

text \<open>After each call the guest ends the remote procedure call.\<close>

definition handler_rpc :: "environment \<Rightarrow> u32 \<Rightarrow> u32 \<Rightarrow> service \<Rightarrow> service outcome" where
  "handler_rpc V callNum params s =
     (if callNum = 0 then Ret (if s_count s = 0 then (service_main V params s)\<lparr>s_count := s_count s + 1\<rparr> else s)
      else if callNum = 1 then (if s_count s \<noteq> 0 then initFlashData V s else Ret s)
      else if callNum = 3 then (if s_count s \<noteq> 0 then getContract V s else Ret s)
      else Ret s)"

end
