(* ===== verification/Cbc.thy ===== *)
theory Cbc
  imports Trusted UcSpec
begin

text \<open>
  Encryption in the trusted guest: the loops over arrays of \<^verbatim>\<open>aescbc.c\<close> in closed form, cipher block chaining with ciphertext stealing
  as functions on lists of bytes, and the two loops of the code, which rotate three blocks in one buffer, as their refinements.
\<close>

section \<open>Arrays\<close>

definition in_slot :: "nat \<Rightarrow> nat \<Rightarrow> nat \<Rightarrow> bool" where "in_slot p n i \<longleftrightarrow> p \<le> i \<and> i < p + n"

lemma in_slot_add [simp]: "in_slot p n (p + i) \<longleftrightarrow> i < n"
  by (simp add: in_slot_def)

lemma in_slot_0 [simp]: "in_slot p 0 i \<longleftrightarrow> False" "in_slot 0 n i \<longleftrightarrow> i < n"
  by (simp_all add: in_slot_def)

lemma copy_in_eq: "copy_in dst off src soff len = (\<lambda>i. if in_slot off len i then src (soff + (i - off)) else dst i)"
proof (induction len)
  case (Suc n)
  have "copy_in dst off src soff (Suc n) = (copy_in dst off src soff n)(off + n := src (soff + n))" by (simp add: copy_in_def)
  then show ?case unfolding Suc by (auto simp: fun_eq_iff in_slot_def)
qed (auto simp: copy_in_def fun_eq_iff in_slot_def)

definition apart_at :: "nat \<Rightarrow> nat \<Rightarrow> nat \<Rightarrow> bool" where "apart_at p q n \<longleftrightarrow> p + n \<le> q \<or> q + n \<le> p"

lemma xor_bytes_eq:
  "apart_at p q len \<Longrightarrow> xor_bytes p q len b = (\<lambda>i. if in_slot p len i then b i XOR b (q + (i - p)) else b i)"
proof (induction len)
  case (Suc n)
  have a: "apart_at p q n" using Suc.prems by (auto simp: apart_at_def)
  have "xor_bytes p q (Suc n) b = (xor_bytes p q n b)(p + n := xor_bytes p q n b (p + n) XOR xor_bytes p q n b (q + n))"
    by (simp add: xor_bytes_def)
  moreover have "xor_bytes p q n b (q + n) = b (q + n)" "xor_bytes p q n b (p + n) = b (p + n)"
    unfolding Suc.IH [OF a] using Suc.prems by (auto simp: apart_at_def in_slot_def)
  ultimately show ?case unfolding Suc.IH [OF a] by (auto simp: fun_eq_iff in_slot_def)
qed (auto simp: xor_bytes_def fun_eq_iff in_slot_def)

lemma xor_in_eq: "xor_in b p d len = (\<lambda>i. if i < len then b i XOR d (p + i) else b i)"
proof (induction len)
  case (Suc n)
  have "xor_in b p d (Suc n) = (xor_in b p d n)(n := xor_in b p d n n XOR d (p + n))" by (simp add: xor_in_def)
  then show ?case unfolding Suc by (auto simp: fun_eq_iff in_slot_def)
qed (auto simp: xor_in_def fun_eq_iff)

lemma move_rest_eq: "move_rest p src q len b = (\<lambda>i. if in_slot p 16 i \<and> \<not> in_slot p len i then src (q + (i - p)) else b i)"
proof -
  have "fold (\<lambda>i b. b(p + i := src (q + i))) [len..<len + k] b
      = (\<lambda>i. if p + len \<le> i \<and> i < p + len + k then src (q + (i - p)) else b i)" for k
  proof (induction k)
    case (Suc k)
    have eq: "fold (\<lambda>i b. b(p + i := src (q + i))) [len..<len + Suc k] b
        = (fold (\<lambda>i b. b(p + i := src (q + i))) [len..<len + k] b)(p + (len + k) := src (q + (len + k)))" by simp
    show ?case unfolding eq Suc.IH by (auto simp: fun_eq_iff)
  qed (auto simp: fun_eq_iff)
  from this [of "16 - len"] show ?thesis unfolding move_rest_def by (cases "len \<le> 16") (auto simp: fun_eq_iff in_slot_def)
qed

lemma bytes_at_length [simp]: "length (bytes_at b p n) = n"
  by (simp add: bytes_at_def)

lemma bytes_at_nth [simp]: "i < n \<Longrightarrow> bytes_at b p n ! i = b (p + i)"
  by (simp add: bytes_at_def)

lemma bytes_at_0 [simp]: "bytes_at b p 0 = []"
  by (simp add: bytes_at_def)

lemma bytes_at_Nil [simp]: "bytes_at b p n = [] \<longleftrightarrow> n = 0"
  by (simp add: bytes_at_def)

lemma bytes_at_eqI: "length xs = n \<Longrightarrow> (\<And>i. i < n \<Longrightarrow> b (p + i) = xs ! i) \<Longrightarrow> bytes_at b p n = xs"
  by (rule nth_equalityI) simp_all

lemma bytes_at_cong: "(\<And>i. i < n \<Longrightarrow> b (p + i) = c (q + i)) \<Longrightarrow> bytes_at b p n = bytes_at c q n"
  by (rule nth_equalityI) simp_all

lemma bytes_at_add: "bytes_at b p (m + n) = bytes_at b p m @ bytes_at b (p + m) n"
  by (rule bytes_at_eqI) (auto simp: nth_append)

section \<open>The mode of operation\<close>

abbreviation xorl :: "u8 list \<Rightarrow> u8 list \<Rightarrow> u8 list" where "xorl \<equiv> map2 (XOR)"

text \<open>The blocks after the block \<open>c\<close>, with ciphertext stealing; at least one block long.\<close>

function encipher :: "(u8 list \<Rightarrow> u8 list) \<Rightarrow> u8 list \<Rightarrow> u8 list \<Rightarrow> u8 list" where
  "encipher E c xs =
     (let y = E (xorl (take 16 xs) c); rest = drop 16 xs
      in if rest = [] then y
         else if length rest < 16 then E (xorl rest y @ drop (length rest) y) @ take (length rest) y
         else y @ encipher E y rest)"
  by pat_completeness auto
termination by (relation "measure (\<lambda>(E, c, xs). length xs)") auto

function decipher :: "(u8 list \<Rightarrow> u8 list) \<Rightarrow> u8 list \<Rightarrow> u8 list \<Rightarrow> u8 list" where
  "decipher D c ys =
     (let buf = D (take 16 ys); rest = drop 16 ys
      in if rest = [] then xorl buf c
         else if length rest < 16 then xorl (D (rest @ drop (length rest) buf)) c @ xorl buf rest
         else xorl buf c @ decipher D (take 16 ys) rest)"
  by pat_completeness auto
termination by (relation "measure (\<lambda>(D, c, ys). length ys)") auto

declare encipher.simps [simp del] decipher.simps [simp del]

definition block_cipher :: "(u8 list \<Rightarrow> u8 list) \<Rightarrow> (u8 list \<Rightarrow> u8 list) \<Rightarrow> bool" where
  "block_cipher E D \<longleftrightarrow> (\<forall>b. length b = 16 \<longrightarrow> length (E b) = 16 \<and> length (D b) = 16 \<and> D (E b) = b)"

lemma block_cipherD:
  assumes "block_cipher E D" "length b = 16"
  shows "length (E b) = 16" "length (D b) = 16" "D (E b) = b"
  using assms by (simp_all add: block_cipher_def)

lemma xorl_cancel: "length a \<le> length b \<Longrightarrow> xorl (xorl a b) b = a"
  by (rule nth_equalityI) (simp_all add: xor.assoc)

lemma xorl_length [simp]: "length (xorl a b) = min (length a) (length b)"
  by simp

lemma encipher_length:
  assumes ED: "block_cipher E D"
  shows "length c = 16 \<Longrightarrow> 16 \<le> length xs \<Longrightarrow> length (encipher E c xs) = length xs"
proof (induction "length xs" arbitrary: c xs rule: less_induct)
  case less
  let ?y = "E (xorl (take 16 xs) c)" and ?r = "drop 16 xs"
  have y: "length ?y = 16" by (rule block_cipherD(1) [OF ED]) (use less.prems in simp)
  show ?case
  proof (cases "?r = [] \<or> length ?r < 16")
    case True
    then show ?thesis using y less.prems block_cipherD(1) [OF ED, of "xorl ?r ?y @ drop (length ?r) ?y"]
      by (subst encipher.simps) (auto simp: Let_def min_def)
  next
    case False
    then show ?thesis using less.hyps [of ?r ?y] y less.prems by (subst encipher.simps) (auto simp: Let_def)
  qed
qed

lemma decipher_encipher:
  assumes ED: "block_cipher E D"
  shows "length c = 16 \<Longrightarrow> 16 \<le> length xs \<Longrightarrow> decipher D c (encipher E c xs) = xs"
proof (induction "length xs" arbitrary: c xs rule: less_induct)
  case less
  let ?p = "take 16 xs" and ?r = "drop 16 xs"
  define y where "y = E (xorl ?p c)"
  have p: "length (xorl ?p c) = 16" "length ?p = 16" using less.prems by simp_all
  have y: "length y = 16" "D y = xorl ?p c" using block_cipherD [OF ED p(1)] by (simp_all add: y_def)
  have bk: "xorl (D y) c = ?p" using y(2) p less.prems by (simp add: xorl_cancel)
  consider "?r = []" | "?r \<noteq> []" "length ?r < 16" | "16 \<le> length ?r" by linarith
  then show ?case
  proof cases
    case 1
    then have "encipher E c xs = y" by (subst encipher.simps) (simp add: y_def Let_def)
    then show ?thesis using y(1) bk 1 p(2) by (subst decipher.simps) (simp add: Let_def)
  next
    case 2
    let ?z = "xorl ?r y @ drop (length ?r) y"
    have z: "length ?z = 16" using y(1) 2(2) by simp
    have e: "encipher E c xs = E ?z @ take (length ?r) y" using 2 by (subst encipher.simps) (simp add: y_def Let_def)
    note ez = block_cipherD [OF ED z]
    have "xorl ?z (take (length ?r) y) = ?r"
      by (rule nth_equalityI) (use y(1) 2(2) in \<open>auto simp: nth_append xor.assoc\<close>)
    moreover have "take (length ?r) y @ drop (length ?r) ?z = y"
      by (rule nth_equalityI) (use y(1) 2(2) in \<open>auto simp: nth_append\<close>)
    ultimately have "decipher D c (E ?z @ take (length ?r) y) = ?p @ ?r"
      using ez y(1) 2 bk by (subst decipher.simps) (auto simp: Let_def)
    then show ?thesis using e by simp
  next
    case 3
    then have e: "encipher E c xs = y @ encipher E y ?r" by (subst encipher.simps) (auto simp: y_def Let_def)
    have l: "length (encipher E y ?r) = length ?r" by (rule encipher_length [OF ED y(1) 3])
    have "decipher D y (encipher E y ?r) = ?r" using less.hyps [of ?r y] y(1) 3 less.prems by auto
    then have "decipher D c (y @ encipher E y ?r) = ?p @ ?r"
      using y(1) bk l 3 by (subst decipher.simps) (auto simp: Let_def)
    then show ?thesis using e by simp
  qed
qed

section \<open>Enciphering\<close>

definition slots :: "nat \<Rightarrow> nat \<Rightarrow> nat \<Rightarrow> bool" where
  "slots b1 b2 b3 \<longleftrightarrow> apart_at b1 b2 16 \<and> apart_at b1 b3 16 \<and> apart_at b2 b3 16"

lemma slotsD:
  assumes "slots b1 b2 b3"
  shows "i < 16 \<Longrightarrow> k \<le> 16 \<Longrightarrow> \<not> in_slot b2 k (b1 + i)" "i < 16 \<Longrightarrow> k \<le> 16 \<Longrightarrow> \<not> in_slot b3 k (b1 + i)"
    "i < 16 \<Longrightarrow> k \<le> 16 \<Longrightarrow> \<not> in_slot b1 k (b2 + i)" "i < 16 \<Longrightarrow> k \<le> 16 \<Longrightarrow> \<not> in_slot b3 k (b2 + i)"
    "i < 16 \<Longrightarrow> k \<le> 16 \<Longrightarrow> \<not> in_slot b1 k (b3 + i)" "i < 16 \<Longrightarrow> k \<le> 16 \<Longrightarrow> \<not> in_slot b2 k (b3 + i)"
    "slots b3 b1 b2" "slots b2 b3 b1" "k \<le> 16 \<Longrightarrow> apart_at b1 b2 k" "k \<le> 16 \<Longrightarrow> apart_at b3 b1 k"
  using assms by (auto simp: slots_def apart_at_def in_slot_def)

lemma bytes_at_copy: "bytes_at (copy_in out w d q m) w m = bytes_at d q m"
  by (rule bytes_at_cong) (simp add: copy_in_eq)

lemma crypt_at:
  "length (C (bytes_at b p 16)) = 16 \<Longrightarrow> bytes_at (crypt C p b) p 16 = C (bytes_at b p 16)"
  "\<not> in_slot p 16 i \<Longrightarrow> crypt C p b i = b i"
  by (auto simp: crypt_def put_block_def in_slot_def intro!: bytes_at_eqI)

text \<open>The current block after chaining and encrypting, and the next one.\<close>

lemma chain_step:
  assumes ED: "block_cipher E D" and sl: "slots b1 b2 b3" and l: "len \<le> 16" "length p = 16" "length c = 16"
    and pc: "xorl (bytes_at dbuf b1 16) (bytes_at dbuf b2 16) = xorl p c"
    and d1: "d1 = crypt E b1 (xor_bytes b1 b2 16 (copy_in dbuf b3 message r len))"
  shows "bytes_at d1 b1 16 = E (xorl p c)" "bytes_at d1 b3 len = bytes_at message r len"
proof -
  note s = slotsD [OF sl]
  let ?x = "xor_bytes b1 b2 16 (copy_in dbuf b3 message r len)"
  have "bytes_at ?x b1 16 = xorl (bytes_at dbuf b1 16) (bytes_at dbuf b2 16)"
    by (rule bytes_at_eqI) (use s l in \<open>simp_all add: xor_bytes_eq copy_in_eq\<close>)
  then have x: "bytes_at ?x b1 16 = xorl p c" using pc by simp
  show "bytes_at d1 b1 16 = E (xorl p c)"
    unfolding d1 by (subst crypt_at(1)) (use block_cipherD [OF ED, of "xorl p c"] l in \<open>simp_all add: x\<close>)
  show "bytes_at d1 b3 len = bytes_at message r len"
    unfolding d1 by (rule bytes_at_cong) (use s l in \<open>simp add: crypt_at(2) xor_bytes_eq copy_in_eq\<close>)
qed

lemma steal_step:
  assumes ED: "block_cipher E D" and sl: "slots b1 b2 b3" and k: "k < 16"
    and y: "bytes_at d1 b1 16 = y" and m: "bytes_at d1 b3 k = m"
    and x: "x = xor_bytes b3 b1 k d1" and d2: "d2 = crypt E b3 (move_rest b3 x b1 k x)"
  shows "bytes_at d2 b3 16 = E (xorl m y @ drop k y)" "bytes_at d2 b1 k = take k y"
proof -
  note s = slotsD [OF sl]
  have ly: "length y = 16" "length m = k" using y m by auto
  have yi: "d1 (b1 + i) = y ! i" if "i < 16" for i using y that by auto
  have mi: "d1 (b3 + i) = m ! i" if "i < k" for i using m that by auto
  have xe: "x i = (if in_slot b3 k i then d1 i XOR d1 (b1 + (i - b3)) else d1 i)" for i
    unfolding x using s(10) k by (subst xor_bytes_eq) auto
  have "bytes_at (move_rest b3 x b1 k x) b3 16 = xorl m y @ drop k y"
  proof (rule bytes_at_eqI)
    show "move_rest b3 x b1 k x (b3 + i) = (xorl m y @ drop k y) ! i" if "i < 16" for i
      using that k ly yi [OF that] mi [of i] s(2) [of i k] s(2) [of i 16] by (auto simp: move_rest_eq xe nth_append)
  qed (use ly k in simp)
  then show "bytes_at d2 b3 16 = E (xorl m y @ drop k y)"
    unfolding d2 by (subst crypt_at(1)) (use block_cipherD [OF ED, of "xorl m y @ drop k y"] ly k in simp_all)
  show "bytes_at d2 b1 k = take k y"
    by (rule bytes_at_eqI) (use s(2) yi k ly in \<open>simp_all add: d2 crypt_at(2) move_rest_eq xe\<close>)
qed

lemma encfile_loop_run:
  assumes ED: "block_cipher E D" and n: "n = unat nbytes" "n + 16 < 2 ^ 31"
  shows "slots b1 b2 b3 \<Longrightarrow> r \<le> n \<Longrightarrow> length p = 16 \<Longrightarrow> length c = 16
    \<Longrightarrow> xorl (bytes_at dbuf b1 16) (bytes_at dbuf b2 16) = xorl p c
    \<Longrightarrow> \<exists>out'. encfile_loop E message nbytes r w b1 b2 b3 dbuf out = Ret out'
      \<and> bytes_at out' w (n + 16 - r) = encipher E c (p @ bytes_at message r (n - r))
      \<and> (\<forall>i. i < w \<or> w + (n + 16 - r) \<le> i \<longrightarrow> out' i = out i)"
proof (induction "n - r" arbitrary: r w b1 b2 b3 dbuf out c p rule: less_induct)
  case less
  have left: "unat (nbytes - of_nat r) = n - r"
  proof -
    have "(of_nat r :: u32) \<le> nbytes" using less.prems(2) n by (simp add: word_le_nat_alt unat_addr)
    then show ?thesis using less.prems(2) n by (simp add: unat_sub unat_addr)
  qed
  define len where "len = (if 16 > n - r then n - r else 16)"
  define d1 where "d1 = crypt E b1 (xor_bytes b1 b2 16 (copy_in dbuf b3 message r len))"
  define y where "y = E (xorl p c)"
  have ly: "length y = 16" unfolding y_def using block_cipherD [OF ED, of "xorl p c"] less.prems by simp
  have len: "len \<le> 16" by (simp add: len_def)
  note st = chain_step [OF ED less.prems(1) len less.prems(3-5) d1_def, folded y_def]
  note run = encfile_loop.simps [of E message nbytes r w b1 b2 b3 dbuf out, unfolded left Let_def, folded len_def, folded d1_def]
  have small: "\<not> r + 16 \<ge> 2 ^ 31" using less.prems(2) n(2) by linarith
  consider "n - r = 0" | "0 < n - r" "n - r < 16" | "16 \<le> n - r" by linarith
  then show ?case
  proof cases
    case 1
    then have "encfile_loop E message nbytes r w b1 b2 b3 dbuf out = Ret (copy_in out w d1 b1 16)"
      using run small by (simp add: len_def)
    moreover have "encipher E c (p @ bytes_at message r (n - r)) = y"
      using 1 less.prems by (subst encipher.simps) (simp add: y_def Let_def)
    moreover have "n + 16 - r = 16" using 1 less.prems(2) by simp
    moreover have "bytes_at (copy_in out w d1 b1 16) w 16 = y" by (simp add: bytes_at_copy st(1))
    moreover have "\<forall>i. i < w \<or> w + 16 \<le> i \<longrightarrow> copy_in out w d1 b1 16 i = out i" by (simp add: copy_in_eq in_slot_def)
    ultimately show ?thesis by (intro exI [of _ "copy_in out w d1 b1 16"]) simp
  next
    case 2
    then have l: "len = n - r" "n + 16 - r = 16 + len" using less.prems(2) by (simp_all add: len_def)
    define x where "x = xor_bytes b3 b1 len d1"
    define d2 where "d2 = crypt E b3 (move_rest b3 x b1 len x)"
    define out' where "out' = copy_in (copy_in out w d2 b3 16) (w + 16) d2 b1 len"
    have ss: "bytes_at d2 b3 16 = E (xorl (bytes_at message r len) y @ drop len y)" "bytes_at d2 b1 len = take len y"
      by (rule steal_step [OF ED less.prems(1) _ st x_def d2_def], use 2 l in simp)+
    have "encfile_loop E message nbytes r w b1 b2 b3 dbuf out = Ret out'"
      using run small 2 l by (simp add: out'_def d2_def x_def)
    moreover have "bytes_at out' w (16 + len) = bytes_at d2 b3 16 @ bytes_at d2 b1 len"
      unfolding bytes_at_add by (intro arg_cong2 [of _ _ _ _ append] bytes_at_cong) (auto simp: out'_def copy_in_eq in_slot_def)
    moreover have "encipher E c (p @ bytes_at message r (n - r)) = bytes_at d2 b3 16 @ bytes_at d2 b1 len"
      unfolding ss using 2 less.prems l by (subst encipher.simps) (simp add: y_def [symmetric] Let_def)
    moreover have "\<forall>i. i < w \<or> w + (16 + len) \<le> i \<longrightarrow> out' i = out i" by (simp add: out'_def copy_in_eq in_slot_def)
    ultimately show ?thesis unfolding l(2) by auto
  next
    case 3
    then have l: "len = 16" "r + 16 \<le> n" using less.prems(2) by (simp_all add: len_def)
    let ?out1 = "copy_in out w d1 b1 16" and ?p = "bytes_at message r 16"
    have sl: "slots b3 b1 b2" using slotsD [OF less.prems(1)] by blast
    have chain: "xorl (bytes_at d1 b3 16) (bytes_at d1 b1 16) = xorl ?p y" using st l by simp
    have dec: "n - (r + 16) < n - r" using 3 by linarith
    obtain out' where o: "encfile_loop E message nbytes (r + 16) (w + 16) b3 b1 b2 d1 ?out1 = Ret out'"
        "bytes_at out' (w + 16) (n + 16 - (r + 16)) = encipher E y (?p @ bytes_at message (r + 16) (n - (r + 16)))"
        "\<forall>i. i < w + 16 \<or> w + 16 + (n + 16 - (r + 16)) \<le> i \<longrightarrow> out' i = ?out1 i"
      using less.hyps [OF dec sl l(2) bytes_at_length ly chain, of "w + 16" ?out1] by blast
    have rest: "bytes_at message r (n - r) = ?p @ bytes_at message (r + 16) (n - (r + 16))"
      using bytes_at_add [of message r 16 "n - (r + 16)"] l(2) by simp
    have "encipher E c (p @ bytes_at message r (n - r)) = y @ encipher E y (?p @ bytes_at message (r + 16) (n - (r + 16)))"
      unfolding rest using less.prems by (subst encipher.simps) (simp add: y_def Let_def)
    moreover have "bytes_at out' w (n + 16 - r) = bytes_at out' w 16 @ bytes_at out' (w + 16) (n + 16 - (r + 16))"
      using bytes_at_add [of out' w 16 "n + 16 - (r + 16)"] l(2) by (simp add: add.commute)
    moreover have "bytes_at out' w 16 = y"
      using st(1) by (subst bytes_at_cong [of 16 out' w ?out1 w]) (use o(3) in \<open>simp_all add: bytes_at_copy\<close>)
    moreover have "encfile_loop E message nbytes r w b1 b2 b3 dbuf out = Ret out'"
      using run small l(1) o(1) by simp
    moreover have "\<forall>i. i < w \<or> w + (n + 16 - r) \<le> i \<longrightarrow> out' i = out i" using o(3) l(2) by (auto simp: copy_in_eq in_slot_def)
    ultimately show ?thesis using o(2) by auto
  qed
qed

section \<open>Deciphering\<close>

lemma put_block_at: "length xs = 16 \<Longrightarrow> put_block 0 xs b i = (if i < 16 then xs ! i else b i)"
  by (simp add: put_block_def)

lemma unchain_step:
  assumes ED: "block_cipher E D" and sl: "slots b1 b2 b3" and l: "len \<le> 16"
    and c: "bytes_at dbuf b1 16 = c" "bytes_at dbuf b2 16 = p"
    and d1: "d1 = copy_in dbuf b3 encrypted r len" and buf1: "buf1 = put_block 0 (D (bytes_at d1 b2 16)) buf"
  shows "bytes_at d1 b1 16 = c" "bytes_at d1 b2 16 = p" "bytes_at d1 b3 len = bytes_at encrypted r len"
    "i < 16 \<Longrightarrow> buf1 i = D p ! i" "length (D p) = 16" "bytes_at (xor_in buf1 b1 d1 16) 0 16 = xorl (D p) c"
proof -
  note s = slotsD [OF sl]
  show c1: "bytes_at d1 b1 16 = c" unfolding d1 c(1) [symmetric] by (rule bytes_at_cong) (use s l in \<open>simp add: copy_in_eq\<close>)
  show p1: "bytes_at d1 b2 16 = p" unfolding d1 c(2) [symmetric] by (rule bytes_at_cong) (use s l in \<open>simp add: copy_in_eq\<close>)
  show "bytes_at d1 b3 len = bytes_at encrypted r len" unfolding d1 by (rule bytes_at_copy)
  have "length p = 16" using c(2) by auto
  then show lp: "length (D p) = 16" using block_cipherD(2) [OF ED] by simp
  show b: "buf1 i = D p ! i" if "i < 16" for i unfolding buf1 p1 using that by (simp add: put_block_at lp)
  show "bytes_at (xor_in buf1 b1 d1 16) 0 16 = xorl (D p) c"
    by (rule bytes_at_eqI) (use lp c1 b in \<open>auto simp: xor_in_eq\<close>)
qed

lemma unsteal_step:
  assumes ED: "block_cipher E D" and sl: "slots b1 b2 b3" and k: "k < 16"
    and d1: "bytes_at d1 b1 16 = c" "bytes_at d1 b3 k = m" and buf1: "\<forall>i<16. buf1 i = y ! i" "length y = 16"
    and buf2: "buf2 = xor_in buf1 b3 d1 k" and d2: "d2 = xor_bytes b3 b1 16 (crypt D b3 (move_rest b3 buf2 0 k d1))"
  shows "bytes_at d2 b3 16 = xorl (D (m @ drop k y)) c" "bytes_at buf2 0 k = xorl y m"
proof -
  note s = slotsD [OF sl]
  have l: "length c = 16" "length m = k" using d1 by auto
  have ci: "d1 (b1 + i) = c ! i" if "i < 16" for i using d1(1) that by auto
  have mi: "d1 (b3 + i) = m ! i" if "i < k" for i using d1(2) that by auto
  have b2: "buf2 i = (if i < k then y ! i XOR m ! i else y ! i)" if "i < 16" for i
    using that k buf1(1) mi by (auto simp: buf2 xor_in_eq)
  show "bytes_at buf2 0 k = xorl y m" by (rule bytes_at_eqI) (use b2 k l buf1(2) in simp_all)
  let ?d = "move_rest b3 buf2 0 k d1"
  have d: "bytes_at ?d b3 16 = m @ drop k y"
    by (rule bytes_at_eqI) (use b2 k l mi buf1(2) in \<open>auto simp: move_rest_eq nth_append\<close>)
  have dm: "length (D (m @ drop k y)) = 16" using block_cipherD(2) [OF ED, of "m @ drop k y"] l(2) k buf1(2) by simp
  have e: "bytes_at (crypt D b3 ?d) b3 16 = D (m @ drop k y)" by (subst crypt_at(1)) (simp_all add: d dm)
  then have ei: "crypt D b3 ?d (b3 + i) = D (m @ drop k y) ! i" if "i < 16" for i using that by (metis bytes_at_nth)
  have cb: "crypt D b3 ?d (b1 + i) = c ! i" if "i < 16" for i using that s(2) ci k by (simp add: crypt_at(2) move_rest_eq)
  show "bytes_at d2 b3 16 = xorl (D (m @ drop k y)) c"
    by (rule bytes_at_eqI) (use s(10) ei cb l(1) dm in \<open>simp_all add: d2 xor_bytes_eq\<close>)
qed

lemma decfile_loop_run:
  assumes ED: "block_cipher E D" and n: "n = unat nbytes" "n + 32 < 2 ^ 31"
  shows "slots b1 b2 b3 \<Longrightarrow> r \<le> n + 16 \<Longrightarrow> bytes_at dbuf b1 16 = c \<Longrightarrow> bytes_at dbuf b2 16 = p
    \<Longrightarrow> \<exists>out'. decfile_loop D encrypted nbytes r w b1 b2 b3 dbuf buf out = Ret out'
      \<and> bytes_at out' w (16 + (n + 16 - r)) = decipher D c (p @ bytes_at encrypted r (n + 16 - r))
      \<and> (\<forall>i. i < w \<or> w + (16 + (n + 16 - r)) \<le> i \<longrightarrow> out' i = out i)"
proof (induction "n + 16 - r" arbitrary: r w b1 b2 b3 dbuf buf out c p rule: less_induct)
  case less
  define m where "m = n + 16 - r"
  have m31: "m < 2 ^ 31" using n(2) by (simp add: m_def)
  have "(nbytes - of_nat r - of_nat 16 + of_nat (2 * 16) :: u32) = of_nat m"
    using less.prems(2) n(1) by (simp add: m_def of_nat_diff)
  then have left: "sint (nbytes - of_nat r - of_nat 16 + of_nat (2 * 16)) = int m"
    using m31 by (simp add: signed_of_nat signed_take_bit_int_eq_self)
  define len where "len = (if int m < int 16 then nat (int m) else 16)"
  define d1 where "d1 = copy_in dbuf b3 encrypted r len"
  define buf1 where "buf1 = put_block 0 (D (bytes_at d1 b2 16)) buf"
  have len: "len \<le> 16" by (simp add: len_def)
  note st = unchain_step [OF ED less.prems(1) len less.prems(3,4) d1_def buf1_def]
  have lp: "length p = 16" using less.prems(4) by auto
  note run = decfile_loop.simps [of D encrypted nbytes r w b1 b2 b3 dbuf buf out, unfolded left Let_def, folded len_def, folded d1_def, folded buf1_def]
  have small: "\<not> r + 16 \<ge> 2 ^ 31" using less.prems(2) n(2) by linarith
  let ?buf2 = "xor_in buf1 b1 d1 16"
  let ?out1 = "copy_in out w ?buf2 0 16"
  have plain: "bytes_at ?out1 w 16 = xorl (D p) c" unfolding bytes_at_copy by (rule st(6))
  consider "m = 0" | "0 < m" "m < 16" | "16 \<le> m" by linarith
  then have "\<exists>out'. decfile_loop D encrypted nbytes r w b1 b2 b3 dbuf buf out = Ret out'
        \<and> bytes_at out' w (16 + m) = decipher D c (p @ bytes_at encrypted r m) \<and> (\<forall>i. i < w \<or> w + (16 + m) \<le> i \<longrightarrow> out' i = out i)" (is ?goal)
  proof cases
    case 1
    then have "decfile_loop D encrypted nbytes r w b1 b2 b3 dbuf buf out = Ret ?out1" using run small by (simp add: len_def)
    moreover have "decipher D c (p @ bytes_at encrypted r m) = xorl (D p) c"
      using 1 lp by (subst decipher.simps) (simp add: Let_def)
    moreover have "\<forall>i. i < w \<or> w + 16 \<le> i \<longrightarrow> ?out1 i = out i" by (simp add: copy_in_eq in_slot_def)
    ultimately show ?goal
      using plain 1 by (intro exI [of _ ?out1]) simp
  next
    case 2
    then have l: "len = m" by (simp add: len_def)
    define b2' where "b2' = xor_in buf1 b3 d1 len"
    define d2 where "d2 = xor_bytes b3 b1 16 (crypt D b3 (move_rest b3 b2' 0 len d1))"
    define out' where "out' = copy_in (copy_in out w d2 b3 16) (w + 16) b2' 0 len"
    have y: "\<forall>i<16. buf1 i = D p ! i" using st(4) by blast
    have us: "bytes_at d2 b3 16 = xorl (D (bytes_at encrypted r len @ drop len (D p))) c" "bytes_at b2' 0 len = xorl (D p) (bytes_at encrypted r len)"
      by (rule unsteal_step [OF ED less.prems(1) _ st(1,3) y st(5) b2'_def d2_def], use 2 l in simp)+
    have "decfile_loop D encrypted nbytes r w b1 b2 b3 dbuf buf out = Ret out'"
      using run small 2 l by (simp add: out'_def d2_def b2'_def)
    moreover have "bytes_at out' w (16 + m) = bytes_at d2 b3 16 @ bytes_at b2' 0 len"
      unfolding bytes_at_add l [symmetric]
      by (intro arg_cong2 [of _ _ _ _ append] bytes_at_cong) (auto simp: out'_def copy_in_eq in_slot_def)
    moreover have "decipher D c (p @ bytes_at encrypted r m) = bytes_at d2 b3 16 @ bytes_at b2' 0 len"
      unfolding us using 2 lp l by (subst decipher.simps) (simp add: Let_def)
    moreover have "\<forall>i. i < w \<or> w + (16 + m) \<le> i \<longrightarrow> out' i = out i" using l by (simp add: out'_def copy_in_eq in_slot_def)
    ultimately show ?goal
      by auto
  next
    case 3
    then have l: "len = 16" "r + 16 \<le> n + 16" "n + 16 - (r + 16) = m - 16" "m - 16 < n + 16 - r" using less.prems(2) by (auto simp: len_def m_def)
    let ?q = "bytes_at encrypted r 16"
    have sl: "slots b2 b3 b1" using slotsD [OF less.prems(1)] by blast
    have q: "bytes_at d1 b3 16 = ?q" using st(3) l(1) by simp
    obtain out' where o: "decfile_loop D encrypted nbytes (r + 16) (w + 16) b2 b3 b1 d1 ?buf2 ?out1 = Ret out'"
        "bytes_at out' (w + 16) (16 + (m - 16)) = decipher D p (?q @ bytes_at encrypted (r + 16) (m - 16))"
        "\<forall>i. i < w + 16 \<or> w + 16 + (16 + (m - 16)) \<le> i \<longrightarrow> out' i = ?out1 i"
      using less.hyps [OF l(4) [folded l(3)] sl l(2) st(2) q, of "w + 16" ?buf2 ?out1] unfolding l(3) by blast
    have rest: "bytes_at encrypted r m = ?q @ bytes_at encrypted (r + 16) (m - 16)"
      using bytes_at_add [of encrypted r 16 "m - 16"] 3 by simp
    have "decipher D c (p @ bytes_at encrypted r m) = xorl (D p) c @ decipher D p (?q @ bytes_at encrypted (r + 16) (m - 16))"
      unfolding rest using lp by (subst decipher.simps) (simp add: Let_def)
    moreover have "bytes_at out' w (16 + m) = bytes_at out' w 16 @ bytes_at out' (w + 16) (16 + (m - 16))"
      using bytes_at_add [of out' w 16 m] 3 by simp
    moreover have "bytes_at out' w 16 = xorl (D p) c"
      using plain by (subst bytes_at_cong [of 16 out' w ?out1 w]) (use o(3) in simp_all)
    moreover have "decfile_loop D encrypted nbytes r w b1 b2 b3 dbuf buf out = Ret out'" using run small l(1) o(1) 3 by simp
    moreover have "\<forall>i. i < w \<or> w + (16 + m) \<le> i \<longrightarrow> out' i = out i" using o(3) 3 by (auto simp: copy_in_eq in_slot_def)
    ultimately show ?goal
      using o(2) by auto
  qed
  then show ?case unfolding m_def .
qed

section \<open>Messages\<close>

lemma xorl_commute: "length a = length b \<Longrightarrow> xorl a b = xorl b a"
  by (rule nth_equalityI) (simp_all add: xor.commute)

lemma short_round_trip:
  assumes ED: "block_cipher E D" and iv: "length iv = 16" and n: "n = unat nbytes" "n < 16"
  shows "\<exists>c p. encfile E iv dbuf out message nbytes = Ret c \<and> decfile D dbuf' buf c out' nbytes = Ret p
    \<and> (\<forall>i. p i = (if i < n then message i else out' i)) \<and> (\<forall>i\<ge>n + 16. c i = out i)"
proof -
  have less: "of_nat 16 > nbytes" using n by (simp add: word_less_nat_alt)
  define x where "x = xor_bytes 16 0 n (copy_in (put_block 0 iv dbuf) 16 message 0 n)"
  define e where "e = crypt E n x"
  define c where "c = copy_in out 0 e 0 (n + 16)"
  have enc: "encfile E iv dbuf out message nbytes = Ret c"
    using less n by (simp add: encfile_def Let_def c_def e_def x_def)
  have ap: "apart_at 16 0 n" "apart_at 0 16 n" using n(2) by (simp_all add: apart_at_def)
  have xi: "x i = iv ! i" "x (16 + i) = message i XOR iv ! i" if "i < n" for i
    using that n(2) iv ap(1) by (simp_all add: x_def xor_bytes_eq copy_in_eq put_block_at in_slot_def)
  define t where "t = bytes_at x n 16"
  note t = block_cipherD [OF ED, of t]
  define d where "d = copy_in dbuf' 0 c 0 (n + 16)"
  have di: "d i = e i" if "i < n + 16" for i using that by (simp add: d_def c_def copy_in_eq)
  have ti: "length t = 16" by (simp add: t_def)
  have "bytes_at d n 16 = bytes_at e n 16" by (rule bytes_at_cong) (simp add: di)
  also have "\<dots> = E t" unfolding e_def using t(1) [OF ti] by (simp add: crypt_at(1) t_def)
  finally have dn: "bytes_at d n 16 = E t" .
  have "crypt D n d i = x i" if "i < n + 16" for i
  proof (cases "i < n")
    case True
    then have "\<not> in_slot n 16 i" by (simp add: in_slot_def)
    then show ?thesis using that by (simp add: crypt_at(2) di e_def)
  next
    case False
    define j where "j = i - n"
    have j: "i = n + j" "j < 16" using that False by (simp_all add: j_def)
    have "crypt D n d (n + j) = bytes_at (crypt D n d) n 16 ! j" using j(2) by simp
    also have "\<dots> = t ! j" using t(3) [OF ti] ti by (subst crypt_at(1)) (simp_all add: dn)
    finally show ?thesis using j by (simp add: t_def)
  qed
  then have fin: "xor_bytes 0 16 n (crypt D n d) i = message i" if "i < n" for i
    using that n(2) ap(2) xi [OF that] by (simp add: xor_bytes_eq xor.left_commute)
  define p where "p = copy_in out' 0 (xor_bytes 0 16 n (crypt D n d)) 0 n"
  have dec: "decfile D dbuf' buf c out' nbytes = Ret p"
    using less n by (simp add: decfile_def Let_def p_def d_def)
  have "\<forall>i. p i = (if i < n then message i else out' i)" using fin by (simp add: p_def copy_in_eq)
  moreover have "\<forall>i\<ge>n + 16. c i = out i" by (simp add: c_def copy_in_eq)
  ultimately show ?thesis using enc dec by blast
qed

lemma long_round_trip:
  assumes ED: "block_cipher E D" and iv: "length iv = 16" and n: "n = unat nbytes" "16 \<le> n" "n + 32 < 2 ^ 31"
  shows "\<exists>c p. encfile E iv dbuf out message nbytes = Ret c \<and> decfile D dbuf' buf c out' nbytes = Ret p
    \<and> (\<forall>i. p i = (if i < n then message i else out' i)) \<and> (\<forall>i\<ge>n + 16. c i = out i)"
proof -
  have ge: "\<not> of_nat 16 > nbytes" using n by (simp add: word_less_nat_alt)
  define d1 where "d1 = copy_in (put_block 0 iv dbuf) 16 message 0 16"
  let ?p = "bytes_at message 0 16" and ?out1 = "copy_in out 0 d1 0 16"
  have sl: "slots 0 16 32" by (simp add: slots_def apart_at_def)
  have d: "bytes_at d1 0 16 = iv" "bytes_at d1 16 16 = ?p"
    by (rule bytes_at_eqI, use iv in \<open>simp_all add: d1_def copy_in_eq put_block_at in_slot_def bytes_at_cong\<close>)+
  have n16: "n + 16 < 2 ^ 31" using n(3) by simp
  obtain c where c: "encfile_loop E message nbytes 16 16 0 16 32 d1 ?out1 = Ret c"
      "bytes_at c 16 (n + 16 - 16) = encipher E iv (?p @ bytes_at message 16 (n - 16))"
      "\<forall>i. i < 16 \<or> 16 + (n + 16 - 16) \<le> i \<longrightarrow> c i = ?out1 i"
    using encfile_loop_run [OF ED n(1) n16 sl n(2), of ?p iv d1 message 16 ?out1] iv d xorl_commute by auto
  have enc: "encfile E iv dbuf out message nbytes = Ret c" using ge c(1) by (simp add: encfile_def Let_def d1_def)
  have msg: "?p @ bytes_at message 16 (n - 16) = bytes_at message 0 n" using bytes_at_add [of message 0 16 "n - 16"] n(2) by simp
  define d2 where "d2 = copy_in dbuf' 0 c 0 32"
  have "bytes_at d2 0 16 = bytes_at ?out1 0 16" by (rule bytes_at_cong) (use c(3) in \<open>simp add: d2_def copy_in_eq\<close>)
  then have d20: "bytes_at d2 0 16 = iv" by (simp add: bytes_at_copy d(1))
  have d21: "bytes_at d2 16 16 = bytes_at c 16 16" by (rule bytes_at_cong) (simp add: d2_def copy_in_eq)
  have r: "32 \<le> n + 16" using n(2) by simp
  obtain p where p: "decfile_loop D c nbytes 32 0 0 16 32 d2 buf out' = Ret p"
      "bytes_at p 0 (16 + (n + 16 - 32)) = decipher D iv (bytes_at c 16 16 @ bytes_at c 32 (n + 16 - 32))"
      "\<forall>i. i < 0 \<or> 0 + (16 + (n + 16 - 32)) \<le> i \<longrightarrow> p i = out' i"
    using decfile_loop_run [OF ED n(1,3) sl r d20 d21, of c 0 buf out'] by auto
  have dec: "decfile D dbuf' buf c out' nbytes = Ret p" using ge p(1) by (simp add: decfile_def Let_def d2_def)
  have "bytes_at c 16 16 @ bytes_at c 32 (n + 16 - 32) = bytes_at c 16 n"
    using bytes_at_add [of c 16 16 "n - 16"] n(2) by simp
  also have "\<dots> = encipher E iv (bytes_at message 0 n)" using c(2) msg by simp
  finally have "bytes_at p 0 n = bytes_at message 0 n"
    using p(2) decipher_encipher [OF ED iv, of "bytes_at message 0 n"] n(2) by simp
  then have "p i = message i" if "i < n" for i using that by (metis add_0 bytes_at_nth)
  then have "\<forall>i. p i = (if i < n then message i else out' i)" using p(3) n(2) by auto
  moreover have "\<forall>i\<ge>n + 16. c i = out i" using c(3) by (simp add: copy_in_eq)
  ultimately show ?thesis using enc dec by blast
qed

lemma round_trip:
  assumes "block_cipher E D" "length iv = 16" "unat nbytes + 32 < 2 ^ 31"
  obtains c p where "encfile E iv dbuf out message nbytes = Ret c" "decfile D dbuf' buf c out' nbytes = Ret p"
    "\<forall>i. p i = (if i < unat nbytes then message i else out' i)" "\<forall>i\<ge>unat nbytes + 16. c i = out i"
proof (cases "unat nbytes < 16")
  case True
  from short_round_trip [OF assms(1,2) refl True, of dbuf out message dbuf' buf out'] show ?thesis using that by blast
next
  case False
  then have "16 \<le> unat nbytes" by simp
  from long_round_trip [OF assms(1,2) refl this assms(3), of dbuf out message dbuf' buf out'] show ?thesis using that by blast
qed

text \<open>C34. What \<^verbatim>\<open>encfile\<close> writes, \<^verbatim>\<open>decfile\<close> turns back into the message, for every length (shorter than a block, whole blocks, and
with ciphertext stealing) and whatever the buffers held before; the encrypted message takes the length and 16 bytes, and neither
writes behind its end.\<close>

theorem cbc_round_trip:
  assumes "block_cipher E D" "length iv = 16" "unat nbytes + 32 < 2 ^ 31"
  shows "\<exists>c p. encfile E iv dbuf out message nbytes = Ret c \<and> decfile D dbuf' buf c out' nbytes = Ret p
    \<and> (\<forall>i. p i = (if i < unat nbytes then message i else out' i)) \<and> (\<forall>i\<ge>unat nbytes + 16. c i = out i)"
  by (rule round_trip [OF assms, of dbuf out message dbuf' buf out']) blast

definition demo_cipher :: "u8 list \<Rightarrow> u8 list" where "demo_cipher b = map (\<lambda>x. x XOR 90) (rev b)"

lemma demo_cipher: "block_cipher demo_cipher demo_cipher"
  by (simp add: block_cipher_def demo_cipher_def rev_map xor.assoc comp_def)

theorem cbc_round_trip_witness:
  "\<forall>message out dbuf. \<exists>c p. encfile demo_cipher (replicate 16 7) dbuf out message 20 = Ret c
    \<and> decfile demo_cipher dbuf dbuf c out 20 = Ret p \<and> (\<forall>i. p i = (if i < 20 then message i else out i)) \<and> (\<forall>i\<ge>36. c i = out i)"
proof (intro allI)
  fix message out dbuf
  show "\<exists>c p. encfile demo_cipher (replicate 16 7) dbuf out message 20 = Ret c
    \<and> decfile demo_cipher dbuf dbuf c out 20 = Ret p \<and> (\<forall>i. p i = (if i < 20 then message i else out i)) \<and> (\<forall>i\<ge>36. c i = out i)"
    using cbc_round_trip [OF demo_cipher, of "replicate 16 7" 20 dbuf out message dbuf dbuf out] by simp
qed

end
