(* ===== verification/HeapRoom.thy ===== *)
theory HeapRoom
  imports HeapSpec Mprsa "HOL-Library.Multiset"
begin

text \<open>
  What code that allocates needs to know of a heap: that it is well formed, which regions are in use and that one free block is large
  enough. Allocating takes its size and a marker of that room, freeing takes nothing.
\<close>

section \<open>Room in a heap\<close>

definition has_room :: "heap_ctxt \<Rightarrow> (nat \<times> nat) set \<Rightarrow> nat \<Rightarrow> bool" where
  "has_room h U R \<longleftrightarrow> (\<exists>bs. heap_inv h bs \<and> (\<exists>n\<ge>R. (n, False) \<in> set bs)) \<and> in_use h = U"

text \<open>In use are the regions \<open>U\<close> and, besides, one at each of the pointers \<open>ps\<close>.\<close>

definition heap_holds :: "heap_ctxt \<Rightarrow> (nat \<times> nat) set \<Rightarrow> u32 list \<Rightarrow> nat \<Rightarrow> bool" where
  "heap_holds h U ps R \<longleftrightarrow> distinct ps \<and> 0 \<notin> set ps
     \<and> (\<exists>m. (\<forall>p\<in>set ps. (unat p, m p) \<notin> U) \<and> has_room h (U \<union> (\<lambda>p. (unat p, m p)) ` set ps) R)"

lemma heap_holds_perm: "heap_holds h U ps R \<Longrightarrow> mset qs = mset ps \<Longrightarrow> heap_holds h U qs R"
  unfolding heap_holds_def using set_mset_mset [of ps] set_mset_mset [of qs] mset_eq_imp_distinct_iff [of qs ps] by simp

lemma heap_holds_empty: "heap_holds h U [] R \<longleftrightarrow> has_room h U R"
  by (simp add: heap_holds_def)

lemma has_room_ok: "has_room h U R \<Longrightarrow> heap_ok h"
  by (auto simp: has_room_def heap_ok_def)

lemma in_use_size: "heap_ok h \<Longrightarrow> (a, m) \<in> in_use h \<Longrightarrow> 8 \<le> m"
  by (erule in_use_block) (auto simp: heap_inv_def heap_rep_def)

text \<open>Two regions in use at one address are one region.\<close>

lemma in_use_unique:
  assumes "heap_ok h" "(a, m) \<in> in_use h" "(a, k) \<in> in_use h"
  shows "m = k"
proof (rule ccontr)
  assume "m \<noteq> k"
  with heap.regs_disjoint [OF assms] in_use_size [OF assms(1,2)] in_use_size [OF assms(1,3)] show False by simp
qed

lemma room_alloc:
  assumes room: "has_room h U (round8 k + 8 + R)" and k: "1 \<le> k" "k + 7 < 2 ^ 31" and R: "1 \<le> R"
  shows "\<exists>p m h'. heap_alloc (of_nat k) h = Ret (p, h') \<and> p \<noteq> 0 \<and> k \<le> m \<and> (unat p, m) \<notin> U \<and> has_room h' (insert (unat p, m) U) R"
proof -
  obtain bs n where bs: "heap_inv h bs" "round8 k + 8 + R \<le> n" "(n, False) \<in> set bs" and U: "in_use h = U"
    using room by (auto simp: has_room_def)
  have sz: "1 \<le> sint (of_nat k :: u32)" "sint (of_nat k :: u32) + 7 < 2 ^ 31" "unat (of_nat k :: u32) = k"
    using k by (simp_all add: signed_of_nat signed_take_bit_int_eq_self unat_addr)
  obtain p h' where p: "malloc (of_nat k) h = Ret (p, h')" 
    and reg: "if p = 0 then h' = h else \<exists>m\<ge>k. m \<le> k + 15 \<and> (unat p, m) \<notin> in_use h \<and> in_use h' = insert (unat p, m) (in_use h)"
    using malloc_regions [of h "of_nat k"] sz has_room_ok [OF room] unfolding sz(3) by blast
  have "p \<noteq> 0 \<and> (\<exists>cs. heap_inv h' cs \<and> (\<exists>q\<ge>R. (q, False) \<in> set cs))"
    using malloc_inv [OF bs(1) sz(1,2)] unfolding sz(3)
  proof (elim disjE exE conjE)
    assume "\<forall>b\<in>set bs. \<not> fits (round8 k) b"
    then show ?thesis using bs(2,3) by (fastforce simp: fits_def)
  next
    fix xs ys A h'' and b :: "nat \<times> bool"
    assume r: "bs = xs @ b # ys" "best_fit (round8 k) xs b ys" "A = unat (h_memory h) + total xs"
      "malloc (of_nat k) h = Ret (of_nat (A + 8), h'')" "heap_inv h'' (xs @ alloc_blocks (round8 k) (fst b) @ ys)"
    have "A + 8 < 2 ^ 32" "A + 8 \<noteq> 0" using bs(1) r(1,3) by (auto simp: heap_inv_def heap_rep_def)
    then have "(of_nat (A + 8) :: u32) \<noteq> 0" using addr_eq_iff [of "A + 8" 0] by simp
    moreover have "\<exists>q\<ge>R. (q, False) \<in> set (xs @ alloc_blocks (round8 k) (fst b) @ ys)"
    proof (cases "b = (n, False)")
      case True
      then have "(n - round8 k - 8, False) \<in> set (alloc_blocks (round8 k) (fst b))" "R \<le> n - round8 k - 8"
        using bs(2) R by (auto simp: alloc_blocks_def)
      then show ?thesis by auto
    next
      case False
      then have "(n, False) \<in> set xs \<union> set ys" using bs(3) r(1) by auto
      then show ?thesis using bs(2) by (intro exI [of _ n]) auto
    qed
    ultimately show ?thesis using r(4,5) p by (intro conjI exI [of _ "xs @ alloc_blocks (round8 k) (fst b) @ ys"]) simp_all
  qed
  then show ?thesis using p reg U by (auto simp: has_room_def malloc_def)
qed

lemma heap_holds_alloc:
  assumes "heap_holds h U ps (round8 k + 8 + R)" "1 \<le> k" "k + 7 < 2 ^ 31" "1 \<le> R"
  shows "\<exists>p m h'. heap_alloc (of_nat k) h = Ret (p, h') \<and> p \<noteq> 0 \<and> k \<le> m \<and> (unat p, m) \<in> in_use h' \<and> heap_holds h' U (p # ps) R"
proof -
  obtain f where f: "distinct ps" "0 \<notin> set ps" "\<forall>p\<in>set ps. (unat p, f p) \<notin> U"
      "has_room h (U \<union> (\<lambda>p. (unat p, f p)) ` set ps) (round8 k + 8 + R)"
    using assms(1) by (auto simp: heap_holds_def)
  obtain p m h' where r: "heap_alloc (of_nat k) h = Ret (p, h')" "p \<noteq> 0" "k \<le> m" "(unat p, m) \<notin> U \<union> (\<lambda>p. (unat p, f p)) ` set ps"
      "has_room h' (insert (unat p, m) (U \<union> (\<lambda>p. (unat p, f p)) ` set ps)) R"
    using room_alloc [OF f(4) assms(2-4)] by blast
  have use: "in_use h' = insert (unat p, m) (U \<union> (\<lambda>p. (unat p, f p)) ` set ps)" using r(5) by (simp add: has_room_def)
  have "p \<notin> set ps"
  proof
    assume "p \<in> set ps"
    then have "(unat p, f p) \<in> in_use h'" "(unat p, m) \<in> in_use h'" unfolding use by auto
    then have "m = f p" using in_use_unique has_room_ok [OF r(5)] by blast
    then show False using r(4) \<open>p \<in> set ps\<close> by auto
  qed
  moreover have "(\<lambda>q. (unat q, (f(p := m)) q)) ` set ps = (\<lambda>p. (unat p, f p)) ` set ps" using calculation by (intro image_cong) auto
  ultimately have "heap_holds h' U (p # ps) R"
    unfolding heap_holds_def using f(1-3) r(2,4,5) by (intro conjI exI [of _ "f(p := m)"]) auto
  then show ?thesis using r(1-3) use by blast
qed

text \<open>Freeing keeps a free block as large as any before.\<close>

lemma free_at_room:
  assumes "(n, False) \<in> set (xs @ (k, True) # ys)"
  shows "\<exists>q\<ge>n. (q, False) \<in> set (free_at xs k ys)"
proof -
  have next_at: "\<exists>q\<ge>j. (q, False) \<in> set (merge_next j zs)" for j zs by (cases zs) (auto simp: merge_next_def intro: exI [of _ j] exI [of _ "j + 8 + fst (hd zs)"])
  have next_in: "(n, False) \<in> set zs \<Longrightarrow> \<exists>q\<ge>n. (q, False) \<in> set (merge_next j zs)" for j zs
    by (cases zs) (auto simp: merge_next_def intro: exI [of _ n] exI [of _ "j + 8 + n"])
  obtain zs j where m: "merge_prev xs k = (zs, j)" by fastforce
  have "(n, False) \<in> set xs \<Longrightarrow> (n, False) \<in> set zs \<or> n \<le> j"
    using m by (cases xs rule: rev_cases) (auto simp: merge_prev_def split: if_splits)
  then show ?thesis using assms next_at [of j ys] next_in [of ys j] unfolding free_at_def m by (auto dest: le_trans)
qed

lemma room_free:
  assumes "has_room h U R" "(unat p, m) \<in> U"
  shows "has_room (trusted_free p h) (U - {(unat p, m)}) R"
proof -
  have U: "in_use h = U" "heap_ok h" using assms(1) has_room_ok [OF assms(1)] by (simp_all add: has_room_def)
  then have r: "(unat p, m) \<in> in_use h" using assms(2) by simp
  then have nz: "p \<noteq> 0" using in_use_bounds(1) [OF U(2)] by fastforce
  obtain xs ys A where b: "heap_inv h (xs @ (m, True) # ys)" "A = unat (h_memory h) + total xs" "unat p = A + 8"
    using in_use_block [OF U(2) r] by metis
  have p: "p = of_nat (A + 8)" unfolding b(3) [symmetric] by simp
  obtain cs n where cs: "heap_inv h cs" "R \<le> n" "(n, False) \<in> set cs" using assms(1) by (auto simp: has_room_def)
  have "cs = xs @ (m, True) # ys" using heap_rep_unique [of h] b(1) cs(1) unfolding heap_inv_def by blast
  then have "\<exists>n\<ge>R. (n, False) \<in> set (xs @ (m, True) # ys)" using cs(2,3) by blast
  then have "\<exists>n\<ge>R. (n, False) \<in> set (free_at xs m ys)" using free_at_room le_trans by blast
  moreover have "heap_inv (free p h) (free_at xs m ys)" using free_inv [OF b(1,2)] p by auto
  moreover have "in_use (free p h) = U - {(unat p, m)}" using heap.release_works [OF U(2) r] U(1) by simp
  moreover have "free p h = trusted_free p h" using nz by (simp add: free_def trusted_free_def)
  ultimately show ?thesis by (auto simp: has_room_def)
qed

lemma heap_holds_free:
  assumes "heap_holds h U (p # ps) R"
  shows "heap_holds (trusted_free p h) U ps R"
proof -
  obtain f where f: "distinct (p # ps)" "0 \<notin> set ps" "\<forall>q\<in>set (p # ps). (unat q, f q) \<notin> U"
      "has_room h (U \<union> (\<lambda>q. (unat q, f q)) ` set (p # ps)) R"
    using assms by (auto simp: heap_holds_def)
  have "(unat p, f p) \<in> U \<union> (\<lambda>q. (unat q, f q)) ` set (p # ps)" by simp
  from room_free [OF f(4) this]
  have "has_room (trusted_free p h) (U \<union> (\<lambda>q. (unat q, f q)) ` set (p # ps) - {(unat p, f p)}) R" .
  moreover have "U \<union> (\<lambda>q. (unat q, f q)) ` set (p # ps) - {(unat p, f p)} = U \<union> (\<lambda>q. (unat q, f q)) ` set ps"
    using f(1,3) by (auto dest: unsigned_word_eqI)
  ultimately show ?thesis using f(1-3) by (auto simp: heap_holds_def)
qed

text \<open>A block that is freed right after it was allocated costs no room.\<close>

lemma heap_holds_borrow:
  assumes "heap_holds h U ps R" "round8 k \<le> R" "1 \<le> k" "k + 7 < 2 ^ 31"
  shows "\<exists>p h'. heap_alloc (of_nat k) h = Ret (p, h') \<and> p \<noteq> 0 \<and> heap_holds (trusted_free p h') U ps R"
proof -
  obtain f where f: "distinct ps" "0 \<notin> set ps" "\<forall>p\<in>set ps. (unat p, f p) \<notin> U" "has_room h (U \<union> (\<lambda>p. (unat p, f p)) ` set ps) R"
    using assms(1) by (auto simp: heap_holds_def)
  obtain bs n where bs: "heap_inv h bs" "R \<le> n" "(n, False) \<in> set bs" using f(4) by (auto simp: has_room_def)
  have sz: "1 \<le> sint (of_nat k :: u32)" "sint (of_nat k :: u32) + 7 < 2 ^ 31" "unat (of_nat k :: u32) = k"
    using assms(3,4) by (simp_all add: signed_of_nat signed_take_bit_int_eq_self unat_addr)
  obtain p h' where p: "malloc (of_nat k) h = Ret (p, h')" "p \<noteq> 0" "h_memory h' = h_memory h"
    using malloc_inv [OF bs(1) sz(1,2)] unfolding sz(3)
  proof (elim disjE exE conjE)
    fix xs ys A h'' and b :: "nat \<times> bool"
    assume r: "bs = xs @ b # ys" "A = unat (h_memory h) + total xs" "malloc (of_nat k) h = Ret (of_nat (A + 8), h'')"
      "keeps_contents (xs @ alloc_blocks (round8 k) (fst b) @ ys) h h''"
    have "A + 8 < 2 ^ 32" "A + 8 \<noteq> 0" using bs(1) r(1,2) by (auto simp: heap_inv_def heap_rep_def)
    then have "(of_nat (A + 8) :: u32) \<noteq> 0" using addr_eq_iff [of "A + 8" 0] by simp
    then show ?thesis using that r(3,4) by (simp add: keeps_contents_def)
  next
    assume "\<forall>b\<in>set bs. \<not> fits (round8 k) b"
    then show ?thesis using bs(2,3) assms(2) by (fastforce simp: fits_def)
  qed
  have r: "heap_inv (free p h') bs" "h_memory (free p h') = h_memory h"
    using malloc_free_restores [OF bs(1) sz(1,2) p(1)] by (simp_all add: keeps_contents_def)
  then have "in_use (free p h') = in_use h" using in_use_eq [OF bs(1)] in_use_eq [OF r(1)] by simp
  then have "has_room (free p h') (U \<union> (\<lambda>p. (unat p, f p)) ` set ps) R" using f(4) r(1) bs(2,3) by (auto simp: has_room_def)
  then have "heap_holds (trusted_free p h') U ps R" using f(1-3) p(2) by (auto simp: heap_holds_def free_def trusted_free_def)
  then show ?thesis using p by (auto simp: malloc_def)
qed

section \<open>Clearing memory in use\<close>

lemma layout_outside:
  assumes "layout_at M a p l bs" "a + total bs < 2 ^ 32" "\<forall>x<2 ^ 32. a \<le> x \<and> x \<notin> contents a bs \<longrightarrow> N (of_nat x) = M (of_nat x)"
  shows "layout_at N a p l bs"
  using assms
proof (induction bs arbitrary: a p)
  case (Cons b bs)
  have "a \<notin> contents a (b # bs)" "a + 4 \<notin> contents a (b # bs)" using contents_bounds by fastforce+
  then have "N (of_nat a) = M (of_nat a)" "N (of_nat (a + 4)) = M (of_nat (a + 4))"
    using Cons.prems(2) Cons.prems(3) [rule_format, of a] Cons.prems(3) [rule_format, of "a + 4"] by simp_all
  moreover have "layout_at N (a + 8 + fst b) (fst b) l bs"
    by (rule Cons.IH) (use Cons.prems in auto)
  ultimately show ?case using Cons.prems(1) by simp
qed simp

lemma room_clear:
  assumes "has_room h U R" "(unat p, m) \<in> in_use h" "n \<le> m"
  shows "has_room (clear_bytes p n h) U R"
proof -
  obtain bs q where bs: "heap_inv h bs" "R \<le> q" "(q, False) \<in> set bs" and U: "in_use h = U" using assms(1) by (auto simp: has_room_def)
  have reg: "(unat p, m) \<in> regions (unat (h_memory h)) bs" using assms(2) in_use_eq [OF bs(1)] by simp
  have small: "unat p + m < 2 ^ 32" using in_use_bounds(2) [OF has_room_ok [OF assms(1)] assms(2)] .
  have out: "h_mem (clear_bytes p n h) (of_nat x) = h_mem h (of_nat x)" if "x < 2 ^ 32" "x \<notin> contents (unat (h_memory h)) bs" for x
  proof -
    have "\<not> unat (of_nat x - p) < n"
    proof
      assume lt: "unat (of_nat x - p) < n"
      define d where "d = unat (of_nat x - p)"
      have "of_nat x = p + of_nat d" by (simp add: d_def)
      then have "(of_nat x :: u32) = of_nat (unat p + d)" by simp
      moreover have d: "unat p + d < 2 ^ 32" "d < m" using lt assms(3) small by (simp_all add: d_def)
      ultimately have "x = unat p + d" using addr_eq_iff [OF that(1) d(1)] by blast
      then have "unat p \<le> x" "x < unat p + m" using d(2) by simp_all
      then show False using regions_contents [OF reg] that(2) by blast
    qed
    then show ?thesis by (simp add: clear_bytes_def)
  qed
  have "heap_inv (clear_bytes p n h) bs"
    using bs(1) layout_outside [of "h_mem h" "unat (h_memory h)" 0 True bs "h_mem (clear_bytes p n h)"] out
    by (auto simp: heap_inv_def heap_rep_def clear_bytes_def)
  then show ?thesis using bs U in_use_eq [OF bs(1)] in_use_eq [OF \<open>heap_inv (clear_bytes p n h) bs\<close>]
    by (auto simp: has_room_def clear_bytes_def)
qed

lemma heap_holds_clear: "heap_holds h U ps R \<Longrightarrow> (unat p, m) \<in> in_use h \<Longrightarrow> n \<le> m \<Longrightarrow> heap_holds (clear_bytes p n h) U ps R"
  unfolding heap_holds_def using room_clear by blast

section \<open>The digits of a number\<close>

lemma calloc_holds:
  assumes "heap_holds h U ps (round8 k + 8 + R)" "num * sz = of_nat k" "1 \<le> k" "k + 7 < 2 ^ 31" "1 \<le> R"
  shows "\<exists>p h'. calloc num sz h = Ret (p, h') \<and> p \<noteq> 0 \<and> heap_holds h' U (p # ps) R"
proof -
  obtain p m h' where a: "heap_alloc (of_nat k) h = Ret (p, h')" "p \<noteq> 0" "k \<le> m" "(unat p, m) \<in> in_use h'" "heap_holds h' U (p # ps) R"
    using heap_holds_alloc [OF assms(1,3-5)] by blast
  have "unat (of_nat k :: u32) = k" using assms(4) by (simp add: unat_addr)
  then show ?thesis using a heap_holds_clear [OF a(5,4,3)] by (simp add: calloc_def assms(2))
qed

lemma mp_init_holds: "heap_holds h U ps (40 + R) \<Longrightarrow> 1 \<le> R \<Longrightarrow> \<exists>dp h'. mp_init h = Ret (Inr 0, dp, h') \<and> heap_holds h' U (dp # ps) R"
  using calloc_holds [of h U ps 32 R 16 2] by (auto simp: round8_def mp_init_def)

lemma mp_clear_holds: "heap_holds h U (dp # ps) R \<Longrightarrow> heap_holds (mp_clear dp h) U ps R"
  using heap_holds_free [of h U dp ps R] by (auto simp: mp_clear_def heap_holds_def)

text \<open>
  What the digit arithmetic needs and does, for the numbers of a key of 1024 bits: it succeeds when the heap has room for \<open>C\<close> bytes
  more, leaves the digits somewhere, frees all else it allocates and touches no other region.
\<close>

fun small_op :: "mp_op \<Rightarrow> bool" where
  "small_op (Read_radix x) = (x < 256 ^ 128)"
| "small_op (Read_bin bs) = (length bs \<le> 128)"
| "small_op (Power a b m) = (a < 256 ^ 128 \<and> b < 256 ^ 128 \<and> m < 256 ^ 128)"

declare small_op.simps [simp del]

definition digit_work :: "digit_memory \<Rightarrow> nat \<Rightarrow> bool" where
  "digit_work W C \<longleftrightarrow> (\<forall>op dp h U ps R. small_op op \<and> 1 \<le> R \<and> heap_holds h U (dp # ps) (C + R)
     \<longrightarrow> (\<exists>rest dp' h'. W op dp h = Ret (0, rest, dp', h') \<and> heap_holds h' U (dp' # ps) R))"

lemma digit_work_run:
  assumes "digit_work W C" "small_op op" "1 \<le> R" "heap_holds h U (dp # ps) (C + R)"
  obtains rest dp' h' where "W op dp h = Ret (0, rest, dp', h')" "heap_holds h' U (dp' # ps) R"
  using assms unfolding digit_work_def by blast

lemma with_digits_holds:
  assumes "digit_work W C" "small_op op" "1 \<le> R" "heap_holds h U (dp # ps) (C + R)"
  shows "\<exists>dp' h'. with_digits W op (Ret (Inr v)) dp h = Ret (Inr v, dp', h') \<and> heap_holds h' U (dp' # ps) R"
proof -
  obtain rest dp' h' where "W op dp h = Ret (0, rest, dp', h')" "heap_holds h' U (dp' # ps) R"
    using digit_work_run [OF assms] .
  then show ?thesis by (simp add: with_digits_def)
qed

end
