(* ===== verification/MprsaSpec.thy ===== *)
theory MprsaSpec
  imports Mprsa HeapRoom
begin

text \<open>
  RSA in the trusted guest: Barrett's reduction and the modular power compute what they should, numbers and strings of bytes
  correspond, and decryption inverts encryption whenever encryption stays inside its buffer and the heap has room.
\<close>

section \<open>Barrett's reduction\<close>

lemma digits_bound: "x < RADIX ^ USED x"
proof (induction x rule: mp_digits.induct)
  case (1 x)
  show ?case
  proof (cases "x < RADIX")
    case True
    then show ?thesis by (subst mp_digits.simps) simp
  next
    case False
    define y where "y = x div RADIX"
    have "y < RADIX ^ USED y" using 1 [OF False] by (simp add: y_def)
    then have "y + 1 \<le> RADIX ^ USED y" by simp
    then have "RADIX * (y + 1) \<le> RADIX ^ Suc (USED y)" by (simp only: power_Suc mult_le_mono2)
    moreover have "x < RADIX * (y + 1)" unfolding y_def using dividend_less_times_div [of RADIX x] by simp
    moreover have "USED x = Suc (USED y)" unfolding y_def using False by (subst mp_digits.simps) simp
    ultimately show ?thesis by simp
  qed
qed

lemma digits_least: "x \<noteq> 0 \<Longrightarrow> RADIX ^ (USED x - 1) \<le> x"
proof (induction x rule: mp_digits.induct)
  case (1 x)
  show ?case
  proof (cases "x < RADIX")
    case True
    then show ?thesis using 1(2) by (subst mp_digits.simps) simp
  next
    case False
    define y where "y = x div RADIX"
    have y: "y \<noteq> 0" using False by (simp add: y_def)
    have "RADIX ^ (USED y - 1) \<le> y" using 1(1) [OF False] y by (simp add: y_def)
    then have "RADIX * RADIX ^ (USED y - 1) \<le> RADIX * y" by (rule mult_le_mono2)
    moreover have "RADIX * y \<le> x" unfolding y_def by simp
    moreover have "USED x = Suc (USED y)" unfolding y_def using False by (subst mp_digits.simps) simp
    moreover have "USED y \<noteq> 0" by (subst mp_digits.simps) simp
    ultimately show ?thesis by (cases "USED y") simp_all
  qed
qed

lemma digits_nonempty [simp]: "mp_digits x \<noteq> []"
  by (subst mp_digits.simps) simp

lemma back_off_mod: "0 < m \<Longrightarrow> 0 \<le> x \<Longrightarrow> back_off m x = Some (x mod m)"
proof (induction "nat x" arbitrary: x rule: less_induct)
  case less
  show ?case
  proof (cases "x \<ge> m")
    case True
    then have "back_off m (x - m) = Some ((x - m) mod m)" using less.prems by (intro less.hyps) auto
    then show ?thesis using True by (subst back_off.simps) (simp add: mod_diff_right_eq [symmetric])
  next
    case False
    then show ?thesis using less.prems by (subst back_off.simps) simp
  qed
qed

text \<open>The estimate of the quotient is at most two too small.\<close>

lemma barrett_estimate:
  fixes P R m x :: nat
  assumes P: "0 < P" "0 < R" "P \<le> m" and x: "x < P * R"
  defines "mu \<equiv> P * R div m" and "q1 \<equiv> x div P" and "q \<equiv> x div P * (P * R div m) div R"
  shows "q * m \<le> x" "x < q * m + 3 * m"
proof -
  have m: "0 < m" using P by simp
  have q1: "q1 * P \<le> x" "x < (q1 + 1) * P"
    unfolding q1_def using dividend_less_times_div [OF P(1), of x] by (simp_all add: algebra_simps)
  have mu: "mu * m \<le> P * R" "P * R < (mu + 1) * m"
    unfolding mu_def using dividend_less_times_div [OF m, of "P * R"] by (simp_all add: algebra_simps)
  have q: "q * R \<le> q1 * mu" "q1 * mu < (q + 1) * R"
    unfolding q_def q1_def mu_def using dividend_less_times_div [OF P(2), of "x div P * (P * R div m)"] by (simp_all add: algebra_simps)
  have "(q * R) * (P * m) \<le> (q1 * mu) * (P * m)" using q(1) by (rule mult_le_mono1)
  also have "\<dots> = (q1 * P) * (mu * m)" by (simp add: algebra_simps)
  also have "\<dots> \<le> x * (P * R)" using q1(1) mu(1) by (rule mult_le_mono)
  finally have "(P * R) * (q * m) \<le> (P * R) * x" by (simp add: algebra_simps)
  then show "q * m \<le> x" using P by simp
  have "q1 * P < R * P" using le_less_trans [OF q1(1) x] by (simp only: mult.commute)
  then have r1: "q1 + 1 \<le> R" by simp
  have "mu * P \<le> mu * m" using P(3) by (rule mult_le_mono2)
  then have "mu * P \<le> R * P" using le_trans [OF _ mu(1)] by (simp only: mult.commute)
  then have r2: "mu \<le> R" using P(1) by simp
  have "(q1 + 1) * (mu + 1) = q1 * mu + (q1 + 1) + mu" by (simp add: algebra_simps)
  also have "\<dots> < (q + 1) * R + R + R" using q(2) r1 r2 by linarith
  also have "\<dots> = (q + 3) * R" by (simp add: algebra_simps)
  finally have e: "(q1 + 1) * (mu + 1) * (P * m) \<le> (q + 3) * R * (P * m)" by (intro mult_le_mono1) simp
  have "x * (P * R) < ((q1 + 1) * P) * ((mu + 1) * m)"
    by (rule mult_strict_mono [OF q1(2) mu(2)]) (use P in simp_all)
  also have "\<dots> = (q1 + 1) * (mu + 1) * (P * m)" by (simp add: algebra_simps)
  also have "\<dots> \<le> (q + 3) * R * (P * m)" by (rule e)
  finally have "(P * R) * x < (P * R) * ((q + 3) * m)" by (simp add: algebra_simps)
  then have "x < (q + 3) * m" by (simp only: mult_less_cancel1)
  then show "x < q * m + 3 * m" by (simp add: algebra_simps)
qed

lemma wrap_difference:
  fixes x q R r :: int
  assumes "x = q + r" "0 \<le> r" "r < R"
  shows "(if x mod R - q mod R < 0 then x mod R - q mod R + R else x mod R - q mod R) = r"
proof -
  have R: "0 < R" using assms by linarith
  let ?y = "x mod R - q mod R"
  have "?y mod R = r mod R" using assms(1) by (metis add_diff_cancel_left' mod_diff_eq)
  then have e: "?y mod R = r" using assms by simp
  have b: "- R < ?y" "?y < R" using pos_mod_bound [OF R, of x] pos_mod_bound [OF R, of q] pos_mod_sign [OF R, of x] pos_mod_sign [OF R, of q]
    by linarith+
  show ?thesis
  proof (cases "?y < 0")
    case True
    have "(?y + R) mod R = ?y + R" using True b by (intro mod_pos_pos_trivial) linarith+
    then show ?thesis using True e by simp
  next
    case False
    then have "?y mod R = ?y" using b by (intro mod_pos_pos_trivial) linarith+
    then show ?thesis using False e by simp
  qed
qed

lemma s_mp_reduce_mod:
  assumes m: "m \<noteq> 0" "USED m < 4095" and x: "x < RADIX ^ (2 * USED m)"
  shows "s_mp_reduce x m (RADIX ^ (2 * USED m) div m) = Ret (x mod m)"
proof -
  define k where "k = USED m"
  define P where "P = RADIX ^ (k - 1)"
  define R where "R = RADIX ^ (k + 1)"
  define q where "q = x div P * (P * R div m) div R"
  have k: "k \<noteq> 0" by (simp add: k_def)
  have "2 * USED m = (k - 1) + (k + 1)" using k by (simp add: k_def)
  then have PR: "RADIX ^ (2 * k) = P * R" unfolding k_def [symmetric] P_def R_def by (simp only: power_add)
  have Pm: "P \<le> m" using digits_least [OF m(1)] by (simp add: P_def k_def)
  have "m < RADIX ^ k" using digits_bound by (simp add: k_def)
  then have "RADIX * m < R" unfolding R_def by simp
  then have R3: "3 * m < R" by linarith
  have pos: "0 < P" "0 < R" by (simp_all add: P_def R_def)
  have "DIGIT_BIT * (k + 1) mod RADIX = DIGIT_BIT * (k + 1)" using m(2) by (simp add: k_def)
  then have R2: "s_mp_mod_2d y (DIGIT_BIT * (k + 1)) = y mod R" for y unfolding s_mp_mod_2d_def R_def by (simp only: power_mult) simp
  note q = barrett_estimate [OF pos Pm x [folded k_def, unfolded PR], folded q_def]
  have split: "int x = int (q * m) + int (x - q * m)" using q(1) by simp
  have rest: "x - q * m < R" using q R3 by linarith
  have y: "(if int (x mod R) - int (q * m mod R) < 0 then int (x mod R) - int (q * m mod R) + int R
      else int (x mod R) - int (q * m mod R)) = int (x - q * m)"
    unfolding zmod_int by (rule wrap_difference [OF split]) (use rest in simp_all)
  have "back_off (int m) (int (x - q * m)) = Some (int (x - q * m) mod int m)" using m(1) by (intro back_off_mod) simp_all
  moreover have "nat (int (x - q * m) mod int m) = x mod m"
  proof -
    have "int (x - q * m) mod int m = int ((x - q * m) mod m)" by (simp only: zmod_int)
    moreover have "(x - q * m) mod m = x mod m" using q(1) by (metis add.commute le_add_diff_inverse2 mod_mult_self1)
    ultimately show ?thesis by simp
  qed
  ultimately show ?thesis
    unfolding s_mp_reduce_def Let_def k_def [symmetric] PR P_def [symmetric] R_def [symmetric] R2 q_def [symmetric] y
    by (simp add: outcome_of_def)
qed

section \<open>The modular power\<close>

lemma used_square: "s \<le> m \<Longrightarrow> x < m \<Longrightarrow> s * x < RADIX ^ (2 * USED m)"
proof -
  assume a: "s \<le> m" "x < m"
  have "s * x < m * m" using a by (metis le_less_trans mult_le_mono1 mult_less_cancel1 not_less_zero bot_nat_0.not_eq_extremum)
  also have "\<dots> \<le> RADIX ^ USED m * RADIX ^ USED m" using digits_bound [of m] by (intro mult_le_mono) simp_all
  finally show ?thesis by (simp add: mult_2 power_add)
qed

abbreviation barrett :: "nat \<Rightarrow> nat" where "barrett m \<equiv> RADIX ^ (2 * USED m) div m"

text \<open>One step multiplies by the power for the current bit.\<close>

lemma power_step_run:
  assumes m: "1 < m \<and> USED m < 4095" and s: "s < m" and x: "x < m"
  shows "power_step d m (barrett m) s x = Ret ((s * x ^ (d mod 2)) mod m, x ^ 2 mod m)"
proof -
  have m0: "m \<noteq> 0" "USED m < 4095" using m by simp_all
  have sx: "s_mp_reduce (s * x) m (barrett m) = Ret (s * x mod m)" using s_mp_reduce_mod [OF m0 used_square] s x by simp
  have xx: "s_mp_reduce (x * x) m (barrett m) = Ret (x * x mod m)" using s_mp_reduce_mod [OF m0 used_square] x by simp
  show ?thesis using sx xx s by (cases "odd d") (simp_all add: power_step_def power2_eq_square odd_iff_mod_2_eq_one)
qed

lemma mod_power_square: "(s * x ^ (d mod 2) mod m) * (x ^ 2 mod m) ^ (d div 2) mod m = s * x ^ d mod (m :: nat)"
proof -
  have "(x ^ 2) ^ (d div 2) * x ^ (d mod 2) = x ^ d" by (simp flip: power_mult power_add)
  then have "s * x ^ (d mod 2) * (x ^ 2) ^ (d div 2) = s * x ^ d" by (simp add: ac_simps)
  then show ?thesis by (metis mod_mult_eq power_mod mod_mod_trivial)
qed

lemma power_digit_run:
  "1 < m \<and> USED m < 4095 \<Longrightarrow> s < m \<Longrightarrow> x < m
    \<Longrightarrow> power_digit n d m (barrett m) s x = Ret (s * x ^ (d mod 2 ^ n) mod m, x ^ (2 ^ n) mod m)"
proof (induction n arbitrary: d s x)
  case (Suc n)
  let ?s = "s * x ^ (d mod 2) mod m" and ?x = "x ^ 2 mod m"
  have "?s < m" "?x < m" using Suc.prems(1) by simp_all
  from Suc.IH [OF Suc.prems(1) this, of "d div 2"]
  have "power_digit (Suc n) d m (barrett m) s x = Ret (?s * ?x ^ (d div 2 mod 2 ^ n) mod m, ?x ^ (2 ^ n) mod m)"
    using power_step_run [OF Suc.prems] by simp
  moreover have "?s * ?x ^ (d div 2 mod 2 ^ n) mod m = s * x ^ (d mod 2 ^ Suc n) mod m"
  proof -
    have "d mod 2 ^ Suc n mod 2 = d mod 2" "d mod 2 ^ Suc n div 2 = d div 2 mod 2 ^ n"
      by (simp_all add: mod_mult2_eq)
    then show ?thesis using mod_power_square [of s x "d mod 2 ^ Suc n" m] by simp
  qed
  moreover have "?x ^ (2 ^ n) mod m = x ^ (2 ^ Suc n) mod m" by (simp add: power_mod flip: power_mult)
  ultimately show ?case by simp
qed simp

lemma power_last_run:
  "1 < m \<and> USED m < 4095 \<Longrightarrow> s < m \<Longrightarrow> x < m \<Longrightarrow> \<exists>y. power_last d m (barrett m) s x = Ret (s * x ^ d mod m, y)"
proof (induction d arbitrary: s x rule: less_induct)
  case (less d)
  show ?case
  proof (cases "d = 0")
    case True
    then show ?thesis using less.prems by (subst power_last.simps) simp
  next
    case False
    let ?s = "s * x ^ (d mod 2) mod m" and ?x = "x ^ 2 mod m"
    have "?s < m" "?x < m" "d div 2 < d" using less.prems(1) False by simp_all
    then obtain y where "power_last (d div 2) m (barrett m) ?s ?x = Ret (?s * ?x ^ (d div 2) mod m, y)"
      using less.IH less.prems(1) by blast
    then show ?thesis using False power_step_run [OF less.prems] by (subst power_last.simps) (simp add: mod_power_square)
  qed
qed

lemma power_digits_run:
  "1 < m \<and> USED m < 4095 \<Longrightarrow> s < m \<Longrightarrow> x < m \<Longrightarrow> \<exists>y. power_digits (mp_digits b) m (barrett m) s x = Ret (s * x ^ b mod m, y)"
proof (induction b arbitrary: s x rule: mp_digits.induct)
  case (1 b)
  show ?case
  proof (cases "b < RADIX")
    case True
    then have "mp_digits b = [b]" by (subst mp_digits.simps) simp
    then show ?thesis using power_last_run [OF 1(2-4)] by simp
  next
    case False
    let ?d = "b mod RADIX" and ?r = "b div RADIX"
    have b: "mp_digits b = ?d # mp_digits ?r" using False by (subst mp_digits.simps) simp
    obtain e es where r: "mp_digits ?r = e # es" using digits_nonempty by (cases "mp_digits ?r") blast+
    let ?s = "s * x ^ ?d mod m" and ?x = "x ^ RADIX mod m"
    have lt: "?s < m" "?x < m" using 1(2) by simp_all
    obtain y where y: "power_digits (mp_digits ?r) m (barrett m) ?s ?x = Ret (?s * ?x ^ ?r mod m, y)"
      using 1(1) [OF False 1(2) lt] by blast
    have "power_digit 16 ?d m (barrett m) s x = Ret (?s, ?x)" using power_digit_run [OF 1(2-4), of 16 ?d] by simp
    moreover have "?s * ?x ^ ?r mod m = s * x ^ b mod m"
    proof -
      have "x ^ ?d * (x ^ RADIX) ^ ?r = x ^ b" by (simp flip: power_mult power_add)
      then have "s * x ^ ?d * (x ^ RADIX) ^ ?r = s * x ^ b" by (simp add: ac_simps)
      then show ?thesis by (metis mod_mult_eq power_mod mod_mod_trivial)
    qed
    ultimately show ?thesis using y unfolding b r by simp
  qed
qed

lemma mp_exptmod_run: "1 < m \<and> USED m < 4095 \<Longrightarrow> mp_exptmod a b m = Ret (Inr (a ^ b mod m))"
  using power_digits_run [of m 1 "a mod m" b] by (auto simp: mp_exptmod_def power_mod)

text \<open>C36. \<^verbatim>\<open>mp_exptmod\<close>, which squares and multiplies along the bits of the exponent's digits and reduces by Barrett's
method with a precomputed reciprocal, ends and computes the modular power, for every modulus above one whose size in bits, and two digits more,
can be counted in a digit.\<close>

theorem mp_exptmod_exact:
  assumes "1 < m" "USED m < 4095"
  shows "mp_exptmod a b m = Ret (Inr (a ^ b mod m))"
  by (rule mp_exptmod_run) (use assms in simp)

theorem mp_exptmod_exact_witness: "mp_exptmod 3 70000 1000003 = Ret (Inr (3 ^ 70000 mod 1000003))"
  by (rule mp_exptmod_exact) (simp_all add: mp_digits.simps)

section \<open>Numbers as bytes\<close>

lemma unat_u8: "x < 256 \<Longrightarrow> unat (of_nat x :: u8) = x"
  by (simp add: unat_of_nat)

lemma unat_byte_less: "unat (b :: u8) < 256"
  by (rule order_less_le_trans [OF unsigned_less]) simp

lemma to_unsigned_bin_top: "x \<noteq> 0 \<Longrightarrow> mp_to_unsigned_bin x = rev (top_bytes x) \<and> mp_unsigned_bin_size x = length (top_bytes x)"
proof (induction x rule: mp_digits.induct)
  case (1 x)
  show ?case
  proof (cases "x < RADIX")
    case True
    then have "mp_digits x = [x]" by (subst mp_digits.simps) simp
    then show ?thesis using 1(2) by (simp add: mp_to_unsigned_bin_def mp_unsigned_bin_size_def)
  next
    case False
    let ?y = "x div RADIX"
    have y: "?y \<noteq> 0" using False by simp
    have d: "mp_digits x = x mod RADIX # mp_digits ?y" using False by (subst mp_digits.simps) simp
    have nz: "mp_digits ?y \<noteq> [0]"
    proof
      assume "mp_digits ?y = [0]"
      then have "?y < RADIX ^ 1" "?y < RADIX \<Longrightarrow> ?y = 0" using digits_bound [of ?y] by (simp_all add: mp_digits.simps)
      with y show False by simp
    qed
    note ih = 1(1) [OF False y]
    have parts: "x mod RADIX mod 256 = x mod 256" "x mod RADIX div 256 mod 256 = x div 256 mod 256" "x div 256 div 256 = ?y"
      by (simp_all add: mod_mult2_eq [of x 256 256, simplified] div_mult2_eq [of x 256 256, simplified])
    have t: "top_bytes x = of_nat (x mod 256) # of_nat (x div 256 mod 256) # top_bytes ?y"
      using False parts(3) by (subst top_bytes.simps, subst top_bytes.simps) simp
    show ?thesis
    proof
      show "mp_to_unsigned_bin x = rev (top_bytes x)"
        using ih nz unfolding t mp_to_unsigned_bin_def d parts by (simp add: parts)
      show "mp_unsigned_bin_size x = length (top_bytes x)"
      proof -
        have "(USED ?y - 1) * 2 + length (top_bytes (last (mp_digits ?y))) = length (top_bytes ?y)"
          using ih nz by (simp add: mp_unsigned_bin_size_def)
        moreover obtain u where "USED ?y = Suc u" by (cases "USED ?y") simp_all
        ultimately show ?thesis unfolding t mp_unsigned_bin_size_def d by simp
      qed
    qed
  qed
qed

lemma os2ip_snoc [simp]: "mp_os2ip (bs @ [b]) = mp_os2ip bs * 256 + unat b" 
  and os2ip_Nil [simp]: "mp_os2ip [] = 0" "mp_os2ip [b] = unat b"
  by (simp_all add: mp_os2ip_def mp_read_unsigned_bin_def)

lemma os2ip_top_bytes: "mp_os2ip (rev (top_bytes x)) = x"
proof (induction x rule: top_bytes.induct)
  case (1 x)
  then show ?case by (cases "x = 0") (subst top_bytes.simps, simp add: unat_u8)+
qed

lemma top_bytes_length: "length (top_bytes x) \<le> n \<longleftrightarrow> x < 256 ^ n"
proof (induction n arbitrary: x)
  case 0
  show ?case by (subst top_bytes.simps) simp
next
  case (Suc n)
  have "x div 256 < 256 ^ n \<longleftrightarrow> x < 256 ^ Suc n" by (simp add: div_less_iff_less_mult mult.commute)
  then show ?case using Suc [of "x div 256"] by (subst top_bytes.simps) simp
qed

lemma os2ip_bound: "mp_os2ip bs < 256 ^ length bs"
proof (induction bs rule: rev_induct)
  case (snoc b bs)
  have "unat b < 256" by (rule unat_byte_less)
  then show ?case using snoc by simp
qed simp

lemma os2ip_Cons: "mp_os2ip (b # bs) = unat b * 256 ^ length bs + mp_os2ip bs"
proof (induction bs rule: rev_induct)
  case (snoc x bs)
  then show ?case using os2ip_snoc [of "b # bs" x] by (simp add: algebra_simps)
qed simp

lemma top_bytes_os2ip: "bs \<noteq> [] \<Longrightarrow> hd bs \<noteq> 0 \<Longrightarrow> top_bytes (mp_os2ip bs) = rev bs"
proof (induction bs rule: rev_induct)
  case (snoc b bs)
  have b: "unat b < 256" by (rule unat_byte_less)
  show ?case
  proof (cases "bs = []")
    case True
    then have "unat b \<noteq> 0" using snoc.prems by (simp add: unat_eq_zero)
    then show ?thesis using True b by (subst top_bytes.simps, subst top_bytes.simps) simp
  next
    case False
    then have h: "hd bs \<noteq> 0" using snoc.prems by simp
    have "mp_os2ip bs \<noteq> 0"
      using h by (cases bs) (use False in \<open>simp_all add: os2ip_Cons unat_eq_zero\<close>)
    then show ?thesis using snoc.IH [OF False h] b by (subst top_bytes.simps) simp
  qed
qed simp

text \<open>A number of exactly \<open>n\<close> bytes, and no other, fills a buffer of \<open>n\<close> bytes; a shorter one is written before it.\<close>

lemma i2osp_full:
  assumes "256 ^ (n - 1) \<le> x" "x < 256 ^ n" "0 < n"
  shows "mp_i2osp x n = Ret (Inr (rev (top_bytes x)))" "length (top_bytes x) = n"
proof -
  have x: "x \<noteq> 0" using assms(1) by (metis le_zero_eq power_not_zero zero_neq_numeral)
  show l: "length (top_bytes x) = n" using top_bytes_length [of x n] top_bytes_length [of x "n - 1"] assms by linarith
  show "mp_i2osp x n = Ret (Inr (rev (top_bytes x)))"
    using to_unsigned_bin_top [OF x] l by (simp add: mp_i2osp_def)
qed

lemma i2osp_short: "x < 256 ^ (n - 1) \<Longrightarrow> 1 < n \<Longrightarrow> mp_i2osp x n = Undefined"
proof (cases "x = 0")
  case False
  assume a: "x < 256 ^ (n - 1)" "1 < n"
  then have "mp_unsigned_bin_size x < n" using to_unsigned_bin_top [OF False] top_bytes_length [of x "n - 1"] by auto
  then show ?thesis by (simp add: mp_i2osp_def)
qed (auto simp: mp_i2osp_def mp_unsigned_bin_size_def mp_digits.simps)

section \<open>Padding\<close>

lemma find_zero_eq: "\<forall>j. ix \<le> j \<and> j < z \<longrightarrow> emsg ! j \<noteq> 0 \<Longrightarrow> emsg ! z = 0 \<Longrightarrow> ix \<le> z \<Longrightarrow> z < length emsg \<Longrightarrow> find_zero emsg ix = z"
proof (induction "z - ix" arbitrary: ix)
  case 0
  then show ?case by (subst find_zero.simps) simp
next
  case (Suc k)
  have "find_zero emsg (ix + 1) = z" by (rule Suc.hyps(1)) (use Suc.hyps(2) Suc.prems in auto)
  moreover have "ix < length emsg \<and> emsg ! ix \<noteq> 0" using Suc.hyps(2) Suc.prems by auto
  ultimately show ?case by (subst find_zero.simps) simp
qed

lemma decode_padded:
  assumes "8 \<le> length pad" "0 \<notin> set pad"
  shows "mp_pkcs1v15_decode (2 # pad @ [0] @ msg) = Inr msg"
proof -
  let ?e = "2 # pad @ [0] @ msg" and ?z = "length pad + 1"
  have nz: "?e ! j \<noteq> 0" if "1 \<le> j" "j < ?z" for j
  proof -
    have "pad ! (j - 1) \<in> set pad" using that by simp
    then have "pad ! (j - 1) \<noteq> 0" using assms(2) by metis
    then show ?thesis using that by (simp add: nth_Cons' nth_append)
  qed
  have z: "find_zero ?e 9 = ?z" 
  proof (rule find_zero_eq)
    show "\<forall>j. 9 \<le> j \<and> j < ?z \<longrightarrow> ?e ! j \<noteq> 0" using nz by (meson le_trans one_le_numeral)
  qed (use assms(1) in \<open>simp_all add: nth_append\<close>)
  have "\<not> list_ex (\<lambda>jx. ?e ! jx = 0) [1..<?z]" 
  proof
    assume "list_ex (\<lambda>jx. ?e ! jx = 0) [1..<?z]"
    then obtain j where j: "j \<in> set [1..<?z]" "?e ! j = 0" unfolding list_ex_iff by blast
    then have "1 \<le> j" "j < ?z" by (simp_all only: set_upt atLeastLessThan_iff)
    with nz j(2) show False by metis
  qed
  moreover have "drop (?z + 1) ?e = msg" by simp
  ultimately show ?thesis using assms(1) unfolding mp_pkcs1v15_decode_def Let_def z by simp
qed

section \<open>Buffers\<close>

lemma small_size:
  assumes "1 \<le> m" "m + 7 < 2 ^ 31"
  shows "sint (of_nat m :: u32) = int m" "1 \<le> sint (of_nat m :: u32)" "sint (of_nat m :: u32) + 7 < 2 ^ 31" "unat (of_nat m :: u32) = m"
proof -
  show s: "sint (of_nat m :: u32) = int m" using assms(2) by (simp add: signed_of_nat signed_take_bit_int_eq_self)
  show "1 \<le> sint (of_nat m :: u32)" "sint (of_nat m :: u32) + 7 < 2 ^ 31" unfolding s using assms by simp_all
  show "unat (of_nat m :: u32) = m" using assms(2) by (simp add: unat_addr)
qed

text \<open>Allocating in a heap whose only free block is the last, and freeing again.\<close>

lemma end_block_alloc:
  assumes inv: "heap_inv h (ts @ [(N, False)])" "\<forall>b\<in>set ts. snd b" and m: "1 \<le> m" "m + 7 < 2 ^ 31" "round8 m \<le> N"
  shows "\<exists>p h'. heap_alloc (of_nat m) h = Ret (p, h') \<and> p \<noteq> 0 \<and> heap_inv h' (ts @ alloc_blocks (round8 m) N)
    \<and> heap_inv (snd (heap_free p h')) (ts @ [(N, False)])"
proof -
  note sz = small_size [OF m(1,2)]
  have "\<exists>p h'. malloc (of_nat m) h = Ret (p, h') \<and> p \<noteq> 0 \<and> heap_inv h' (ts @ alloc_blocks (round8 m) N)"
    using malloc_inv [OF inv(1) sz(2,3)] unfolding sz(4)
  proof (elim disjE exE conjE)
    fix xs ys A h' and b :: "nat \<times> bool"
    assume r: "ts @ [(N, False)] = xs @ b # ys" "best_fit (round8 m) xs b ys" "A = unat (h_memory h) + total xs"
      "malloc (of_nat m) h = Ret (of_nat (A + 8), h')" "heap_inv h' (xs @ alloc_blocks (round8 m) (fst b) @ ys)"
    have e: "xs = ts" "b = (N, False)" "ys = []"
    proof -
      have "\<not> snd b" using r(2) by (auto simp: best_fit_def fits_def)
      then have "b \<notin> set ts" using inv(2) by blast
      then show "ys = []" using r(1) by (cases ys rule: rev_cases) auto
      then show "xs = ts" "b = (N, False)" using r(1) by simp_all
    qed
    have "A + 8 < 2 ^ 32" "A + 8 \<noteq> 0" using inv(1) e(1) r(3) by (auto simp: heap_inv_def heap_rep_def)
    then have "(of_nat (A + 8) :: u32) \<noteq> 0" using addr_eq_iff [of "A + 8" 0] by simp
    then show ?thesis using r(4,5) e by auto
  qed (use m(3) in \<open>simp add: fits_def\<close>)
  then obtain p h' where p: "malloc (of_nat m) h = Ret (p, h')" "p \<noteq> 0" "heap_inv h' (ts @ alloc_blocks (round8 m) N)" by blast
  have "heap_inv (free p h') (ts @ [(N, False)])" using malloc_free_restores [OF inv(1) sz(2,3) p(1)] by simp
  then show ?thesis using p by (auto simp: malloc_def free_def)
qed

section \<open>Encryption\<close>

text \<open>A modulus of 128 bytes whose first byte is at least 3, and exponents that are inverse to each other.\<close>

definition rsa_key :: "nat \<Rightarrow> nat \<Rightarrow> nat \<Rightarrow> bool" where
  "rsa_key e d n \<longleftrightarrow> 3 * 256 ^ 127 \<le> n \<and> n < 256 ^ 128 \<and> (\<forall>x<n. (x ^ e mod n) ^ d mod n = x)"

text \<open>The padding a generator of random bytes is asked for.\<close>

definition padding :: "(nat \<Rightarrow> 's \<Rightarrow> (u8 list \<times> 's) outcome) \<Rightarrow> u8 list \<Rightarrow> 's \<Rightarrow> u8 list \<Rightarrow> 's \<Rightarrow> bool" where
  "padding rnd msg r pad r1 \<longleftrightarrow> length msg \<le> 118 \<and> rnd (126 - length msg) r = Ret (pad, r1)
     \<and> length pad = 126 - length msg \<and> 0 \<notin> set pad"

definition padded :: "u8 list \<Rightarrow> u8 list \<Rightarrow> u8 list" where "padded pad msg = 2 # pad @ [0] @ msg"

definition ciphertext :: "u8 list \<Rightarrow> u8 list \<Rightarrow> nat \<Rightarrow> nat \<Rightarrow> nat" where
  "ciphertext pad msg e n = mp_os2ip (padded pad msg) ^ e mod n"

lemma rsa_key_size: "rsa_key e d n \<Longrightarrow> mp_unsigned_bin_size n = 128" and rsa_key_pos: "rsa_key e d n \<Longrightarrow> 1 < n"
  and rsa_key_used: "rsa_key e d n \<Longrightarrow> 1 < n \<and> USED n < 4095"
proof -
  assume key: "rsa_key e d n"
  have "(3 :: nat) \<le> 3 * 256 ^ 127" by simp
  then show n1: "1 < n" using key unfolding rsa_key_def by linarith
  then have n: "n \<noteq> 0" by simp
  have "RADIX ^ (USED n - 1) < RADIX ^ 64" using digits_least [OF n] key unfolding rsa_key_def by (simp add: le_less_trans)
  then have "USED n - 1 < 64" by (simp only: power_strict_increasing_iff)
  then show "1 < n \<and> USED n < 4095" using n1 by simp
  have "256 ^ (128 - 1) \<le> n" "n < 256 ^ 128" "0 < (128 :: nat)" using key unfolding rsa_key_def by simp_all
  from i2osp_full(2) [OF this] show "mp_unsigned_bin_size n = 128" using to_unsigned_bin_top [OF n] by simp
qed

lemma padded_value:
  assumes "padding rnd msg r pad r1" "rsa_key e d n"
  shows "length (padded pad msg) = 128" "mp_os2ip (padded pad msg) < n" "256 ^ 127 \<le> mp_os2ip (padded pad msg)"
    "ciphertext pad msg e n ^ d mod n = mp_os2ip (padded pad msg)"
proof -
  show l: "length (padded pad msg) = 128" using assms(1) by (auto simp: padding_def padded_def)
  then have r: "length (pad @ [0] @ msg) = 127" by (simp add: padded_def)
  then have v: "mp_os2ip (padded pad msg) = 2 * 256 ^ 127 + mp_os2ip (pad @ [0] @ msg)" unfolding padded_def os2ip_Cons by simp
  have "mp_os2ip (pad @ [0] @ msg) < 256 ^ 127" using os2ip_bound [of "pad @ [0] @ msg"] unfolding r .
  then have "mp_os2ip (padded pad msg) < 3 * 256 ^ 127" unfolding v by linarith
  then show lt: "mp_os2ip (padded pad msg) < n" using assms(2) unfolding rsa_key_def by linarith
  show "256 ^ 127 \<le> mp_os2ip (padded pad msg)" unfolding v by linarith
  show "ciphertext pad msg e n ^ d mod n = mp_os2ip (padded pad msg)"
    using assms(2) lt unfolding rsa_key_def ciphertext_def by blast
qed

text \<open>The buffer and, in the buffer's number, the two steps on digits: 136 bytes, 40 bytes and twice what the digits need.\<close>

lemma buffer_and_digits:
  assumes "digit_work W C" "heap_holds h U ps (176 + 2 * C + R)" "1 \<le> R" "length bs \<le> 128"
    "small_op (Power m e n)" "mp_os2ip bs = m"
  obtains buf h1 dp1 h2 dp2 h3 dp3 h4 where "heap_alloc 128 h = Ret (buf, h1)" "buf \<noteq> 0" "mp_init h1 = Ret (Inr 0, dp1, h2)"
    "with_digits W (Read_bin bs) (Ret (Inr m)) dp1 h2 = Ret (Inr m, dp2, h3)"
    "\<forall>c. with_digits W (Power m e n) (Ret (Inr c)) dp2 h3 = Ret (Inr c, dp3, h4)"
    "heap_holds h4 U (dp3 # buf # ps) R"
proof -
  have "heap_holds h U ps (round8 128 + 8 + (40 + (C + (C + R))))" using assms(2) by (simp add: round8_def ac_simps mult_2)
  then obtain buf h1 where b: "heap_alloc (of_nat 128) h = Ret (buf, h1)" "buf \<noteq> 0" "heap_holds h1 U (buf # ps) (40 + (C + (C + R)))"
    using heap_holds_alloc [of h U ps 128 "40 + (C + (C + R))"] by auto
  obtain dp1 h2 where d1: "mp_init h1 = Ret (Inr 0, dp1, h2)" "heap_holds h2 U (dp1 # buf # ps) (C + (C + R))"
    using mp_init_holds [OF b(3)] assms(3) by auto
  have sm: "small_op (Read_bin bs)" "1 \<le> C + R" using assms(3,4) by (simp_all add: small_op.simps)
  obtain dp2 h3 where d2: "with_digits W (Read_bin bs) (Ret (Inr m)) dp1 h2 = Ret (Inr m, dp2, h3)" "heap_holds h3 U (dp2 # buf # ps) (C + R)"
    using with_digits_holds [OF assms(1) sm d1(2)] by blast
  obtain rest dp3 h4 where d3: "W (Power m e n) dp2 h3 = Ret (0, rest, dp3, h4)" "heap_holds h4 U (dp3 # buf # ps) R"
    using digit_work_run [OF assms(1,5,3) d2(2)] .
  show ?thesis
    by (rule that [OF _ b(2) d1(1) d2(1) _ d3(2)]) (use b(1) d3(1) in \<open>simp_all add: with_digits_def\<close>)
qed

lemma encrypt_run:
  assumes key: "rsa_key e d n" and pad: "padding rnd msg r pad r1"
    and work: "digit_work W C" "e < 256 ^ 128" and room: "heap_holds h U ps (176 + 2 * C + R)" "1 \<le> R"
  shows "if ciphertext pad msg e n < 256 ^ 127 then mp_pkcs1v15_encrypt W rnd msg e n h r = Undefined
    else \<exists>buf h'. mp_pkcs1v15_encrypt W rnd msg e n h r = Ret (Inr (rev (top_bytes (ciphertext pad msg e n))), h', r1)
      \<and> heap_holds h' U (buf # ps) R"
proof -
  let ?c = "ciphertext pad msg e n" and ?m = "mp_os2ip (padded pad msg)"
  have p: "length msg \<le> 118" "rnd (126 - length msg) r = Ret (pad, r1)" using pad by (simp_all add: padding_def)
  have "int (length msg) \<le> int 128 - 10" "128 - length msg - 2 = 126 - length msg" using p(1) by simp_all
  then have enc: "mp_pkcs1v15_encode rnd msg 128 r = Ret (Inr (padded pad msg), r1)"
    using p(2) by (simp add: mp_pkcs1v15_encode_def padded_def)
  have rsa: "mp_rsaep ?m e n = Ret (Inr ?c)"
    using padded_value(2) [OF pad key] mp_exptmod_run [OF rsa_key_used [OF key]] by (simp add: mp_rsaep_def ciphertext_def)
  have op: "length (padded pad msg) \<le> 128" "small_op (Power ?m e n)"
    using padded_value(1,2) [OF pad key] key work(2) by (auto simp: small_op.simps rsa_key_def)
  obtain buf h1 dp1 h2 dp2 h3 dp3 h4 where s: "heap_alloc 128 h = Ret (buf, h1)" "buf \<noteq> 0" "mp_init h1 = Ret (Inr 0, dp1, h2)"
    "with_digits W (Read_bin (padded pad msg)) (Ret (Inr ?m)) dp1 h2 = Ret (Inr ?m, dp2, h3)"
    "\<forall>c. with_digits W (Power ?m e n) (Ret (Inr c)) dp2 h3 = Ret (Inr c, dp3, h4)" "heap_holds h4 U (dp3 # buf # ps) R"
    using buffer_and_digits [OF work(1) room op refl] by blast
  have run: "mp_pkcs1v15_encrypt W rnd msg e n h r = and_then (mp_i2osp ?c 128) (\<lambda>res. case res of
      Inl err \<Rightarrow> Ret (Inl err, trusted_free buf (mp_clear dp3 h4), r1) | Inr bs \<Rightarrow> Ret (Inr (take 128 bs), mp_clear dp3 h4, r1))"
    unfolding mp_pkcs1v15_encrypt_def rsa_key_size [OF key] Let_def
    by (cases "mp_i2osp ?c 128") (use s enc rsa in \<open>simp_all add: or_cleanup_def no_digits_def split: sum.split\<close>)
  show ?thesis
  proof (cases "?c < 256 ^ 127")
    case True
    then have "mp_i2osp ?c 128 = Undefined" using i2osp_short [of ?c 128] by simp
    then show ?thesis unfolding run if_P [OF True] by simp
  next
    case False
    have "?c < n" unfolding ciphertext_def using rsa_key_pos [OF key] by simp
    then have "256 ^ (128 - 1) \<le> ?c" "?c < 256 ^ 128" "0 < (128 :: nat)" using False key unfolding rsa_key_def by simp_all
    from i2osp_full [OF this] show ?thesis unfolding run if_not_P [OF False] using mp_clear_holds [OF s(6)] by auto
  qed
qed

lemma cipher_length:
  assumes "rsa_key e d n" "\<not> ciphertext pad msg e n < 256 ^ 127"
  shows "length (rev (top_bytes (ciphertext pad msg e n))) = 128"
proof -
  have "ciphertext pad msg e n < n" unfolding ciphertext_def using rsa_key_pos [OF assms(1)] by simp
  then have "256 ^ (128 - 1) \<le> ciphertext pad msg e n" "ciphertext pad msg e n < 256 ^ 128" "0 < (128 :: nat)"
    using assms unfolding rsa_key_def by simp_all
  from i2osp_full(2) [OF this] show ?thesis by simp
qed

lemma decrypt_run:
  assumes key: "rsa_key e d n" and pad: "padding rnd msg r pad r1" and full: "\<not> ciphertext pad msg e n < 256 ^ 127"
    and work: "digit_work W C" "d < 256 ^ 128" and room: "heap_holds h U ps (176 + 2 * C + R)" "1 \<le> R"
  shows "\<exists>buf dp h'. mp_pkcs1v15_decrypt W (rev (top_bytes (ciphertext pad msg e n))) d n h = Ret (Inr msg, h')
    \<and> heap_holds h' U (dp # buf # ps) R"
proof -
  let ?c = "ciphertext pad msg e n" and ?m = "mp_os2ip (padded pad msg)"
  have cn: "?c < n" unfolding ciphertext_def using rsa_key_pos [OF key] by simp
  note l = cipher_length [OF key full] and v = padded_value [OF pad key]
  have rsa: "mp_rsadp ?c d n = Ret (Inr ?m)"
    using cn mp_exptmod_run [OF rsa_key_used [OF key]] v(4) by (simp add: mp_rsadp_def)
  have out: "mp_i2osp ?m 128 = Ret (Inr (padded pad msg))"
  proof -
    have "256 ^ (128 - 1) \<le> ?m" "?m < 256 ^ 128" "0 < (128 :: nat)" using v(2,3) key unfolding rsa_key_def by simp_all
    from i2osp_full(1) [OF this] show ?thesis using top_bytes_os2ip [of "padded pad msg"] by (simp add: padded_def)
  qed
  have dec: "mp_pkcs1v15_decode (padded pad msg) = Inr msg"
    unfolding padded_def by (rule decode_padded) (use pad in \<open>auto simp: padding_def\<close>)
  have op: "length (rev (top_bytes ?c)) \<le> 128" "small_op (Power ?c d n)" "mp_os2ip (rev (top_bytes ?c)) = ?c"
    using l cn key work(2) by (auto simp: small_op.simps rsa_key_def os2ip_top_bytes)
  obtain buf h1 dp1 h2 dp2 h3 dp3 h4 where s: "heap_alloc 128 h = Ret (buf, h1)" "buf \<noteq> 0" "mp_init h1 = Ret (Inr 0, dp1, h2)"
    "with_digits W (Read_bin (rev (top_bytes ?c))) (Ret (Inr ?c)) dp1 h2 = Ret (Inr ?c, dp2, h3)"
    "\<forall>c. with_digits W (Power ?c d n) (Ret (Inr c)) dp2 h3 = Ret (Inr c, dp3, h4)" "heap_holds h4 U (dp3 # buf # ps) R"
    using buffer_and_digits [OF work(1) room op] by blast
  have "mp_pkcs1v15_decrypt W (rev (top_bytes ?c)) d n h = Ret (Inr msg, h4)"
    unfolding mp_pkcs1v15_decrypt_def rsa_key_size [OF key] Let_def op(3)
    using s l rsa out dec by (simp add: or_cleanup_def no_digits_def)
  then show ?thesis using s(6) by blast
qed

text \<open>C37. RSA decryption gives the message back, unless the ciphertext is a number of fewer than 128 bytes: then encryption writes
before its buffer. With room in the heap for the buffer, the number and twice what the digit arithmetic needs, neither fails; encryption leaves its
buffer allocated, decryption its buffer and the digits of its number.\<close>

theorem rsa_round_trip:
  assumes "rsa_key e d n" "padding rnd msg r pad r1" "digit_work W C" "e < 256 ^ 128" "d < 256 ^ 128"
    "heap_holds h U ps (176 + 2 * C + R)" "1 \<le> R"
  shows "if ciphertext pad msg e n < 256 ^ 127 then mp_pkcs1v15_encrypt W rnd msg e n h r = Undefined
    else \<exists>cs buf h1. mp_pkcs1v15_encrypt W rnd msg e n h r = Ret (Inr cs, h1, r1) \<and> length cs = 128 \<and> heap_holds h1 U (buf # ps) R
      \<and> (\<forall>h2 U2 qs R2. heap_holds h2 U2 qs (176 + 2 * C + R2) \<and> 1 \<le> R2 \<longrightarrow>
            (\<exists>buf2 dp h3. mp_pkcs1v15_decrypt W cs d n h2 = Ret (Inr msg, h3) \<and> heap_holds h3 U2 (dp # buf2 # qs) R2))"
proof (cases "ciphertext pad msg e n < 256 ^ 127")
  case True
  then show ?thesis unfolding if_P [OF True] using encrypt_run [OF assms(1-4,6,7)] by simp
next
  case False
  let ?cs = "rev (top_bytes (ciphertext pad msg e n))"
  obtain buf h1 where "mp_pkcs1v15_encrypt W rnd msg e n h r = Ret (Inr ?cs, h1, r1)" "heap_holds h1 U (buf # ps) R"
    using encrypt_run [OF assms(1-4,6,7), unfolded if_not_P [OF False]] by blast
  then show ?thesis
    unfolding if_not_P [OF False] using cipher_length [OF assms(1) False] decrypt_run [OF assms(1,2) False assms(3,5)]
    by (intro exI [of _ ?cs] exI [of _ buf] exI [of _ h1]) blast
qed

text \<open>Digit arithmetic that moves the digits to a buffer of 256 bytes each time.\<close>

definition demo_work :: digit_memory where
  "demo_work op dp h = and_then (calloc 128 2 h) (\<lambda>(p, h1). Ret (0, 0, p, mp_clear dp h1))"

lemma demo_work: "digit_work demo_work 264"
  unfolding digit_work_def
proof (intro allI impI)
  fix op dp h U ps R
  assume a: "small_op op \<and> 1 \<le> R \<and> heap_holds h U (dp # ps) (264 + R)"
  then obtain p h1 where p: "calloc 128 2 h = Ret (p, h1)" "heap_holds h1 U (p # dp # ps) R"
    using calloc_holds [of h U "dp # ps" 256 R 128 2] by (auto simp: round8_def)
  have "heap_holds h1 U (dp # p # ps) R" by (rule heap_holds_perm [OF p(2)]) simp
  from mp_clear_holds [OF this] show "\<exists>rest dp' h'. demo_work op dp h = Ret (0, rest, dp', h') \<and> heap_holds h' U (dp' # ps) R"
    using p(1) by (simp add: demo_work_def)
qed

lemma empty_heap_holds:
  assumes "heap_inv h [(n, False)]" "R \<le> n"
  shows "heap_holds h {} [] R"
  using assms in_use_eq [OF assms(1)] by (auto simp: heap_holds_empty has_room_def)

theorem rsa_round_trip_witness:
  "\<forall>h. \<exists>cs buf h1. mp_pkcs1v15_encrypt demo_work (\<lambda>k r. Ret (replicate k 7, r)) [65, 66] 1 (256 ^ 128 - 1) (core_mem_init 0x1000 0x2000 h) ()
      = Ret (Inr cs, h1, ()) \<and> length cs = 128 \<and> heap_holds h1 {} [buf] 0xD00"
proof
  fix h
  let ?rnd = "\<lambda>k (r :: unit). Ret (replicate k (7 :: u8), r)" and ?n = "256 ^ 128 - 1 :: nat" and ?h = "core_mem_init 0x1000 0x2000 h"
  have key: "rsa_key 1 1 ?n" by (simp add: rsa_key_def)
  have pad: "padding ?rnd [65, 66] () (replicate 124 7) ()" by (simp add: padding_def)
  have "heap_inv ?h [(0xFF0, False)]" using core_mem_init_inv [of "0x1000" "0x2000" h] by simp
  then have room: "heap_holds ?h {} [] (176 + 2 * 264 + 0xD00)" by (rule empty_heap_holds) simp
  have "\<not> ciphertext (replicate 124 7) [65, 66] 1 ?n < 256 ^ 127"
    using padded_value(2,3) [OF pad key] by (simp add: ciphertext_def)
  from rsa_round_trip [OF key pad demo_work _ _ room, unfolded if_not_P [OF this]] show
    "\<exists>cs buf h1. mp_pkcs1v15_encrypt demo_work ?rnd [65, 66] 1 ?n ?h () = Ret (Inr cs, h1, ()) \<and> length cs = 128 \<and> heap_holds h1 {} [buf] 0xD00"
    by auto
qed

end
