(* ===== verification/ServiceSpec.thy ===== *)
theory ServiceSpec
  imports Service Cbc TrustedSpec MprsaSpec
begin

text \<open>
  The service of the trusted guest as a whole: the session key and the padding it makes, the regions of its heap it needs and
  loses, and what its three calls give together.
\<close>

section \<open>The keys of the code\<close>

text \<open>The first byte of the modulus leaves room for the padding; that the exponents are inverse is not shown here.\<close>

lemma source_key_size: "3 * 256 ^ 127 \<le> g_modulus" "g_modulus < 256 ^ 128" "g_d < g_modulus"
  by (simp_all add: g_modulus_def g_d_def)

section \<open>The service\<close>

subsection \<open>The session key\<close>

definition hex_digit :: "u8 \<Rightarrow> bool" where "hex_digit c \<longleftrightarrow> key_nibble c \<noteq> None"

lemma key_nibble_0: "key_nibble 0 = None"
  by (simp add: key_nibble_def toupper_def)

lemma string_end_eq: "\<forall>j. i \<le> j \<and> j < n \<longrightarrow> b j \<noteq> 0 \<Longrightarrow> b n = 0 \<Longrightarrow> i \<le> n \<Longrightarrow> string_end b i = Some n"
proof (induction "n - i" arbitrary: i)
  case 0
  then show ?case by (subst string_end.simps) simp
next
  case (Suc k)
  then have "string_end b (i + 1) = Some n" by (intro Suc.hyps(1)) auto
  moreover have "b i \<noteq> 0" using Suc by simp
  ultimately show ?case by (subst string_end.simps) simp
qed

text \<open>Parsing 32 digits and the end reads nothing behind it.\<close>

lemma parse_key_digits:
  assumes "\<forall>j<32. hex_digit (str j)" "str 32 = 0" "\<forall>j\<le>32. str' j = str j"
  shows "i \<le> 32 \<Longrightarrow> length key = i div 2
    \<Longrightarrow> \<exists>key'. parse_key str i by' key = Some (32, key') \<and> parse_key str' i by' key = Some (32, key') \<and> length key' = 16"
proof (induction "32 - i" arbitrary: i by' key)
  case 0
  then have "i = 32" by simp
  then show ?case using 0 assms(2,3) by (subst (1 2) parse_key.simps) simp
next
  case (Suc k)
  then have i: "i < 32" by simp
  with assms(1) obtain v where v: "key_nibble (str i) = Some v" unfolding hex_digit_def by auto
  then have nz: "str i \<noteq> 0" using key_nibble_0 by auto
  have same: "str' i = str i" using assms(3) i by simp
  let ?b = "push_bit 4 by' + v"
  let ?k = "if odd i then key @ [ucast (?b AND 0xFF)] else key"
  have "\<exists>key'. parse_key str (i + 1) ?b ?k = Some (32, key') \<and> parse_key str' (i + 1) ?b ?k = Some (32, key') \<and> length key' = 16"
    by (rule Suc.hyps(1)) (use Suc i in \<open>auto elim: oddE\<close>)
  moreover have "parse_key str i by' key = parse_key str (i + 1) ?b ?k" "parse_key str' i by' key = parse_key str' (i + 1) ?b ?k"
    using i v nz same by (subst parse_key.simps, simp add: Let_def)+
  ultimately show ?case by simp
qed

lemma parse_key_overrun:
  assumes "\<forall>j<32. hex_digit (str j)" "str 32 \<noteq> 0" "\<not> hex_digit (str 32)"
  shows "i \<le> 32 \<Longrightarrow> parse_key str i by' key = None"
proof (induction "32 - i" arbitrary: i by' key)
  case 0
  then have "i = 32" by simp
  then show ?case using assms(2,3) by (subst parse_key.simps) (simp add: hex_digit_def)
next
  case (Suc k)
  then have i: "i < 32" by simp
  with assms(1) obtain v where v: "key_nibble (str i) = Some v" unfolding hex_digit_def by auto
  then have "str i \<noteq> 0" using key_nibble_0 by auto
  moreover have "parse_key str (i + 1) b k = None" for b k by (rule Suc.hyps(1)) (use Suc.hyps(2) i in simp_all)
  ultimately show ?case using v i by (subst parse_key.simps) (simp add: Let_def)
qed

lemma session_key_digits:
  assumes "\<forall>j<32. hex_digit (str j)" "str 32 = 0"
  obtains key where "length key = 16" "\<And>err str'. \<forall>j\<le>32. str' j = str j \<Longrightarrow> session_key err str' = Inr key"
proof -
  obtain key where k: "parse_key str 0 0 [] = Some (32, key)" "length key = 16"
    using parse_key_digits [OF assms, of str 0 "[]" 0] by auto
  have "session_key err str' = Inr key" if "\<forall>j\<le>32. str' j = str j" for err str'
    using parse_key_digits [OF assms that, of 0 "[]" 0] that assms(2) k by (auto simp: session_key_def)
  with k(2) show ?thesis using that by blast
qed

lemma hex_digit_ranges: "48 \<le> c \<and> c \<le> 57 \<or> 65 \<le> c \<and> c \<le> 70 \<Longrightarrow> hex_digit c"
  by (auto simp: hex_digit_def key_nibble_def toupper_def word_le_nat_alt Let_def)

lemma nibble_digit:
  fixes tmp :: u32
  assumes "tmp < 16"
  shows "hex_digit (if tmp < 10 then ucast tmp + 48 else ucast tmp + 55)"
proof -
  define n where "n = unat tmp"
  have n: "n < 16" "tmp = of_nat n" using assms by (simp_all add: n_def word_less_nat_alt)
  then have "n \<in> set [0..<16]" by simp
  also have "[0..<16] = [0, 1, 2, 3, 4, 5, 6, 7, 8, 9, 10, 11, 12, 13, 14, 15]" by (simp add: upt_rec)
  finally show ?thesis unfolding n(2) by (auto simp: hex_digit_def key_nibble_def toupper_def)
qed

lemma key_digits_hex: "key_digits n s = Ret (ks, g) \<Longrightarrow> length ks = n \<and> (\<forall>c\<in>set ks. hex_digit c)"
proof (induction n arbitrary: s ks)
  case (Suc n)
  obtain v t ds where v: "rand_mwc s = Ret (v, t)" "key_digits n t = Ret (ds, g)"
      "ks = (if v mod 16 < 10 then ucast (v mod 16) + 48 else ucast (v mod 16) + 55) # ds"
    using Suc.prems by (auto simp: and_then_Ret_iff Let_def split: prod.splits)
  have "v mod 16 < 16" by (simp add: word_less_nat_alt unat_mod)
  from nibble_digit [OF this] show ?case
    using Suc.IH [OF v(2)] v(3) by (simp split: if_split_asm)
qed simp

lemma generateAESKey_hex: "generateAESKey s = Ret (ks, g) \<Longrightarrow> length ks = 32 \<and> (\<forall>c\<in>set ks. hex_digit c)"
  unfolding generateAESKey_def by (rule key_digits_hex)

lemma rand_bytes_length: "rand_bytes n s = Ret (bs, t) \<Longrightarrow> length bs = n"
  by (induction n arbitrary: s bs) (auto simp: and_then_Ret_iff split: prod.splits)

subsection \<open>The padding\<close>

lemma nonzero_rand_range: "nonzero_rand r = Some y \<Longrightarrow> fst y \<noteq> 0 \<and> unat (fst y) < 255"
proof (erule nonzero_rand.raw_induct [rotated])
  fix f :: "rand_state \<Rightarrow> (u32 \<times> rand_state) option" and r y
  assume ih: "\<And>r y. f r = Some y \<Longrightarrow> fst y \<noteq> 0 \<and> unat (fst y) < 255"
    and y: "(let (v, r1) = rand r in if v mod 255 = 0 then f r1 else Some (v mod 255, r1)) = Some y"
  have "unat (fst (rand r) mod 255) < 255" by (simp add: unat_mod)
  then show "fst y \<noteq> 0 \<and> unat (fst y) < 255" using y ih by (auto simp: Let_def split_beta split: if_splits)
qed

lemma unat_ucast_byte: "unat (v :: u32) < 256 \<Longrightarrow> unat (ucast v :: u8) = unat v"
  by (simp add: unsigned_ucast_eq take_bit_nat_eq_self)

lemma myrand_padding: "myrand n r = Ret (pad, r1) \<Longrightarrow> length pad = n \<and> 0 \<notin> set pad"
proof (induction n arbitrary: r pad)
  case (Suc n)
  obtain v q where v: "nonzero_rand r = Some (v, q)"
    using Suc.prems by (cases "nonzero_rand r") (auto simp: outcome_of_def)
  then obtain bs where bs: "myrand n q = Ret (bs, r1)" "pad = ucast v # bs"
    using Suc.prems by (auto simp: outcome_of_def and_then_Ret_iff)
  have "v \<noteq> 0" "unat v < 255" using nonzero_rand_range [OF v] by simp_all
  then have "unat (ucast v :: u8) \<noteq> 0" by (simp add: unat_ucast_byte unat_eq_zero)
  then have "(ucast v :: u8) \<noteq> 0" by auto
  then show ?case using Suc.IH [OF bs(1)] bs(2) by simp
qed simp

subsection \<open>The calls\<close>

text \<open>What the service relies on: the cipher inverts on blocks of 16 bytes, and the linker reserves a heap.\<close>

definition good_cipher :: "environment \<Rightarrow> bool" where
  "good_cipher V \<longleftrightarrow> (\<forall>k. length k = 16 \<longrightarrow> block_cipher (e_encrypt V k) (e_decrypt V k))"

definition good_heap :: "environment \<Rightarrow> bool" where
  "good_heap V \<longleftrightarrow> 8 \<le> unat (e_heap_start V) \<and> unat (e_heap_start V) + 17 \<le> unat (e_heap_end V)
     \<and> unat (e_heap_start V) + 8 * (unat (e_heap_end V) - unat (e_heap_start V)) < 2 ^ 32"

definition heap_bytes :: "environment \<Rightarrow> nat" where
  "heap_bytes V = (unat (e_heap_end V) - unat (e_heap_start V) - 1) div 8 * 8 - 8"

lemma init_heap_inv: "good_heap V \<Longrightarrow> heap_inv (init_heap V h) ([] @ [(heap_bytes V, False)])"
  using core_mem_init_inv [of "e_heap_start V" "e_heap_end V" h]
  by (simp add: good_heap_def heap_bytes_def init_heap_def core_mem_init_def)

lemma write_list_at: "i < length xs \<Longrightarrow> write_list xs b i = xs ! i" "length xs \<le> i \<Longrightarrow> write_list xs b i = b i"
  by (simp_all add: write_list_def)

lemma write_list_bytes: "length xs = n \<Longrightarrow> bytes_at (write_list xs b) 0 n = xs"
  by (rule bytes_at_eqI) (simp_all add: write_list_def)

lemma hex_digit_nonzero: "hex_digit c \<Longrightarrow> c \<noteq> 0"
  using key_nibble_0 by (auto simp: hex_digit_def)

text \<open>Two keys in the arrays of the two calls: the digits and, behind them, a zero.\<close>

definition key_string :: "u8 list \<Rightarrow> buffer \<Rightarrow> bool" where
  "key_string ks str \<longleftrightarrow> length ks = 32 \<and> (\<forall>c\<in>set ks. hex_digit c) \<and> (\<forall>j<32. str j = ks ! j) \<and> str 32 = 0"

lemma key_string_key:
  assumes "length ks = 32" "\<forall>c\<in>set ks. hex_digit c"
  obtains key where "length key = 16" "\<And>err str. key_string ks str \<Longrightarrow> session_key err str = Inr key"
proof -
  have "\<forall>j<32. hex_digit (write_list ks (\<lambda>i. 0) j)" "write_list ks (\<lambda>i. 0) 32 = 0"
    using assms by (simp_all add: write_list_def)
  from session_key_digits [OF this] obtain key where
    k: "length key = 16" "\<And>err str'. \<forall>j\<le>32. str' j = write_list ks (\<lambda>i. 0) j \<Longrightarrow> session_key err str' = Inr key" by blast
  have "session_key err str = Inr key" if "key_string ks str" for err str
    by (rule k(2)) (use that in \<open>auto simp: key_string_def write_list_def le_less\<close>)
  with k(1) show ?thesis using that by blast
qed

lemma key_string_end: "key_string ks str \<Longrightarrow> string_end str 0 = Some 32"
  by (rule string_end_eq) (auto simp: key_string_def hex_digit_nonzero)

lemma key_string_bytes: "key_string ks str \<Longrightarrow> bytes_at str 0 32 = ks"
  by (rule bytes_at_eqI) (auto simp: key_string_def)

text \<open>A message that is held for the time of a call needs room, but takes none.\<close>

lemma aesEncrypt_runs:
  assumes key: "session_key (- 1) sk = Inr key" and n: "string_end data 0 = Some n" "1 \<le> n" "n < 50000"
    and room: "heap_holds h U ps R" "round8 n \<le> R" and iv: "fillrand (e_seed V) 16 g = Ret (iv, g')"
    and cipher: "block_cipher (e_encrypt V key) (e_decrypt V key)"
  shows "\<exists>c h'. aesEncrypt V sk data out h g = Ret (0, c, h', g') \<and> heap_holds h' U ps R
    \<and> (\<forall>dbuf buf old. \<exists>p. decfile (e_decrypt V key) dbuf buf c old (of_nat n) = Ret p
          \<and> (\<forall>i. p i = (if i < n then data i else old i)))"
proof -
  have m: "n + 7 < 2 ^ 31" "unat (of_nat n :: u32) = n" using n(3) by (simp_all add: unat_addr)
  obtain p h1 where a: "heap_alloc (of_nat n) h = Ret (p, h1)" "p \<noteq> 0" "heap_holds (trusted_free p h1) U ps R"
    using heap_holds_borrow [OF room n(2) m(1)] by blast
  let ?msg = "copy_in (e_stack V) 0 data 0 n"
  have l: "length iv = 16" using iv rand_bytes_length by (simp add: fillrand_def)
  have s: "unat (of_nat n :: u32) + 32 < 2 ^ 31" unfolding m(2) using n(3) by simp
  have msg: "?msg i = data i" if "i < n" for i using that by (simp add: copy_in_eq)
  obtain c where c: "encfile (e_encrypt V key) iv (e_stack V) out ?msg (of_nat n) = Ret c"
    using round_trip [OF cipher l s] by metis
  have "\<exists>p. decfile (e_decrypt V key) dbuf buf c old (of_nat n) = Ret p \<and> (\<forall>i. p i = (if i < n then data i else old i))" for dbuf buf old
  proof -
    obtain c' p where cp: "encfile (e_encrypt V key) iv (e_stack V) out ?msg (of_nat n) = Ret c'"
        "decfile (e_decrypt V key) dbuf buf c' old (of_nat n) = Ret p" "\<forall>i. p i = (if i < unat (of_nat n :: u32) then ?msg i else old i)"
      using round_trip [OF cipher l s, of "e_stack V" out ?msg dbuf buf old] by metis
    have "c' = c" using c cp(1) by simp
    then show ?thesis using cp(2,3) msg unfolding m(2) by auto
  qed
  moreover have "aesEncrypt V sk data out h g = Ret (0, c, trusted_free p h1, g')"
    using n(1) a(1,2) key c iv by (simp add: aesEncrypt_def outcome_of_def trusted_free_def)
  ultimately show ?thesis using a(3) by blast
qed

lemma aesDecrypt_runs:
  assumes key: "session_key (- 2) sk = Inr key" and n: "n < 50000"
    and room: "heap_holds h U ps R" "round8 (n + 1) \<le> R"
    and p: "decfile (e_decrypt V key) (e_stack V) (e_stack V) data old (of_nat n) = Ret p"
  shows "\<exists>h'. aesDecrypt V sk data old (of_nat n) h = Ret (0, p, h') \<and> heap_holds h' U ps R"
proof -
  have "1 \<le> n + 1" "n + 1 + 7 < 2 ^ 31" using n by simp_all
  then obtain q h1 where a: "heap_alloc (of_nat (n + 1)) h = Ret (q, h1)" "q \<noteq> 0" "heap_holds (trusted_free q h1) U ps R"
    using heap_holds_borrow [OF room] by blast
  then show ?thesis using key p by (simp add: aesDecrypt_def add.commute trusted_free_def)
qed

text \<open>The two numbers of a call of RSA.\<close>

lemma numbers_ready:
  assumes "digit_work (e_work V) C" "heap_holds h U ps (256 + 4 * C + R)" "1 \<le> R" "x < 256 ^ 128" "y < 256 ^ 128"
  obtains dx h1 dy h2 dx1 h3 dy1 h4 where "mp_init h = Ret (Inr 0, dx, h1)" "mp_init h1 = Ret (Inr 0, dy, h2)"
    "read_number V x dx h2 = Ret (x, dx1, h3)" "read_number V y dy h3 = Ret (y, dy1, h4)"
    "heap_holds h4 U (dy1 # dx1 # ps) (176 + 2 * C + R)"
proof -
  have "heap_holds h U ps (40 + (216 + 4 * C + R))" using assms(2) by (simp add: ac_simps)
  then obtain dx h1 where i1: "mp_init h = Ret (Inr 0, dx, h1)" "heap_holds h1 U (dx # ps) (40 + (176 + 4 * C + R))"
    using mp_init_holds [of h U ps "216 + 4 * C + R"] by (auto simp: ac_simps)
  obtain dy h2 where i2: "mp_init h1 = Ret (Inr 0, dy, h2)" "heap_holds h2 U (dy # dx # ps) (C + (C + (176 + 2 * C + R)))"
    using mp_init_holds [OF i1(2)] by (auto simp: ac_simps mult_2)
  have sm: "small_op (Read_radix x)" "small_op (Read_radix y)" using assms(4,5) by (simp_all add: small_op.simps)
  have pos: "1 \<le> C + (176 + 2 * C + R)" "1 \<le> 176 + 2 * C + R" using assms(3) by simp_all
  have "heap_holds h2 U (dx # dy # ps) (C + (C + (176 + 2 * C + R)))" by (rule heap_holds_perm [OF i2(2)]) simp
  then obtain r1 dx1 h3 where w1: "e_work V (Read_radix x) dx h2 = Ret (0, r1, dx1, h3)" "heap_holds h3 U (dx1 # dy # ps) (C + (176 + 2 * C + R))"
    using digit_work_run [OF assms(1) sm(1) pos(1)] by blast
  have "heap_holds h3 U (dy # dx1 # ps) (C + (176 + 2 * C + R))" by (rule heap_holds_perm [OF w1(2)]) simp
  then obtain r2 dy1 h4 where w2: "e_work V (Read_radix y) dy h3 = Ret (0, r2, dy1, h4)" "heap_holds h4 U (dy1 # dx1 # ps) (176 + 2 * C + R)"
    using digit_work_run [OF assms(1) sm(2) pos(2)] by blast
  have "read_number V x dx h2 = Ret (x, dx1, h3)" "read_number V y dy h3 = Ret (y, dy1, h4)"
    unfolding read_number_def w1(1) w2(1) by simp_all
  then show ?thesis by (rule that [OF i1(1) i2(1) _ _ w2(2)])
qed

lemma rsaEncrypt_runs:
  assumes key: "rsa_key (e_public V) d (e_modulus V)" and str: "key_string ks sk" and pad: "padding myrand ks r pad r1"
    and work: "digit_work (e_work V) C" "e_public V < 256 ^ 128" and room: "heap_holds h U ps (256 + 4 * C + R)" "1 \<le> R"
    and c: "c = ciphertext pad ks (e_public V) (e_modulus V)"
  shows "if c < 256 ^ 127 then rsaEncrypt V sk out h r = Undefined
    else \<exists>buf h'. rsaEncrypt V sk out h r = Ret (0, write_list (rev (top_bytes c)) out, h', r1) \<and> heap_holds h' U (buf # ps) R"
proof -
  have n: "e_modulus V < 256 ^ 128" using key by (simp add: rsa_key_def)
  obtain dn h1 de h2 dn1 h3 de1 h4 where s: "mp_init h = Ret (Inr 0, dn, h1)" "mp_init h1 = Ret (Inr 0, de, h2)"
    "read_number V (e_modulus V) dn h2 = Ret (e_modulus V, dn1, h3)" "read_number V (e_public V) de h3 = Ret (e_public V, de1, h4)"
    "heap_holds h4 U (de1 # dn1 # ps) (176 + 2 * C + R)"
    using numbers_ready [OF work(1) room n work(2)] .
  note enc = encrypt_run [OF key pad work s(5) room(2), folded c]
  have run: "rsaEncrypt V sk out h r = and_then (mp_pkcs1v15_encrypt (e_work V) myrand ks (e_public V) (e_modulus V) h4 r)
      (\<lambda>(res, h5, r1). let h6 = mp_clear dn1 (mp_clear de1 h5)
        in Ret (case res of Inl err \<Rightarrow> (err, out, h6, r1) | Inr o1 \<Rightarrow> (0, write_list o1 out, h6, r1)))"
    unfolding rsaEncrypt_def key_string_end [OF str] using s(1-4) by (simp add: outcome_of_def key_string_bytes [OF str])
  show ?thesis
  proof (cases "c < 256 ^ 127")
    case True
    then show ?thesis unfolding run if_P [OF True] using enc [unfolded if_P [OF True]] by (simp only: and_then.simps)
  next
    case False
    obtain buf h5 where b: "mp_pkcs1v15_encrypt (e_work V) myrand ks (e_public V) (e_modulus V) h4 r = Ret (Inr (rev (top_bytes c)), h5, r1)"
        "heap_holds h5 U (buf # de1 # dn1 # ps) R" using enc [unfolded if_not_P [OF False]] by blast
    have "heap_holds h5 U (de1 # dn1 # buf # ps) R" by (rule heap_holds_perm [OF b(2)]) simp
    then have "heap_holds (mp_clear dn1 (mp_clear de1 h5)) U (buf # ps) R" by (intro mp_clear_holds)
    then show ?thesis unfolding run if_not_P [OF False] b(1) by (intro exI [of _ buf] exI [of _ "mp_clear dn1 (mp_clear de1 h5)"]) simp
  qed
qed

lemma rsaDecrypt_runs:
  assumes key: "rsa_key e (e_private V) (e_modulus V)" and pad: "padding myrand ks r pad r1"
    and full: "\<not> ciphertext pad ks e (e_modulus V) < 256 ^ 127"
    and bytes: "bytes_at g 0 128 = rev (top_bytes (ciphertext pad ks e (e_modulus V)))"
    and work: "digit_work (e_work V) C" "e_private V < 256 ^ 128" and room: "heap_holds h U ps (256 + 4 * C + R)" "1 \<le> R"
  shows "\<exists>buf dp h'. rsaDecrypt V g out h = Ret (0, write_list ks out, h') \<and> heap_holds h' U (dp # buf # ps) R"
proof -
  have n: "e_modulus V < 256 ^ 128" using key by (simp add: rsa_key_def)
  obtain dn h1 dd h2 dn1 h3 dd1 h4 where s: "mp_init h = Ret (Inr 0, dn, h1)" "mp_init h1 = Ret (Inr 0, dd, h2)"
    "read_number V (e_modulus V) dn h2 = Ret (e_modulus V, dn1, h3)" "read_number V (e_private V) dd h3 = Ret (e_private V, dd1, h4)"
    "heap_holds h4 U (dd1 # dn1 # ps) (176 + 2 * C + R)"
    using numbers_ready [OF work(1) room n work(2)] .
  obtain buf dp h5 where b: "mp_pkcs1v15_decrypt (e_work V) (bytes_at g 0 128) (e_private V) (e_modulus V) h4 = Ret (Inr ks, h5)"
      "heap_holds h5 U (dp # buf # dd1 # dn1 # ps) R"
    using decrypt_run [OF key pad full work s(5) room(2)] unfolding bytes by blast
  have "heap_holds h5 U (dd1 # dn1 # dp # buf # ps) R" by (rule heap_holds_perm [OF b(2)]) simp
  then have "heap_holds (mp_clear dn1 (mp_clear dd1 h5)) U (dp # buf # ps) R" by (intro mp_clear_holds)
  moreover have "rsaDecrypt V g out h = Ret (0, write_list ks out, mp_clear dn1 (mp_clear dd1 h5))"
    unfolding rsaDecrypt_def using s(1-4) b(1) by simp
  ultimately show ?thesis by blast
qed

text \<open>The state between the second and the third call: the message under the session key, the key under RSA.\<close>

definition sealed :: "environment \<Rightarrow> u32 list \<Rightarrow> nat \<Rightarrow> buffer \<Rightarrow> nat \<Rightarrow> service \<Rightarrow> bool" where
  "sealed V ps R data n s \<longleftrightarrow> heap_holds (s_heap s) {} ps R \<and> s_nbytes s = of_nat n \<and> s_count s \<noteq> 0
     \<and> (\<exists>ks key pad r r1. length ks = 32 \<and> (\<forall>c\<in>set ks. hex_digit c) \<and> padding myrand ks r pad r1
          \<and> \<not> ciphertext pad ks (e_public V) (e_modulus V) < 256 ^ 127
          \<and> bytes_at (s_enckey s) 0 128 = rev (top_bytes (ciphertext pad ks (e_public V) (e_modulus V)))
          \<and> (\<forall>err str. key_string ks str \<longrightarrow> session_key err str = Inr key)
          \<and> (\<forall>dbuf buf old. \<exists>p. decfile (e_decrypt V key) dbuf buf (s_encrypted s) old (of_nat n) = Ret p
                \<and> (\<forall>i. p i = (if i < n then data i else old i))))"

text \<open>What the calls need of the guest, beside room in the heap.\<close>

definition good_keys :: "environment \<Rightarrow> nat \<Rightarrow> bool" where
  "good_keys V C \<longleftrightarrow> rsa_key (e_public V) (e_private V) (e_modulus V) \<and> e_public V < 256 ^ 128 \<and> e_private V < 256 ^ 128
     \<and> digit_work (e_work V) C"

lemma initFlashData_seals:
  assumes lib: "good_cipher V" and keys: "good_keys V C" and st: "e_stack V 32 = 0"
    and n: "string_end (s_data s) 0 = Some n" "1 \<le> n" "n < 50000" "round8 n \<le> 256 + 4 * C + R"
    and room: "heap_holds (s_heap s) {} ps (256 + 4 * C + R)" "1 \<le> R" and cnt: "s_count s \<noteq> 0"
    and rnd: "myrand 94 (s_rand s) = Ret (pad, r1)" "generateAESKey (s_mwc s) = Ret (ks, g)" "fillrand (e_seed V) 16 g = Ret (iv, g')"
    and c: "c = ciphertext pad ks (e_public V) (e_modulus V)"
  shows "if c < 256 ^ 127 then initFlashData V s = Undefined
    else \<exists>s' buf. initFlashData V s = Ret s' \<and> sealed V (buf # ps) R (s_data s) n s' \<and> s_deckey s' = s_deckey s"
proof -
  have rsa: "rsa_key (e_public V) (e_private V) (e_modulus V)" "digit_work (e_work V) C" "e_public V < 256 ^ 128"
    using keys by (simp_all add: good_keys_def)
  have hex: "length ks = 32" "\<forall>c\<in>set ks. hex_digit c" using generateAESKey_hex [OF rnd(2)] by simp_all
  let ?sk = "write_list ks (e_stack V)"
  have str: "key_string ks ?sk" using hex st by (simp add: key_string_def write_list_def)
  obtain key where key: "length key = 16" "\<And>err str. key_string ks str \<Longrightarrow> session_key err str = Inr key"
    using key_string_key [OF hex] by blast
  have "block_cipher (e_encrypt V key) (e_decrypt V key)" using lib key(1) by (simp add: good_cipher_def)
  from aesEncrypt_runs [OF key(2) [OF str] n(1-3) room(1) n(4) rnd(3) this] obtain e h' where
    e: "aesEncrypt V ?sk (s_data s) (s_encrypted s) (s_heap s) g = Ret (0, e, h', g')" "heap_holds h' {} ps (256 + 4 * C + R)"
      "\<forall>dbuf buf old. \<exists>p. decfile (e_decrypt V key) dbuf buf e old (of_nat n) = Ret p
          \<and> (\<forall>i. p i = (if i < n then s_data s i else old i))" by blast
  have pad: "padding myrand ks (s_rand s) pad r1" using myrand_padding [OF rnd(1)] hex(1) rnd(1) by (simp add: padding_def)
  note enc = rsaEncrypt_runs [OF rsa(1) str pad rsa(2,3) e(2) room(2) c, of "s_enckey s"]
  let ?s1 = "s\<lparr>s_nbytes := of_nat n, s_encrypted := e, s_heap := h', s_mwc := g', s_contract := copy_in (s_contract s) 0 e 0 n\<rparr>"
  have run: "initFlashData V s = and_then (rsaEncrypt V ?sk (s_enckey s) h' (s_rand s)) (\<lambda>(rsaErr, ek, h1, r).
      Ret (?s1\<lparr>s_enckey := ek, s_heap := h1, s_rand := r\<rparr>))"
    using n(1) e(1) by (simp add: initFlashData_def rnd(2) outcome_of_def Let_def)
  show ?thesis
  proof (cases "c < 256 ^ 127")
    case True
    then show ?thesis unfolding if_P [OF True] run using enc [unfolded if_P [OF True]] by (simp only: and_then.simps)
  next
    case False
    obtain buf h2 where b: "rsaEncrypt V ?sk (s_enckey s) h' (s_rand s) = Ret (0, write_list (rev (top_bytes c)) (s_enckey s), h2, r1)"
        "heap_holds h2 {} (buf # ps) R" using enc [unfolded if_not_P [OF False]] by blast
    let ?s = "?s1\<lparr>s_enckey := write_list (rev (top_bytes c)) (s_enckey s), s_heap := h2, s_rand := r1\<rparr>"
    have "initFlashData V s = Ret ?s" unfolding run b(1) by simp
    moreover have "sealed V (buf # ps) R (s_data s) n ?s"
    proof -
      have "length (rev (top_bytes c)) = 128" using cipher_length [OF rsa(1) False [unfolded c]] unfolding c .
      then have f: "s_heap ?s = h2" "s_nbytes ?s = of_nat n" "s_count ?s = s_count s" "s_encrypted ?s = e"
          "bytes_at (s_enckey ?s) 0 128 = rev (top_bytes c)"
        by (simp_all add: write_list_bytes)
      show ?thesis unfolding sealed_def f using b(2) e(3) cnt hex key(2) pad False c by blast
    qed
    moreover have "s_deckey ?s = s_deckey s" by simp
    ultimately show ?thesis unfolding if_not_P [OF False] by blast
  qed
qed

lemma getContract_opens:
  assumes s: "sealed V ps (256 + 4 * C + R) data n s" and keys: "good_keys V C"
    and n: "n < 50000" "round8 (n + 1) \<le> R" "1 \<le> R" and dk: "\<forall>i<128. s_deckey s i = 0"
  shows "\<exists>s' dp buf. getContract V s = Ret s' \<and> (\<forall>i<n. s_contract s' i = data i) \<and> (\<forall>i<128. s_deckey s' i = 0)
    \<and> heap_holds (s_heap s') {} (dp # buf # ps) R"
proof -
  have rsa: "rsa_key (e_public V) (e_private V) (e_modulus V)" "digit_work (e_work V) C" "e_private V < 256 ^ 128"
    using keys by (simp_all add: good_keys_def)
  obtain ks key pad r r1 where k: "length ks = 32" "\<forall>c\<in>set ks. hex_digit c" "padding myrand ks r pad r1"
      "\<not> ciphertext pad ks (e_public V) (e_modulus V) < 256 ^ 127"
      "bytes_at (s_enckey s) 0 128 = rev (top_bytes (ciphertext pad ks (e_public V) (e_modulus V)))"
      "\<forall>err str. key_string ks str \<longrightarrow> session_key err str = Inr key"
      "\<forall>dbuf buf old. \<exists>p. decfile (e_decrypt V key) dbuf buf (s_encrypted s) old (of_nat n) = Ret p \<and> (\<forall>i. p i = (if i < n then data i else old i))"
    using s unfolding sealed_def by blast
  obtain p where p: "decfile (e_decrypt V key) (e_stack V) (e_stack V) (s_encrypted s) (s_decrypted s) (of_nat n) = Ret p"
      "\<forall>i. p i = (if i < n then data i else s_decrypted s i)" using k(7) by blast
  let ?dk = "write_list ks (s_deckey s)"
  have "key_string ks ?dk" using k(1,2) dk by (simp add: key_string_def write_list_def)
  then have key: "session_key (- 2) ?dk = Inr key" using k(6) by blast
  have st: "heap_holds (s_heap s) {} ps (256 + 4 * C + R)" "s_nbytes s = of_nat n" using s unfolding sealed_def by blast+
  obtain buf dp h1 where dec: "rsaDecrypt V (s_enckey s) (s_deckey s) (s_heap s) = Ret (0, ?dk, h1)" "heap_holds h1 {} (dp # buf # ps) R"
    using rsaDecrypt_runs [OF rsa(1) k(3-5) rsa(2,3) st(1) n(3)] by blast
  obtain h' where h': "aesDecrypt V ?dk (s_encrypted s) (s_decrypted s) (of_nat n) h1 = Ret (0, p, h')" "heap_holds h' {} (dp # buf # ps) R"
    using aesDecrypt_runs [OF key n(1) dec(2) n(2) p(1)] by blast
  let ?s = "s\<lparr>s_deckey := write_list (replicate 128 0) ?dk, s_decrypted := p, s_heap := h', s_contract := copy_in (s_contract s) 0 p 0 n\<rparr>"
  have "getContract V s = Ret ?s"
    using h'(1) dec(1) st(2) n(1) by (simp add: getContract_def Let_def unat_addr)
  moreover have "\<forall>i<n. s_contract ?s i = data i" using p(2) by (simp add: copy_in_eq)
  moreover have "\<forall>i<128. s_deckey ?s i = 0" by (simp add: write_list_def)
  moreover have "heap_holds (s_heap ?s) {} (dp # buf # ps) R" using h'(2) by simp
  ultimately show ?thesis by blast
qed

text \<open>C35. The service gives its message back: when a guest starts it, lets it encrypt its data under a new session key, which RSA
encrypts, and asks for the contract, each call returns, the contract is the data and the session key is wiped; three regions of the heap
are lost: the buffers of RSA and the digits that decryption does not clear. This needs a zero on the stack behind the session key, random
numbers without overflow, room in the heap for the digits of RSA, of which the library's arithmetic needs at most \<open>C\<close> bytes at a time,
and an RSA ciphertext that is not shorter than the modulus: then a buffer is written out of bounds.\<close>

theorem service_round_trip:
  assumes "good_cipher V" "good_keys V C" "good_heap V" "e_stack V 32 = 0" "s_count s = 0" "\<forall>i<128. s_deckey s i = 0"
    "string_end (s_data s) 0 = Some n" "1 \<le> n" "n < 50000" "round8 (n + 1) + 2 * (256 + 4 * C) \<le> heap_bytes V"
    "myrand 94 (s_rand s) = Ret (pad, r1)" "generateAESKey (srand_mwc2 seed (s_mwc s)) = Ret (ks, g)"
    "fillrand (e_seed V) 16 g = Ret (iv, g')"
  shows "\<exists>s1. handler_rpc V 0 seed s = Ret s1 \<and>
    (if ciphertext pad ks (e_public V) (e_modulus V) < 256 ^ 127 then handler_rpc V 1 p s1 = Undefined
     else \<exists>s2 s3 buf1 buf2 dp. handler_rpc V 1 p s1 = Ret s2 \<and> handler_rpc V 3 q s2 = Ret s3
       \<and> (\<forall>i<n. s_contract s3 i = s_data s i) \<and> (\<forall>i<128. s_deckey s3 i = 0)
       \<and> heap_holds (s_heap s3) {} [dp, buf2, buf1] (heap_bytes V - 2 * (256 + 4 * C)))"
proof -
  define R where "R = heap_bytes V - 2 * (256 + 4 * C)"
  define c where "c = ciphertext pad ks (e_public V) (e_modulus V)"
  let ?s1 = "(service_main V seed s)\<lparr>s_count := 1\<rparr>"
  have 0: "handler_rpc V 0 seed s = Ret ?s1" using assms(5) by (simp add: handler_rpc_def)
  have 1: "handler_rpc V 1 p ?s1 = initFlashData V ?s1" by (simp add: handler_rpc_def)
  have f: "s_data ?s1 = s_data s" "s_deckey ?s1 = s_deckey s" "s_rand ?s1 = s_rand s" "s_mwc ?s1 = srand_mwc2 seed (s_mwc s)" "s_count ?s1 \<noteq> 0"
    by (simp_all add: service_main_def)
  have N: "round8 n \<le> round8 (n + 1)" "8 \<le> round8 (n + 1)" "round8 (n + 1) \<le> R" "heap_bytes V = 256 + 4 * C + (256 + 4 * C + R)"
    unfolding round8_def R_def using assms(8,10) by (simp_all add: round8_def)
  have "heap_inv (s_heap ?s1) [(heap_bytes V, False)]" using init_heap_inv [OF assms(3)] by (simp add: service_main_def)
  then have room: "heap_holds (s_heap ?s1) {} [] (256 + 4 * C + (256 + 4 * C + R))" by (rule empty_heap_holds) (simp add: N(4))
  have small: "round8 n \<le> 256 + 4 * C + (256 + 4 * C + R)" "1 \<le> 256 + 4 * C + R" "1 \<le> R" using N(1-3) by linarith+
  have seal: "if c < 256 ^ 127 then initFlashData V ?s1 = Undefined
      else \<exists>s' buf. initFlashData V ?s1 = Ret s' \<and> sealed V [buf] (256 + 4 * C + R) (s_data s) n s' \<and> s_deckey s' = s_deckey s"
    using initFlashData_seals [OF assms(1,2,4) assms(7) [folded f(1)] assms(8,9) small(1) room small(2) f(5) assms(11) [folded f(3)]
      assms(12) [folded f(4)] assms(13) c_def] unfolding f(1,2) .
  show ?thesis
  proof (cases "c < 256 ^ 127")
    case True
    then show ?thesis using 0 1 seal unfolding c_def [symmetric] if_P [OF True] by auto
  next
    case False
    obtain s2 buf1 where s2: "initFlashData V ?s1 = Ret s2" "sealed V [buf1] (256 + 4 * C + R) (s_data s) n s2" "s_deckey s2 = s_deckey s"
      using seal unfolding if_not_P [OF False] by blast
    then have cnt: "s_count s2 \<noteq> 0" by (simp add: sealed_def)
    obtain s3 dp buf2 where s3: "getContract V s2 = Ret s3" "\<forall>i<n. s_contract s3 i = s_data s i" "\<forall>i<128. s_deckey s3 i = 0"
        "heap_holds (s_heap s3) {} [dp, buf2, buf1] R"
      using getContract_opens [OF s2(2) assms(2,9) N(3) small(3)] assms(6) s2(3) by auto
    have "handler_rpc V 3 q s2 = Ret s3" using s3(1) cnt by (simp add: handler_rpc_def)
    then show ?thesis using 0 1 s2(1) s3(2-4) unfolding c_def [symmetric] if_not_P [OF False] R_def [symmetric] by metis
  qed
qed

text \<open>Seeded with zero, the generator returns only zeros.\<close>

definition quiet :: "mwc \<Rightarrow> bool" where
  "quiet s \<longleftrightarrow> \<not> mStart s \<and> mpos s \<le> 9 \<and> windows s = (replicate 9 0, replicate 9 0)"

lemma quiet_srand: "quiet (srand_mwc2 0 s)"
proof -
  have "seed_loop n 0 0 = replicate n 0" for n by (induction n) simp_all
  then show ?thesis using srand_windows [of 0 s] by (simp add: quiet_def)
qed

lemma quiet_rand: "quiet s \<Longrightarrow> \<exists>t. rand_mwc s = Ret (0, t) \<and> quiet t"
proof -
  assume s: "quiet s"
  have "mother_number cs (replicate 9 0) = 0" for cs
    by (auto simp: mother_number_def sum_list_eq_0_iff dest: set_zip_rightD)
  moreover have "0 # 0 # take 7 (tl (replicate 9 0)) = replicate 9 (0 :: u16)" by (simp add: numeral_eq_Suc)
  ultimately have "mother_shift cs (replicate 9 0) = Ret (replicate 9 0)" for cs by (simp add: mother_shift_def)
  then have "mother_next (replicate 9 0, replicate 9 0) = Ret (0, replicate 9 0, replicate 9 0)"
    by (simp add: mother_next_def)
  then show ?thesis using rand_mwc_shift [of s] s unfolding quiet_def by auto
qed

lemma quiet_key: "quiet s \<Longrightarrow> \<exists>t. key_digits n s = Ret (replicate n 48, t) \<and> quiet t"
proof (induction n arbitrary: s)
  case (Suc n)
  obtain t where t: "rand_mwc s = Ret (0, t)" "quiet t" using quiet_rand [OF Suc.prems] by blast
  then show ?case using Suc.IH [OF t(2)] by auto
qed simp

lemma quiet_bytes: "quiet s \<Longrightarrow> \<exists>t. rand_bytes n s = Ret (replicate n 0, t) \<and> quiet t"
proof (induction n arbitrary: s)
  case (Suc n)
  obtain t where t: "rand_mwc s = Ret (0, t)" "quiet t" using quiet_rand [OF Suc.prems] by blast
  then show ?case using Suc.IH [OF t(2)] by auto
qed simp

definition demo_environment :: "buffer \<Rightarrow> environment" where
  "demo_environment stack =
     \<lparr>e_encrypt = (\<lambda>k. demo_cipher), e_decrypt = (\<lambda>k. demo_cipher), e_modulus = 256 ^ 128 - 1, e_public = 1, e_private = 1,
      e_work = demo_work, e_stack = stack, e_seed = 0, e_heap_start = 0x1000, e_heap_end = 0x3000\<rparr>"

definition demo_service :: "u32 \<Rightarrow> heap_ctxt \<Rightarrow> mwc \<Rightarrow> service" where
  "demo_service c h g =
     \<lparr>s_count = c, s_nbytes = 0, s_encrypted = (\<lambda>i. 9), s_decrypted = (\<lambda>i. 0), s_contract = (\<lambda>i. 0),
      s_data = (\<lambda>i. if i < 20 then 65 + of_nat i else 0), s_enckey = (\<lambda>i. 0), s_deckey = (\<lambda>i. 0), s_heap = h, s_mwc = g,
      s_rand = \<lparr>z1 = 2, z2 = 0, z3 = 0, z4 = 0\<rparr>\<rparr>"

lemma demo_environment_good:
  "good_cipher (demo_environment b)" "good_heap (demo_environment b)" "heap_bytes (demo_environment b) = 8176"
  "good_keys (demo_environment b) 264"
  by (simp_all add: good_cipher_def good_heap_def heap_bytes_def good_keys_def demo_environment_def demo_cipher demo_work rsa_key_def)

lemma myrand_Suc: "rand r = (v, r1) \<Longrightarrow> v mod 255 \<noteq> 0 \<Longrightarrow> (\<exists>x. myrand n r1 = Ret x) \<Longrightarrow> \<exists>x. myrand (Suc n) r = Ret x"
  by (subst myrand.simps, subst nonzero_rand.simps) (auto simp: outcome_of_def)

text \<open>With three of the four registers zero, one step of the generator.\<close>

lemma myrand_one:
  assumes "v = push_bit 18 (z AND 4294967294) XOR drop_bit 13 (push_bit 6 z XOR z)" "v mod 255 \<noteq> 0"
    "\<exists>x. myrand n \<lparr>z1 = v, z2 = 0, z3 = 0, z4 = 0\<rparr> = Ret x"
  shows "\<exists>x. myrand (Suc n) \<lparr>z1 = z, z2 = 0, z3 = 0, z4 = 0\<rparr> = Ret x"
  by (rule myrand_Suc [OF _ assms(2,3)]) (simp add: rand_def Let_def assms(1))

lemma demo_padding: "\<exists>x. myrand 94 \<lparr>z1 = 2, z2 = 0, z3 = 0, z4 = 0\<rparr> = Ret x"
  unfolding numeral_eq_Suc pred_numeral_simps BitM.simps by (rule myrand_one, simp, simp)+ simp

lemma demo_string: "string_end (s_data (demo_service c h g)) 0 = Some 20"
proof (rule string_end_eq)
  have "s_data (demo_service c h g) j \<noteq> 0" if "j < 20" for j
  proof
    assume "s_data (demo_service c h g) j = 0"
    then have z: "(of_nat (65 + j) :: u8) = 0" using that by (simp add: demo_service_def)
    show False using unat_u8 [of "65 + j", unfolded z] that by simp
  qed
  then show "\<forall>j. 0 \<le> j \<and> j < 20 \<longrightarrow> s_data (demo_service c h g) j \<noteq> 0" by blast
qed (simp_all add: demo_service_def)

theorem service_round_trip_witness:
  "\<forall>h g. \<exists>s1 s2 s3 buf1 buf2 dp. handler_rpc (demo_environment (\<lambda>i. 0)) 0 0 (demo_service 0 h g) = Ret s1
    \<and> handler_rpc (demo_environment (\<lambda>i. 0)) 1 0 s1 = Ret s2 \<and> handler_rpc (demo_environment (\<lambda>i. 0)) 3 0 s2 = Ret s3
    \<and> s_contract s3 0 = 65 \<and> s_contract s3 1 = 66 \<and> heap_holds (s_heap s3) {} [dp, buf2, buf1] 5552"
proof (intro allI)
  fix h g
  let ?V = "demo_environment (\<lambda>i. 0)" and ?s = "demo_service 0 h g" and ?ks = "replicate 32 (48 :: u8)"
  have s: "e_stack ?V 32 = 0" "s_count ?s = 0" "\<forall>i<128. s_deckey ?s i = 0" "s_data ?s 0 = 65" "s_data ?s 1 = 66"
    by (simp_all add: demo_environment_def demo_service_def)
  have n: "1 \<le> (20 :: nat)" "(20 :: nat) < 50000" "round8 (20 + 1) + 2 * (256 + 4 * 264) \<le> heap_bytes ?V"
    by (simp_all add: round8_def demo_environment_good)
  obtain pad r1 where r: "myrand 94 (s_rand ?s) = Ret (pad, r1)" using demo_padding by (auto simp: demo_service_def)
  obtain t where t: "generateAESKey (srand_mwc2 0 (s_mwc ?s)) = Ret (?ks, t)"
    using quiet_key [OF quiet_srand] unfolding generateAESKey_def by blast
  obtain t' where t': "fillrand (e_seed ?V) 16 t = Ret (replicate 16 0, t')"
    using quiet_bytes [OF quiet_srand [of t], of 16] by (auto simp: fillrand_def demo_environment_def)
  have key: "rsa_key (e_public ?V) (e_private ?V) (e_modulus ?V)" using demo_environment_good(4) by (simp add: good_keys_def)
  have "padding myrand ?ks (s_rand ?s) pad r1" using r myrand_padding [OF r] by (simp add: padding_def)
  from padded_value(2,3) [OF this key] have "\<not> ciphertext pad ?ks (e_public ?V) (e_modulus ?V) < 256 ^ 127"
    unfolding ciphertext_def not_less by (simp add: demo_environment_def)
  from service_round_trip [OF demo_environment_good(1,4,2) s(1-3) demo_string n r t t', of 0 0, unfolded if_not_P [OF this]]
  obtain s1 s2 s3 buf1 buf2 dp where c: "handler_rpc ?V 0 0 ?s = Ret s1" "handler_rpc ?V 1 0 s1 = Ret s2" "handler_rpc ?V 3 0 s2 = Ret s3"
    "\<forall>i<20. s_contract s3 i = s_data ?s i" "heap_holds (s_heap s3) {} [dp, buf2, buf1] (8176 - 2 * (256 + 4 * 264))"
    by (auto simp: demo_environment_good)
  have "s_contract s3 0 = 65" "s_contract s3 1 = 66" using c(4) s(4,5) by (metis zero_less_numeral, metis one_less_numeral_iff semiring_norm(76))
  moreover have "heap_holds (s_heap s3) {} [dp, buf2, buf1] 5552" using c(5) by simp
  ultimately show "\<exists>s1 s2 s3 buf1 buf2 dp. handler_rpc ?V 0 0 ?s = Ret s1 \<and> handler_rpc ?V 1 0 s1 = Ret s2 \<and> handler_rpc ?V 3 0 s2 = Ret s3
    \<and> s_contract s3 0 = 65 \<and> s_contract s3 1 = 66 \<and> heap_holds (s_heap s3) {} [dp, buf2, buf1] 5552" using c(1-3) by blast
qed

text \<open>C38. The local array of the session key has no room for the zero that ends a string: when the byte behind it is neither zero
nor a digit, the encryption fails, the key under RSA and the encrypted message stay as they were, the old encrypted bytes become the contract,
and the memory allocated for the message is never freed.\<close>

theorem service_key_overrun:
  assumes "e_stack V 32 \<noteq> 0" "\<not> hex_digit (e_stack V 32)" "s_count s \<noteq> 0" "string_end (s_data s) 0 = Some n" "1 \<le> n" "n < 50000"
    "heap_inv (s_heap s) ([] @ [(N, False)])" "round8 n \<le> N" "generateAESKey (s_mwc s) = Ret (ks, g)"
  shows "\<exists>s'. handler_rpc V 1 p s = Ret s' \<and> s_enckey s' = s_enckey s \<and> s_encrypted s' = s_encrypted s
    \<and> (\<forall>i<n. s_contract s' i = s_encrypted s i) \<and> heap_inv (s_heap s') (alloc_blocks (round8 n) N)"
proof -
  note ks = assms(9)
  have hex: "length ks = 32" "\<forall>c\<in>set ks. hex_digit c" using generateAESKey_hex [OF ks] by simp_all
  let ?sk = "write_list ks (e_stack V)"
  have "\<forall>j<32. hex_digit (?sk j)" "?sk 32 \<noteq> 0" "\<not> hex_digit (?sk 32)" using hex assms(1,2) by (simp_all add: write_list_def)
  then have key: "session_key (- 1) ?sk = Inl (- 1)" by (simp add: session_key_def parse_key_overrun)
  have m: "n + 7 < 2 ^ 31" using assms(6) by simp
  obtain q h' where a: "heap_alloc (of_nat n) (s_heap s) = Ret (q, h')" "q \<noteq> 0" "heap_inv h' (alloc_blocks (round8 n) N)"
    using end_block_alloc [OF assms(7) _ assms(5) m assms(8)] by auto
  let ?s = "s\<lparr>s_nbytes := of_nat n, s_heap := h', s_mwc := g, s_contract := copy_in (s_contract s) 0 (s_encrypted s) 0 n\<rparr>"
  have "handler_rpc V 1 p s = Ret ?s"
    using assms(3,4) a(1,2) key by (simp add: handler_rpc_def initFlashData_def ks aesEncrypt_def outcome_of_def Let_def)
  then show ?thesis using a(3) by (intro exI [of _ ?s]) (simp add: copy_in_eq)
qed

theorem service_key_overrun_witness:
  "\<forall>h g. \<exists>s'. handler_rpc (demo_environment (\<lambda>i. 255)) 1 0
        (demo_service 1 (init_heap (demo_environment (\<lambda>i. 255)) h) (srand_mwc2 0 g)) = Ret s'
    \<and> s_contract s' 0 = 9 \<and> heap_inv (s_heap s') [(24, True), (8144, False)]"
proof (intro allI)
  fix h g
  let ?V = "demo_environment (\<lambda>i. 255)"
  let ?s = "demo_service 1 (init_heap ?V h) (srand_mwc2 0 g)"
  have V: "e_stack ?V 32 \<noteq> 0" "\<not> hex_digit (e_stack ?V 32)" "s_count ?s \<noteq> 0"
    by (simp_all add: demo_environment_def demo_service_def hex_digit_def key_nibble_def toupper_def)
  have inv: "heap_inv (s_heap ?s) ([] @ [(8176, False)])"
    using init_heap_inv [OF demo_environment_good(2)] by (simp add: demo_service_def demo_environment_good)
  have n: "1 \<le> (20 :: nat)" "(20 :: nat) < 50000" "round8 20 \<le> 8176" by (simp_all add: round8_def)
  obtain t where t: "generateAESKey (s_mwc ?s) = Ret (replicate 32 48, t)"
    using quiet_key [OF quiet_srand] unfolding generateAESKey_def by (auto simp: demo_service_def)
  show "\<exists>s'. handler_rpc ?V 1 0 ?s = Ret s' \<and> s_contract s' 0 = 9 \<and> heap_inv (s_heap s') [(24, True), (8144, False)]"
    using service_key_overrun [OF V demo_string n(1,2) inv n(3) t, of 0]
    by (auto simp: alloc_blocks_def round8_def demo_service_def)
qed

end
