(* ===== verification/Spec2Isabelle.thy ===== *)
theory Spec2Isabelle
  imports DmmuSystem L2Pool SetPte HeapSpec Lists Pools BuddySpec UcSpec Bcm2836 MregAttach TrustedSpec ServiceSpec
begin

text \<open>
  A verification development for the STH hypervisor on ARMv7 (the port to the Raspberry Pi 2): a small hypervisor that runs one
  para-virtualised guest, Linux or a test guest, in user mode, keeps the guest's page tables under its control (direct memory
  management) and multiplexes virtual guest modes (kernel, task, trusted, interrupt) on ARM domains.

  \<^bold>\<open>The program and the theories.\<close> Paths are under \<^verbatim>\<open>src/\<close>. Definitions carry the names of the C code;
  each theory opens with the conventions of its part.

  \<^item> \<open>Prelude\<close>: machine words of 32 bits, bit fields, \<open>for\<close> loops, error codes, the collections \<open>word_bits\<close>, \<open>frame\<close>.
  \<^item> \<open>Descriptors\<close>, \<open>Config\<close>: page-table descriptors and their macros (\<^verbatim>\<open>core/hypervisor/dmmu.h\<close>, \<^verbatim>\<open>mmu.h\<close>),
    the configurations of the guests (\<^verbatim>\<open>guest_config/\<close>) and the address translation of \<^verbatim>\<open>translate.c\<close>.
  \<^item> \<open>Dmmu\<close>: \<^verbatim>\<open>core/hypervisor/dmmu.c\<close>. The state \<open>hv\<close> holds the block flag table (type and reference count of each
    4 KiB block), physical memory by words, the master table and the CP15 registers. Every request returns an error code
    and a state, as in the code.
  \<^item> \<open>Tables\<close>, \<open>PtInv\<close>, \<open>DmmuRefs\<close>, \<open>DmmuInv\<close>: the references of tables, the invariant \<open>dmmu_inv\<close> (types, reference counts and
    contents of the tables agree) and its preservation by every request.
  \<^item> \<open>DmmuSystem\<close>: guest and dispatcher as a step relation; isolation, round trips, errors and their exact conditions.
  \<^item> \<open>Machine\<close>: the whole state \<open>sys\<close> (memory management, the virtual machine and its contexts of \<^verbatim>\<open>hyper.h\<close>, maintenance
    operations issued) and \<open>outcome\<close>: a result, a panic (\<^verbatim>\<open>hyper_panic\<close>), a loop that does not end, or behaviour C leaves
    undefined. \<open>platform\<close> holds what is not in the repository's C code: the translation of the MMU, the cache registers,
    the contents of uninitialised variables.
  \<^item> \<open>CacheOps\<close>: \<^verbatim>\<open>cpu_mem.c\<close>, \<^verbatim>\<open>cache.c\<close>, \<^verbatim>\<open>hyp_cache.c\<close>. A maintenance operation appends to a log.
  \<^item> \<open>LinuxMmu\<close>, \<open>SetPte\<close>: the page-table hypercalls of Linux (\<^verbatim>\<open>hyp_dmmu.c\<close>) and \<^verbatim>\<open>linux_init.c\<close>; what setting an entry breaks.
  \<^item> \<open>Hypercalls\<close>, \<open>Handlers\<close>: modes, remote procedure calls, interrupts (\<^verbatim>\<open>hypercalls/\<close>) and the exception handlers
    (\<^verbatim>\<open>handlers.c\<close>), whole, with the dispatch of the system call handler.
  \<^item> \<open>HyperInv\<close>, \<open>HyperSystem\<close>: the control invariant \<open>ctl_ok\<close>, its preservation by the handlers, guest and handlers as a step
    relation, round trips of system calls and remote procedure calls.
  \<^item> \<open>PtBuild\<close>, \<open>Init\<close>, \<open>L2Pool\<close>: the master tables (\<^verbatim>\<open>arm_mmu_pt.c\<close>, \<^verbatim>\<open>mem.c\<close>, \<^verbatim>\<open>board_mem.c\<close>), the boot sequence
    (\<^verbatim>\<open>init.c\<close>) and the two pools of second-level tables.
  \<^item> \<open>Heap\<close>, \<open>HeapSpec\<close>: the heap of the hypervisor (\<^verbatim>\<open>library/mem/src/heap.c\<close>, \<^verbatim>\<open>hw_core_mem.c\<close>) over raw memory, refined to
    a list of blocks; the contract \<open>allocator\<close> and its interpretation on \<open>malloc\<close> and \<open>free\<close>.
  \<^item> \<open>Lists\<close>, \<open>Pools\<close>: \<^verbatim>\<open>library/util\<close>: linked lists, object pools, object caches, object lists and bit sets; the contract
    \<open>stack\<close> and its interpretations.
  \<^item> \<open>Buddy\<close>, \<open>BuddyInv\<close>, \<open>BuddyOps\<close>, \<open>BuddySpec\<close>: the buddy allocator (\<^verbatim>\<open>library/mem/src/buddy.c\<close>) over an array in that heap,
    refined to a set of used blocks that with the free ones tile the memory; the contract \<open>block_store\<close>.
  \<^item> \<open>Mreg\<close>, \<open>MregSpec\<close>, \<open>MregAttach\<close>: the region allocator (\<^verbatim>\<open>library/mem/src/mreg.c\<close>), chunks of megabytes on a list
    and buddy allocators for pages, over the heap, the lists and the buddy allocator; its chunks as a set of free bytes.
  \<^item> \<open>UcLib\<close>, \<open>UcSpec\<close>: strings and formatted output (\<^verbatim>\<open>library/uc\<close>) over byte memory; formats as lists of parts.
  \<^item> \<open>Bcm2836\<close>: the drivers of the Raspberry Pi 2 (\<^verbatim>\<open>core/hw/soc/bcm2836\<close>) as sequences of events at their devices.
  \<^item> \<open>Trusted\<close>, \<open>TrustedSpec\<close>, \<open>Cbc\<close>: the trusted guest (\<^verbatim>\<open>guests/trusted/src\<close>): its helpers, random numbers and the
    encryption of messages with a block cipher, which is a parameter.
  \<^item> \<open>Mprsa\<close>, \<open>MprsaSpec\<close>: its RSA (\<^verbatim>\<open>mpi/mprsa.c\<close>) with the modular power and the conversions of \<^verbatim>\<open>mpi/mpi.c\<close>, on numbers.
    The digits of the numbers are in the guest's heap (\<^verbatim>\<open>mem.c\<close>): \<^verbatim>\<open>mp_init\<close> and \<^verbatim>\<open>mp_clear\<close> are modelled with their memory; what
    the digit arithmetic does to the heap is a parameter \<open>W\<close>, and \<open>digit_work W C\<close> says that it succeeds with room for \<open>C\<close> bytes,
    leaves the digits somewhere and all other regions as they were.
  \<^item> \<open>HeapRoom\<close>: the predicate \<open>heap_holds\<close>: which regions of a heap are in use and how large a free block is at least; what allocating,
    clearing and freeing do to it.
  \<^item> \<open>Service\<close>, \<open>ServiceSpec\<close>: its service behind remote procedure calls, on the same heap; the three calls together.

  \<^bold>\<open>What the lemmas show.\<close> For memory management: a reference-counting invariant under every permitted request, isolation of
  page tables as a consequence, the exact effect of the requests, and what breaks isolation: the request that unmaps a second-level
  entry does not bound its index, nor does the one that maps one (\<open>permitted\<close> leaves out the indices that matter, and a free request
  whose uninitialised variable holds another block), and the set-PTE hypercall of Linux stores without a check. For the rest of the hypervisor:
  the guest always runs in user mode with the domains of its mode, also from boot; the sections that boot maps for the hypervisor
  and the trusted mode stay out of reach of the other modes; system calls and remote procedure calls come
  back to where they came from; cache maintenance ends and covers its area under exact conditions. For the library: the heap
  refines best-fit allocation and merging, regions never overlap, the containers refine lists, the buddy allocator hands out an
  aligned block whenever one is unused and gets every block back in any order, the region allocator is best fit, joins the chunks that touch and frees what is attached
  to it (when that holds a whole megabyte: otherwise it frees memory nobody attached), what is printed reads back. For the trusted guest: decryption
  inverts encryption for every length, the modular power with Barrett's reduction is exact, RSA is inverted unless its ciphertext is
  short, and the service gives back the message it sealed under those conditions, if the stack behind its key happens to be zero and
  its heap has room; each time it loses three regions of the heap.

  \<^bold>\<open>Loops and bounds.\<close> Loops that may not end are \<open>partial_function (option)\<close> or \<open>while_option\<close>; not ending is the outcome
  \<open>Hang\<close>, so no fuel is used, and that a loop ends is always proved. Words wrap as on the machine; where C makes overflow
  undefined (\<open>int\<close>) the model has the outcome \<open>Undefined\<close>.

  \<^bold>\<open>Not modelled.\<close> Debug output; assembly (its effect is part of the state); cache and TLB contents (maintenance is logged);
  the other guests, which are tests; in the trusted one AES, SHA-2 and the digit arithmetic of the large integers, third-party libraries
  (a parameter, the hash apart), and \<^verbatim>\<open>verifyContract\<close>, which nothing calls; the simulator; boards and devices other than those named above;
  \<^verbatim>\<open>init_slave.c\<close>, which does not compile, and \<^verbatim>\<open>hyp_mmu.c\<close>, which no handler calls.
\<close>

end
